(* ===== verification/Prelude.thy ===== *)
theory Prelude
  imports Main "HOL-Library.Word"
begin

unbundle bit_operations_syntax

text \<open>
  Shared vocabulary of the development: machine words, byte lists and their
  little-endian encodings, array slices, and the outcome monad in which the kernel's C
  functions are written.

  A kernel function of the model is a function from a state to an \<open>outcome\<close>.
  \<open>Done a s\<close>: the call returned \<open>a\<close> in state \<open>s\<close>.
  \<open>Panic msg\<close>: the call reached \<open>panic(msg)\<close>, which never returns (console.c).
  \<open>Sleep s\<close>: the call gave up the processor inside \<open>sleep\<close> (proc.c); the state is the one
  handed to the scheduler.
  \<open>Spin s\<close>: the call is spinning on a spin lock that another processor holds.
  \<open>Diverge\<close>: a loop ran for longer than the bound the model gives it.
\<close>

section \<open>Machine integers and bytes\<close>

type_synonym byte = "8 word"
type_synonym u16 = "16 word"
type_synonym u32 = "32 word"
type_synonym bytes = "byte list"

named_theorems outcome_simps \<open>evaluation of the outcome monad\<close>
named_theorems frame_simps \<open>what an operation leaves alone\<close>

text \<open>Little-endian layout of 16 and 32 bit integers, as an x86 stores them.\<close>

definition le16 :: "u16 \<Rightarrow> bytes" where
  "le16 w = [ucast w, ucast (drop_bit 8 w)]"

definition le32 :: "u32 \<Rightarrow> bytes" where
  "le32 w = [ucast w, ucast (drop_bit 8 w), ucast (drop_bit 16 w), ucast (drop_bit 24 w)]"

definition de16 :: "bytes \<Rightarrow> u16" where
  "de16 bs = (case bs of
      a # b # _ \<Rightarrow> ucast a OR push_bit 8 (ucast b)
    | _ \<Rightarrow> 0)"

definition de32 :: "bytes \<Rightarrow> u32" where
  "de32 bs = (case bs of
      a # b # c # d # _ \<Rightarrow>
        ucast a OR push_bit 8 (ucast b) OR push_bit 16 (ucast c) OR push_bit 24 (ucast d)
    | _ \<Rightarrow> 0)"

lemma length_le16 [simp]: "length (le16 w) = 2"
  by (simp add: le16_def)

lemma length_le32 [simp]: "length (le32 w) = 4"
  by (simp add: le32_def)

lemma de16_le16_append [simp]: "de16 (le16 w @ bs) = w"
  unfolding le16_def de16_def
  by (rule bit_word_eqI) (auto simp: bit_simps)

lemma de32_le32_append [simp]: "de32 (le32 w @ bs) = w"
proof -
  have "bit w n \<Longrightarrow> \<not> bit w (24 + (n - 24)) \<Longrightarrow> n - 16 < 8" for n
    by (cases "n < 24") auto
  then show ?thesis
    unfolding le32_def de32_def
    by (intro bit_word_eqI) (auto simp: bit_simps)
qed

lemma de16_le16 [simp]: "de16 (le16 w) = w"
  using de16_le16_append [of w "[]"] by simp

lemma de32_le32 [simp]: "de32 (le32 w) = w"
  using de32_le32_append [of w "[]"] by simp

lemma le32_inject [simp]: "le32 v = le32 w \<longleftrightarrow> v = w"
  by (metis de32_le32)

lemma length_eq_4: "length bs = 4 \<longleftrightarrow> (\<exists>a b c d. bs = [a, b, c, d])"
  by (auto simp: numeral_eq_Suc length_Suc_conv)

lemma byte_bit_bound: "bit (b :: byte) n \<Longrightarrow> n < 8"
  using bit_imp_le_length [of b n] by simp

lemma le32_de32:
  assumes "length bs = 4"
  shows "le32 (de32 bs) = bs"
proof -
  obtain a b c d where bs: "bs = [a, b, c, d]"
    using assms by (auto simp: length_eq_4)
  have "\<not> bit x (8 + n)" "\<not> bit x (16 + n)" "\<not> bit x (24 + n)" for x :: byte and n
    using byte_bit_bound [of x] by fastforce+
  then show ?thesis
    unfolding bs le32_def de32_def
    by (auto intro!: bit_word_eqI simp: bit_simps)
qed

text \<open>The modes of \<open>open\<close> (\<open>fcntl.h\<close>), common to the kernel and to user programs.\<close>

definition O_RDONLY :: u32 where "O_RDONLY = 0"
definition O_WRONLY :: u32 where "O_WRONLY = 1"
definition O_RDWR :: u32 where "O_RDWR = 2"
definition O_CREATE :: u32 where "O_CREATE = 0x200"

section \<open>Arrays\<close>

text \<open>Reading and overwriting \<open>n\<close> bytes at an offset of a byte array.\<close>

definition slice :: "nat \<Rightarrow> nat \<Rightarrow> 'a list \<Rightarrow> 'a list" where
  "slice off n xs = take n (drop off xs)"

definition splice :: "nat \<Rightarrow> 'a list \<Rightarrow> 'a list \<Rightarrow> 'a list" where
  "splice off ys xs = take off xs @ ys @ drop (off + length ys) xs"

lemma length_slice [simp]: "off + n \<le> length xs \<Longrightarrow> length (slice off n xs) = n"
  by (simp add: slice_def)

lemma length_splice [simp]: "off + length ys \<le> length xs \<Longrightarrow> length (splice off ys xs) = length xs"
  by (simp add: splice_def)

lemma slice_splice_same [simp]:
  "off + length ys \<le> length xs \<Longrightarrow> n = length ys \<Longrightarrow> slice off n (splice off ys xs) = ys"
  by (simp add: slice_def splice_def)

lemma nth_slice: "off + n \<le> length xs \<Longrightarrow> i < n \<Longrightarrow> slice off n xs ! i = xs ! (off + i)"
  by (simp add: slice_def)

lemma nth_splice:
  assumes "off + length ys \<le> length xs" "i < length xs"
  shows "splice off ys xs ! i =
    (if off \<le> i \<and> i < off + length ys then ys ! (i - off) else xs ! i)"
  using assms by (auto simp: splice_def nth_append min_def not_less)

lemma slice_splice_other:
  assumes "off' + n \<le> off \<or> off + length ys \<le> off'"
    and "off + length ys \<le> length xs" "off' + n \<le> length xs"
  shows "slice off' n (splice off ys xs) = slice off' n xs"
proof (rule nth_equalityI)
  show "length (slice off' n (splice off ys xs)) = length (slice off' n xs)"
    using assms by simp
next
  fix i assume "i < length (slice off' n (splice off ys xs))"
  then have "i < n" using assms by simp
  then show "slice off' n (splice off ys xs) ! i = slice off' n xs ! i"
    using assms by (auto simp: nth_slice nth_splice)
qed

lemma slice_all [simp]: "slice 0 (length xs) xs = xs"
  by (simp add: slice_def)

lemma splice_all [simp]: "length ys = length xs \<Longrightarrow> splice 0 ys xs = ys"
  by (simp add: splice_def)

lemma splice_slice [simp]: "off + n \<le> length xs \<Longrightarrow> splice off (slice off n xs) xs = xs"
  by (rule nth_equalityI) (auto simp: nth_splice nth_slice)

lemma slice_replicate [simp]: "off + n \<le> m \<Longrightarrow> slice off n (replicate m x) = replicate n x"
  by (simp add: slice_def)

section \<open>Outcomes of kernel functions\<close>

datatype ('a, 's) outcome =
    Done 'a 's
  | Panic string
  | Sleep 's
  | Spin 's
  | Diverge

type_synonym ('a, 's) kop = "'s \<Rightarrow> ('a, 's) outcome"

definition ret :: "'a \<Rightarrow> ('a, 's) kop" where
  "ret a s = Done a s"

definition bind :: "('a, 's) kop \<Rightarrow> ('a \<Rightarrow> ('b, 's) kop) \<Rightarrow> ('b, 's) kop" where
  "bind m f s = (case m s of
      Done a t \<Rightarrow> f a t
    | Panic e \<Rightarrow> Panic e
    | Sleep t \<Rightarrow> Sleep t
    | Spin t \<Rightarrow> Spin t
    | Diverge \<Rightarrow> Diverge)"

text \<open>\<open>seqk m n\<close> is the C statement sequence \<open>m; n\<close>.\<close>

definition seqk :: "('a, 's) kop \<Rightarrow> ('b, 's) kop \<Rightarrow> ('b, 's) kop" where
  "seqk m n = bind m (\<lambda>_. n)"

definition panic :: "string \<Rightarrow> ('a, 's) kop" where
  "panic msg s = Panic msg"

definition gets :: "('s \<Rightarrow> 'a) \<Rightarrow> ('a, 's) kop" where
  "gets f s = Done (f s) s"

definition modify :: "('s \<Rightarrow> 's) \<Rightarrow> (unit, 's) kop" where
  "modify f s = Done () (f s)"

definition whenk :: "bool \<Rightarrow> (unit, 's) kop \<Rightarrow> (unit, 's) kop" where
  "whenk b m = (if b then m else ret ())"

text \<open>
  A \<open>for\<close> loop over the listed indices; an access outside the bounds of an array, which C leaves
  undefined, is an outcome of its own.
\<close>

primrec foreach :: "'i list \<Rightarrow> ('i \<Rightarrow> (unit, 's) kop) \<Rightarrow> (unit, 's) kop" where
  "foreach [] f = ret ()"
| "foreach (i # is) f = seqk (f i) (foreach is f)"

definition out_of_bounds :: "('a, 's) kop" where
  "out_of_bounds = panic ''undefined behaviour: access out of bounds''"

lemma ret_apply [simp, outcome_simps]: "ret a s = Done a s"
  by (simp add: ret_def)

lemma panic_apply [simp, outcome_simps]: "panic e s = Panic e"
  by (simp add: panic_def)

lemma gets_apply [simp, outcome_simps]: "gets f s = Done (f s) s"
  by (simp add: gets_def)

lemma modify_apply [simp, outcome_simps]: "modify f s = Done () (f s)"
  by (simp add: modify_def)

lemma whenk_simps [simp, outcome_simps]: "whenk True m = m" "whenk False m = ret ()"
  by (simp_all add: whenk_def)

lemma bind_Done [outcome_simps]: "m s = Done a t \<Longrightarrow> bind m f s = f a t"
  by (simp add: bind_def)

lemma seqk_Done [outcome_simps]: "m s = Done a t \<Longrightarrow> seqk m n s = n t"
  by (simp add: seqk_def bind_def)

lemma bind_DoneE:
  assumes "bind m f s = Done b u"
  obtains a t where "m s = Done a t" "f a t = Done b u"
  using assms by (auto simp: bind_def split: outcome.splits)

lemma seqk_DoneE:
  assumes "seqk m n s = Done b u"
  obtains a t where "m s = Done a t" "n t = Done b u"
  using assms unfolding seqk_def by (rule bind_DoneE)

lemma bind_SleepE:
  assumes "bind m f s = Sleep u"
  obtains "m s = Sleep u" | a t where "m s = Done a t" "f a t = Sleep u"
  using assms by (auto simp: bind_def split: outcome.splits)

lemma seqk_SleepE:
  assumes "seqk m n s = Sleep u"
  obtains "m s = Sleep u" | a t where "m s = Done a t" "n t = Sleep u"
  using assms unfolding seqk_def by (rule bind_SleepE) auto

lemma bind_ret_left [simp]: "bind (ret a) f = f a"
  by (rule ext) (simp add: bind_def)

lemma bind_ret_right [simp]: "bind m ret = m"
  by (rule ext) (simp add: bind_def split: outcome.splits)

lemma bind_assoc: "bind (bind m f) g = bind m (\<lambda>a. bind (f a) g)"
  by (rule ext) (simp add: bind_def split: outcome.splits)

text \<open>
  Total correctness: \<open>wp m Q s\<close> holds when \<open>m\<close> returns from \<open>s\<close> (no panic, no sleep,
  no divergence) with a result and a state that satisfy \<open>Q\<close>.
\<close>

definition wp :: "('a, 's) kop \<Rightarrow> ('a \<Rightarrow> 's \<Rightarrow> bool) \<Rightarrow> 's \<Rightarrow> bool" where
  "wp m Q s \<longleftrightarrow> (\<exists>a t. m s = Done a t \<and> Q a t)"

lemma wp_ret [simp]: "wp (ret a) Q s = Q a s"
  by (simp add: wp_def)

lemma wp_bind [simp]: "wp (bind m f) Q s = wp m (\<lambda>a. wp (f a) Q) s"
  by (auto simp: wp_def bind_def split: outcome.splits)

lemma wp_seqk [simp]: "wp (seqk m n) Q s = wp m (\<lambda>_. wp n Q) s"
  by (simp add: seqk_def)

lemma wp_panic [simp]: "\<not> wp (panic e) Q s"
  by (simp add: wp_def)

lemma wp_gets [simp]: "wp (gets f) Q s = Q (f s) s"
  by (simp add: wp_def)

lemma wp_modify [simp]: "wp (modify f) Q s = Q () (f s)"
  by (simp add: wp_def)

lemma wp_if [simp]: "wp (if b then m else n) Q s = (if b then wp m Q s else wp n Q s)"
  by simp

lemma wp_whenk [simp]: "wp (whenk b m) Q s = (if b then wp m Q s else Q () s)"
  by (simp add: whenk_def)

lemma wp_Done_Panic [simp]: "wp (Done a) Q s = Q a s" "wp (\<lambda>s. Panic e) Q s = False"
  by (simp_all add: wp_def)

lemma wp_ret_fun: "wp (ret a) Q = Q a"
  by (simp add: fun_eq_iff)

lemma wp_bind_fun: "wp (bind m f) Q = wp m (\<lambda>a. wp (f a) Q)"
  by (simp add: fun_eq_iff)

lemma wp_seqk_fun: "wp (seqk m n) Q = wp m (\<lambda>_. wp n Q)"
  by (simp add: fun_eq_iff)

lemma wp_gets_fun: "wp (gets g) Q = (\<lambda>s. Q (g s) s)"
  by (simp add: fun_eq_iff)

lemma wp_if_fun: "wp (if b then m else n) Q = (if b then wp m Q else wp n Q)"
  by simp

lemmas wp_fun = wp_ret_fun wp_bind_fun wp_seqk_fun wp_gets_fun wp_if_fun

lemma wp_mono: "wp m Q s \<Longrightarrow> (\<And>a t. Q a t \<Longrightarrow> R a t) \<Longrightarrow> wp m R s"
  by (auto simp: wp_def)

lemma wp_conj: "wp m Q s \<Longrightarrow> wp m R s \<Longrightarrow> wp m (\<lambda>a t. Q a t \<and> R a t) s"
  by (auto simp: wp_def)

lemma wpD: "wp m Q s \<Longrightarrow> m s = Done a t \<Longrightarrow> Q a t"
  by (auto simp: wp_def)

lemma wpE:
  assumes "wp m Q s"
  obtains a t where "m s = Done a t" "Q a t"
  using assms by (auto simp: wp_def)

lemma wp_Done: "m s = Done a t \<Longrightarrow> wp m Q s = Q a t"
  by (simp add: wp_def)

section \<open>Bounds of machine integers\<close>

lemma unat_u32_less: "unat (x :: u32) < 2 ^ 32"
  using unsigned_less [of x] by simp

lemma unat_u16_less: "unat (x :: u16) < 2 ^ 16"
  using unsigned_less [of x] by simp

lemma unat_byte_less: "unat (x :: byte) < 2 ^ 8"
  using unsigned_less [of x] by simp

lemma unat_neg_1 [simp]: "unat (- 1 :: u32) = 2 ^ 32 - 1"
  by (simp add: unsigned_minus_1_eq_mask mask_eq_exp_minus_1)

end
