(* ===== verification/Spinlock.thy ===== *)
theory Spinlock
  imports Prelude
begin

text \<open>
  Spin locks and interrupt masking: \<open>spinlock.c\<close>, \<open>spinlock.h\<close> and the per-CPU fields of
  \<open>struct cpu\<close> (proc.h) that the model uses: the nesting depth, the saved and the real
  interrupt flag, the running process, the kernel stack pointer of the task state segment and
  the page-directory register.

  The state \<open>machine\<close> holds every CPU, the number of the CPU that executes (the C variable
  \<open>cpu\<close>, a per-CPU pointer) and every spin lock of the kernel. The other components extend
  this record, so a lock operation works on the state of any of them. The debugging array
  \<open>pcs\<close> of a lock, which only panic messages read, is left out.

  The first part gives the C functions; the second part lets any number of CPUs run them
  concurrently, interleaved at the atomic \<open>xchg\<close>, and proves mutual exclusion.
\<close>

section \<open>State\<close>

text \<open>The spin locks of the kernel, one name per lock object.\<close>

datatype lockid =
    Lk_bcache | Lk_log | Lk_icache | Lk_ftable | Lk_ptable | Lk_kmem
  | Lk_tick | Lk_input | Lk_cons | Lk_ide | Lk_pipe nat

record spinlock =
  locked :: u32
  lkname :: string
  lkcpu :: "nat option"

record cpu =
  ncli :: int
  intena :: bool
  eflags_if :: bool
  curproc :: "nat option"
  esp0 :: u32
  cr3 :: u32

record machine =
  cpus :: "nat \<Rightarrow> cpu"
  me :: nat
  locks :: "lockid \<Rightarrow> spinlock"

abbreviation mycpu :: "('z) machine_scheme \<Rightarrow> cpu" where
  "mycpu s \<equiv> cpus s (me s)"

definition upd_mycpu :: "(cpu \<Rightarrow> cpu) \<Rightarrow> 'z machine_scheme \<Rightarrow> 'z machine_scheme" where
  "upd_mycpu f s = s\<lparr>cpus := (cpus s)(me s := f (mycpu s))\<rparr>"

definition upd_lock :: "lockid \<Rightarrow> (spinlock \<Rightarrow> spinlock) \<Rightarrow> 'z machine_scheme \<Rightarrow> 'z machine_scheme" where
  "upd_lock l f s = s\<lparr>locks := (locks s)(l := f (locks s l))\<rparr>"

section \<open>Operations\<close>

definition initlock :: "lockid \<Rightarrow> string \<Rightarrow> (unit, 'z machine_scheme) kop" where
  "initlock l name = modify (upd_lock l (\<lambda>_. \<lparr>locked = 0, lkname = name, lkcpu = None\<rparr>))"

text \<open>Check whether this cpu is holding the lock.\<close>

definition holding :: "lockid \<Rightarrow> 'z machine_scheme \<Rightarrow> bool" where
  "holding l s \<longleftrightarrow> locked (locks s l) \<noteq> 0 \<and> lkcpu (locks s l) = Some (me s)"

definition pushcli :: "(unit, 'z machine_scheme) kop" where
  "pushcli = modify (upd_mycpu (\<lambda>c.
     c\<lparr>eflags_if := False, ncli := ncli c + 1,
       intena := (if ncli c = 0 then eflags_if c else intena c)\<rparr>))"

definition popcli :: "(unit, 'z machine_scheme) kop" where
  "popcli s =
     (if eflags_if (mycpu s) then Panic ''popcli - interruptible''
      else let s = upd_mycpu (\<lambda>c. c\<lparr>ncli := ncli c - 1\<rparr>) s in
        if ncli (mycpu s) < 0 then Panic ''popcli''
        else if ncli (mycpu s) = 0 \<and> intena (mycpu s)
          then Done () (upd_mycpu (\<lambda>c. c\<lparr>eflags_if := True\<rparr>) s)
        else Done () s)"

text \<open>The atomic exchange instruction on the \<open>locked\<close> word (x86.h).\<close>

definition xchg :: "lockid \<Rightarrow> u32 \<Rightarrow> (u32, 'z machine_scheme) kop" where
  "xchg l v s = Done (locked (locks s l)) (upd_lock l (\<lambda>k. k\<lparr>locked := v\<rparr>) s)"

text \<open>
  \<open>acquire\<close> in its three parts: up to the spin loop, the loop (one processor alone cannot
  change the lock, so a failed exchange is the outcome \<open>Spin\<close>), and the bookkeeping after it.
\<close>

definition acquire_enter :: "lockid \<Rightarrow> (unit, 'z machine_scheme) kop" where
  "acquire_enter l =
     seqk pushcli
     (bind (gets (holding l)) (\<lambda>h.
      if h then panic ''acquire'' else ret ()))"

definition acquire_spin :: "lockid \<Rightarrow> (unit, 'z machine_scheme) kop" where
  "acquire_spin l = bind (xchg l 1) (\<lambda>old. if old \<noteq> 0 then Spin else ret ())"

definition acquire_mark :: "lockid \<Rightarrow> (unit, 'z machine_scheme) kop" where
  "acquire_mark l s = Done () (upd_lock l (\<lambda>k. k\<lparr>lkcpu := Some (me s)\<rparr>) s)"

definition acquire :: "lockid \<Rightarrow> (unit, 'z machine_scheme) kop" where
  "acquire l = seqk (acquire_enter l) (seqk (acquire_spin l) (acquire_mark l))"

definition release_enter :: "lockid \<Rightarrow> (unit, 'z machine_scheme) kop" where
  "release_enter l =
     bind (gets (holding l)) (\<lambda>h.
     if \<not> h then panic ''release''
     else modify (upd_lock l (\<lambda>k. k\<lparr>lkcpu := None\<rparr>)))"

definition release_exit :: "lockid \<Rightarrow> (unit, 'z machine_scheme) kop" where
  "release_exit l = bind (xchg l 0) (\<lambda>_. popcli)"

definition release :: "lockid \<Rightarrow> (unit, 'z machine_scheme) kop" where
  "release l = seqk (release_enter l) (release_exit l)"

section \<open>One processor\<close>

text \<open>
  \<open>cli_ok\<close>: interrupts are off while \<open>ncli\<close> is positive, and with no \<open>pushcli\<close> open the
  saved flag is the real one. \<open>lock_free\<close>: the lock is as \<open>initlock\<close> or \<open>release\<close> leaves it.
\<close>

definition cli_ok :: "'z machine_scheme \<Rightarrow> bool" where
  "cli_ok s \<longleftrightarrow> 0 \<le> ncli (mycpu s) \<and> (0 < ncli (mycpu s) \<longrightarrow> \<not> eflags_if (mycpu s)) \<and>
     (ncli (mycpu s) = 0 \<longrightarrow> intena (mycpu s) = eflags_if (mycpu s))"

definition lock_free :: "lockid \<Rightarrow> 'z machine_scheme \<Rightarrow> bool" where
  "lock_free l s \<longleftrightarrow> locked (locks s l) = 0 \<and> lkcpu (locks s l) = None"

text \<open>The state right after the lock \<open>l\<close> was taken in state \<open>s\<close>.\<close>

definition held :: "lockid \<Rightarrow> 'z machine_scheme \<Rightarrow> 'z machine_scheme" where
  "held l s = upd_lock l (\<lambda>k. k\<lparr>locked := 1, lkcpu := Some (me s)\<rparr>)
     (upd_mycpu (\<lambda>c. c\<lparr>eflags_if := False, ncli := ncli c + 1\<rparr>) s)"

lemma lockE_simps [simp]:
  "me (upd_lock l f s) = me s" "cpus (upd_lock l f s) = cpus s"
  "me (upd_mycpu g s) = me s" "locks (upd_mycpu g s) = locks s"
  "locks (upd_lock l f s) = (locks s)(l := f (locks s l))"
  "cpus (upd_mycpu g s) = (cpus s)(me s := g (mycpu s))"
  by (simp_all add: upd_lock_def upd_mycpu_def)

lemma cli_intena: "cli_ok s \<Longrightarrow> ncli (mycpu s) = 0 \<Longrightarrow> intena (mycpu s) = eflags_if (mycpu s)"
  by (simp add: cli_ok_def)

lemma acquire_free:
  assumes "cli_ok s" "lock_free l s"
  shows "acquire l s = Done () (held l s)"
proof -
  have "(if ncli (mycpu s) = 0 then eflags_if (mycpu s) else intena (mycpu s)) = intena (mycpu s)"
    using cli_intena [OF assms(1)] by simp
  then show ?thesis
    using assms
    by (simp add: acquire_def acquire_enter_def acquire_spin_def acquire_mark_def pushcli_def
        xchg_def held_def lock_free_def holding_def bind_def seqk_def)
      (simp add: upd_lock_def upd_mycpu_def)
qed

lemma release_held [simp]:
  assumes "cli_ok s" "lock_free l s"
  shows "release l (held l s) = Done () s"
proof -
  have c: "(mycpu s)\<lparr>eflags_if := ncli (mycpu s) = 0 \<and> intena (mycpu s)\<rparr> = mycpu s"
    using assms(1) by (cases "mycpu s") (auto simp: cli_ok_def)
  have k: "(locks s l)\<lparr>lkcpu := None, locked := 0\<rparr> = locks s l"
    using assms(2) by (cases "locks s l") (simp add: lock_free_def)
  have "0 \<le> ncli (mycpu s)"
    using assms(1) by (simp add: cli_ok_def)
  then show ?thesis
    using c k
    by (auto simp: release_def release_enter_def release_exit_def popcli_def
        xchg_def held_def holding_def bind_def seqk_def Let_def upd_lock_def upd_mycpu_def)
qed

text \<open>
  A critical section: the body runs in the state \<open>held l s\<close> and, as it touches neither CPUs
  nor locks, ends in \<open>held l t\<close> for some \<open>t\<close> with the lock still free; the net effect of the
  section is the step from \<open>s\<close> to \<open>t\<close>.
\<close>

lemma critical_section:
  assumes "cli_ok s" "lock_free l s" "m (held l s) = Done a (held l t)"
    and "cli_ok t" "lock_free l t"
  shows "seqk (acquire l) (bind m (\<lambda>x. seqk (release l) (ret x))) s = Done a t"
  using assms by (simp add: seqk_def bind_def acquire_free)

lemma held_simps [simp]:
  "me (held l s) = me s"
  "locks (held l s) k = (if k = l then (locks s l)\<lparr>locked := 1, lkcpu := Some (me s)\<rparr> else locks s k)"
  "curproc (cpus (held l s) i) = curproc (cpus s i)"
  by (simp_all add: held_def)

lemma cli_ok_held [simp]: "cli_ok s \<Longrightarrow> cli_ok (held l s)"
  by (simp add: cli_ok_def held_def)

lemma lock_free_held [simp]: "l \<noteq> k \<Longrightarrow> lock_free k (held l s) = lock_free k s"
  by (simp add: lock_free_def)

lemma holding_held [simp]: "holding l (held l s)"
  by (simp add: holding_def)

section \<open>Many processors\<close>

text \<open>
  Every CPU runs \<open>acquire\<close> and \<open>release\<close> at its own pace, on any locks it likes, with any
  nesting. A state of \<open>lsys\<close> records the machine, the locks each CPU holds and how far each
  CPU is inside a lock operation. The atomic steps are the pieces of the C functions: all up
  to the spin loop, one \<open>xchg\<close>, the store to \<open>lk->cpu\<close>; and for release, all up to the final
  \<open>xchg\<close>, and that exchange with \<open>popcli\<close>.
\<close>

datatype lockop = Idle | Spinning lockid | Marking lockid | Unlocking lockid

record lsys =
  mach :: machine
  hold :: "nat \<Rightarrow> lockid set"
  opc :: "nat \<Rightarrow> lockop"

definition on_cpu :: "nat \<Rightarrow> lsys \<Rightarrow> machine" where
  "on_cpu i S = (mach S)\<lparr>me := i\<rparr>"

inductive lstep :: "lsys \<Rightarrow> lsys \<Rightarrow> bool" where
  enter: "opc S i = Idle \<Longrightarrow> acquire_enter l (on_cpu i S) = Done () m \<Longrightarrow>
    lstep S (S\<lparr>mach := m, opc := (opc S)(i := Spinning l)\<rparr>)"
| busy: "opc S i = Spinning l \<Longrightarrow> acquire_spin l (on_cpu i S) = Spin m \<Longrightarrow>
    lstep S (S\<lparr>mach := m\<rparr>)"
| got: "opc S i = Spinning l \<Longrightarrow> acquire_spin l (on_cpu i S) = Done () m \<Longrightarrow>
    lstep S (S\<lparr>mach := m, opc := (opc S)(i := Marking l)\<rparr>)"
| mark: "opc S i = Marking l \<Longrightarrow> acquire_mark l (on_cpu i S) = Done () m \<Longrightarrow>
    lstep S (S\<lparr>mach := m, hold := (hold S)(i := insert l (hold S i)), opc := (opc S)(i := Idle)\<rparr>)"
| leave: "opc S i = Idle \<Longrightarrow> release_enter l (on_cpu i S) = Done () m \<Longrightarrow>
    lstep S (S\<lparr>mach := m, hold := (hold S)(i := hold S i - {l}), opc := (opc S)(i := Unlocking l)\<rparr>)"
| unlock: "opc S i = Unlocking l \<Longrightarrow> release_exit l (on_cpu i S) = Done () m \<Longrightarrow>
    lstep S (S\<lparr>mach := m, opc := (opc S)(i := Idle)\<rparr>)"

definition lsys_init :: "lsys \<Rightarrow> bool" where
  "lsys_init S \<longleftrightarrow> (\<forall>l. lock_free l (mach S)) \<and>
     (\<forall>i. ncli (cpus (mach S) i) = 0 \<and> hold S i = {} \<and> opc S i = Idle)"

inductive lreach :: "lsys \<Rightarrow> bool" where
  init: "lsys_init S \<Longrightarrow> lreach S"
| step: "lreach S \<Longrightarrow> lstep S T \<Longrightarrow> lreach T"

text \<open>CPU \<open>i\<close> owns \<open>l\<close>: its exchange got the lock and it has not given it back.\<close>

definition owns :: "lsys \<Rightarrow> nat \<Rightarrow> lockid \<Rightarrow> bool" where
  "owns S i l \<longleftrightarrow> l \<in> hold S i \<or> opc S i = Marking l \<or> opc S i = Unlocking l"

definition depth :: "lsys \<Rightarrow> nat \<Rightarrow> nat" where
  "depth S i = card (hold S i) + (if opc S i = Idle then 0 else 1)"

definition lsys_inv :: "lsys \<Rightarrow> bool" where
  "lsys_inv S \<longleftrightarrow>
     (\<forall>l. locked (locks (mach S) l) \<noteq> 0 \<longleftrightarrow> (\<exists>i. owns S i l)) \<and>
     (\<forall>l i j. owns S i l \<longrightarrow> owns S j l \<longrightarrow> i = j) \<and>
     (\<forall>l i. lkcpu (locks (mach S) l) = Some i \<longleftrightarrow> l \<in> hold S i) \<and>
     (\<forall>i. finite (hold S i) \<and> ncli (cpus (mach S) i) = int (depth S i) \<and>
        (0 < depth S i \<longrightarrow> \<not> eflags_if (cpus (mach S) i))) \<and>
     (\<forall>i l. opc S i = Marking l \<or> opc S i = Unlocking l \<longrightarrow> l \<notin> hold S i)"

lemmas lstep_defs = acquire_enter_def acquire_spin_def acquire_mark_def release_enter_def release_exit_def
  pushcli_def popcli_def xchg_def holding_def on_cpu_def bind_def seqk_def


lemma lsys_inv_init: "lsys_init S \<Longrightarrow> lsys_inv S"
  by (auto simp: lsys_init_def lsys_inv_def owns_def depth_def lock_free_def)

lemma lsys_invI:
  assumes "\<And>l. locked (locks (mach S) l) \<noteq> 0 \<longleftrightarrow> (\<exists>i. owns S i l)"
    and "\<And>l i j. owns S i l \<Longrightarrow> owns S j l \<Longrightarrow> i = j"
    and "\<And>l i. lkcpu (locks (mach S) l) = Some i \<longleftrightarrow> l \<in> hold S i"
    and "\<And>i. finite (hold S i) \<and> ncli (cpus (mach S) i) = int (depth S i) \<and>
        (0 < depth S i \<longrightarrow> \<not> eflags_if (cpus (mach S) i))"
    and "\<And>i l. opc S i = Marking l \<or> opc S i = Unlocking l \<Longrightarrow> l \<notin> hold S i"
  shows "lsys_inv S"
  using assms unfolding lsys_inv_def by blast

lemma lsys_invD:
  assumes "lsys_inv S"
  shows "locked (locks (mach S) l) \<noteq> 0 \<longleftrightarrow> (\<exists>i. owns S i l)"
    and "owns S i l \<Longrightarrow> owns S j l \<Longrightarrow> i = j"
    and "lkcpu (locks (mach S) l) = Some i \<longleftrightarrow> l \<in> hold S i"
    and "finite (hold S i)" "ncli (cpus (mach S) i) = int (depth S i)"
    and "0 < depth S i \<Longrightarrow> \<not> eflags_if (cpus (mach S) i)"
    and "opc S i = Marking l \<Longrightarrow> l \<notin> hold S i" "opc S i = Unlocking l \<Longrightarrow> l \<notin> hold S i"
  using assms unfolding lsys_inv_def by blast+

lemma lsys_inv_enter:
  assumes inv: "lsys_inv S" and hyps: "opc S i = Idle" "acquire_enter l (on_cpu i S) = Done () m"
  shows "lsys_inv (S\<lparr>mach := m, opc := (opc S)(i := Spinning l)\<rparr>)"
proof -
  note I = lsys_invD [OF inv]
  from hyps have m: "m = upd_mycpu (\<lambda>c. c\<lparr>eflags_if := False, ncli := ncli c + 1,
       intena := (if ncli c = 0 then eflags_if c else intena c)\<rparr>) (on_cpu i S)"
    by (simp add: lstep_defs split: if_splits)
  let ?T = "S\<lparr>mach := m, opc := (opc S)(i := Spinning l)\<rparr>"
  have "owns ?T j k = owns S j k" for j k
    using hyps(1) by (simp add: owns_def)
  moreover have "depth ?T j = depth S j + (if j = i then 1 else 0)" for j
    using hyps(1) by (simp add: depth_def)
  ultimately show ?thesis
    unfolding lsys_inv_def using I hyps(1) by (auto simp: m on_cpu_def)
qed

lemma lsys_inv_busy:
  assumes inv: "lsys_inv S" and hyps: "opc S i = Spinning l" "acquire_spin l (on_cpu i S) = Spin m"
  shows "lsys_inv (S\<lparr>mach := m\<rparr>)"
proof -
  note I = lsys_invD [OF inv]
  from hyps have m: "m = upd_lock l (\<lambda>k. k\<lparr>locked := 1\<rparr>) (on_cpu i S)"
    "locked (locks (mach S) l) \<noteq> 0"
    by (auto simp: lstep_defs split: if_splits)
  have "owns (S\<lparr>mach := m\<rparr>) j k = owns S j k" "depth (S\<lparr>mach := m\<rparr>) j = depth S j" for j k
    by (simp_all add: owns_def depth_def)
  then show ?thesis
    unfolding lsys_inv_def using I m by (auto simp: on_cpu_def)
qed

lemma lsys_inv_got:
  assumes inv: "lsys_inv S" and hyps: "opc S i = Spinning l" "acquire_spin l (on_cpu i S) = Done () m"
  shows "lsys_inv (S\<lparr>mach := m, opc := (opc S)(i := Marking l)\<rparr>)"
proof -
  note I = lsys_invD [OF inv]
  from hyps have m: "m = upd_lock l (\<lambda>k. k\<lparr>locked := 1\<rparr>) (on_cpu i S)"
    "locked (locks (mach S) l) = 0"
    by (auto simp: lstep_defs split: if_splits)
  let ?T = "S\<lparr>mach := m, opc := (opc S)(i := Marking l)\<rparr>"
  have free: "\<not> owns S j l" for j
    using I(1) m(2) by blast
  have o: "owns ?T j k = (owns S j k \<or> j = i \<and> k = l)" for j k
    using hyps(1) by (auto simp: owns_def)
  have d: "depth ?T j = depth S j" for j
    using hyps(1) by (simp add: depth_def)
  have "l \<notin> hold S i"
    using free [of i] by (simp add: owns_def)
  then show ?thesis
    unfolding lsys_inv_def o d using I m free by (auto simp: on_cpu_def)
qed

lemma lsys_inv_mark:
  assumes inv: "lsys_inv S" and hyps: "opc S i = Marking l" "acquire_mark l (on_cpu i S) = Done () m"
  shows "lsys_inv (S\<lparr>mach := m, hold := (hold S)(i := insert l (hold S i)), opc := (opc S)(i := Idle)\<rparr>)"
proof -
  note I = lsys_invD [OF inv]
  from hyps have m: "m = upd_lock l (\<lambda>k. k\<lparr>lkcpu := Some i\<rparr>) (on_cpu i S)"
    by (auto simp: lstep_defs)
  let ?T = "S\<lparr>mach := m, hold := (hold S)(i := insert l (hold S i)), opc := (opc S)(i := Idle)\<rparr>"
  have o: "owns ?T j k = owns S j k" for j k
    using hyps(1) by (auto simp: owns_def)
  have d: "depth ?T j = depth S j" for j
    using hyps(1) I by (simp add: depth_def)
  have "owns S i l"
    using hyps(1) by (simp add: owns_def)
  then have "l \<in> hold S j \<Longrightarrow> j = i" for j
    using I(2) by (auto simp: owns_def)
  then show ?thesis
    unfolding lsys_inv_def o d using I m hyps(1) by (auto simp: on_cpu_def)
qed

lemma lsys_inv_leave:
  assumes inv: "lsys_inv S" and hyps: "opc S i = Idle" "release_enter l (on_cpu i S) = Done () m"
  shows "lsys_inv (S\<lparr>mach := m, hold := (hold S)(i := hold S i - {l}), opc := (opc S)(i := Unlocking l)\<rparr>)"
proof -
  note I = lsys_invD [OF inv]
  from hyps have m: "m = upd_lock l (\<lambda>k. k\<lparr>lkcpu := None\<rparr>) (on_cpu i S)"
    "lkcpu (locks (mach S) l) = Some i"
    by (auto simp: lstep_defs split: if_splits)
  let ?T = "S\<lparr>mach := m, hold := (hold S)(i := hold S i - {l}), opc := (opc S)(i := Unlocking l)\<rparr>"
  have l: "l \<in> hold S i"
    using I(3) m(2) by simp
  have o: "owns ?T j k = owns S j k" for j k
    using hyps(1) l by (auto simp: owns_def)
  have d: "depth ?T j = depth S j" for j
    using hyps(1) l card_Suc_Diff1 [OF I(4) l] by (simp add: depth_def)
  have u: "l \<in> hold S j \<Longrightarrow> j = i" for j
    using I(2) l by (auto simp: owns_def)
  show ?thesis
  proof (rule lsys_invI)
    fix k show "locked (locks (mach ?T) k) \<noteq> 0 \<longleftrightarrow> (\<exists>j. owns ?T j k)"
      unfolding o using I(1) [of k] by (auto simp: m(1) on_cpu_def)
  next
    fix k a b show "owns ?T a k \<Longrightarrow> owns ?T b k \<Longrightarrow> a = b"
      unfolding o using I(2) by blast
  next
    fix k a show "lkcpu (locks (mach ?T) k) = Some a \<longleftrightarrow> k \<in> hold ?T a"
      using I(3) [of k a] u [of a] by (auto simp: m(1) on_cpu_def)
  next
    fix a show "finite (hold ?T a) \<and> ncli (cpus (mach ?T) a) = int (depth ?T a) \<and>
      (0 < depth ?T a \<longrightarrow> \<not> eflags_if (cpus (mach ?T) a))"
      unfolding d using I(4,5,6) [of a] by (auto simp: m(1) on_cpu_def)
  next
    fix a k show "opc ?T a = Marking k \<or> opc ?T a = Unlocking k \<Longrightarrow> k \<notin> hold ?T a"
      using I(7,8) [of a k] by (auto split: if_splits)
  qed
qed

lemma lsys_inv_unlock:
  assumes inv: "lsys_inv S" and hyps: "opc S i = Unlocking l" "release_exit l (on_cpu i S) = Done () m"
  shows "lsys_inv (S\<lparr>mach := m, opc := (opc S)(i := Idle)\<rparr>)"
proof -
  note I = lsys_invD [OF inv]
  from hyps have m: "locks m = (locks (mach S))(l := (locks (mach S) l)\<lparr>locked := 0\<rparr>)"
    "ncli (cpus m j) = ncli (cpus (mach S) j) - (if j = i then 1 else 0)"
    "0 < ncli (cpus m i) \<Longrightarrow> \<not> eflags_if (cpus m i)" "j \<noteq> i \<Longrightarrow> cpus m j = cpus (mach S) j" for j
    by (auto simp: lstep_defs Let_def split: if_splits)
  let ?T = "S\<lparr>mach := m, opc := (opc S)(i := Idle)\<rparr>"
  have no: "l \<notin> hold S j" for j
    using I(2) [of i l j] I(8) [of i l] hyps(1) by (auto simp: owns_def)
  have o: "owns ?T j k = (owns S j k \<and> k \<noteq> l)" for j k
  proof (cases "j = i")
    case True
    then show ?thesis
      using hyps(1) no by (auto simp: owns_def)
  next
    case False
    then have "\<not> owns S j l"
      using I(2) [of i l j] hyps(1) by (auto simp: owns_def)
    then show ?thesis
      using False by (auto simp: owns_def)
  qed
  have d: "depth ?T j = depth S j - (if j = i then 1 else 0)" "0 < depth S i" for j
    using hyps(1) by (simp_all add: depth_def)
  show ?thesis
  proof (rule lsys_invI)
    fix k show "locked (locks (mach ?T) k) \<noteq> 0 \<longleftrightarrow> (\<exists>j. owns ?T j k)"
      unfolding o using I(1) [of k] by (auto simp: m(1))
  next
    fix k a b show "owns ?T a k \<Longrightarrow> owns ?T b k \<Longrightarrow> a = b"
      unfolding o using I(2) by blast
  next
    fix k a show "lkcpu (locks (mach ?T) k) = Some a \<longleftrightarrow> k \<in> hold ?T a"
      using I(3) by (simp add: m(1))
  next
    fix a show "finite (hold ?T a) \<and> ncli (cpus (mach ?T) a) = int (depth ?T a) \<and>
      (0 < depth ?T a \<longrightarrow> \<not> eflags_if (cpus (mach ?T) a))"
      using I(4,5,6) [of a] m(2) [of a] m(3) m(4) [of a] d by (cases "a = i") auto
  next
    fix a k show "opc ?T a = Marking k \<or> opc ?T a = Unlocking k \<Longrightarrow> k \<notin> hold ?T a"
      using I(7,8) [of a k] by (auto split: if_splits)
  qed
qed

lemma lsys_inv_step: "lstep S T \<Longrightarrow> lsys_inv S \<Longrightarrow> lsys_inv T"
proof (induction rule: lstep.induct)
  case (enter S i l m)
  show ?case by (rule lsys_inv_enter [OF enter.prems enter.hyps])
next
  case (busy S i l m)
  show ?case by (rule lsys_inv_busy [OF busy.prems busy.hyps])
next
  case (got S i l m)
  show ?case by (rule lsys_inv_got [OF got.prems got.hyps])
next
  case (mark S i l m)
  show ?case by (rule lsys_inv_mark [OF mark.prems mark.hyps])
next
  case (leave S i l m)
  show ?case by (rule lsys_inv_leave [OF leave.prems leave.hyps])
next
  case (unlock S i l m)
  show ?case by (rule lsys_inv_unlock [OF unlock.prems unlock.hyps])
qed

lemma lreach_inv: "lreach S \<Longrightarrow> lsys_inv S"
proof (induction rule: lreach.induct)
  case (init S)
  then show ?case by (rule lsys_inv_init)
next
  case (step S T)
  show ?case by (rule lsys_inv_step [OF step.hyps(2) step.IH])
qed

section \<open>Properties\<close>

text \<open>C12 (mutual exclusion). In every state that any number of processors can reach by
  running \<open>acquire\<close> and \<open>release\<close> concurrently, at most one processor holds a given lock; the
  lock word is set, \<open>lk->cpu\<close> names the holder, and the holder runs with interrupts off.\<close>

theorem mutual_exclusion:
  assumes "lreach S" "l \<in> hold S i" "l \<in> hold S j"
  shows "i = j \<and> locked (locks (mach S) l) \<noteq> 0 \<and> lkcpu (locks (mach S) l) = Some i \<and>
    \<not> eflags_if (cpus (mach S) i)"
proof -
  note I = lsys_invD [OF lreach_inv [OF assms(1)]]
  have own: "owns S i l" "owns S j l"
    using assms(2,3) by (simp_all add: owns_def)
  have "0 < depth S i"
    using assms(2) I(4) [of i] by (auto simp: depth_def card_gt_0_iff)
  with own I(2) [of i l j] I(1) [of l] I(3) [of l i] I(6) [of i] assms(2) show ?thesis
    by blast
qed

lemma lreach_hold: "\<exists>S. lreach S \<and> l \<in> hold S i"
proof -
  let ?c = "\<lparr>ncli = 0, intena = False, eflags_if = True, curproc = None, esp0 = 0, cr3 = 0\<rparr>"
  let ?k = "\<lparr>locked = 0, lkname = [], lkcpu = None\<rparr>"
  let ?S = "\<lparr>mach = \<lparr>cpus = (\<lambda>_. ?c), me = 0, locks = (\<lambda>_. ?k)\<rparr>, hold = (\<lambda>_. {}), opc = (\<lambda>_. Idle)\<rparr>"
  have "lreach ?S"
    by (rule lreach.init) (simp add: lsys_init_def lock_free_def)
  then obtain T where T: "lreach T" "opc T i = Spinning l" "locked (locks (mach T) l) = 0"
    using lreach.step lstep.enter [of ?S i l] by (fastforce simp: lstep_defs)
  then obtain U where U: "lreach U" "opc U i = Marking l"
    using lreach.step lstep.got [of T i l] by (fastforce simp: lstep_defs)
  then show ?thesis
    using lreach.step lstep.mark [of U i l] by (fastforce simp: lstep_defs)
qed

theorem mutual_exclusion_witness:
  "\<exists>S. lreach S \<and> Lk_log \<in> hold S 1 \<and> lkcpu (locks (mach S) Lk_log) = Some 1"
proof -
  obtain S where S: "lreach S" "Lk_log \<in> hold S 1"
    using lreach_hold by blast
  then show ?thesis
    using mutual_exclusion [OF S(1) S(2) S(2)] by blast
qed

text \<open>C13 (acquire and release). On a processor whose interrupt bookkeeping is consistent,
  acquiring a free lock succeeds, makes the processor the holder with interrupts off, a second
  \<open>acquire\<close> of the same lock panics instead of deadlocking, and \<open>release\<close> restores the state
  exactly, interrupt flag and nesting depth included.\<close>

theorem acquire_release:
  assumes "cli_ok s" "lock_free l s"
  shows "\<exists>t. acquire l s = Done () t \<and> holding l t \<and> \<not> eflags_if (mycpu t) \<and>
    acquire l t = Panic ''acquire'' \<and> release l t = Done () s"
proof -
  have "acquire l (held l s) = Panic ''acquire''"
    by (simp add: acquire_def acquire_enter_def pushcli_def bind_def seqk_def holding_def)
  moreover have "\<not> eflags_if (mycpu (held l s))"
    by (simp add: held_def)
  ultimately show ?thesis
    using assms acquire_free [OF assms] by simp
qed

theorem acquire_release_witness:
  "\<exists>s t :: machine. acquire Lk_log s = Done () t \<and> holding Lk_log t \<and> release Lk_log t = Done () s"
proof -
  let ?c = "\<lparr>ncli = 0, intena = True, eflags_if = True, curproc = None, esp0 = 0, cr3 = 0\<rparr>"
  let ?k = "\<lparr>locked = 0, lkname = [], lkcpu = None\<rparr>"
  let ?s = "\<lparr>cpus = (\<lambda>_. ?c), me = 0, locks = (\<lambda>_. ?k)\<rparr>"
  have "cli_ok ?s" "lock_free Lk_log ?s"
    by (simp_all add: cli_ok_def lock_free_def)
  then show ?thesis
    using acquire_release [of ?s Lk_log] by blast
qed

end
