(* ===== verification/Proc.thy ===== *)
theory Proc
  imports Spinlock
begin

text \<open>
  Processes and the scheduler: the part of \<open>proc.c\<close> and \<open>proc.h\<close> that only needs the process
  table and its lock (\<open>scheduler\<close>, \<open>sched\<close>, \<open>yield\<close>, \<open>sleep\<close>, \<open>wakeup\<close>, \<open>kill\<close> and the
  table-side half of \<open>exit\<close>), with \<open>switchuvm\<close> and \<open>switchkvm\<close> of \<open>vm.c\<close>.

  A \<open>struct proc *\<close> is an index into \<open>ptable.proc\<close>. A function that switches to the
  scheduler ends in the outcome \<open>Sleep\<close>; what the process does when it is switched back to is
  a function of its own (\<open>sched_resume\<close>, \<open>sleep_resume\<close>). Dereferencing a null \<open>proc\<close> is a
  page fault in the kernel, which \<open>trap\<close> turns into \<open>panic("trap")\<close>.

  The last part runs the scheduler loops of all CPUs concurrently and shows that a process
  never runs on two CPUs.
\<close>

section \<open>State\<close>

text \<open>Wait channels: the kernel objects whose addresses are passed to \<open>sleep\<close>.\<close>

datatype chan =
    Ch_buf nat | Ch_inode nat | Ch_log | Ch_proc nat | Ch_ticks | Ch_input
  | Ch_pipe_read nat | Ch_pipe_write nat

datatype procstate = UNUSED | EMBRYO | SLEEPING | RUNNABLE | RUNNING | ZOMBIE

text \<open>The trap frame of x86.h without its padding.\<close>

record trapframe =
  tf_edi :: u32
  tf_esi :: u32
  tf_ebp :: u32
  tf_ebx :: u32
  tf_edx :: u32
  tf_ecx :: u32
  tf_eax :: u32
  tf_gs :: u16
  tf_fs :: u16
  tf_es :: u16
  tf_ds :: u16
  tf_trapno :: u32
  tf_err :: u32
  tf_eip :: u32
  tf_cs :: u16
  tf_eflags :: u32
  tf_esp :: u32
  tf_ss :: u16

record proc =
  sz :: u32
  pgdir :: u32
  kstack :: u32
  pstate :: procstate
  pid :: int
  parent :: "nat option"
  tf :: trapframe
  chan :: "chan option"
  killed :: bool
  ofile :: "nat \<Rightarrow> nat option"
  cwd :: "nat option"
  pname :: bytes

record kstate = machine +
  ptable :: "nat \<Rightarrow> proc"
  nextpid :: int
  initproc :: "nat option"
  ticks :: u32
  kpgdir :: u32

definition NPROC :: nat where "NPROC = 64"
definition KSTACKSIZE :: u32 where "KSTACKSIZE = 4096"
definition KERNBASE :: u32 where "KERNBASE = 0x80000000"

definition v2p :: "u32 \<Rightarrow> u32" where "v2p a = a - KERNBASE"
definition p2v :: "u32 \<Rightarrow> u32" where "p2v a = a + KERNBASE"

definition upd_proc :: "nat \<Rightarrow> (proc \<Rightarrow> proc) \<Rightarrow> 'z kstate_scheme \<Rightarrow> 'z kstate_scheme" where
  "upd_proc i f s = s\<lparr>ptable := (ptable s)(i := f (ptable s i))\<rparr>"

definition with_proc :: "(nat \<Rightarrow> ('a, 'z kstate_scheme) kop) \<Rightarrow> ('a, 'z kstate_scheme) kop" where
  "with_proc f s = (case curproc (mycpu s) of None \<Rightarrow> Panic ''trap'' | Some p \<Rightarrow> f p s)"

section \<open>Operations\<close>

definition pinit :: "(unit, 'z kstate_scheme) kop" where
  "pinit = initlock Lk_ptable ''ptable''"

definition switchkvm :: "(unit, 'z kstate_scheme) kop" where
  "switchkvm = modify (\<lambda>s. upd_mycpu (\<lambda>c. c\<lparr>cr3 := v2p (kpgdir s)\<rparr>) s)"

definition switchuvm :: "nat \<Rightarrow> (unit, 'z kstate_scheme) kop" where
  "switchuvm p =
     seqk pushcli
     (seqk (with_proc (\<lambda>q. modify (\<lambda>s. upd_mycpu (\<lambda>c. c\<lparr>esp0 := kstack (ptable s q) + KSTACKSIZE\<rparr>) s)))
     (bind (gets (\<lambda>s. pgdir (ptable s p))) (\<lambda>d.
      if d = 0 then panic ''switchuvm: no pgdir''
      else seqk (modify (upd_mycpu (\<lambda>c. c\<lparr>cr3 := v2p d\<rparr>))) popcli)))"

text \<open>
  The body of the scheduler loop for table entry \<open>k\<close>, up to the switch into the process
  (\<open>True\<close>: switched), and what the scheduler does when the process switches back.
\<close>

definition scheduler_dispatch :: "nat \<Rightarrow> (bool, 'z kstate_scheme) kop" where
  "scheduler_dispatch k =
     bind (gets (\<lambda>s. pstate (ptable s k))) (\<lambda>st.
     if st \<noteq> RUNNABLE then ret False
     else seqk (modify (upd_mycpu (\<lambda>c. c\<lparr>curproc := Some k\<rparr>)))
         (seqk (switchuvm k)
         (seqk (modify (upd_proc k (\<lambda>p. p\<lparr>pstate := RUNNING\<rparr>)))
          (ret True))))"

definition scheduler_back :: "(unit, 'z kstate_scheme) kop" where
  "scheduler_back = seqk switchkvm (modify (upd_mycpu (\<lambda>c. c\<lparr>curproc := None\<rparr>)))"

definition sti :: "(unit, 'z machine_scheme) kop" where
  "sti = modify (upd_mycpu (\<lambda>c. c\<lparr>eflags_if := True\<rparr>))"

definition sched :: "(unit, 'z kstate_scheme) kop" where
  "sched = with_proc (\<lambda>p s.
     if \<not> holding Lk_ptable s then Panic ''sched ptable.lock''
     else if ncli (mycpu s) \<noteq> 1 then Panic ''sched locks''
     else if pstate (ptable s p) = RUNNING then Panic ''sched running''
     else if eflags_if (mycpu s) then Panic ''sched interruptible''
     else Sleep s)"

text \<open>Back from \<open>swtch\<close>: \<open>cpu->intena\<close> is restored from the kernel stack.\<close>

definition sched_resume :: "bool \<Rightarrow> (unit, 'z kstate_scheme) kop" where
  "sched_resume ie = modify (upd_mycpu (\<lambda>c. c\<lparr>intena := ie\<rparr>))"

definition yield :: "(unit, 'z kstate_scheme) kop" where
  "yield =
     seqk (acquire Lk_ptable)
     (seqk (with_proc (\<lambda>p. modify (upd_proc p (\<lambda>q. q\<lparr>pstate := RUNNABLE\<rparr>))))
     (seqk sched (release Lk_ptable)))"

text \<open>
  Atomically release the lock and sleep on the channel. The body is the sequence of its calls, so
  that another CPU can be interleaved between any two of them (section on sleep and wakeup).
\<close>

primrec runk :: "(unit, 's) kop list \<Rightarrow> (unit, 's) kop" where
  "runk [] = ret ()"
| "runk (m # ms) = seqk m (runk ms)"

definition sleep_code :: "nat \<Rightarrow> chan \<Rightarrow> lockid \<Rightarrow> (unit, 'z kstate_scheme) kop list" where
  "sleep_code p c lk =
     (if lk \<noteq> Lk_ptable then [acquire Lk_ptable, release lk] else []) @
     [modify (upd_proc p (\<lambda>q. q\<lparr>chan := Some c, pstate := SLEEPING\<rparr>)), sched]"

definition sleep :: "chan \<Rightarrow> lockid \<Rightarrow> (unit, 'z kstate_scheme) kop" where
  "sleep c lk =
     bind (gets (\<lambda>s. curproc (mycpu s))) (\<lambda>cp. case cp of
       None \<Rightarrow> panic ''sleep''
     | Some p \<Rightarrow> runk (sleep_code p c lk))"

definition sleep_resume :: "bool \<Rightarrow> lockid \<Rightarrow> (unit, 'z kstate_scheme) kop" where
  "sleep_resume ie lk =
     seqk (sched_resume ie)
     (seqk (with_proc (\<lambda>p. modify (upd_proc p (\<lambda>q. q\<lparr>chan := None\<rparr>))))
      (whenk (lk \<noteq> Lk_ptable) (seqk (release Lk_ptable) (acquire lk))))"

text \<open>
  Wake up all processes sleeping on the channel; \<open>wakeup1\<close> runs with the table lock held and
  compares channel pointers, null included.
\<close>

definition wake_proc :: "chan option \<Rightarrow> proc \<Rightarrow> proc" where
  "wake_proc c p = (if pstate p = SLEEPING \<and> chan p = c then p\<lparr>pstate := RUNNABLE\<rparr> else p)"

definition wakeup1 :: "chan option \<Rightarrow> (unit, 'z kstate_scheme) kop" where
  "wakeup1 c = modify (\<lambda>s. s\<lparr>ptable := (\<lambda>i. if i < NPROC then wake_proc c (ptable s i) else ptable s i)\<rparr>)"

definition wakeup_code :: "chan \<Rightarrow> (unit, 'z kstate_scheme) kop list" where
  "wakeup_code c = [acquire Lk_ptable, wakeup1 (Some c), release Lk_ptable]"

definition wakeup :: "chan \<Rightarrow> (unit, 'z kstate_scheme) kop" where
  "wakeup c = runk (wakeup_code c)"

text \<open>Kill the process with the given pid: the first table entry that has it.\<close>

definition find_pid :: "int \<Rightarrow> (nat \<Rightarrow> proc) \<Rightarrow> nat option" where
  "find_pid n tab = List.find (\<lambda>i. pid (tab i) = n) [0..<NPROC]"

definition kill :: "int \<Rightarrow> (int, 'z kstate_scheme) kop" where
  "kill n =
     seqk (acquire Lk_ptable)
     (bind (gets (\<lambda>s. find_pid n (ptable s))) (\<lambda>r. case r of
        None \<Rightarrow> seqk (release Lk_ptable) (ret (-1))
      | Some i \<Rightarrow>
          seqk (modify (upd_proc i (\<lambda>p. p\<lparr>killed := True,
             pstate := (if pstate p = SLEEPING then RUNNABLE else pstate p)\<rparr>)))
         (seqk (release Lk_ptable) (ret 0))))"

text \<open>
  The second half of \<open>exit\<close>, under the table lock: wake the parent, pass the children to
  \<open>init\<close> (waking it for each one that is already a zombie), become a zombie and switch away.
\<close>

fun reparent :: "nat \<Rightarrow> nat list \<Rightarrow> (unit, 'z kstate_scheme) kop" where
  "reparent self [] = ret ()"
| "reparent self (i # is) =
     seqk (bind (gets (\<lambda>s. (ptable s i, initproc s))) (\<lambda>(p, ip).
       whenk (parent p = Some self)
         (seqk (modify (upd_proc i (\<lambda>q. q\<lparr>parent := ip\<rparr>)))
          (whenk (pstate p = ZOMBIE)
            (wakeup1 (map_option Ch_proc ip))))))
     (reparent self is)"

definition exit_ptable :: "(unit, 'z kstate_scheme) kop" where
  "exit_ptable =
     seqk (acquire Lk_ptable)
     (with_proc (\<lambda>self.
       seqk (bind (gets (\<lambda>s. parent (ptable s self))) (\<lambda>pp.
          wakeup1 (map_option Ch_proc pp)))
      (seqk (reparent self [0..<NPROC])
      (seqk (modify (upd_proc self (\<lambda>q. q\<lparr>pstate := ZOMBIE\<rparr>)))
      (seqk sched
       (panic ''zombie exit''))))))"

text \<open>
  The part of \<open>allocproc\<close> under the table lock: claim an unused entry and give it a pid; and what
  \<open>wait\<close> leaves of a table entry it frees.
\<close>

definition unused_proc :: "(nat \<Rightarrow> proc) \<Rightarrow> nat option" where
  "unused_proc tab = List.find (\<lambda>i. pstate (tab i) = UNUSED) [0..<NPROC]"

definition allocproc_claim :: "(nat option, 'z kstate_scheme) kop" where
  "allocproc_claim =
     seqk (acquire Lk_ptable)
    (bind (gets (\<lambda>s. unused_proc (ptable s))) (\<lambda>r. case r of
       None \<Rightarrow> seqk (release Lk_ptable) (ret None)
     | Some p \<Rightarrow>
         seqk (modify (\<lambda>s. upd_proc p (\<lambda>q. q\<lparr>pstate := EMBRYO, pid := nextpid s\<rparr>) (s\<lparr>nextpid := nextpid s + 1\<rparr>)))
        (seqk (release Lk_ptable)
         (ret (Some p)))))"

definition reaped :: "proc \<Rightarrow> proc" where
  "reaped q = q\<lparr>pstate := UNUSED, pid := 0, parent := None, pname := (pname q)[0 := 0], killed := False\<rparr>"

section \<open>Effects\<close>

lemma runk_append: "runk (ms @ ns) = seqk (runk ms) (runk ns)"
  by (induction ms) (auto simp: seqk_def bind_def fun_eq_iff split: outcome.splits)

lemma sleep_eqs:
  "sleep c lk = bind (gets (\<lambda>s. curproc (mycpu s))) (\<lambda>cp. case cp of
     None \<Rightarrow> panic ''sleep''
   | Some p \<Rightarrow> seqk (whenk (lk \<noteq> Lk_ptable) (seqk (acquire Lk_ptable) (release lk)))
       (seqk (modify (upd_proc p (\<lambda>q. q\<lparr>chan := Some c, pstate := SLEEPING\<rparr>))) sched))"
  by (auto simp: sleep_def sleep_code_def seqk_def bind_def fun_eq_iff split: outcome.splits option.splits)

lemma wakeup_eqs: "wakeup c = seqk (acquire Lk_ptable) (seqk (wakeup1 (Some c)) (release Lk_ptable))"
  by (auto simp: wakeup_def wakeup_code_def seqk_def bind_def fun_eq_iff split: outcome.splits)

lemma held_ptable [simp]:
  "ptable (held l s) = ptable s" "kpgdir (held l s) = kpgdir s" "initproc (held l s) = initproc s"
  "(held l s)\<lparr>ptable := x\<rparr> = held l (s\<lparr>ptable := x\<rparr>)"
  by (simp_all add: held_def upd_lock_def upd_mycpu_def)

lemma locks_ptable_upd [simp]:
  "cli_ok (s\<lparr>ptable := x\<rparr>) = cli_ok s" "lock_free l (s\<lparr>ptable := x\<rparr>) = lock_free l s"
  by (simp_all add: cli_ok_def lock_free_def)

lemma upd_proc_simps [simp]:
  "ptable (upd_proc i f s) = (ptable s)(i := f (ptable s i))"
  "cpus (upd_proc i f s) = cpus s" "me (upd_proc i f s) = me s" "locks (upd_proc i f s) = locks s"
  by (simp_all add: upd_proc_def)

lemma upd_proc_held [simp]: "upd_proc i f (held l s) = held l (upd_proc i f s)"
  by (simp add: upd_proc_def)

lemma cli_ok_upd_proc [simp]: "cli_ok (upd_proc i f s) = cli_ok s"
  by (simp add: cli_ok_def)

lemma lock_free_upd_proc [simp]: "lock_free l (upd_proc i f s) = lock_free l s"
  by (simp add: lock_free_def)

definition woken :: "chan option \<Rightarrow> 'z kstate_scheme \<Rightarrow> 'z kstate_scheme" where
  "woken c s = s\<lparr>ptable := (\<lambda>i. if i < NPROC then wake_proc c (ptable s i) else ptable s i)\<rparr>"

lemma wakeup1_eq: "wakeup1 c s = Done () (woken c s)"
  by (simp add: wakeup1_def woken_def)

lemma woken_simps [simp]:
  "cpus (woken c s) = cpus s" "me (woken c s) = me s" "locks (woken c s) = locks s"
  "woken c (held l s) = held l (woken c s)"
  "cli_ok (woken c s) = cli_ok s" "lock_free l (woken c s) = lock_free l s"
  by (simp_all add: woken_def cong: if_cong)

lemma wakeup_eq:
  assumes "cli_ok s" "lock_free Lk_ptable s"
  shows "wakeup c s = Done () (woken (Some c) s)"
  using assms by (simp add: wakeup_eqs seqk_def bind_def acquire_free wakeup1_eq)

lemma held_commute: "l \<noteq> k \<Longrightarrow> held l (held k s) = held k (held l s)"
  by (simp add: held_def upd_lock_def upd_mycpu_def fun_upd_twist)

lemma sleep_eq:
  assumes "cli_ok s" "ncli (mycpu s) = 0" "lock_free lk s" "lock_free Lk_ptable s"
    and "lk \<noteq> Lk_ptable" "curproc (mycpu s) = Some p"
  shows "sleep c lk (held lk s) =
    Sleep (held Lk_ptable (upd_proc p (\<lambda>q. q\<lparr>chan := Some c, pstate := SLEEPING\<rparr>) s))"
proof -
  have "acquire Lk_ptable (held lk s) = Done () (held lk (held Lk_ptable s))"
    using assms by (simp add: acquire_free held_commute)
  moreover have "release lk (held lk (held Lk_ptable s)) = Done () (held Lk_ptable s)"
    using assms by simp
  ultimately show ?thesis
    using assms
    by (simp add: sleep_eqs sched_def with_proc_def seqk_def bind_def)
      (simp add: held_def upd_proc_def)
qed

text \<open>What a successful lock operation does to a state of any component.\<close>

lemma acquire_DoneD:
  assumes "acquire l s = Done () t"
  shows "locked (locks s l) = 0"
    and "locks t = (locks s)(l := (locks s l)\<lparr>locked := 1, lkcpu := Some (me s)\<rparr>)"
    and "me t = me s" "curproc (cpus t i) = curproc (cpus s i)"
    and "machine.more t = machine.more s"
  using assms
  by (auto simp: acquire_def acquire_enter_def acquire_spin_def acquire_mark_def pushcli_def xchg_def
      seqk_def bind_def upd_lock_def upd_mycpu_def split: if_splits)

lemma release_DoneD:
  assumes "release l s = Done () t"
  shows "holding l s"
    and "locks t = (locks s)(l := (locks s l)\<lparr>lkcpu := None, locked := 0\<rparr>)"
    and "me t = me s" "curproc (cpus t i) = curproc (cpus s i)"
    and "machine.more t = machine.more s"
  using assms
  by (auto simp: release_def release_enter_def release_exit_def popcli_def xchg_def Let_def
      seqk_def bind_def upd_lock_def upd_mycpu_def split: if_splits)

lemma more_kstate:
  fixes s t :: "'z kstate_scheme"
  shows "machine.more t = machine.more s \<Longrightarrow> ptable t = ptable s"
  by (cases s, cases t) simp

section \<open>The scheduler on many processors\<close>

text \<open>
  Where a CPU is: idle in the scheduler without the table lock; scanning the table at some
  entry, holding it; just switched to process \<open>k\<close>, which still holds it; or running process
  \<open>k\<close>. A step is what a CPU does between two points where another CPU can take
  \<open>ptable.lock\<close>. The steps are all the places of proc.c that change the state of a table entry:
  the scheduler, \<open>yield\<close>, \<open>sleep\<close>, \<open>wakeup\<close>, \<open>kill\<close>, the end of \<open>exit\<close>, the entry \<open>allocproc\<close>
  claims, the entry \<open>fork\<close> then makes runnable or, out of memory, gives back (both without a
  lock), and the zombie that \<open>wait\<close> frees. \<open>claim\<close> remembers the entry a process has claimed and
  not yet made runnable or given back; a process inside \<open>fork\<close> does not exit.
\<close>

datatype pmode = SchedIdle | Scan nat | Entering nat | Running nat

record psys =
  kern :: kstate
  mode :: "nat \<Rightarrow> pmode"
  claim :: "nat \<Rightarrow> nat option"

definition at_cpu :: "nat \<Rightarrow> psys \<Rightarrow> kstate" where
  "at_cpu i S = (kern S)\<lparr>me := i\<rparr>"

inductive pstep :: "psys \<Rightarrow> psys \<Rightarrow> bool" where
  scan: "mode S i = SchedIdle \<Longrightarrow> seqk sti (acquire Lk_ptable) (at_cpu i S) = Done () s \<Longrightarrow>
    pstep S (S\<lparr>kern := s, mode := (mode S)(i := Scan 0)\<rparr>)"
| skip: "mode S i = Scan k \<Longrightarrow> k < NPROC \<Longrightarrow> scheduler_dispatch k (at_cpu i S) = Done False s \<Longrightarrow>
    pstep S (S\<lparr>kern := s, mode := (mode S)(i := Scan (Suc k))\<rparr>)"
| dispatch: "mode S i = Scan k \<Longrightarrow> k < NPROC \<Longrightarrow> scheduler_dispatch k (at_cpu i S) = Done True s \<Longrightarrow>
    pstep S (S\<lparr>kern := s, mode := (mode S)(i := Entering k)\<rparr>)"
| pass: "mode S i = Scan NPROC \<Longrightarrow> release Lk_ptable (at_cpu i S) = Done () s \<Longrightarrow>
    pstep S (S\<lparr>kern := s, mode := (mode S)(i := SchedIdle)\<rparr>)"
| go: "mode S i = Entering k \<Longrightarrow> release Lk_ptable (at_cpu i S) = Done () s \<Longrightarrow>
    pstep S (S\<lparr>kern := s, mode := (mode S)(i := Running k)\<rparr>)"
| yields: "mode S i = Running k \<Longrightarrow> yield (at_cpu i S) = Sleep s \<Longrightarrow> scheduler_back s = Done () t \<Longrightarrow>
    pstep S (S\<lparr>kern := t, mode := (mode S)(i := Scan (Suc k))\<rparr>)"
| sleeps: "mode S i = Running k \<Longrightarrow> seqk (acquire lk) (sleep c lk) (at_cpu i S) = Sleep s \<Longrightarrow>
    scheduler_back s = Done () t \<Longrightarrow>
    pstep S (S\<lparr>kern := t, mode := (mode S)(i := Scan (Suc k))\<rparr>)"
| exits: "mode S i = Running k \<Longrightarrow> claim S k = None \<Longrightarrow> exit_ptable (at_cpu i S) = Sleep s \<Longrightarrow> scheduler_back s = Done () t \<Longrightarrow>
    pstep S (S\<lparr>kern := t, mode := (mode S)(i := Scan (Suc k))\<rparr>)"
| wakes: "mode S i = Running k \<Longrightarrow> wakeup c (at_cpu i S) = Done () s \<Longrightarrow>
    pstep S (S\<lparr>kern := s\<rparr>)"
| kills: "mode S i = Running k \<Longrightarrow> kill n (at_cpu i S) = Done r s \<Longrightarrow>
    pstep S (S\<lparr>kern := s\<rparr>)"
| claims: "mode S i = Running k \<Longrightarrow> claim S k = None \<Longrightarrow> allocproc_claim (at_cpu i S) = Done r s \<Longrightarrow>
    pstep S (S\<lparr>kern := s, claim := (claim S)(k := r)\<rparr>)"
| publishes: "mode S i = Running k \<Longrightarrow> claim S k = Some j \<Longrightarrow>
    modify (upd_proc j (\<lambda>q. q\<lparr>pstate := RUNNABLE\<rparr>)) (at_cpu i S) = Done () s \<Longrightarrow>
    pstep S (S\<lparr>kern := s, claim := (claim S)(k := None)\<rparr>)"
| gives_up: "mode S i = Running k \<Longrightarrow> claim S k = Some j \<Longrightarrow>
    modify (upd_proc j (\<lambda>q. q\<lparr>pstate := UNUSED\<rparr>)) (at_cpu i S) = Done () s \<Longrightarrow>
    pstep S (S\<lparr>kern := s, claim := (claim S)(k := None)\<rparr>)"
| reaps: "mode S i = Running k \<Longrightarrow> acquire Lk_ptable (at_cpu i S) = Done () s \<Longrightarrow> j < NPROC \<Longrightarrow>
    parent (ptable s j) = Some k \<Longrightarrow> pstate (ptable s j) = ZOMBIE \<Longrightarrow>
    release Lk_ptable (upd_proc j reaped s) = Done () t \<Longrightarrow>
    pstep S (S\<lparr>kern := t\<rparr>)"

definition psys_init :: "psys \<Rightarrow> bool" where
  "psys_init S \<longleftrightarrow> lock_free Lk_ptable (kern S) \<and>
     (\<forall>i. mode S i = SchedIdle \<and> curproc (cpus (kern S) i) = None) \<and> (\<forall>k. claim S k = None) \<and>
     (\<forall>k. pstate (ptable (kern S) k) \<noteq> RUNNING)"

inductive preach :: "psys \<Rightarrow> bool" where
  init: "psys_init S \<Longrightarrow> preach S"
| step: "preach S \<Longrightarrow> pstep S T \<Longrightarrow> preach T"

definition runs_on :: "pmode \<Rightarrow> nat option" where
  "runs_on m = (case m of Entering k \<Rightarrow> Some k | Running k \<Rightarrow> Some k | _ \<Rightarrow> None)"

definition locks_table :: "pmode \<Rightarrow> bool" where
  "locks_table m = (case m of Scan k \<Rightarrow> True | Entering k \<Rightarrow> True | _ \<Rightarrow> False)"

lemma mode_simps [simp]:
  "runs_on SchedIdle = None" "runs_on (Scan k) = None" "runs_on (Entering k) = Some k"
  "runs_on (Running k) = Some k" "\<not> locks_table SchedIdle" "locks_table (Scan k)"
  "locks_table (Entering k)" "\<not> locks_table (Running k)"
  by (simp_all add: runs_on_def locks_table_def)

text \<open>
  The invariant: the table lock is held by exactly the CPU that scans or enters; \<open>proc\<close> of a
  CPU is the process it runs; a process is in state RUNNING exactly when some CPU runs it.
\<close>

definition pinv :: "nat option \<Rightarrow> bool \<Rightarrow> (nat \<Rightarrow> nat option) \<Rightarrow> (nat \<Rightarrow> bool) \<Rightarrow> (nat \<Rightarrow> pmode) \<Rightarrow> bool" where
  "pinv holder lkd cur running m \<longleftrightarrow>
     (\<forall>i. holder = Some i \<longleftrightarrow> locks_table (m i)) \<and>
     (lkd \<longleftrightarrow> (\<exists>i. locks_table (m i))) \<and>
     (\<forall>i. cur i = runs_on (m i)) \<and>
     (\<forall>k. running k \<longleftrightarrow> (\<exists>i. runs_on (m i) = Some k)) \<and>
     (\<forall>i j k. runs_on (m i) = Some k \<longrightarrow> runs_on (m j) = Some k \<longrightarrow> i = j)"

definition psys_inv :: "psys \<Rightarrow> bool" where
  "psys_inv S \<longleftrightarrow> pinv (lkcpu (locks (kern S) Lk_ptable)) (locked (locks (kern S) Lk_ptable) \<noteq> 0)
     (\<lambda>i. curproc (cpus (kern S) i)) (\<lambda>k. pstate (ptable (kern S) k) = RUNNING) (mode S)"

text \<open>A claimed entry is an embryo, and claimed by one process only.\<close>

definition claims_inv :: "psys \<Rightarrow> bool" where
  "claims_inv S \<longleftrightarrow> (\<forall>k j. claim S k = Some j \<longrightarrow> pstate (ptable (kern S) j) = EMBRYO) \<and>
     (\<forall>a b j. claim S a = Some j \<longrightarrow> claim S b = Some j \<longrightarrow> a = b)"

definition embryos :: "(nat \<Rightarrow> proc) \<Rightarrow> nat set" where
  "embryos tab = {j. pstate (tab j) = EMBRYO}"

lemma lock_never_Sleep [simp]: "acquire l s \<noteq> Sleep t" "release l s \<noteq> Sleep t"
  by (auto simp: acquire_def acquire_enter_def acquire_spin_def acquire_mark_def pushcli_def xchg_def
      release_def release_enter_def release_exit_def popcli_def seqk_def bind_def Let_def
      split: if_splits)

lemma sched_SleepD:
  assumes "sched s = Sleep t"
  shows "t = s" and "\<exists>p. curproc (mycpu s) = Some p \<and> pstate (ptable s p) \<noteq> RUNNING"
  using assms by (auto simp: sched_def with_proc_def split: option.splits if_splits)

text \<open>
  \<open>switched p s t\<close>: process \<open>p\<close> of the running CPU gave up the CPU between \<open>s\<close> and \<open>t\<close>,
  taking the table lock, and no other process started or stopped running.
\<close>

definition switched :: "nat \<Rightarrow> 'z kstate_scheme \<Rightarrow> 'z kstate_scheme \<Rightarrow> bool" where
  "switched p s t \<longleftrightarrow> curproc (mycpu s) = Some p \<and> locked (locks s Lk_ptable) = 0 \<and>
     locked (locks t Lk_ptable) = 1 \<and> lkcpu (locks t Lk_ptable) = Some (me s) \<and> me t = me s \<and>
     (\<forall>i. curproc (cpus t i) = curproc (cpus s i)) \<and>
     (\<forall>k. pstate (ptable t k) = RUNNING \<longleftrightarrow> pstate (ptable s k) = RUNNING \<and> k \<noteq> p) \<and>
     embryos (ptable s) - {p} \<subseteq> embryos (ptable t)"

lemma yield_switched:
  assumes "yield s = Sleep t"
  shows "\<exists>p. switched p s t"
proof -
  obtain u p where u: "acquire Lk_ptable s = Done () u" "curproc (mycpu u) = Some p"
    "sched (upd_proc p (\<lambda>q. q\<lparr>pstate := RUNNABLE\<rparr>) u) = Sleep t"
    using assms unfolding yield_def
    by (auto elim!: seqk_SleepE simp: with_proc_def split: option.splits)
  note A = acquire_DoneD [OF u(1)] more_kstate [OF acquire_DoneD(5) [OF u(1)]]
  have "t = upd_proc p (\<lambda>q. q\<lparr>pstate := RUNNABLE\<rparr>) u"
    using u(3) by (rule sched_SleepD)
  then show ?thesis
    using A u(2) by (auto simp: switched_def embryos_def)
qed

lemma sleep_switched:
  assumes "seqk (acquire lk) (sleep c lk) s = Sleep t"
  shows "\<exists>p. switched p s t"
proof -
  let ?sl = "\<lambda>p. upd_proc p (\<lambda>q. q\<lparr>chan := Some c, pstate := SLEEPING\<rparr>)"
  obtain u where u: "acquire lk s = Done () u" "sleep c lk u = Sleep t"
    using assms by (auto elim!: seqk_SleepE)
  note A = acquire_DoneD [OF u(1)] more_kstate [OF acquire_DoneD(5) [OF u(1)]]
  from u(2) obtain p where p: "curproc (mycpu u) = Some p"
    by (auto simp: sleep_eqs bind_def split: option.splits)
  show ?thesis
  proof (cases "lk = Lk_ptable")
    case True
    then have "sched (?sl p u) = Sleep t"
      using u(2) p by (simp add: sleep_eqs bind_def seqk_def)
    then have "t = ?sl p u"
      by (rule sched_SleepD)
    then show ?thesis
      using A p True by (auto simp: switched_def embryos_def)
  next
    case False
    then obtain v w where v: "acquire Lk_ptable u = Done () v" "release lk v = Done () w"
      "sched (?sl p w) = Sleep t"
      using u(2) p by (auto simp: sleep_eqs bind_def elim!: seqk_SleepE seqk_DoneE)
    note B = acquire_DoneD [OF v(1)] more_kstate [OF acquire_DoneD(5) [OF v(1)]]
    note C = release_DoneD [OF v(2)] more_kstate [OF release_DoneD(5) [OF v(2)]]
    have "t = ?sl p w"
      using v(3) by (rule sched_SleepD)
    then show ?thesis
      using A B C p False by (auto simp: switched_def embryos_def)
  qed
qed

text \<open>\<open>wakeup1\<close> and \<open>reparent\<close> neither start nor stop a running process.\<close>

definition same_running :: "'z kstate_scheme \<Rightarrow> 'z kstate_scheme \<Rightarrow> bool" where
  "same_running s t \<longleftrightarrow> cpus t = cpus s \<and> me t = me s \<and> locks t = locks s \<and>
     (\<forall>k. pstate (ptable t k) = RUNNING \<longleftrightarrow> pstate (ptable s k) = RUNNING) \<and>
     embryos (ptable t) = embryos (ptable s)"

lemma same_running_woken: "same_running s (woken c s)"
  by (auto simp: same_running_def woken_def wake_proc_def embryos_def)

lemma same_running_refl: "same_running s s"
  by (simp add: same_running_def)

lemma same_running_trans: "same_running s t \<Longrightarrow> same_running t u \<Longrightarrow> same_running s u"
  by (auto simp: same_running_def)

lemma reparent_running:
  "\<exists>t. reparent p is s = Done () t \<and> same_running s t"
proof (induction "is" arbitrary: s)
  case Nil
  show ?case by (simp add: same_running_def)
next
  case (Cons i "is")
  let ?u = "upd_proc i (\<lambda>q. q\<lparr>parent := initproc s\<rparr>) s"
  let ?t = "if parent (ptable s i) = Some p
    then if pstate (ptable s i) = ZOMBIE then woken (map_option Ch_proc (initproc s)) ?u else ?u
    else s"
  have "same_running s ?u"
    by (auto simp: same_running_def embryos_def)
  then have "same_running s ?u" "same_running s (woken (map_option Ch_proc (initproc s)) ?u)"
    using same_running_trans [OF _ same_running_woken] by blast+
  then have "same_running s ?t"
    using same_running_refl [of s] by presburger
  moreover have "reparent p (i # is) s = reparent p is ?t"
    by (simp add: seqk_def bind_def wakeup1_eq)
  ultimately show ?case
    using Cons.IH [of ?t] same_running_trans by (metis (no_types, lifting))
qed

lemma exit_switched:
  fixes s t :: "'a kstate_scheme"
  assumes "exit_ptable s = Sleep t"
  shows "\<exists>p. switched p s t"
proof -
  let ?z = "\<lambda>p. upd_proc p (\<lambda>q. q\<lparr>pstate := ZOMBIE\<rparr>)"
  let ?halt = "panic ''zombie exit'' :: (unit, 'a kstate_scheme) kop"
  obtain u p where u: "acquire Lk_ptable s = Done () u" "curproc (mycpu u) = Some p"
    using assms unfolding exit_ptable_def
    by (auto elim!: seqk_SleepE simp: with_proc_def split: option.splits)
  define v where "v = woken (map_option Ch_proc (parent (ptable u p))) u"
  obtain w where w: "reparent p [0..<NPROC] v = Done () w" "same_running v w"
    using reparent_running by blast
  have uw: "same_running u w"
    unfolding v_def by (rule same_running_trans [OF same_running_woken w(2) [unfolded v_def]])
  have e: "exit_ptable s = seqk sched ?halt (?z p w)"
    unfolding exit_ptable_def using u(2) w(1)
    by (simp add: u(1) with_proc_def wakeup1_eq seqk_def bind_def flip: v_def)
  have "seqk sched ?halt (?z p w) = Sleep t"
    using assms unfolding e .
  then have "sched (?z p w) = Sleep t"
    by (auto elim!: seqk_SleepE)
  then have t: "t = ?z p w"
    by (rule sched_SleepD)
  show ?thesis
    using acquire_DoneD [OF u(1)] more_kstate [OF acquire_DoneD(5) [OF u(1)]] u(2) uw
    by (auto simp: t switched_def same_running_def embryos_def)
qed

lemma wakeup_running:
  assumes "wakeup c s = Done () t"
  shows "locked (locks s Lk_ptable) = 0" "locked (locks t Lk_ptable) = 0"
    "lkcpu (locks t Lk_ptable) = None" "curproc (cpus t i) = curproc (cpus s i)"
    "pstate (ptable t k) = RUNNING \<longleftrightarrow> pstate (ptable s k) = RUNNING"
    "embryos (ptable t) = embryos (ptable s)"
proof -
  obtain u where u: "acquire Lk_ptable s = Done () u" "release Lk_ptable (woken (Some c) u) = Done () t"
    using assms by (auto simp: wakeup_eqs wakeup1_eq elim!: seqk_DoneE)
  note A = acquire_DoneD [OF u(1)] more_kstate [OF acquire_DoneD(5) [OF u(1)]]
    release_DoneD [OF u(2)] more_kstate [OF release_DoneD(5) [OF u(2)]]
  show "locked (locks s Lk_ptable) = 0" "locked (locks t Lk_ptable) = 0"
    "lkcpu (locks t Lk_ptable) = None" "curproc (cpus t i) = curproc (cpus s i)"
    using A by simp_all
  show "pstate (ptable t k) = RUNNING \<longleftrightarrow> pstate (ptable s k) = RUNNING"
    "embryos (ptable t) = embryos (ptable s)"
    using A same_running_woken [of u "Some c"] by (simp_all add: same_running_def)
qed

lemma kill_running:
  assumes "kill n s = Done r t"
  shows "locked (locks s Lk_ptable) = 0" "locked (locks t Lk_ptable) = 0"
    "lkcpu (locks t Lk_ptable) = None" "curproc (cpus t i) = curproc (cpus s i)"
    "pstate (ptable t k) = RUNNING \<longleftrightarrow> pstate (ptable s k) = RUNNING"
    "embryos (ptable t) = embryos (ptable s)"
proof -
  obtain u where u: "acquire Lk_ptable s = Done () u"
    using assms by (auto simp: kill_def elim!: seqk_DoneE)
  have k: "same_running u (upd_proc j (\<lambda>p. p\<lparr>killed := True,
      pstate := (if pstate p = SLEEPING then RUNNABLE else pstate p)\<rparr>) u)" for j
    by (auto simp: same_running_def embryos_def)
  have "\<exists>v. release Lk_ptable v = Done () t \<and> same_running u v"
    using assms k same_running_refl [of u]
    by (fastforce simp: kill_def u seqk_def bind_def split: option.splits outcome.splits)
  then obtain v where v: "release Lk_ptable v = Done () t" "same_running u v"
    by blast
  note A = acquire_DoneD [OF u] more_kstate [OF acquire_DoneD(5) [OF u]]
    release_DoneD [OF v(1)] more_kstate [OF release_DoneD(5) [OF v(1)]]
  show "locked (locks s Lk_ptable) = 0" "locked (locks t Lk_ptable) = 0"
    "lkcpu (locks t Lk_ptable) = None" "curproc (cpus t i) = curproc (cpus s i)"
    "pstate (ptable t k) = RUNNING \<longleftrightarrow> pstate (ptable s k) = RUNNING"
    "embryos (ptable t) = embryos (ptable s)"
    using A v(2) by (simp_all add: same_running_def)
qed

lemma claim_running:
  assumes "allocproc_claim s = Done r t"
  shows "locked (locks s Lk_ptable) = 0" "locked (locks t Lk_ptable) = 0"
    "lkcpu (locks t Lk_ptable) = None" "curproc (cpus t i) = curproc (cpus s i)"
    "pstate (ptable t k) = RUNNING \<longleftrightarrow> pstate (ptable s k) = RUNNING"
    "embryos (ptable t) = embryos (ptable s) \<union> set_option r"
    "set_option r \<inter> embryos (ptable s) = {}"
proof -
  obtain u where u: "acquire Lk_ptable s = Done () u"
    using assms by (auto simp: allocproc_claim_def elim!: seqk_DoneE)
  have un: "unused_proc tab = Some j \<Longrightarrow> pstate (tab j) = UNUSED" for tab j
    by (auto simp: unused_proc_def find_Some_iff)
  have "\<exists>v. release Lk_ptable v = Done () t \<and> cpus v = cpus u \<and> me v = me u \<and> locks v = locks u \<and>
    (\<forall>j. pstate (ptable v j) = (if r = Some j then EMBRYO else pstate (ptable u j))) \<and>
    (\<forall>j. r = Some j \<longrightarrow> pstate (ptable u j) = UNUSED)"
    using assms un
    by (fastforce simp: allocproc_claim_def u seqk_def bind_def split: option.splits outcome.splits)
  then obtain v where v: "release Lk_ptable v = Done () t" "cpus v = cpus u" "me v = me u" "locks v = locks u"
    "\<And>j. pstate (ptable v j) = (if r = Some j then EMBRYO else pstate (ptable u j))"
    "\<And>j. r = Some j \<Longrightarrow> pstate (ptable u j) = UNUSED"
    by blast
  note A = acquire_DoneD [OF u] more_kstate [OF acquire_DoneD(5) [OF u]]
    release_DoneD [OF v(1)] more_kstate [OF release_DoneD(5) [OF v(1)]]
  show "locked (locks s Lk_ptable) = 0" "locked (locks t Lk_ptable) = 0"
    "lkcpu (locks t Lk_ptable) = None" "curproc (cpus t i) = curproc (cpus s i)"
    using A v(2-4) by simp_all
  show "pstate (ptable t k) = RUNNING \<longleftrightarrow> pstate (ptable s k) = RUNNING"
    using A v(5,6) by auto
  show "embryos (ptable t) = embryos (ptable s) \<union> set_option r" "set_option r \<inter> embryos (ptable s) = {}"
    using A v(5,6) by (auto simp: embryos_def)
qed

lemma reap_running:
  assumes "acquire Lk_ptable s = Done () u" "pstate (ptable u j) = ZOMBIE"
    "release Lk_ptable (upd_proc j reaped u) = Done () t"
  shows "locked (locks s Lk_ptable) = 0" "locked (locks t Lk_ptable) = 0"
    "lkcpu (locks t Lk_ptable) = None" "curproc (cpus t i) = curproc (cpus s i)"
    "pstate (ptable t k) = RUNNING \<longleftrightarrow> pstate (ptable s k) = RUNNING"
    "embryos (ptable t) = embryos (ptable s)"
proof -
  note A = acquire_DoneD [OF assms(1)] more_kstate [OF acquire_DoneD(5) [OF assms(1)]]
    release_DoneD [OF assms(3)] more_kstate [OF release_DoneD(5) [OF assms(3)]]
  show "locked (locks s Lk_ptable) = 0" "locked (locks t Lk_ptable) = 0"
    "lkcpu (locks t Lk_ptable) = None" "curproc (cpus t i) = curproc (cpus s i)"
    using A by simp_all
  show "pstate (ptable t k) = RUNNING \<longleftrightarrow> pstate (ptable s k) = RUNNING"
    "embryos (ptable t) = embryos (ptable s)"
    using A assms(2) by (auto simp: reaped_def embryos_def)
qed

lemma scheduler_dispatch_False: "scheduler_dispatch k s = Done False t \<Longrightarrow> t = s"
  by (auto simp: scheduler_dispatch_def seqk_def bind_def split: if_splits outcome.splits)

lemma switchuvm_DoneD:
  fixes s t :: "'z kstate_scheme"
  assumes "switchuvm k s = Done () t"
  shows "locks t = locks s" "me t = me s" "curproc (cpus t i) = curproc (cpus s i)"
    "ptable t = ptable s"
  using assms
  by (auto simp: switchuvm_def with_proc_def pushcli_def popcli_def seqk_def bind_def Let_def
      upd_mycpu_def split: if_splits option.splits)

lemma scheduler_dispatch_True:
  assumes "scheduler_dispatch k s = Done True t"
  shows "pstate (ptable s k) = RUNNABLE" "locks t = locks s"
    "curproc (cpus t i) = (if i = me s then Some k else curproc (cpus s i))"
    "pstate (ptable t j) = RUNNING \<longleftrightarrow> pstate (ptable s j) = RUNNING \<or> j = k"
    "embryos (ptable t) = embryos (ptable s)"
proof -
  let ?u = "upd_mycpu (\<lambda>c. c\<lparr>curproc := Some k\<rparr>) s"
  show r: "pstate (ptable s k) = RUNNABLE"
    using assms by (auto simp: scheduler_dispatch_def bind_def split: if_splits)
  obtain v where v: "switchuvm k ?u = Done () v" "t = upd_proc k (\<lambda>p. p\<lparr>pstate := RUNNING\<rparr>) v"
    using assms r by (auto simp: scheduler_dispatch_def bind_def elim!: seqk_DoneE)
  note A = switchuvm_DoneD [OF v(1)]
  have u: "ptable ?u = ptable s"
    by (simp add: upd_mycpu_def)
  show "locks t = locks s" "curproc (cpus t i) = (if i = me s then Some k else curproc (cpus s i))"
    "pstate (ptable t j) = RUNNING \<longleftrightarrow> pstate (ptable s j) = RUNNING \<or> j = k"
    using A u by (auto simp: v(2))
  show "embryos (ptable t) = embryos (ptable s)"
    using A u r by (auto simp: v(2) embryos_def)
qed

lemma scheduler_back_eq:
  "scheduler_back s = Done () t \<Longrightarrow> locks t = locks s \<and> ptable t = ptable s \<and>
    curproc (cpus t i) = (if i = me s then None else curproc (cpus s i))"
  by (auto simp: scheduler_back_def switchkvm_def seqk_def bind_def upd_mycpu_def)

text \<open>The invariant under each kind of step, on its five components.\<close>

lemma ex_runs_upd: "(\<exists>j. runs_on ((m(i := n)) j) = Some k) \<longleftrightarrow>
    runs_on n = Some k \<or> (\<exists>j. j \<noteq> i \<and> runs_on (m j) = Some k)"
  by auto

lemma ex_runs_split: "(\<exists>j. runs_on (m j) = Some k) \<longleftrightarrow>
    runs_on (m i) = Some k \<or> (\<exists>j. j \<noteq> i \<and> runs_on (m j) = Some k)"
  by auto

lemma pinvI:
  assumes "\<And>j. h = Some j \<longleftrightarrow> locks_table (m j)" "lk \<longleftrightarrow> (\<exists>j. locks_table (m j))"
    "\<And>j. cur j = runs_on (m j)" "\<And>k. run k \<longleftrightarrow> (\<exists>j. runs_on (m j) = Some k)"
    "\<And>a b k. runs_on (m a) = Some k \<Longrightarrow> runs_on (m b) = Some k \<Longrightarrow> a = b"
  shows "pinv h lk cur run m"
  using assms unfolding pinv_def by blast

lemma pinvD:
  assumes "pinv h lk cur run m"
  shows "h = Some j \<longleftrightarrow> locks_table (m j)" "lk \<longleftrightarrow> (\<exists>j. locks_table (m j))"
    "cur j = runs_on (m j)" "run k \<longleftrightarrow> (\<exists>j. runs_on (m j) = Some k)"
    "runs_on (m a) = Some k \<Longrightarrow> runs_on (m b) = Some k \<Longrightarrow> a = b"
  using assms unfolding pinv_def by blast+

lemma pinv_take:
  assumes "pinv h False cur run m" "m i = SchedIdle"
  shows "pinv (Some i) True cur run (m(i := Scan j))"
proof (rule pinvI)
  fix k show "run k \<longleftrightarrow> (\<exists>n. runs_on ((m(i := Scan j)) n) = Some k)"
    unfolding ex_runs_upd using pinvD(4) [OF assms(1), of k] assms(2) by (simp add: ex_runs_split [of m k i])
next
  fix a b k
  show "runs_on ((m(i := Scan j)) a) = Some k \<Longrightarrow> runs_on ((m(i := Scan j)) b) = Some k \<Longrightarrow> a = b"
    using pinvD(5) [OF assms(1), of a k b] by (simp split: if_splits)
qed (use pinvD(2,3) [OF assms(1)] assms(2) in auto)

lemma pinv_drop:
  assumes "pinv h lk cur run m" "locks_table (m i)" "\<not> locks_table n" "runs_on n = runs_on (m i)"
  shows "pinv None False cur run (m(i := n))"
proof (rule pinvI)
  have "\<not> locks_table (m j)" if "j \<noteq> i" for j
    using pinvD(1) [OF assms(1)] assms(2) that by (metis option.inject)
  then show "None = Some j \<longleftrightarrow> locks_table ((m(i := n)) j)" "False \<longleftrightarrow> (\<exists>j. locks_table ((m(i := n)) j))" for j
    using assms(3) by auto
next
  fix k show "run k \<longleftrightarrow> (\<exists>j. runs_on ((m(i := n)) j) = Some k)"
    unfolding ex_runs_upd using pinvD(4) [OF assms(1), of k] assms(4) by (simp add: ex_runs_split [of m k i])
next
  fix a b k
  show "runs_on ((m(i := n)) a) = Some k \<Longrightarrow> runs_on ((m(i := n)) b) = Some k \<Longrightarrow> a = b"
    using pinvD(5) [OF assms(1), of a k b] assms(4) by (simp split: if_splits)
qed (use pinvD(3) [OF assms(1)] assms(4) in simp)

lemma pinv_scan:
  assumes "pinv h lk cur run m" "m i = Scan k"
  shows "pinv h lk cur run (m(i := Scan j))"
proof -
  have "locks_table ((m(i := Scan j)) a) = locks_table (m a)"
    "runs_on ((m(i := Scan j)) a) = runs_on (m a)" for a
    using assms(2) by simp_all
  then show ?thesis
    using assms(1) unfolding pinv_def by presburger
qed

lemma pinv_dispatch:
  assumes "pinv h lk cur run m" "m i = Scan k" "\<not> run k"
  shows "pinv h lk (\<lambda>j. if j = i then Some k else cur j) (\<lambda>j. run j \<or> j = k) (m(i := Entering k))"
proof (rule pinvI)
  fix j show "run j \<or> j = k \<longleftrightarrow> (\<exists>a. runs_on ((m(i := Entering k)) a) = Some j)"
    unfolding ex_runs_upd using pinvD(4) [OF assms(1), of j] assms(2)
    by (auto simp: ex_runs_split [of m j i])
next
  have "runs_on (m a) \<noteq> Some k" for a
    using pinvD(4) [OF assms(1), of k] assms(3) by blast
  then show "runs_on ((m(i := Entering k)) a) = Some j \<Longrightarrow> runs_on ((m(i := Entering k)) b) = Some j \<Longrightarrow> a = b"
    for a b j
    using pinvD(5) [OF assms(1), of a j b] by (auto split: if_splits)
next
  have "locks_table ((m(i := Entering k)) a) = locks_table (m a)" for a
    using assms(2) by simp
  then show "h = Some a \<longleftrightarrow> locks_table ((m(i := Entering k)) a)"
    "lk \<longleftrightarrow> (\<exists>b. locks_table ((m(i := Entering k)) b))" for a
    using pinvD(1,2) [OF assms(1)] by presburger+
qed (use pinvD(3) [OF assms(1)] in simp)

lemma pinv_switch:
  assumes "pinv h False cur run m" "m i = Running k"
  shows "pinv (Some i) True (\<lambda>j. if j = i then None else cur j) (\<lambda>j. run j \<and> j \<noteq> k) (m(i := Scan n))"
proof (rule pinvI)
  have other: "runs_on (m j) \<noteq> Some k" if "j \<noteq> i" for j
    using pinvD(5) [OF assms(1), of j k i] assms(2) that by auto
  show "run j \<and> j \<noteq> k \<longleftrightarrow> (\<exists>a. runs_on ((m(i := Scan n)) a) = Some j)" for j
    unfolding ex_runs_upd using pinvD(4) [OF assms(1), of j] assms(2) other
    by (auto simp: ex_runs_split [of m j i])
next
  show "runs_on ((m(i := Scan n)) a) = Some j \<Longrightarrow> runs_on ((m(i := Scan n)) b) = Some j \<Longrightarrow> a = b" for a b j
    using pinvD(5) [OF assms(1), of a j b] by (simp split: if_splits)
next
  show "Some i = Some j \<longleftrightarrow> locks_table ((m(i := Scan n)) j)" for j
    using pinvD(2) [OF assms(1)] by auto
qed (use pinvD(3) [OF assms(1)] in auto)

lemma pinv_unlocked: "pinv h False cur run m \<Longrightarrow> pinv None False cur run m"
  unfolding pinv_def by auto

lemma psys_inv_switch:
  assumes "psys_inv S" "mode S i = Running k" "switched p (at_cpu i S) s" "scheduler_back s = Done () t"
  shows "psys_inv (S\<lparr>kern := t, mode := (mode S)(i := Scan (Suc k))\<rparr>)"
proof -
  have s: "locked (locks (kern S) Lk_ptable) = 0" "locked (locks s Lk_ptable) = 1"
    "lkcpu (locks s Lk_ptable) = Some i" "me s = i"
    "curproc (cpus (kern S) i) = Some p" "curproc (cpus s j) = curproc (cpus (kern S) j)"
    "pstate (ptable s n) = RUNNING \<longleftrightarrow> pstate (ptable (kern S) n) = RUNNING \<and> n \<noteq> p" for j n
    using assms(3) by (simp_all add: switched_def at_cpu_def)
  have "p = k"
    using assms(1,2) s(5) by (simp add: psys_inv_def pinv_def)
  then show ?thesis
    using assms(1,2) s scheduler_back_eq [OF assms(4)]
      pinv_switch [of "lkcpu (locks (kern S) Lk_ptable)" "\<lambda>i. curproc (cpus (kern S) i)"
        "\<lambda>k. pstate (ptable (kern S) k) = RUNNING" "mode S" i k "Suc k"]
    by (simp add: psys_inv_def cong: if_cong)
qed

lemma psys_inv_step:
  assumes "pstep S T" "claims_inv S" "psys_inv S"
  shows "psys_inv T"
  using assms
proof (induction rule: pstep.induct)
  case (scan S i s)
  let ?u = "upd_mycpu (\<lambda>c. c\<lparr>eflags_if := True\<rparr>) (at_cpu i S)"
  have u: "acquire Lk_ptable ?u = Done () s"
    using scan.hyps by (simp add: sti_def seqk_def bind_def)
  have "ptable ?u = ptable (kern S)" "\<And>j. curproc (cpus ?u j) = curproc (cpus (kern S) j)"
    by (simp_all add: at_cpu_def upd_mycpu_def)
  then show ?case
    using acquire_DoneD [OF u] more_kstate [OF acquire_DoneD(5) [OF u]] scan.prems scan.hyps(1)
      pinv_take [of _ _ _ "mode S" i 0]
    by (simp add: psys_inv_def at_cpu_def)
next
  case (skip S i k s)
  then show ?case
    using scheduler_dispatch_False [OF skip.hyps(3)] pinv_scan [of _ _ _ _ "mode S" i k]
    by (simp add: psys_inv_def at_cpu_def)
next
  case (dispatch S i k s)
  then show ?case
    using scheduler_dispatch_True [OF dispatch.hyps(3)]
      pinv_dispatch [of _ _ _ "\<lambda>k. pstate (ptable (kern S) k) = RUNNING" "mode S" i k]
    by (simp add: psys_inv_def at_cpu_def cong: if_cong)
next
  case (pass S i s)
  then show ?case
    using release_DoneD [OF pass.hyps(2)] more_kstate [OF release_DoneD(5) [OF pass.hyps(2)]]
      pinv_drop [of _ _ _ _ "mode S" i SchedIdle]
    by (simp add: psys_inv_def at_cpu_def)
next
  case (go S i k s)
  then show ?case
    using release_DoneD [OF go.hyps(2)] more_kstate [OF release_DoneD(5) [OF go.hyps(2)]]
      pinv_drop [of _ _ _ _ "mode S" i "Running k"]
    by (simp add: psys_inv_def at_cpu_def)
next
  case (yields S i k s t)
  then show ?case
    using yield_switched psys_inv_switch by blast
next
  case (sleeps S i k lk c s t)
  then show ?case
    using sleep_switched psys_inv_switch by blast
next
  case (exits S i k s t)
  then show ?case
    using exit_switched psys_inv_switch by blast
next
  case (wakes S i k c s)
  then show ?case
    using wakeup_running [OF wakes.hyps(2)] pinv_unlocked
    by (simp add: psys_inv_def at_cpu_def)
next
  case (kills S i k n r s)
  then show ?case
    using kill_running [OF kills.hyps(2)] pinv_unlocked
    by (simp add: psys_inv_def at_cpu_def)
next
  case (claims S i k r s)
  then show ?case
    using claim_running [OF claims.hyps(3)] pinv_unlocked
    by (simp add: psys_inv_def at_cpu_def)
next
  case (publishes S i k j s)
  then have "pstate (ptable (kern S) j) = EMBRYO"
    by (simp add: claims_inv_def)
  then have "pstate (ptable s n) = RUNNING \<longleftrightarrow> pstate (ptable (kern S) n) = RUNNING"
    "locks s = locks (kern S)" "cpus s = cpus (kern S)" for n
    using publishes.hyps(3) by (auto simp: at_cpu_def split: if_splits)
  then show ?case
    using publishes.prems(2) by (simp add: psys_inv_def)
next
  case (gives_up S i k j s)
  then have "pstate (ptable (kern S) j) = EMBRYO"
    by (simp add: claims_inv_def)
  then have "pstate (ptable s n) = RUNNING \<longleftrightarrow> pstate (ptable (kern S) n) = RUNNING"
    "locks s = locks (kern S)" "cpus s = cpus (kern S)" for n
    using gives_up.hyps(3) by (auto simp: at_cpu_def split: if_splits)
  then show ?case
    using gives_up.prems(2) by (simp add: psys_inv_def)
next
  case (reaps S i k s j t)
  then show ?case
    using reap_running [OF reaps.hyps(2,5,6)] pinv_unlocked
    by (simp add: psys_inv_def at_cpu_def)
qed

lemma claims_inv_upd:
  assumes "claims_inv S" "embryos (ptable (kern S)) \<subseteq> embryos (ptable s)"
  shows "claims_inv (S\<lparr>kern := s\<rparr>)" "claims_inv (S\<lparr>kern := s, mode := m\<rparr>)"
  using assms by (auto simp: claims_inv_def embryos_def)

lemma claims_inv_drop:
  assumes "claims_inv S" "claim S k = Some j" "\<And>n. n \<noteq> j \<Longrightarrow> ptable s n = ptable (kern S) n"
  shows "claims_inv (S\<lparr>kern := s, claim := (claim S)(k := None)\<rparr>)"
proof -
  have "n \<noteq> j" if "a \<noteq> k" "claim S a = Some n" for a n
    using assms(1,2) that by (auto simp: claims_inv_def)
  then show ?thesis
    using assms by (auto simp: claims_inv_def)
qed

lemma claims_inv_switch:
  assumes "claims_inv S" "psys_inv S" "mode S i = Running k" "switched p (at_cpu i S) s"
    "scheduler_back s = Done () t"
  shows "claims_inv (S\<lparr>kern := t, mode := m\<rparr>)"
proof (rule claims_inv_upd(2) [OF assms(1)])
  have "curproc (cpus (kern S) i) = Some p"
    using assms(4) by (simp add: switched_def at_cpu_def)
  then have "pstate (ptable (kern S) p) = RUNNING"
    using pinvD(3,4) [OF assms(2) [unfolded psys_inv_def]] by metis
  then have "p \<notin> embryos (ptable (kern S))"
    by (simp add: embryos_def)
  then show "embryos (ptable (kern S)) \<subseteq> embryos (ptable t)"
    using assms(4) scheduler_back_eq [OF assms(5)] by (auto simp: switched_def at_cpu_def)
qed

lemma claims_inv_step:
  assumes "pstep S T" "psys_inv S" "claims_inv S"
  shows "claims_inv T"
  using assms
proof (induction rule: pstep.induct)
  case (scan S i s)
  let ?u = "upd_mycpu (\<lambda>c. c\<lparr>eflags_if := True\<rparr>) (at_cpu i S)"
  have u: "acquire Lk_ptable ?u = Done () s"
    using scan.hyps by (simp add: sti_def seqk_def bind_def)
  have "ptable ?u = ptable (kern S)"
    by (simp add: at_cpu_def upd_mycpu_def)
  then show ?case
    using more_kstate [OF acquire_DoneD(5) [OF u]] scan.prems claims_inv_upd by simp
next
  case (skip S i k s)
  then show ?case
    using scheduler_dispatch_False [OF skip.hyps(3)] claims_inv_upd by (simp add: at_cpu_def)
next
  case (dispatch S i k s)
  then show ?case
    using scheduler_dispatch_True(5) [OF dispatch.hyps(3)] claims_inv_upd by (simp add: at_cpu_def)
next
  case (pass S i s)
  then show ?case
    using more_kstate [OF release_DoneD(5) [OF pass.hyps(2)]] claims_inv_upd by (simp add: at_cpu_def)
next
  case (go S i k s)
  then show ?case
    using more_kstate [OF release_DoneD(5) [OF go.hyps(2)]] claims_inv_upd by (simp add: at_cpu_def)
next
  case (yields S i k s t)
  then show ?case
    using yield_switched claims_inv_switch by blast
next
  case (sleeps S i k lk c s t)
  then show ?case
    using sleep_switched claims_inv_switch by blast
next
  case (exits S i k s t)
  then show ?case
    using exit_switched claims_inv_switch by blast
next
  case (wakes S i k c s)
  then show ?case
    using wakeup_running(6) [OF wakes.hyps(2)] claims_inv_upd by (simp add: at_cpu_def)
next
  case (kills S i k n r s)
  then show ?case
    using kill_running(6) [OF kills.hyps(2)] claims_inv_upd by (simp add: at_cpu_def)
next
  case (claims S i k r s)
  then show ?case
    using claim_running(6,7) [OF claims.hyps(3)]
    by (auto simp: at_cpu_def claims_inv_def embryos_def set_eq_iff split: if_splits)
next
  case (publishes S i k j s)
  then show ?case
    by (intro claims_inv_drop) (auto simp: at_cpu_def)
next
  case (gives_up S i k j s)
  then show ?case
    by (intro claims_inv_drop) (auto simp: at_cpu_def)
next
  case (reaps S i k s j t)
  then show ?case
    using reap_running(6) [OF reaps.hyps(2,5,6)] claims_inv_upd by (simp add: at_cpu_def)
qed

lemma preach_invs: "preach S \<Longrightarrow> psys_inv S \<and> claims_inv S"
proof (induction rule: preach.induct)
  case (init S)
  then show ?case by (simp add: psys_init_def psys_inv_def claims_inv_def pinv_def lock_free_def)
next
  case (step S T)
  then show ?case using psys_inv_step claims_inv_step by blast
qed

lemmas preach_inv = preach_invs [THEN conjunct1]

section \<open>Boot state\<close>

text \<open>Static storage is zero when the kernel starts; \<open>kstate0\<close> is the state before \<open>main\<close>,
  with interrupts on.\<close>

definition trapframe0 :: trapframe where
  "trapframe0 = \<lparr>tf_edi = 0, tf_esi = 0, tf_ebp = 0, tf_ebx = 0, tf_edx = 0, tf_ecx = 0, tf_eax = 0,
     tf_gs = 0, tf_fs = 0, tf_es = 0, tf_ds = 0, tf_trapno = 0, tf_err = 0, tf_eip = 0, tf_cs = 0,
     tf_eflags = 0, tf_esp = 0, tf_ss = 0\<rparr>"

definition proc0 :: proc where
  "proc0 = \<lparr>sz = 0, pgdir = 0, kstack = 0, pstate = UNUSED, pid = 0, parent = None, tf = trapframe0,
     chan = None, killed = False, ofile = (\<lambda>_. None), cwd = None, pname = replicate 16 0\<rparr>"

definition cpu0 :: cpu where
  "cpu0 = \<lparr>ncli = 0, intena = True, eflags_if = True, curproc = None, esp0 = 0, cr3 = 0\<rparr>"

definition spinlock0 :: spinlock where
  "spinlock0 = \<lparr>locked = 0, lkname = [], lkcpu = None\<rparr>"

definition kstate0 :: kstate where
  "kstate0 = \<lparr>cpus = (\<lambda>_. cpu0), me = 0, locks = (\<lambda>_. spinlock0), ptable = (\<lambda>_. proc0),
     nextpid = 1, initproc = None, ticks = 0, kpgdir = 0\<rparr>"

lemmas boot_defs = kstate0_def cpu0_def spinlock0_def proc0_def

lemma boot_ok [simp]: "cli_ok kstate0" "lock_free l kstate0"
  by (simp_all add: boot_defs cli_ok_def lock_free_def)

section \<open>Sleep and wakeup on two processors\<close>

text \<open>
  CPUs that each run a sequence of kernel operations, interleaved between any two of them. An
  \<open>acquire\<close> is a step when it gets the lock (until then the CPU spins), and a process that
  switches away leaves its CPU to the scheduler, which lets go of the table lock.
\<close>

record wsys =
  wkern :: kstate
  code :: "nat \<Rightarrow> (unit, kstate) kop list"

inductive wstep :: "wsys \<Rightarrow> wsys \<Rightarrow> bool" where
  runs: "code S i = m # ms \<Longrightarrow> m ((wkern S)\<lparr>me := i\<rparr>) = Done () s \<Longrightarrow>
    wstep S (S\<lparr>wkern := s, code := (code S)(i := ms)\<rparr>)"
| leaves: "code S i = m # ms \<Longrightarrow> m ((wkern S)\<lparr>me := i\<rparr>) = Sleep s \<Longrightarrow> scheduler_back s = Done () t \<Longrightarrow>
    wstep S (S\<lparr>wkern := t, code := (code S)(i := [release Lk_ptable])\<rparr>)"

text \<open>
  The owner of a lock, and a CPU with \<open>n\<close> open \<open>pushcli\<close> calls.
\<close>

definition lock_at :: "lockid \<Rightarrow> nat option \<Rightarrow> 'z machine_scheme \<Rightarrow> bool" where
  "lock_at l ow s \<longleftrightarrow> lkcpu (locks s l) = ow \<and> (locked (locks s l) = 0 \<longleftrightarrow> ow = None)"

definition cpu_at :: "nat \<Rightarrow> int \<Rightarrow> 'z machine_scheme \<Rightarrow> bool" where
  "cpu_at i n s \<longleftrightarrow> ncli (cpus s i) = n \<and> (0 < n \<longrightarrow> \<not> eflags_if (cpus s i)) \<and>
     (n = 0 \<longrightarrow> intena (cpus s i) = eflags_if (cpus s i))"

text \<open>
  The race: the process \<open>p\<close> on CPU \<open>a\<close> has found, with the lock \<open>lk\<close> held, that it has to wait
  and calls \<open>sleep\<close>; CPU \<open>b\<close> is about to take the same lock, to change what \<open>p\<close> waits for, and to
  call \<open>wakeup\<close> before it releases the lock.
\<close>

definition waker_code :: "chan \<Rightarrow> lockid \<Rightarrow> (unit, 'z kstate_scheme) kop list" where
  "waker_code c lk = [acquire lk] @ wakeup_code c @ [release lk]"

definition race :: "nat \<Rightarrow> nat \<Rightarrow> nat \<Rightarrow> chan \<Rightarrow> lockid \<Rightarrow> wsys \<Rightarrow> bool" where
  "race a b p c lk S \<longleftrightarrow> a \<noteq> b \<and> lk \<noteq> Lk_ptable \<and> p < NPROC \<and>
     lock_at lk (Some a) (wkern S) \<and> lock_at Lk_ptable None (wkern S) \<and>
     cpu_at a 1 (wkern S) \<and> cpu_at b 0 (wkern S) \<and> curproc (cpus (wkern S) a) = Some p \<and>
     pstate (ptable (wkern S) p) = RUNNING \<and>
     code S = (\<lambda>_. [])(a := sleep_code p c lk, b := waker_code c lk)"

lemma view_me [simp]:
  "lock_at l ow (s\<lparr>me := i\<rparr>) = lock_at l ow s" "cpu_at j n (s\<lparr>me := i\<rparr>) = cpu_at j n s"
  "ptable ((s :: 'z kstate_scheme)\<lparr>me := i\<rparr>) = ptable s"
  by (simp_all add: lock_at_def cpu_at_def)

lemma view_upd_proc [simp]:
  "lock_at l ow (upd_proc p f s) = lock_at l ow s" "cpu_at j n (upd_proc p f s) = cpu_at j n s"
  by (simp_all add: lock_at_def cpu_at_def)

lemma view_woken [simp]:
  "lock_at l ow (woken c s) = lock_at l ow s" "cpu_at j n (woken c s) = cpu_at j n s"
  by (simp_all add: lock_at_def cpu_at_def)

lemma woken_entry: "ptable (woken c s) i = (if i < NPROC then wake_proc c (ptable s i) else ptable s i)"
  by (simp add: woken_def)

lemma acquire_view:
  assumes "lock_at l None s" "cpu_at (me s) n s" "0 \<le> n"
  shows "acquire l s = Done () (held l s)"
  using assms by (intro acquire_free) (auto simp: lock_at_def cpu_at_def lock_free_def cli_ok_def)

lemma acquire_busy:
  assumes "lock_at l (Some i) s" "i \<noteq> me s"
  shows "\<exists>t. acquire l s = Spin t"
  using assms
  by (simp add: acquire_def acquire_enter_def acquire_spin_def pushcli_def xchg_def holding_def lock_at_def
      seqk_def bind_def)

lemma view_held:
  "lock_at k ow (held l s) \<longleftrightarrow> (if k = l then ow = Some (me s) else lock_at k ow s)"
  "cpu_at i n s \<Longrightarrow> i \<noteq> me s \<Longrightarrow> cpu_at i n (held l s)"
  "cpu_at (me s) n s \<Longrightarrow> 0 \<le> n \<Longrightarrow> cpu_at (me s) (n + 1) (held l s)"
  by (auto simp: lock_at_def cpu_at_def) (simp_all add: held_def)

definition unheld :: "lockid \<Rightarrow> 'z machine_scheme \<Rightarrow> 'z machine_scheme" where
  "unheld l s = upd_mycpu (\<lambda>c. c\<lparr>ncli := ncli c - 1, eflags_if := ncli c = 1 \<and> intena c\<rparr>)
     (upd_lock l (\<lambda>k. k\<lparr>lkcpu := None, locked := 0\<rparr>) s)"

lemma release_view:
  assumes "lock_at l (Some (me s)) s" "cpu_at (me s) n s" "0 < n"
  shows "release l s = Done () (unheld l s)"
  using assms
  by (cases "mycpu s") (auto simp: release_def release_enter_def release_exit_def popcli_def xchg_def
      holding_def lock_at_def cpu_at_def unheld_def seqk_def bind_def Let_def upd_mycpu_def upd_lock_def)

lemma view_unheld:
  "lock_at k ow (unheld l s) \<longleftrightarrow> (if k = l then ow = None else lock_at k ow s)"
  "cpu_at i n s \<Longrightarrow> i \<noteq> me s \<Longrightarrow> cpu_at i n (unheld l s)"
  "cpu_at (me s) n s \<Longrightarrow> 0 < n \<Longrightarrow> cpu_at (me s) (n - 1) (unheld l s)"
  "curproc (cpus (unheld l s) i) = curproc (cpus s i)"
  "me (unheld l s) = me s" "ptable (unheld l (t :: 'z kstate_scheme)) = ptable t"
  by (auto simp: lock_at_def cpu_at_def unheld_def) (auto simp: upd_mycpu_def upd_lock_def)

definition sleeper_left :: "nat \<Rightarrow> chan \<Rightarrow> lockid \<Rightarrow> nat \<Rightarrow> (unit, 'z kstate_scheme) kop list" where
  "sleeper_left p c lk x = (if x \<le> 3 then drop x (sleep_code p c lk) else if x = 4 then [release Lk_ptable] else [])"

definition race_at :: "nat \<Rightarrow> nat \<Rightarrow> nat \<Rightarrow> chan \<Rightarrow> lockid \<Rightarrow> nat \<Rightarrow> nat \<Rightarrow> wsys \<Rightarrow> bool" where
  "race_at a b p c lk x y S \<longleftrightarrow> x \<le> 5 \<and> y \<le> 5 \<and> (x \<le> 1 \<longrightarrow> y = 0) \<and> (2 \<le> y \<longrightarrow> x = 5) \<and>
     lock_at lk (if x \<le> 1 then Some a else if 1 \<le> y \<and> y \<le> 4 then Some b else None) (wkern S) \<and>
     lock_at Lk_ptable (if 1 \<le> x \<and> x \<le> 4 then Some a else if y = 2 \<or> y = 3 then Some b else None) (wkern S) \<and>
     cpu_at a ([1, 2, 1, 1, 1, 0] ! x) (wkern S) \<and> cpu_at b ([0, 1, 2, 2, 1, 0] ! y) (wkern S) \<and>
     (x \<le> 3 \<longrightarrow> curproc (cpus (wkern S) a) = Some p) \<and>
     (x \<le> 2 \<longrightarrow> pstate (ptable (wkern S) p) = RUNNING) \<and>
     (3 \<le> x \<and> y \<le> 2 \<longrightarrow> pstate (ptable (wkern S) p) = SLEEPING \<and> chan (ptable (wkern S) p) = Some c) \<and>
     (3 \<le> y \<longrightarrow> pstate (ptable (wkern S) p) = RUNNABLE) \<and>
     code S = (\<lambda>_. [])(a := sleeper_left p c lk x, b := drop y (waker_code c lk))"

lemma race_at_0: "race a b p c lk S \<Longrightarrow> race_at a b p c lk 0 0 S"
  by (simp add: race_def race_at_def sleeper_left_def)

lemma sched_view:
  assumes "lock_at Lk_ptable (Some (me s)) s" "cpu_at (me s) 1 s" "curproc (mycpu s) = Some p"
    "pstate (ptable s p) \<noteq> RUNNING"
  shows "sched s = Sleep s"
  using assms by (auto simp: sched_def with_proc_def holding_def lock_at_def cpu_at_def)

definition benched :: "'z kstate_scheme \<Rightarrow> 'z kstate_scheme" where
  "benched s = upd_mycpu (\<lambda>c. c\<lparr>curproc := None\<rparr>) (upd_mycpu (\<lambda>c. c\<lparr>cr3 := v2p (kpgdir s)\<rparr>) s)"

lemma back_view: "scheduler_back s = Done () (benched s)"
  by (simp add: scheduler_back_def switchkvm_def seqk_def bind_def benched_def)

lemma view_benched [simp]:
  "lock_at l ow (benched s) = lock_at l ow s" "cpu_at i n (benched s) = cpu_at i n s"
  "ptable (benched s) = ptable s"
  by (simp_all add: lock_at_def cpu_at_def benched_def) (simp_all add: upd_mycpu_def)

text \<open>What each side does next, and when it can.\<close>

definition go_a :: "nat \<Rightarrow> nat \<Rightarrow> chan \<Rightarrow> lockid \<Rightarrow> nat \<Rightarrow> kstate \<Rightarrow> kstate" where
  "go_a a p c lk x k = (let s = k\<lparr>me := a\<rparr> in
     if x = 0 then held Lk_ptable s else if x = 1 then unheld lk s
     else if x = 2 then upd_proc p (\<lambda>q. q\<lparr>chan := Some c, pstate := SLEEPING\<rparr>) s
     else if x = 3 then benched s else unheld Lk_ptable s)"

definition go_b :: "nat \<Rightarrow> chan \<Rightarrow> lockid \<Rightarrow> nat \<Rightarrow> kstate \<Rightarrow> kstate" where
  "go_b b c lk y k = (let s = k\<lparr>me := b\<rparr> in
     if y = 0 then held lk s else if y = 1 then held Lk_ptable s
     else if y = 2 then woken (Some c) s else if y = 3 then unheld Lk_ptable s else unheld lk s)"

lemma race_go_a:
  assumes "a \<noteq> b" "lk \<noteq> Lk_ptable" "race_at a b p c lk x y S" "x < 5"
  shows "race_at a b p c lk (Suc x) y
    (S\<lparr>wkern := go_a a p c lk x (wkern S), code := (code S)(a := sleeper_left p c lk (Suc x))\<rparr>)"
proof -
  have "x = 0 \<or> x = 1 \<or> x = 2 \<or> x = 3 \<or> x = 4"
    using assms(4) by arith
  then show ?thesis
    using assms(1-3) view_held(3) [of "(wkern S)\<lparr>me := a\<rparr>" 1] view_unheld(3) [of "(wkern S)\<lparr>me := a\<rparr>" 2]
      view_unheld(3) [of "(wkern S)\<lparr>me := a\<rparr>" 1]
    by (elim disjE) (auto simp: race_at_def go_a_def view_held view_unheld fun_upd_twist numeral_eq_Suc)
qed


lemma race_go_b:
  assumes "a \<noteq> b" "lk \<noteq> Lk_ptable" "p < NPROC" "race_at a b p c lk x y S" "y < 5"
    "y = 0 \<Longrightarrow> 2 \<le> x" "y = 1 \<Longrightarrow> x = 5"
  shows "race_at a b p c lk x (Suc y)
    (S\<lparr>wkern := go_b b c lk y (wkern S), code := (code S)(b := drop (Suc y) (waker_code c lk))\<rparr>)"
proof -
  have "y = 0 \<or> y = 1 \<or> y = 2 \<or> y = 3 \<or> y = 4"
    using assms(5) by arith
  then show ?thesis
    using assms(1-4,6,7) view_held(3) [of "(wkern S)\<lparr>me := b\<rparr>" 0] view_held(3) [of "(wkern S)\<lparr>me := b\<rparr>" 1]
      view_unheld(3) [of "(wkern S)\<lparr>me := b\<rparr>" 2] view_unheld(3) [of "(wkern S)\<lparr>me := b\<rparr>" 1]
    by (elim disjE) (auto simp: race_at_def go_b_def view_held view_unheld woken_entry wake_proc_def numeral_eq_Suc)
qed

lemma race_next_a:
  assumes "a \<noteq> b" "lk \<noteq> Lk_ptable" "race_at a b p c lk x y S" "x < 5"
  shows "\<exists>m ms. code S a = m # ms \<and>
    (m ((wkern S)\<lparr>me := a\<rparr>) = Done () (go_a a p c lk x (wkern S)) \<and> ms = sleeper_left p c lk (Suc x) \<or>
     m ((wkern S)\<lparr>me := a\<rparr>) = Sleep ((wkern S)\<lparr>me := a\<rparr>) \<and>
     scheduler_back ((wkern S)\<lparr>me := a\<rparr>) = Done () (go_a a p c lk x (wkern S)) \<and>
     sleeper_left p c lk (Suc x) = ([release Lk_ptable] :: (unit, kstate) kop list))"
proof -
  have "x = 0 \<or> x = 1 \<or> x = 2 \<or> x = 3 \<or> x = 4"
    using assms(4) by arith
  then show ?thesis
    using assms(1-3)
    by (elim disjE) (auto simp: race_at_def go_a_def sleeper_left_def sleep_code_def back_view
        numeral_eq_Suc intro!: acquire_view release_view sched_view)
qed

lemma race_next_b:
  assumes "a \<noteq> b" "lk \<noteq> Lk_ptable" "race_at a b p c lk x y S" "y < 5"
  shows "\<exists>m. code S b = m # drop (Suc y) (waker_code c lk) \<and>
    (if y = 0 \<and> x < 2 \<or> y = 1 \<and> x < 5 then \<exists>t. m ((wkern S)\<lparr>me := b\<rparr>) = Spin t
     else m ((wkern S)\<lparr>me := b\<rparr>) = Done () (go_b b c lk y (wkern S)))"
proof -
  have "y = 0 \<or> y = 1 \<or> y = 2 \<or> y = 3 \<or> y = 4"
    using assms(4) by arith
  then show ?thesis
    using assms(1-3)
    by (elim disjE) (auto simp: race_at_def go_b_def waker_code_def wakeup_code_def wakeup1_eq
        numeral_eq_Suc intro!: acquire_view release_view acquire_busy)
qed


lemma race_step:
  assumes ab: "a \<noteq> b" "lk \<noteq> Lk_ptable" and p: "p < NPROC" and R: "race_at a b p c lk x y S" and W: "wstep S T"
  shows "race_at a b p c lk (Suc x) y T \<or> race_at a b p c lk x (Suc y) T"
proof -
  obtain i m ms where i: "code S i = m # ms"
    and T: "(\<exists>s. m ((wkern S)\<lparr>me := i\<rparr>) = Done () s \<and> T = S\<lparr>wkern := s, code := (code S)(i := ms)\<rparr>) \<or>
      (\<exists>s t. m ((wkern S)\<lparr>me := i\<rparr>) = Sleep s \<and> scheduler_back s = Done () t \<and>
        T = S\<lparr>wkern := t, code := (code S)(i := [release Lk_ptable])\<rparr>)"
    using W by (cases rule: wstep.cases) blast+
  have code: "code S = (\<lambda>_. [])(a := sleeper_left p c lk x, b := drop y (waker_code c lk))" "x \<le> 5" "y \<le> 5"
    using R by (simp_all add: race_at_def)
  consider "i = a" | "i = b"
    using i code(1) by (auto split: if_splits)
  then show ?thesis
  proof cases
    case 1
    then have "x < 5"
      using i code ab(1) by (cases "x = 5") (auto simp: sleeper_left_def)
    then have "T = S\<lparr>wkern := go_a a p c lk x (wkern S), code := (code S)(a := sleeper_left p c lk (Suc x))\<rparr>"
      using race_next_a [OF ab R] i T 1 by auto
    then show ?thesis
      using race_go_a [OF ab R \<open>x < 5\<close>] by simp
  next
    case 2
    then have y: "y < 5"
      using i code ab(1) by (cases "y = 5") (auto simp: waker_code_def wakeup_code_def)
    have "\<not> (y = 0 \<and> x < 2 \<or> y = 1 \<and> x < 5)"
      and "T = S\<lparr>wkern := go_b b c lk y (wkern S), code := (code S)(b := drop (Suc y) (waker_code c lk))\<rparr>"
      using race_next_b [OF ab R y] i T 2 by (auto split: if_splits)
    then show ?thesis
      using race_go_b [OF ab p R y] code(2) by fastforce
  qed
qed

lemma race_progress:
  assumes ab: "a \<noteq> b" "lk \<noteq> Lk_ptable" and R: "race_at a b p c lk x y S" and xy: "x < 5 \<or> y < 5"
  shows "\<exists>T. wstep S T"
proof (cases "x < 5")
  case True
  then show ?thesis
    using race_next_a [OF ab R] wstep.intros [of S a] by blast
next
  case False
  then show ?thesis
    using xy race_next_b [OF ab R] wstep.runs [of S b] by fastforce
qed

lemma race_steps:
  assumes "(wstep ^^ n) S T" "race a b p c lk S"
  shows "\<exists>x y. race_at a b p c lk x y T \<and> n = x + y"
  using assms(1)
proof (induction n arbitrary: T)
  case 0
  then show ?case using race_at_0 [OF assms(2)] by auto
next
  case (Suc n)
  then obtain U where "(wstep ^^ n) S U" and W: "wstep U T"
    by (auto elim!: relpowp_Suc_E)
  then obtain x y where U: "race_at a b p c lk x y U" "n = x + y"
    using Suc.IH by blast
  have "a \<noteq> b" "lk \<noteq> Lk_ptable" "p < NPROC"
    using assms(2) by (simp_all add: race_def)
  then have "race_at a b p c lk (Suc x) y T \<or> race_at a b p c lk x (Suc y) T"
    using race_step U(1) W by blast
  then show ?case
    using U(2) by (metis add_Suc add_Suc_right)
qed

section \<open>Properties\<close>

text \<open>C14 (one CPU per process). In every state that the schedulers of any number of CPUs can
  reach, while processes yield, sleep, wake and kill each other, exit, fork and wait for their
  children (so that table entries are claimed, made runnable, given back and reused), no two CPUs
  have the same current process, and a process is in state \<open>RUNNING\<close> exactly when it is the current
  process of some CPU.\<close>

theorem running_on_one_cpu:
  assumes "preach S"
  shows "(curproc (cpus (kern S) i) = Some k \<and> curproc (cpus (kern S) j) = Some k \<longrightarrow> i = j) \<and>
    (pstate (ptable (kern S) k) = RUNNING \<longleftrightarrow> (\<exists>n. curproc (cpus (kern S) n) = Some k))"
  using pinvD(3,4,5) [OF preach_inv [OF assms, unfolded psys_inv_def]] by metis

lemma preach_running: "\<exists>S. preach S \<and> curproc (cpus (kern S) 1) = Some 0"
proof -
  let ?s = "kstate0\<lparr>ptable := (\<lambda>i. proc0\<lparr>pstate := RUNNABLE, pgdir := 4096\<rparr>)\<rparr>"
  let ?S = "\<lparr>kern = ?s, mode = (\<lambda>_. SchedIdle), claim = (\<lambda>_. None)\<rparr>"
  have "preach ?S"
    by (rule preach.init) (simp add: psys_init_def boot_defs lock_free_def)
  moreover have "seqk sti (acquire Lk_ptable) (at_cpu 1 ?S) = Done () (held Lk_ptable (?s\<lparr>me := 1\<rparr>))"
  proof -
    have "sti (at_cpu 1 ?S) = Done () (?s\<lparr>me := 1\<rparr>)"
      by (simp add: at_cpu_def sti_def upd_mycpu_def boot_defs fun_upd_idem)
    moreover have "cli_ok (?s\<lparr>me := 1\<rparr>)" "lock_free Lk_ptable (?s\<lparr>me := 1\<rparr>)"
      by (simp_all add: boot_defs cli_ok_def lock_free_def)
    ultimately show ?thesis
      by (simp add: seqk_def bind_def acquire_free)
  qed
  ultimately obtain T where T: "preach T" "mode T 1 = Scan 0"
    "kern T = held Lk_ptable (?s\<lparr>me := 1\<rparr>)"
    using preach.step pstep.scan [of ?S 1] by fastforce
  have "\<exists>u. scheduler_dispatch 0 (at_cpu 1 T) = Done True u \<and> curproc (cpus u 1) = Some 0"
    by (simp add: T(3) at_cpu_def scheduler_dispatch_def switchuvm_def with_proc_def pushcli_def
        popcli_def seqk_def bind_def Let_def boot_defs held_def upd_mycpu_def upd_lock_def
        upd_proc_def)
  then show ?thesis
    using preach.step [OF T(1)] pstep.dispatch [of T 1 0] T(2) by (fastforce simp: NPROC_def)
qed

theorem running_on_one_cpu_witness:
  "\<exists>S. preach S \<and> curproc (cpus (kern S) 1) = Some 0 \<and> pstate (ptable (kern S) 0) = RUNNING \<and>
    curproc (cpus (kern S) 2) \<noteq> Some 0"
proof -
  obtain S where S: "preach S" "curproc (cpus (kern S) 1) = Some 0"
    using preach_running by blast
  then show ?thesis
    using running_on_one_cpu [OF S(1), of 1 0 2] by fastforce
qed

text \<open>C15 (no lost wakeup). While a process calls \<open>sleep\<close> with a lock held, another CPU takes the
  same lock, calls \<open>wakeup\<close> on the channel and releases the lock. However the operations of the
  two are interleaved, they do not block each other: until both are done one of them can go on, and
  they are done after ten steps. The process is then runnable, with both the lock and the
  process-table lock free: the wakeup was not lost.\<close>

theorem sleep_no_lost_wakeup:
  assumes "race a b p c lk S" "(wstep ^^ n) S T"
  shows "n \<le> 10 \<and> (n < 10 \<longrightarrow> (\<exists>U. wstep T U)) \<and>
    (n = 10 \<longrightarrow> code T a = [] \<and> code T b = [] \<and> pstate (ptable (wkern T) p) = RUNNABLE \<and>
      lock_free lk (wkern T) \<and> lock_free Lk_ptable (wkern T))"
proof -
  obtain x y where R: "race_at a b p c lk x y T" "n = x + y"
    using race_steps [OF assms(2,1)] by blast
  have ab: "a \<noteq> b" "lk \<noteq> Lk_ptable"
    using assms(1) by (simp_all add: race_def)
  have le: "x \<le> 5" "y \<le> 5"
    using R(1) by (simp_all add: race_at_def)
  have "code T a = [] \<and> code T b = [] \<and> pstate (ptable (wkern T) p) = RUNNABLE \<and>
      lock_free lk (wkern T) \<and> lock_free Lk_ptable (wkern T)" if "n = 10"
  proof -
    have "x = 5" "y = 5"
      using le R(2) that by arith+
    then show ?thesis
      using R(1) ab by (simp add: race_at_def sleeper_left_def waker_code_def wakeup_code_def lock_at_def lock_free_def)
  qed
  moreover have "\<exists>U. wstep T U" if "n < 10"
  proof (rule race_progress [OF ab R(1)])
    show "x < 5 \<or> y < 5"
      using R(2) that by arith
  qed
  ultimately show ?thesis
    using le R(2) by auto
qed

definition race0 :: wsys where
  "race0 = \<lparr>wkern = kstate0\<lparr>cpus := (\<lambda>_. cpu0)(0 := cpu0\<lparr>curproc := Some 5, ncli := 1, eflags_if := False\<rparr>),
      locks := (\<lambda>_. spinlock0)(Lk_log := spinlock0\<lparr>locked := 1, lkcpu := Some 0\<rparr>),
      ptable := (\<lambda>_. proc0)(5 := proc0\<lparr>pstate := RUNNING\<rparr>)\<rparr>,
    code = (\<lambda>_. [])(0 := sleep_code 5 Ch_log Lk_log, 1 := waker_code Ch_log Lk_log)\<rparr>"

lemma race0: "race 0 1 5 Ch_log Lk_log race0"
  by (simp add: race_def race0_def lock_at_def cpu_at_def boot_defs NPROC_def)

theorem sleep_no_lost_wakeup_witness:
  "\<exists>T. (wstep ^^ 10) race0 T \<and> pstate (ptable (wkern T) 5) = RUNNABLE"
proof -
  have "\<exists>T. (wstep ^^ n) race0 T" if "n \<le> 10" for n
    using that
  proof (induction n)
    case (Suc n)
    then show ?case
      using sleep_no_lost_wakeup [OF race0, of n] by fastforce
  qed auto
  then show ?thesis
    using sleep_no_lost_wakeup [OF race0, of 10] by blast
qed

text \<open>What passing the children on does to every table entry.\<close>

definition rouse_only :: "'z kstate_scheme \<Rightarrow> 'z kstate_scheme \<Rightarrow> bool" where
  "rouse_only s t \<longleftrightarrow> initproc t = initproc s \<and> cpus t = cpus s \<and> me t = me s \<and> locks t = locks s \<and>
    (\<forall>k. chan (ptable t k) = chan (ptable s k) \<and>
     (pstate (ptable t k) = pstate (ptable s k) \<or>
      pstate (ptable s k) = SLEEPING \<and> pstate (ptable t k) = RUNNABLE))"

definition dozing :: "nat \<Rightarrow> 'z kstate_scheme \<Rightarrow> bool" where
  "dozing q s \<longleftrightarrow> pstate (ptable s q) = SLEEPING \<and> chan (ptable s q) = Some (Ch_proc q)"

lemma rouse_only_trans: "rouse_only s t \<Longrightarrow> rouse_only t u \<Longrightarrow> rouse_only s u"
  unfolding rouse_only_def by (metis procstate.distinct)

lemma rouse_only_dozing: "rouse_only s t \<Longrightarrow> \<not> dozing q s \<Longrightarrow> \<not> dozing q t"
  unfolding rouse_only_def dozing_def by (metis procstate.distinct)

lemma rouse_only_ZOMBIE: "rouse_only s t \<Longrightarrow> pstate (ptable t k) = ZOMBIE \<longleftrightarrow> pstate (ptable s k) = ZOMBIE"
  unfolding rouse_only_def by (metis procstate.distinct)

lemma woken_effect:
  "rouse_only s (woken c s)" "parent (ptable (woken c s) k) = parent (ptable s k)"
  "q < NPROC \<Longrightarrow> \<not> dozing q (woken (Some (Ch_proc q)) s)"
  by (auto simp: rouse_only_def woken_def wake_proc_def dozing_def)

definition reparent1 :: "nat \<Rightarrow> nat \<Rightarrow> 'z kstate_scheme \<Rightarrow> 'z kstate_scheme" where
  "reparent1 p i s =
     (if parent (ptable s i) = Some p
      then let u = upd_proc i (\<lambda>q. q\<lparr>parent := initproc s\<rparr>) s
        in if pstate (ptable s i) = ZOMBIE then woken (map_option Ch_proc (initproc s)) u else u
      else s)"

lemma reparent_Cons: "reparent p (i # is) s = reparent p is (reparent1 p i s)"
  by (simp add: reparent1_def seqk_def bind_def wakeup1_eq Let_def)

lemma reparent1_effect:
  "rouse_only s (reparent1 p i s)"
  "parent (ptable (reparent1 p i s) k) =
     (if k = i \<and> parent (ptable s k) = Some p then initproc s else parent (ptable s k))"
  "initproc s = Some q \<Longrightarrow> q < NPROC \<Longrightarrow> parent (ptable s i) = Some p \<Longrightarrow> pstate (ptable s i) = ZOMBIE \<Longrightarrow>
    \<not> dozing q (reparent1 p i s)"
proof -
  let ?u = "upd_proc i (\<lambda>q. q\<lparr>parent := initproc s\<rparr>) s"
  have u: "rouse_only s ?u"
    by (simp add: rouse_only_def upd_proc_def)
  show "rouse_only s (reparent1 p i s)"
    using u rouse_only_trans [OF u woken_effect(1)]
    by (simp add: reparent1_def Let_def rouse_only_def)
qed (auto simp: reparent1_def Let_def woken_effect)

lemma reparent_effect:
  "distinct is \<Longrightarrow> \<exists>t. reparent p is s = Done () t \<and> rouse_only s t \<and>
    (\<forall>k. parent (ptable t k) =
      (if k \<in> set is \<and> parent (ptable s k) = Some p then initproc s else parent (ptable s k))) \<and>
    (\<forall>q. initproc s = Some q \<longrightarrow> q < NPROC \<longrightarrow>
      (\<exists>i \<in> set is. parent (ptable s i) = Some p \<and> pstate (ptable s i) = ZOMBIE) \<longrightarrow> \<not> dozing q t)"
proof (induction "is" arbitrary: s)
  case Nil
  show ?case by (simp add: rouse_only_def)
next
  case (Cons i "is")
  let ?r = "reparent1 p i s"
  have i: "i \<notin> set is"
    using Cons.prems by simp
  obtain t where t: "reparent p is ?r = Done () t" "rouse_only ?r t"
    "\<And>k. parent (ptable t k) =
      (if k \<in> set is \<and> parent (ptable ?r k) = Some p then initproc ?r else parent (ptable ?r k))"
    "\<And>q. initproc ?r = Some q \<Longrightarrow> q < NPROC \<Longrightarrow>
      \<exists>i \<in> set is. parent (ptable ?r i) = Some p \<and> pstate (ptable ?r i) = ZOMBIE \<Longrightarrow> \<not> dozing q t"
    using Cons.IH [of ?r] Cons.prems by auto
  note E = reparent1_effect(1) [of s p i]
  have ini: "initproc ?r = initproc s"
    using E by (simp add: rouse_only_def)
  have "\<not> dozing q t"
    if q: "initproc s = Some q" "q < NPROC"
      and j: "j \<in> insert i (set is)" "parent (ptable s j) = Some p" "pstate (ptable s j) = ZOMBIE" for q j
  proof (cases "j = i")
    case True
    then show ?thesis
      using rouse_only_dozing [OF t(2)] reparent1_effect(3) [OF q] j by blast
  next
    case False
    then have "parent (ptable ?r j) = Some p" "pstate (ptable ?r j) = ZOMBIE"
      using j rouse_only_ZOMBIE [OF E] by (simp_all add: reparent1_effect(2))
    then show ?thesis
      using t(4) [of q] ini q j(1) False by auto
  qed
  moreover have "parent (ptable t k) = (if k \<in> set (i # is) \<and> parent (ptable s k) = Some p
      then initproc s else parent (ptable s k))" for k
    unfolding t(3) reparent1_effect(2) ini using i by auto
  ultimately show ?case
    unfolding reparent_Cons using t(1) rouse_only_trans [OF E t(2)] by (intro exI [of _ t]) auto
qed

text \<open>C16 (exit). The end of \<open>exit\<close> hands the CPU to the scheduler, never to return, holding only
  the table lock, with the process a ZOMBIE; every child of it has become a child of \<open>initproc\<close>
  and no other process has changed its parent; a parent that waited for it is no longer asleep in
  \<open>wait\<close>, and neither is \<open>initproc\<close> if one of the children it was handed is already a ZOMBIE.\<close>

theorem exit_passes_children:
  fixes s :: "'z kstate_scheme"
  assumes "cli_ok s" "ncli (mycpu s) = 0" "lock_free Lk_ptable s" "curproc (mycpu s) = Some p"
    and "initproc s = Some ini" "ini < NPROC"
  shows "\<exists>t. exit_ptable s = Sleep t \<and> holding Lk_ptable t \<and> pstate (ptable t p) = ZOMBIE \<and>
    (\<forall>k < NPROC. parent (ptable t k) =
       (if parent (ptable s k) = Some p then Some ini else parent (ptable s k))) \<and>
    (\<forall>q < NPROC. parent (ptable s p) = Some q \<longrightarrow> \<not> dozing q t) \<and>
    ((\<exists>k < NPROC. parent (ptable s k) = Some p \<and> pstate (ptable s k) = ZOMBIE) \<longrightarrow> \<not> dozing ini t)"
proof -
  let ?c = "map_option Ch_proc (parent (ptable s p))"
  let ?w = "held Lk_ptable (woken ?c s)"
  let ?z = "upd_proc p (\<lambda>q. q\<lparr>pstate := ZOMBIE\<rparr>)"
  obtain u where u: "reparent p [0..<NPROC] ?w = Done () u" "rouse_only ?w u"
    "\<And>k. parent (ptable u k) =
      (if k \<in> set [0..<NPROC] \<and> parent (ptable ?w k) = Some p then initproc ?w else parent (ptable ?w k))"
    "\<And>q. initproc ?w = Some q \<Longrightarrow> q < NPROC \<Longrightarrow>
      \<exists>i \<in> set [0..<NPROC]. parent (ptable ?w i) = Some p \<and> pstate (ptable ?w i) = ZOMBIE \<Longrightarrow> \<not> dozing q u"
    using reparent_effect [of "[0..<NPROC]" p ?w] by auto
  have w: "rouse_only s (woken ?c s)" by (rule woken_effect)
  have dz: "dozing q (?z u) \<Longrightarrow> dozing q u" for q
    by (simp add: dozing_def split: if_splits)
  have m: "cpus u = cpus ?w" "me u = me ?w" "locks u = locks ?w"
    using u(2) by (simp_all add: rouse_only_def)
  have h: "holding Lk_ptable (?z u)" "ncli (mycpu (?z u)) = 1" "\<not> eflags_if (mycpu (?z u))"
    "curproc (mycpu (?z u)) = Some p" "pstate (ptable (?z u) p) = ZOMBIE"
    using assms m by (simp_all add: holding_def held_def upd_lock_def upd_mycpu_def upd_proc_def)
  have "exit_ptable s = Sleep (?z u)"
    using assms u(1) h unfolding exit_ptable_def
    by (simp add: with_proc_def seqk_def bind_def acquire_free wakeup1_eq sched_def)
  moreover have "\<not> dozing q (?z u)" if "q < NPROC" "parent (ptable s p) = Some q" for q
  proof -
    have "\<not> dozing q ?w"
      using woken_effect(3) [OF that(1), of s] that by (simp add: dozing_def)
    then show ?thesis using rouse_only_dozing [OF u(2)] dz by blast
  qed
  moreover have "\<not> dozing ini (?z u)"
    if "k < NPROC" "parent (ptable s k) = Some p" "pstate (ptable s k) = ZOMBIE" for k
    using u(4) [of ini] assms(5,6) that w rouse_only_ZOMBIE [OF w] dz [of ini]
    by (fastforce simp: rouse_only_def woken_effect)
  moreover have "parent (ptable (?z u) k) = (if parent (ptable s k) = Some p then Some ini else parent (ptable s k))"
    if "k < NPROC" for k
    using u(3) [of k] that assms(5) w by (auto simp: woken_effect rouse_only_def cong: if_cong)
  ultimately show ?thesis
    using h by blast
qed

theorem exit_passes_children_witness:
  "\<exists>s t. exit_ptable (s :: kstate) = Sleep t \<and> parent (ptable s 7) = Some 5 \<and> parent (ptable t 7) = Some 0 \<and>
    dozing 0 s \<and> \<not> dozing 0 t"
proof -
  let ?s = "kstate0\<lparr>cpus := (\<lambda>_. cpu0\<lparr>curproc := Some 5\<rparr>), initproc := Some 0, ptable := (\<lambda>_. proc0)
    (0 := proc0\<lparr>pstate := SLEEPING, chan := Some (Ch_proc 0)\<rparr>,
     7 := proc0\<lparr>pstate := ZOMBIE, parent := Some 5\<rparr>)\<rparr>"
  have "cli_ok ?s" "ncli (mycpu ?s) = 0" "lock_free Lk_ptable ?s" "curproc (mycpu ?s) = Some 5"
    "initproc ?s = Some 0" "0 < NPROC"
    by (simp_all add: boot_defs cli_ok_def lock_free_def NPROC_def)
  note E = exit_passes_children [OF this]
  have N: "7 < NPROC" "parent (ptable ?s 7) = Some 5" "pstate (ptable ?s 7) = ZOMBIE" "dozing 0 ?s"
    by (simp_all add: NPROC_def dozing_def)
  from E obtain t where t: "exit_ptable ?s = Sleep t"
    "\<forall>k < NPROC. parent (ptable t k) =
       (if parent (ptable ?s k) = Some 5 then Some 0 else parent (ptable ?s k))"
    "(\<exists>k < NPROC. parent (ptable ?s k) = Some 5 \<and> pstate (ptable ?s k) = ZOMBIE) \<longrightarrow> \<not> dozing 0 t"
    by blast
  have "parent (ptable t 7) = Some 0" using t(2) N by simp
  moreover have "\<not> dozing 0 t" using t(3) N by blast
  ultimately show ?thesis using t(1) N by blast
qed

end
