(* ===== verification/Bio.thy ===== *)
theory Bio
  imports Proc
begin

text \<open>
  The buffer cache (\<open>bio.c\<close>, \<open>buf.h\<close>) over the in-memory disk driver (\<open>memide.c\<close>). Buffers are
  the entries \<open>0 .. NBUF - 1\<close> of a table and the list head \<open>bcache.head\<close> is entry \<open>NBUF\<close>; the
  MRU list is kept by \<open>prev\<close> and \<open>next\<close> indices, as in the code. The disk is a map from sector
  numbers to blocks of 512 bytes; \<open>dwrites\<close> records the sectors written, oldest first, so that
  the disk at any moment of a crash is the old disk with a prefix of them applied.

  The invariant \<open>cinv\<close> says which buffers are held (busy), that the MRU list is a ring through
  all buffers, that no sector is cached twice and that clean buffers agree with the disk. The
  lemmas \<open>bread_ok\<close>, \<open>bwrite_ok\<close> and \<open>brelse_ok\<close> give the effect of the three operations on the
  logical contents \<open>blk\<close> of the sectors.
\<close>

unbundle bit_operations_syntax

section \<open>State\<close>

definition NBUF :: nat where "NBUF = 20"
definition HEAD :: nat where "HEAD = NBUF"
definition BSIZE :: nat where "BSIZE = 512"

record buf =
  bflags :: u32
  bdev :: u32
  bsector :: u32
  bprev :: nat
  bnext :: nat
  bqnext :: "nat option"
  bdata :: bytes

definition B_BUSY :: u32 where "B_BUSY = 1"
definition B_VALID :: u32 where "B_VALID = 2"
definition B_DIRTY :: u32 where "B_DIRTY = 4"

record bstate = kstate +
  bufs :: "nat \<Rightarrow> buf"
  disk :: "u32 \<Rightarrow> bytes"
  disksize :: u32
  dwrites :: "(u32 \<times> bytes) list"

definition upd_buf :: "nat \<Rightarrow> (buf \<Rightarrow> buf) \<Rightarrow> 'z bstate_scheme \<Rightarrow> 'z bstate_scheme" where
  "upd_buf b f s = s\<lparr>bufs := (bufs s)(b := f (bufs s b))\<rparr>"

definition set_flag :: "u32 \<Rightarrow> buf \<Rightarrow> buf" where
  "set_flag m b = b\<lparr>bflags := bflags b OR m\<rparr>"

definition clear_flag :: "u32 \<Rightarrow> buf \<Rightarrow> buf" where
  "clear_flag m b = b\<lparr>bflags := bflags b AND NOT m\<rparr>"

definition busy :: "buf \<Rightarrow> bool" where "busy b \<longleftrightarrow> bflags b AND B_BUSY \<noteq> 0"
definition valid :: "buf \<Rightarrow> bool" where "valid b \<longleftrightarrow> bflags b AND B_VALID \<noteq> 0"
definition dirty :: "buf \<Rightarrow> bool" where "dirty b \<longleftrightarrow> bflags b AND B_DIRTY \<noteq> 0"

section \<open>The MRU list\<close>

text \<open>The two statements groups that link a buffer in behind the head and take it out.\<close>

definition link_front :: "nat \<Rightarrow> (nat \<Rightarrow> buf) \<Rightarrow> nat \<Rightarrow> buf" where
  "link_front b B0 =
     (let B1 = B0(b := (B0 b)\<lparr>bnext := bnext (B0 HEAD)\<rparr>);
          B2 = B1(b := (B1 b)\<lparr>bprev := HEAD\<rparr>);
          f = bnext (B2 HEAD);
          B3 = B2(f := (B2 f)\<lparr>bprev := b\<rparr>)
      in B3(HEAD := (B3 HEAD)\<lparr>bnext := b\<rparr>))"

definition unlink :: "nat \<Rightarrow> (nat \<Rightarrow> buf) \<Rightarrow> nat \<Rightarrow> buf" where
  "unlink b B0 =
     (let n = bnext (B0 b);
          B1 = B0(n := (B0 n)\<lparr>bprev := bprev (B0 b)\<rparr>);
          p = bprev (B1 b)
      in B1(p := (B1 p)\<lparr>bnext := bnext (B1 b)\<rparr>))"

primrec binit_loop :: "nat \<Rightarrow> (nat \<Rightarrow> buf) \<Rightarrow> nat \<Rightarrow> buf" where
  "binit_loop 0 B = B"
| "binit_loop (Suc b) B =
     (let B' = binit_loop b B in (link_front b (B'(b := (B' b)\<lparr>bdev := - 1\<rparr>))))"

definition binit :: "(unit, 'z bstate_scheme) kop" where
  "binit =
     seqk (initlock Lk_bcache ''bcache'')
     (modify (\<lambda>s. s\<lparr>bufs := binit_loop NBUF
        ((bufs s)(HEAD := (bufs s HEAD)\<lparr>bprev := HEAD, bnext := HEAD\<rparr>))\<rparr>))"

section \<open>The in-memory disk\<close>

definition iderw :: "nat \<Rightarrow> (unit, 'z bstate_scheme) kop" where
  "iderw i s =
     (let b = bufs s i in
      if \<not> busy b then Panic ''iderw: buf not busy''
      else if bflags b AND (B_VALID OR B_DIRTY) = B_VALID then Panic ''iderw: nothing to do''
      else if bdev b \<noteq> 1 then Panic ''iderw: request not for disk 1''
      else if bsector b \<ge> disksize s then Panic ''iderw: sector out of range''
      else if dirty b
      then Done () (upd_buf i (set_flag B_VALID)
        (upd_buf i (clear_flag B_DIRTY)
          s\<lparr>disk := (disk s)(bsector b := bdata b), dwrites := dwrites s @ [(bsector b, bdata b)]\<rparr>))
      else Done () (upd_buf i (set_flag B_VALID) (upd_buf i (\<lambda>b. b\<lparr>bdata := disk s (bsector b)\<rparr>) s)))"

section \<open>Buffer operations\<close>

text \<open>
  The two scans of the list, forwards for a cached sector and backwards for a buffer to
  recycle. The bound is the number of list elements they may look at; \<open>None\<close>: not found within
  the bound, and \<open>Some HEAD\<close>: the scan came back to the head.
\<close>

primrec scan :: "nat \<Rightarrow> (nat \<Rightarrow> nat) \<Rightarrow> (nat \<Rightarrow> bool) \<Rightarrow> nat \<Rightarrow> nat option" where
  "scan 0 nxt P b = None"
| "scan (Suc k) nxt P b = (if b = HEAD \<or> P b then Some b else scan k nxt P (nxt b))"

definition find_cached :: "u32 \<Rightarrow> u32 \<Rightarrow> (nat \<Rightarrow> buf) \<Rightarrow> nat option" where
  "find_cached dev sector B =
     scan (Suc NBUF) (\<lambda>i. bnext (B i)) (\<lambda>i. bdev (B i) = dev \<and> bsector (B i) = sector) (bnext (B HEAD))"

definition find_clean :: "(nat \<Rightarrow> buf) \<Rightarrow> nat option" where
  "find_clean B =
     scan (Suc NBUF) (\<lambda>i. bprev (B i)) (\<lambda>i. \<not> busy (B i) \<and> \<not> dirty (B i)) (bprev (B HEAD))"

text \<open>
  The part of \<open>bget\<close> from the label \<open>loop\<close> on. A call of \<open>sleep\<close> leaves the CPU and never
  returns in the model (lemma \<open>sleep_not_Done\<close>); when the process is dispatched again it goes on
  with \<open>bget_resume\<close>, which is the jump back to \<open>loop\<close>.
\<close>

definition bget_loop :: "u32 \<Rightarrow> u32 \<Rightarrow> (nat, 'z bstate_scheme) kop" where
  "bget_loop dev sector =
     bind (gets (\<lambda>s. (find_cached dev sector (bufs s), find_clean (bufs s), bufs s))) (\<lambda>(c, r, B).
     case c of
       None \<Rightarrow> (\<lambda>s. Diverge)
     | Some b \<Rightarrow>
         if b \<noteq> HEAD then
           if \<not> busy (B b)
           then seqk (modify (upd_buf b (set_flag B_BUSY))) (seqk (release Lk_bcache) (ret b))
           else seqk (sleep (Ch_buf b) Lk_bcache) (\<lambda>s. Diverge)
         else (case r of
             None \<Rightarrow> (\<lambda>s. Diverge)
           | Some b \<Rightarrow>
               if b \<noteq> HEAD
               then seqk (modify (upd_buf b (\<lambda>x. x\<lparr>bdev := dev, bsector := sector, bflags := B_BUSY\<rparr>)))
                   (seqk (release Lk_bcache) (ret b))
               else panic ''bget: no buffers''))"

definition bget :: "u32 \<Rightarrow> u32 \<Rightarrow> (nat, 'z bstate_scheme) kop" where
  "bget dev sector = seqk (acquire Lk_bcache) (bget_loop dev sector)"

definition bget_resume :: "bool \<Rightarrow> u32 \<Rightarrow> u32 \<Rightarrow> (nat, 'z bstate_scheme) kop" where
  "bget_resume ie dev sector = seqk (sleep_resume ie Lk_bcache) (bget_loop dev sector)"

definition bread :: "u32 \<Rightarrow> u32 \<Rightarrow> (nat, 'z bstate_scheme) kop" where
  "bread dev sector =
     bind (bget dev sector) (\<lambda>b.
     bind (gets (\<lambda>s. valid (bufs s b))) (\<lambda>v.
     seqk (whenk (\<not> v) (iderw b)) (ret b)))"

definition bwrite :: "nat \<Rightarrow> (unit, 'z bstate_scheme) kop" where
  "bwrite b =
     bind (gets (\<lambda>s. busy (bufs s b))) (\<lambda>y.
     if \<not> y then panic ''bwrite''
     else seqk (modify (upd_buf b (set_flag B_DIRTY))) (iderw b))"

definition brelse :: "nat \<Rightarrow> (unit, 'z bstate_scheme) kop" where
  "brelse b =
     bind (gets (\<lambda>s. busy (bufs s b))) (\<lambda>y.
     if \<not> y then panic ''brelse''
     else seqk (acquire Lk_bcache)
         (seqk (modify (\<lambda>s. s\<lparr>bufs := link_front b (unlink b (bufs s))\<rparr>))
         (seqk (modify (upd_buf b (clear_flag B_BUSY)))
         (seqk (wakeup (Ch_buf b))
          (release Lk_bcache)))))"

section \<open>Flags\<close>

lemma flag_simps [simp]:
  "busy (set_flag B_BUSY b)" "valid (set_flag B_BUSY b) = valid b" "dirty (set_flag B_BUSY b) = dirty b"
  "busy (set_flag B_VALID b) = busy b" "valid (set_flag B_VALID b)" "dirty (set_flag B_VALID b) = dirty b"
  "busy (set_flag B_DIRTY b) = busy b" "valid (set_flag B_DIRTY b) = valid b" "dirty (set_flag B_DIRTY b)"
  "\<not> busy (clear_flag B_BUSY b)" "valid (clear_flag B_BUSY b) = valid b" "dirty (clear_flag B_BUSY b) = dirty b"
  "busy (clear_flag B_DIRTY b) = busy b" "valid (clear_flag B_DIRTY b) = valid b" "\<not> dirty (clear_flag B_DIRTY b)"
  by (simp_all add: busy_def valid_def dirty_def set_flag_def clear_flag_def B_BUSY_def B_VALID_def B_DIRTY_def
      bit.conj_disj_distrib2 and.assoc)

lemma fresh_flags [simp]:
  "busy (b\<lparr>bdev := d, bsector := n, bflags := B_BUSY\<rparr>)"
  "\<not> valid (b\<lparr>bdev := d, bsector := n, bflags := B_BUSY\<rparr>)"
  "\<not> dirty (b\<lparr>bdev := d, bsector := n, bflags := B_BUSY\<rparr>)"
  by (simp_all add: busy_def valid_def dirty_def B_BUSY_def B_VALID_def B_DIRTY_def)

lemma flags_other [simp]:
  "busy (b\<lparr>bdata := x\<rparr>) = busy b" "valid (b\<lparr>bdata := x\<rparr>) = valid b" "dirty (b\<lparr>bdata := x\<rparr>) = dirty b"
  "busy (b\<lparr>bnext := n\<rparr>) = busy b" "valid (b\<lparr>bnext := n\<rparr>) = valid b" "dirty (b\<lparr>bnext := n\<rparr>) = dirty b"
  "busy (b\<lparr>bprev := n\<rparr>) = busy b" "valid (b\<lparr>bprev := n\<rparr>) = valid b" "dirty (b\<lparr>bprev := n\<rparr>) = dirty b"
  by (simp_all add: busy_def valid_def dirty_def)

lemma and_exp: "(x :: u32) AND 2 ^ k = (if bit x k then 2 ^ k else 0)"
  by (rule bit_eqI) (auto simp: bit_and_iff bit_exp_iff)

lemma nothing_to_do: "bflags b AND (B_VALID OR B_DIRTY) = B_VALID \<longleftrightarrow> valid b \<and> \<not> dirty b"
proof -
  have e: "bflags b AND (B_VALID OR B_DIRTY) = (bflags b AND B_VALID) OR (bflags b AND B_DIRTY)"
    by (rule bit.conj_disj_distrib)
  have c: "bflags b AND B_VALID = (if valid b then B_VALID else 0)"
    "bflags b AND B_DIRTY = (if dirty b then B_DIRTY else 0)"
    using and_exp [of "bflags b" 1] and_exp [of "bflags b" 2]
    by (auto simp: valid_def dirty_def B_VALID_def B_DIRTY_def)
  show ?thesis unfolding e c by (simp add: B_VALID_def B_DIRTY_def)
qed

section \<open>The MRU list is a ring\<close>

fun dll :: "(nat \<Rightarrow> nat) \<Rightarrow> (nat \<Rightarrow> nat) \<Rightarrow> nat list \<Rightarrow> bool" where
  "dll nx pv (x # y # r) = (nx x = y \<and> pv y = x \<and> dll nx pv (y # r))"
| "dll nx pv _ = True"

lemma dll_append: "dll nx pv (xs @ y # ys) \<longleftrightarrow> dll nx pv (xs @ [y]) \<and> dll nx pv (y # ys)"
proof (induction xs)
  case (Cons a xs)
  then show ?case by (cases xs) auto
qed simp

lemma dll_upd_next: "x \<notin> set (butlast xs) \<Longrightarrow> dll (nx(x := y)) pv xs = dll nx pv xs"
  by (induction nx pv xs rule: dll.induct) auto

lemma dll_upd_prev: "x \<notin> set (tl xs) \<Longrightarrow> dll nx (pv(x := y)) xs = dll nx pv xs"
  by (induction nx pv xs rule: dll.induct) auto

lemma dll_split:
  "dll nx pv (h # xs @ y # z # zs) \<longleftrightarrow> dll nx pv (h # xs @ [y]) \<and> dll nx pv (y # z # zs)"
  "dll nx pv (h # xs @ y # zs @ [k]) \<longleftrightarrow> dll nx pv (h # xs @ [y]) \<and> dll nx pv (y # zs @ [k])"
  using dll_append [of nx pv "h # xs" y "z # zs"] dll_append [of nx pv "h # xs" y "zs @ [k]"] by simp_all

lemmas dll_simps = dll_split dll_upd_next dll_upd_prev butlast_append

definition ring :: "(nat \<Rightarrow> buf) \<Rightarrow> nat list \<Rightarrow> bool" where
  "ring B xs \<longleftrightarrow> distinct xs \<and> set xs = {..<NBUF} \<and>
     dll (\<lambda>i. bnext (B i)) (\<lambda>i. bprev (B i)) (HEAD # xs @ [HEAD])"

lemma dll_unlink:
  assumes "dll nx pv (h # ys @ b # zs @ [h])" "distinct (h # ys @ b # zs)"
  shows "dll (nx(pv b := nx b)) (pv(nx b := pv b)) (h # ys @ zs @ [h])"
    "nx b \<noteq> b" "pv b \<noteq> b"
proof -
  have m: "dll nx pv (h # ys @ [b])" "dll nx pv (b # zs @ [h])"
    using assms(1) by (simp_all add: dll_split)
  consider "ys = []" "zs = []" | n r where "ys = []" "zs = n # r" | q p where "ys = q @ [p]" "zs = []"
    | q p n r where "ys = q @ [p]" "zs = n # r"
    by (metis list.exhaust rev_exhaust)
  then have "dll (nx(pv b := nx b)) (pv(nx b := pv b)) (h # ys @ zs @ [h]) \<and> nx b \<noteq> b \<and> pv b \<noteq> b"
  proof cases
    case 1
    then show ?thesis using m assms(2) by auto
  next
    case 2
    then show ?thesis using m assms(2) by (auto simp: dll_simps)
  next
    case 3
    then show ?thesis using m assms(2) by (auto simp: dll_simps)
  next
    case 4
    then show ?thesis using m assms(2) by (auto simp: dll_simps)
  qed
  then show "dll (nx(pv b := nx b)) (pv(nx b := pv b)) (h # ys @ zs @ [h])" "nx b \<noteq> b" "pv b \<noteq> b"
    by auto
qed

lemma dll_link:
  assumes "dll nx pv (h # xs @ [h])" "distinct (h # xs)" "b \<notin> set (h # xs)"
  shows "dll (nx(b := nx h, h := b)) (pv(b := h, nx h := b)) (h # b # xs @ [h])"
  using assms by (cases xs) (auto simp: dll_upd_next dll_upd_prev)

lemma link_front_ptrs:
  assumes "b \<noteq> HEAD" "bnext (B HEAD) \<noteq> b"
  shows "(\<lambda>i. bnext (link_front b B i)) = (\<lambda>i. bnext (B i))(b := bnext (B HEAD), HEAD := b)"
    "(\<lambda>i. bprev (link_front b B i)) = (\<lambda>i. bprev (B i))(b := HEAD, bnext (B HEAD) := b)"
  using assms by (auto simp: link_front_def Let_def fun_eq_iff)

lemma unlink_ptrs:
  assumes "bnext (B b) \<noteq> b" "bprev (B b) \<noteq> b"
  shows "(\<lambda>i. bnext (unlink b B i)) = (\<lambda>i. bnext (B i))(bprev (B b) := bnext (B b))"
    "(\<lambda>i. bprev (unlink b B i)) = (\<lambda>i. bprev (B i))(bnext (B b) := bprev (B b))"
  using assms by (auto simp: unlink_def Let_def fun_eq_iff)

text \<open>The pointer updates leave the other fields alone.\<close>

definition same_content :: "buf \<Rightarrow> buf \<Rightarrow> bool" where
  "same_content b c \<longleftrightarrow> bflags c = bflags b \<and> bdev c = bdev b \<and> bsector c = bsector b \<and> bdata c = bdata b"

lemma same_content_flags:
  "same_content b c \<Longrightarrow> busy c = busy b" "same_content b c \<Longrightarrow> valid c = valid b"
  "same_content b c \<Longrightarrow> dirty c = dirty b"
  by (simp_all add: same_content_def busy_def valid_def dirty_def)

lemma same_content_refl [simp]: "same_content b b"
  by (simp add: same_content_def)

lemma same_content_trans: "same_content a b \<Longrightarrow> same_content b c \<Longrightarrow> same_content a c"
  by (simp add: same_content_def)

lemma same_content_upd:
  "same_content (B i) ((B(j := (B j)\<lparr>bnext := n\<rparr>)) i)" "same_content (B i) ((B(j := (B j)\<lparr>bprev := n\<rparr>)) i)"
  by (simp_all add: same_content_def)

lemma move_front_content: "same_content (B i) (link_front b (unlink b B) i)"
  unfolding link_front_def unlink_def Let_def
  by (rule same_content_refl same_content_trans [OF _ same_content_upd(1)]
      same_content_trans [OF _ same_content_upd(2)])+

lemma move_front_ring:
  assumes "ring B (ys @ b # zs)"
  shows "ring (link_front b (unlink b B)) (b # ys @ zs)"
proof -
  let ?nx = "\<lambda>i. bnext (B i)" and ?pv = "\<lambda>i. bprev (B i)"
  have d: "distinct (HEAD # ys @ b # zs)" "set (ys @ b # zs) = {..<NBUF}"
    "dll ?nx ?pv (HEAD # ys @ b # zs @ [HEAD])"
    using assms by (auto simp: ring_def HEAD_def)
  note u = dll_unlink [OF d(3,1)]
  note up = unlink_ptrs [of B b, OF u(2,3)]
  define U where "U = unlink b B"
  have U: "dll (\<lambda>i. bnext (U i)) (\<lambda>i. bprev (U i)) (HEAD # (ys @ zs) @ [HEAD])"
    using u(1) unfolding up U_def by simp
  have nb: "b \<notin> set (HEAD # ys @ zs)" using d(1) by auto
  have "bnext (U HEAD) = HEAD \<or> bnext (U HEAD) \<in> set (ys @ zs)"
  proof (cases "ys @ zs")
    case (Cons x r)
    then show ?thesis using U by simp
  qed (use U in simp)
  then have "bnext (U HEAD) \<noteq> b" using nb by auto
  note lp = link_front_ptrs [of b U, OF _ this]
  have "dll (\<lambda>i. bnext (link_front b U i)) (\<lambda>i. bprev (link_front b U i)) (HEAD # b # (ys @ zs) @ [HEAD])"
    using dll_link [OF U _ nb] d(1) nb lp by auto
  then show ?thesis
    using d(1,2) by (auto simp: ring_def U_def)
qed

lemma scan_dll:
  assumes "dll nx pv (a # xs @ [HEAD])" "HEAD \<notin> set xs" "length xs \<le> k"
  shows "scan (Suc k) nx P (nx a) = Some (case List.find P xs of Some i \<Rightarrow> i | None \<Rightarrow> HEAD)"
  using assms
proof (induction xs arbitrary: a k)
  case (Cons x xs)
  then show ?case by (cases k) auto
qed auto

lemma dll_rev: "dll pv nx (rev xs) = dll nx pv xs"
proof (induction nx pv xs rule: dll.induct)
  case (1 nx pv x y r)
  then show ?case
    using dll_append [of pv nx "rev r" y "[x]"] by auto
qed auto

lemma ring_find:
  assumes "ring B xs"
  shows "find_cached d n B =
      Some (case List.find (\<lambda>i. bdev (B i) = d \<and> bsector (B i) = n) xs of Some i \<Rightarrow> i | None \<Rightarrow> HEAD)"
    "find_clean B =
      Some (case List.find (\<lambda>i. \<not> busy (B i) \<and> \<not> dirty (B i)) (rev xs) of Some i \<Rightarrow> i | None \<Rightarrow> HEAD)"
proof -
  let ?nx = "\<lambda>i. bnext (B i)" and ?pv = "\<lambda>i. bprev (B i)"
  have d: "dll ?nx ?pv (HEAD # xs @ [HEAD])" "HEAD \<notin> set xs" "length xs = NBUF"
    using assms distinct_card [of xs] by (auto simp: ring_def HEAD_def)
  then have r: "dll ?pv ?nx (HEAD # rev xs @ [HEAD])"
    using dll_rev [of ?pv ?nx "HEAD # xs @ [HEAD]"] by simp
  show "find_cached d n B =
      Some (case List.find (\<lambda>i. bdev (B i) = d \<and> bsector (B i) = n) xs of Some i \<Rightarrow> i | None \<Rightarrow> HEAD)"
    unfolding find_cached_def by (rule scan_dll [OF d(1)]) (use d in auto)
  show "find_clean B =
      Some (case List.find (\<lambda>i. \<not> busy (B i) \<and> \<not> dirty (B i)) (rev xs) of Some i \<Rightarrow> i | None \<Rightarrow> HEAD)"
    unfolding find_clean_def by (rule scan_dll [OF r]) (use d in auto)
qed

section \<open>The cache invariant\<close>

text \<open>
  What the cache operations leave alone: the CPUs and locks, everything of the processes but
  that sleepers may have become runnable, and the state of the components above.
\<close>

definition awakened :: "'z kstate_scheme \<Rightarrow> 'z kstate_scheme \<Rightarrow> bool" where
  "awakened s t \<longleftrightarrow> cpus t = cpus s \<and> me t = me s \<and> locks t = locks s \<and>
     nextpid t = nextpid s \<and> initproc t = initproc s \<and> ticks t = ticks s \<and> kpgdir t = kpgdir s \<and>
     (\<forall>k. ptable t k = ptable s k \<or>
       pstate (ptable s k) = SLEEPING \<and> ptable t k = (ptable s k)\<lparr>pstate := RUNNABLE\<rparr>)"

definition beyond :: "'z bstate_scheme \<Rightarrow> 'z bstate_scheme \<Rightarrow> bool" where
  "beyond s t \<longleftrightarrow> awakened s t \<and> disksize t = disksize s \<and> bstate.more t = bstate.more s"

lemma awakened_refl [simp]: "awakened s s"
  by (simp add: awakened_def)

lemma awakened_trans: "awakened s t \<Longrightarrow> awakened t u \<Longrightarrow> awakened s u"
  unfolding awakened_def by (metis procstate.distinct(25) proc.surjective proc.update_convs(4) proc.select_convs(4))

lemma beyond_refl [simp]: "beyond s s"
  by (simp add: beyond_def)

lemma beyond_trans: "beyond s t \<Longrightarrow> beyond t u \<Longrightarrow> beyond s u"
  unfolding beyond_def using awakened_trans by fastforce

lemma awakened_frame:
  assumes "awakened s t"
  shows "cli_ok t = cli_ok s" "lock_free l t = lock_free l s" "cpus t = cpus s" "me t = me s"
  using assms by (simp_all add: awakened_def cli_ok_def lock_free_def)

lemma woken_awakened: "awakened s (woken c s)"
  by (simp add: awakened_def woken_def wake_proc_def)

text \<open>The contents of a sector as the kernel sees it, and the buffers that must not be evicted.\<close>

definition blk :: "'z bstate_scheme \<Rightarrow> u32 \<Rightarrow> bytes" where
  "blk s sec = (case List.find (\<lambda>i. bdev (bufs s i) = 1 \<and> bsector (bufs s i) = sec \<and> valid (bufs s i)) [0..<NBUF] of
      Some i \<Rightarrow> bdata (bufs s i) | None \<Rightarrow> disk s sec)"

definition dirties :: "'z bstate_scheme \<Rightarrow> nat set" where
  "dirties s = {i. i < NBUF \<and> dirty (bufs s i)}"

definition buf_ok :: "(u32 \<Rightarrow> bytes) \<Rightarrow> u32 \<Rightarrow> bool \<Rightarrow> buf \<Rightarrow> bool" where
  "buf_ok d n h b \<longleftrightarrow> length (bdata b) = BSIZE \<and> busy b = h \<and>
     (\<not> h \<and> bdev b = 1 \<and> valid b \<and> \<not> dirty b \<longrightarrow> bdata b = d (bsector b)) \<and>
     (dirty b \<longrightarrow> valid b \<and> bdev b = 1 \<and> bsector b < n) \<and> (h \<longrightarrow> valid b \<and> bdev b = 1 \<and> bsector b < n)"

definition uniq :: "(nat \<Rightarrow> buf) \<Rightarrow> bool" where
  "uniq B \<longleftrightarrow> (\<forall>i < NBUF. \<forall>j < NBUF. bdev (B i) = 1 \<and> bdev (B j) = 1 \<and> bsector (B i) = bsector (B j) \<longrightarrow> i = j)"

definition cinv :: "nat set \<Rightarrow> 'z bstate_scheme \<Rightarrow> bool" where
  "cinv H s \<longleftrightarrow> cli_ok s \<and> lock_free Lk_bcache s \<and> lock_free Lk_ptable s \<and>
     (\<exists>xs. ring (bufs s) xs) \<and> H \<subseteq> {..<NBUF} \<and> uniq (bufs s) \<and> (\<forall>sec. length (disk s sec) = BSIZE) \<and>
     (\<forall>i < NBUF. buf_ok (disk s) (disksize s) (i \<in> H) (bufs s i))"

lemma held_bufs [simp]:
  "bufs (held l s) = bufs s" "disk (held l s) = disk s" "disksize (held l s) = disksize s"
  "dwrites (held l s) = dwrites s"
  "(held l s)\<lparr>bufs := x\<rparr> = held l (s\<lparr>bufs := x\<rparr>)"
  by (simp_all add: held_def upd_lock_def upd_mycpu_def)

lemma locks_bufs_upd [simp]:
  "cli_ok (s\<lparr>bufs := x\<rparr>) = cli_ok s" "lock_free l (s\<lparr>bufs := x\<rparr>) = lock_free l s"
  "cli_ok (s\<lparr>disk := d\<rparr>) = cli_ok s" "lock_free l (s\<lparr>disk := d\<rparr>) = lock_free l s"
  "cli_ok (s\<lparr>dwrites := w\<rparr>) = cli_ok s" "lock_free l (s\<lparr>dwrites := w\<rparr>) = lock_free l s"
  by (simp_all add: cli_ok_def lock_free_def)

lemma upd_buf_simps [simp]:
  "bufs (upd_buf i f s) = (bufs s)(i := f (bufs s i))" "disk (upd_buf i f s) = disk s"
  "disksize (upd_buf i f s) = disksize s" "dwrites (upd_buf i f s) = dwrites s"
  "upd_buf i f (held l s) = held l (upd_buf i f s)"
  "cli_ok (upd_buf i f s) = cli_ok s" "lock_free l (upd_buf i f s) = lock_free l s"
  by (simp_all add: upd_buf_def)

lemma beyond_upd [simp]:
  "beyond s (s\<lparr>bufs := x\<rparr>)" "beyond s (upd_buf i f s)" "beyond s (s\<lparr>disk := d\<rparr>)" "beyond s (s\<lparr>dwrites := w\<rparr>)"
  by (simp_all add: beyond_def awakened_def upd_buf_def)

lemma find_uniq:
  assumes "i \<in> set xs" "P i" "\<And>j. j \<in> set xs \<Longrightarrow> P j \<Longrightarrow> j = i"
  shows "List.find P xs = Some i"
proof (cases "List.find P xs")
  case None
  then show ?thesis using assms(1,2) by (auto simp: find_None_iff)
next
  case (Some j)
  then show ?thesis using assms(3) by (auto simp: find_Some_iff in_set_conv_nth)
qed

lemma find_filter_last: "filter P xs = j # r \<Longrightarrow> List.find P (rev xs) = Some (last (j # r))"
proof (induction xs arbitrary: j r rule: rev_induct)
  case (snoc x xs)
  show ?case
  proof (cases "P x")
    case True
    then have "j # r = filter P xs @ [x]" using snoc.prems by simp
    then have "last (j # r) = x" by (metis last_snoc)
    with True show ?thesis by simp
  next
    case False
    with snoc show ?thesis by simp
  qed
qed simp

lemma blk_cached:
  assumes "uniq (bufs s)" "i < NBUF" "bdev (bufs s i) = 1" "valid (bufs s i)" "bsector (bufs s i) = sec"
  shows "blk s sec = bdata (bufs s i)"
proof -
  have "List.find (\<lambda>i. bdev (bufs s i) = 1 \<and> bsector (bufs s i) = sec \<and> valid (bufs s i)) [0..<NBUF] = Some i"
    using assms by (intro find_uniq) (auto simp: uniq_def)
  then show ?thesis by (simp add: blk_def)
qed

lemma blk_uncached:
  assumes "\<And>i. i < NBUF \<Longrightarrow> bdev (bufs s i) = 1 \<Longrightarrow> valid (bufs s i) \<Longrightarrow> bsector (bufs s i) \<noteq> sec"
  shows "blk s sec = disk s sec"
proof -
  have "List.find (\<lambda>i. bdev (bufs s i) = 1 \<and> bsector (bufs s i) = sec \<and> valid (bufs s i)) [0..<NBUF] = None"
    using assms by (auto simp: find_None_iff)
  then show ?thesis by (simp add: blk_def)
qed

lemma blk_cases:
  assumes "uniq (bufs s)"
  obtains (cached) i where "i < NBUF" "bdev (bufs s i) = 1" "valid (bufs s i)" "bsector (bufs s i) = sec"
      "blk s sec = bdata (bufs s i)"
  | (uncached) "\<And>i. i < NBUF \<Longrightarrow> bdev (bufs s i) = 1 \<Longrightarrow> valid (bufs s i) \<Longrightarrow> bsector (bufs s i) \<noteq> sec"
      "blk s sec = disk s sec"
  using assms blk_cached blk_uncached by metis

section \<open>Effect of the operations\<close>

lemma sleep_not_Done: "sleep c lk s \<noteq> Done x t"
  by (auto simp: sleep_eqs sched_def with_proc_def bind_def seqk_def split: outcome.splits option.splits if_splits)

lemma bget_cached:
  assumes "cinv H s" "i < NBUF" "i \<notin> H" "bdev (bufs s i) = 1" "bsector (bufs s i) = sec"
  shows "bget 1 sec s = Done i (upd_buf i (set_flag B_BUSY) s)"
proof -
  obtain xs where xs: "ring (bufs s) xs" and u: "uniq (bufs s)" using assms(1) by (auto simp: cinv_def)
  have "set xs = {..<NBUF}" using xs by (simp add: ring_def)
  then have "List.find (\<lambda>i. bdev (bufs s i) = 1 \<and> bsector (bufs s i) = sec) xs = Some i"
    using assms u by (intro find_uniq) (auto simp: uniq_def)
  then have "find_cached 1 sec (bufs s) = Some i" using ring_find(1) [OF xs] by simp
  moreover have "\<not> busy (bufs s i)" using assms by (auto simp: cinv_def buf_ok_def)
  moreover have "cli_ok s" "lock_free Lk_bcache s" using assms(1) by (auto simp: cinv_def)
  ultimately show ?thesis
    using assms(2) by (simp add: bget_def bget_loop_def seqk_def bind_def acquire_free HEAD_def)
qed

lemma bget_recycle:
  assumes "cinv H s" "\<And>i. i < NBUF \<Longrightarrow> bdev (bufs s i) = 1 \<Longrightarrow> bsector (bufs s i) \<noteq> sec"
    and "\<exists>i < NBUF. i \<notin> H \<and> \<not> dirty (bufs s i)"
  obtains i where "i < NBUF" "i \<notin> H" "\<not> dirty (bufs s i)"
    "bget 1 sec s = Done i (upd_buf i (\<lambda>x. x\<lparr>bdev := 1, bsector := sec, bflags := B_BUSY\<rparr>) s)"
proof -
  obtain xs where xs: "ring (bufs s) xs" using assms(1) by (auto simp: cinv_def)
  have sx: "set xs = {..<NBUF}" using xs by (simp add: ring_def)
  have "List.find (\<lambda>i. bdev (bufs s i) = 1 \<and> bsector (bufs s i) = sec) xs = None"
    using assms(2) sx by (auto simp: find_None_iff)
  then have c: "find_cached 1 sec (bufs s) = Some HEAD" using ring_find(1) [OF xs] by simp
  obtain j where "j < NBUF" "j \<notin> H" "\<not> dirty (bufs s j)" using assms(3) by blast
  moreover from this have "\<not> busy (bufs s j)" using assms(1) by (auto simp: cinv_def buf_ok_def)
  ultimately obtain i where f: "List.find (\<lambda>i. \<not> busy (bufs s i) \<and> \<not> dirty (bufs s i)) (rev xs) = Some i"
    using sx by (cases "List.find (\<lambda>i. \<not> busy (bufs s i) \<and> \<not> dirty (bufs s i)) (rev xs)")
      (auto simp: find_None_iff)
  then have "i \<in> set (rev xs) \<and> \<not> busy (bufs s i) \<and> \<not> dirty (bufs s i)"
    by (auto simp: find_Some_iff simp del: set_rev)
  then have i: "i < NBUF" "\<not> busy (bufs s i)" "\<not> dirty (bufs s i)" using sx by auto
  then have "i \<notin> H" using assms(1) by (auto simp: cinv_def buf_ok_def)
  moreover have "find_clean (bufs s) = Some i" using ring_find(2) [OF xs] f by simp
  moreover have "cli_ok s" "lock_free Lk_bcache s" using assms(1) by (auto simp: cinv_def)
  ultimately show ?thesis
    using i c that by (simp add: bget_def bget_loop_def seqk_def bind_def acquire_free HEAD_def)
qed

lemma iderw_read:
  assumes "busy (bufs s i)" "\<not> valid (bufs s i)" "\<not> dirty (bufs s i)" "bdev (bufs s i) = 1"
    "bsector (bufs s i) < disksize s"
  shows "iderw i s = Done () (upd_buf i (\<lambda>b. set_flag B_VALID (b\<lparr>bdata := disk s (bsector b)\<rparr>)) s)"
  using assms by (simp add: iderw_def nothing_to_do Let_def) (simp add: upd_buf_def)

lemma iderw_write:
  assumes "busy (bufs s i)" "dirty (bufs s i)" "bdev (bufs s i) = 1" "bsector (bufs s i) < disksize s"
  shows "iderw i s = Done () (upd_buf i (\<lambda>b. set_flag B_VALID (clear_flag B_DIRTY b))
    (s\<lparr>disk := (disk s)(bsector (bufs s i) := bdata (bufs s i)),
       dwrites := dwrites s @ [(bsector (bufs s i), bdata (bufs s i))]\<rparr>))"
  using assms by (simp add: iderw_def nothing_to_do Let_def) (simp add: upd_buf_def)

lemma flag_fields [simp]:
  "bdev (set_flag m b) = bdev b" "bsector (set_flag m b) = bsector b" "bdata (set_flag m b) = bdata b"
  "bnext (set_flag m b) = bnext b" "bprev (set_flag m b) = bprev b"
  "bdev (clear_flag m b) = bdev b" "bsector (clear_flag m b) = bsector b" "bdata (clear_flag m b) = bdata b"
  "bnext (clear_flag m b) = bnext b" "bprev (clear_flag m b) = bprev b"
  by (simp_all add: set_flag_def clear_flag_def)

text \<open>The buffer that \<open>bread\<close> returns, and the only change it makes to the state.\<close>

definition fetched :: "'z bstate_scheme \<Rightarrow> nat set \<Rightarrow> u32 \<Rightarrow> nat \<Rightarrow> buf \<Rightarrow> bool" where
  "fetched s H sec b x \<longleftrightarrow> b < NBUF \<and> b \<notin> H \<and> busy x \<and> valid x \<and> bdev x = 1 \<and> bsector x = sec \<and>
     bnext x = bnext (bufs s b) \<and> bprev x = bprev (bufs s b) \<and> bdata x = blk s sec \<and>
     dirty x = dirty (bufs s b) \<and> (dirty x \<or> bdata x = disk s sec) \<and>
     (\<forall>j < NBUF. j \<noteq> b \<longrightarrow> \<not> (bdev (bufs s j) = 1 \<and> bsector (bufs s j) = sec)) \<and>
     (bdev (bufs s b) = 1 \<and> bsector (bufs s b) = sec \<or> \<not> dirty (bufs s b))"

lemma bread_eq:
  assumes I: "cinv H s" and sec: "sec < disksize s" "\<forall>i \<in> H. bsector (bufs s i) \<noteq> sec"
    and room: "\<exists>i < NBUF. i \<notin> H \<and> \<not> dirty (bufs s i)"
  obtains b x where "bread 1 sec s = Done b (upd_buf b (\<lambda>_. x) s)" "fetched s H sec b x"
proof (cases "\<exists>i < NBUF. bdev (bufs s i) = 1 \<and> bsector (bufs s i) = sec")
  case True
  then obtain i where i: "i < NBUF" "bdev (bufs s i) = 1" "bsector (bufs s i) = sec" by blast
  with sec(2) have iH: "i \<notin> H" by auto
  have u: "uniq (bufs s)" and ok: "buf_ok (disk s) (disksize s) False (bufs s i)"
    using I i(1) iH by (auto simp: cinv_def)
  have other: "\<not> (bdev (bufs s j) = 1 \<and> bsector (bufs s j) = sec)" if "j < NBUF" "j \<noteq> i" for j
    using u i that by (auto simp: uniq_def)
  note g = bget_cached [OF I i(1) iH i(2,3)]
  show ?thesis
  proof (cases "valid (bufs s i)")
    case v: True
    have "blk s sec = bdata (bufs s i)" using u i v by (intro blk_cached)
    then show ?thesis
      using v i iH ok other g
      by (intro that [of i "set_flag B_BUSY (bufs s i)"])
        (auto simp: bread_def bind_def seqk_def fetched_def buf_ok_def upd_buf_def)
  next
    case v: False
    have "blk s sec = disk s sec" using v other i by (intro blk_uncached) metis
    moreover have "\<not> dirty (bufs s i)" using ok v by (auto simp: buf_ok_def)
    ultimately show ?thesis
      using v i iH other g sec(1)
      by (intro that [of i "set_flag B_VALID ((set_flag B_BUSY (bufs s i))\<lparr>bdata := disk s sec\<rparr>)"])
        (auto simp: bread_def bind_def seqk_def fetched_def iderw_read, simp add: upd_buf_def)
  qed
next
  case False
  then obtain i where i: "i < NBUF" "i \<notin> H" "\<not> dirty (bufs s i)"
    "bget 1 sec s = Done i (upd_buf i (\<lambda>x. x\<lparr>bdev := 1, bsector := sec, bflags := B_BUSY\<rparr>) s)"
    using bget_recycle [OF I _ room, of sec] by blast
  have "blk s sec = disk s sec" using False by (intro blk_uncached) blast
  then show ?thesis
    using i False sec(1)
    by (intro that [of i "set_flag B_VALID ((bufs s i)\<lparr>bdev := 1, bsector := sec, bflags := B_BUSY, bdata := disk s sec\<rparr>)"])
      (auto simp: bread_def bind_def seqk_def fetched_def iderw_read, simp add: upd_buf_def)
qed

lemma ring_cong:
  assumes "\<And>i. bnext (B' i) = bnext (B i)" "\<And>i. bprev (B' i) = bprev (B i)"
  shows "ring B' xs = ring B xs"
  using assms by (simp add: ring_def)

lemma uniq_cong:
  assumes "\<And>i. bdev (B' i) = bdev (B i)" "\<And>i. bsector (B' i) = bsector (B i)"
  shows "uniq B' = uniq B"
  using assms by (simp add: uniq_def)

lemma blk_cong:
  assumes "\<And>i. bdev (bufs t i) = bdev (bufs s i)" "\<And>i. bsector (bufs t i) = bsector (bufs s i)"
    "\<And>i. valid (bufs t i) = valid (bufs s i)" "\<And>i. bdata (bufs t i) = bdata (bufs s i)" "disk t n = disk s n"
  shows "blk t n = blk s n"
  using assms by (simp add: blk_def cong: option.case_cong)

lemma cinv_upd:
  assumes I: "cinv H s" and b: "b < NBUF" "bnext x = bnext (bufs s b)" "bprev x = bprev (bufs s b)"
    "buf_ok (disk s) (disksize s) (b \<in> H') x" and H: "H' - {b} = H - {b}"
    and o: "bdev x = 1 \<Longrightarrow> \<forall>j < NBUF. j \<noteq> b \<longrightarrow> \<not> (bdev (bufs s j) = 1 \<and> bsector (bufs s j) = bsector x)"
  shows "cinv H' (upd_buf b (\<lambda>_. x) s)"
proof -
  let ?B = "(bufs s)(b := x)"
  have "ring ?B xs = ring (bufs s) xs" for xs
    using b by (intro ring_cong) auto
  moreover have "uniq ?B"
    using I o by (auto simp: cinv_def uniq_def)
  moreover have "H' \<subseteq> {..<NBUF}" using I H b(1) by (auto simp: cinv_def)
  moreover have "buf_ok (disk s) (disksize s) (i \<in> H') (?B i)" if "i < NBUF" for i
  proof (cases "i = b")
    case False
    then have "i \<in> H' \<longleftrightarrow> i \<in> H" using H by blast
    with False show ?thesis using I that by (simp add: cinv_def)
  qed (use b(4) in simp)
  ultimately show ?thesis
    using I by (simp add: cinv_def)
qed

lemma blk_upd:
  assumes "uniq (bufs (upd_buf b (\<lambda>_. x) s))" "uniq (bufs s)" "b < NBUF"
  shows "blk (upd_buf b (\<lambda>_. x) s) sec =
    (if bdev x = 1 \<and> valid x \<and> bsector x = sec then bdata x
     else if bdev (bufs s b) = 1 \<and> valid (bufs s b) \<and> bsector (bufs s b) = sec then disk s sec
     else blk s sec)"
proof -
  let ?t = "upd_buf b (\<lambda>_. x) s"
  consider "bdev x = 1 \<and> valid x \<and> bsector x = sec"
    | "\<not> (bdev x = 1 \<and> valid x \<and> bsector x = sec)" "bdev (bufs s b) = 1 \<and> valid (bufs s b) \<and> bsector (bufs s b) = sec"
    | "\<not> (bdev x = 1 \<and> valid x \<and> bsector x = sec)" "\<not> (bdev (bufs s b) = 1 \<and> valid (bufs s b) \<and> bsector (bufs s b) = sec)"
    by blast
  then show ?thesis
  proof cases
    case 1
    then show ?thesis using blk_cached [OF assms(1), of b sec] assms(3) by simp
  next
    case 2
    have "bsector (bufs ?t j) \<noteq> sec" if j: "j < NBUF" "bdev (bufs ?t j) = 1" "valid (bufs ?t j)" for j
    proof (cases "j = b")
      case False
      with j have "bdev (bufs s j) = 1" by simp
      with False 2 j(1) assms(2,3) have "bsector (bufs s j) \<noteq> sec" unfolding uniq_def by metis
      with False show ?thesis by simp
    qed (use 2 j in simp)
    then have "blk ?t sec = disk ?t sec" by (rule blk_uncached)
    with 2 show ?thesis by auto
  next
    case 3
    show ?thesis
    proof (cases rule: blk_cases [OF assms(2), of sec])
      case c: (1 i)
      with 3 have "i \<noteq> b" by auto
      then have "blk ?t sec = bdata (bufs ?t i)"
        using c assms(1) by (intro blk_cached) auto
      with 3 c \<open>i \<noteq> b\<close> show ?thesis by auto
    next
      case c: 2
      have "blk ?t sec = disk ?t sec" using 3 c(1) by (intro blk_uncached) (auto split: if_splits)
      with 3 c show ?thesis by auto
    qed
  qed
qed

lemma cinvD:
  assumes "cinv H s"
  shows "cli_ok s" "lock_free Lk_bcache s" "lock_free Lk_ptable s" "uniq (bufs s)" "H \<subseteq> {..<NBUF}"
    "length (disk s sec) = BSIZE" "i < NBUF \<Longrightarrow> buf_ok (disk s) (disksize s) (i \<in> H) (bufs s i)"
    "i < NBUF \<Longrightarrow> length (bdata (bufs s i)) = BSIZE"
    "i \<in> H \<Longrightarrow> i < NBUF \<and> busy (bufs s i) \<and> valid (bufs s i) \<and> bdev (bufs s i) = 1 \<and> bsector (bufs s i) < disksize s"
  using assms by (auto simp: cinv_def buf_ok_def)

lemma length_blk: "cinv H s \<Longrightarrow> length (blk s sec) = BSIZE"
  by (rule blk_cases [of s sec]) (auto dest: cinvD(4,6,8))

text \<open>\<open>bread\<close>: the buffer is held, holds the sector's contents, and no contents change.\<close>

lemma bread_ok:
  assumes I: "cinv H s" and sec: "sec < disksize s" "\<forall>i \<in> H. bsector (bufs s i) \<noteq> sec"
    and room: "card (H \<union> dirties s) < NBUF"
  obtains b t where "bread 1 sec s = Done b t" "b \<notin> H" "cinv (insert b H) t" "beyond s t"
    "disk t = disk s" "dwrites t = dwrites s" "blk t = blk s" "dirties t = dirties s"
    "bsector (bufs t b) = sec" "bdata (bufs t b) = blk s sec" "dirty (bufs t b) \<or> blk s sec = disk s sec"
    "\<And>i. i \<noteq> b \<Longrightarrow> bufs t i = bufs s i" "b < NBUF"
    "b \<in> dirties s \<Longrightarrow> bsector (bufs s b) = sec"
proof -
  have "\<not> {..<NBUF} \<subseteq> H \<union> dirties s"
  proof
    assume "{..<NBUF} \<subseteq> H \<union> dirties s"
    moreover have "H \<union> dirties s \<subseteq> {..<NBUF}"
      using cinvD(5) [OF I] by (auto simp: dirties_def)
    ultimately have "H \<union> dirties s = {..<NBUF}" by blast
    with room show False by simp
  qed
  then have "\<exists>i < NBUF. i \<notin> H \<and> \<not> dirty (bufs s i)" by (auto simp: dirties_def)
  from bread_eq [OF I sec this] obtain b x where
    e: "bread 1 sec s = Done b (upd_buf b (\<lambda>_. x) s)" and f: "fetched s H sec b x" .
  let ?t = "upd_buf b (\<lambda>_. x) s"
  have len: "length (blk s sec) = BSIZE" by (rule length_blk [OF I])
  have I': "cinv (insert b H) ?t"
    using f len sec(1) by (intro cinv_upd [OF I]) (auto simp: fetched_def buf_ok_def)
  have old: "buf_ok (disk s) (disksize s) False (bufs s b)" using cinvD(7) [OF I, of b] f by (auto simp: fetched_def)
  have "blk ?t n = blk s n" for n
  proof -
    have "bdata (bufs s b) = disk s n \<and> blk s n = bdata (bufs s b)"
      if "bdev (bufs s b) = 1" "valid (bufs s b)" "bsector (bufs s b) = n" "n \<noteq> sec"
      using that old f blk_cached [OF cinvD(4) [OF I], of b n] by (auto simp: fetched_def buf_ok_def)
    then show ?thesis
      using blk_upd [OF cinvD(4) [OF I'] cinvD(4) [OF I], of n] f by (auto simp: fetched_def)
  qed
  moreover have "dirties ?t = dirties s" using f by (auto simp: dirties_def fetched_def)
  ultimately show ?thesis
    using I' f e by (intro that [of b ?t]) (auto simp: fetched_def dirties_def)
qed

text \<open>The statement that changes the data of a held buffer.\<close>

definition bmod :: "nat \<Rightarrow> (bytes \<Rightarrow> bytes) \<Rightarrow> (unit, 'z bstate_scheme) kop" where
  "bmod b f = modify (upd_buf b (\<lambda>x. x\<lparr>bdata := f (bdata x)\<rparr>))"

lemma upd_buf_const: "upd_buf b f s = upd_buf b (\<lambda>_. f (bufs s b)) s"
  by (simp add: upd_buf_def)

lemma held_unique:
  "cinv H s \<Longrightarrow> b \<in> H \<Longrightarrow> j < NBUF \<Longrightarrow> j \<noteq> b \<Longrightarrow> \<not> (bdev (bufs s j) = 1 \<and> bsector (bufs s j) = bsector (bufs s b))"
  using cinvD(4,5,9) [of H s] by (auto simp: uniq_def)

lemma blk_held: "cinv H s \<Longrightarrow> b \<in> H \<Longrightarrow> blk s (bsector (bufs s b)) = bdata (bufs s b)"
  using cinvD [of H s] by (intro blk_cached) auto

lemma bmod_ok:
  assumes I: "cinv H s" and b: "b \<in> H" and l: "length (f (bdata (bufs s b))) = BSIZE"
  obtains t where "bmod b f s = Done () t" "cinv H t" "beyond s t" "disk t = disk s" "dwrites t = dwrites s"
    "blk t = (blk s)(bsector (bufs s b) := f (bdata (bufs s b)))" "dirties t = dirties s"
    "\<And>i. i \<noteq> b \<Longrightarrow> same_content (bufs s i) (bufs t i)"
    "bsector (bufs t b) = bsector (bufs s b)" "bdata (bufs t b) = f (bdata (bufs s b))"
    "dirty (bufs t b) = dirty (bufs s b)"
proof -
  let ?x = "(bufs s b)\<lparr>bdata := f (bdata (bufs s b))\<rparr>"
  let ?t = "upd_buf b (\<lambda>_. ?x) s"
  have h: "b < NBUF" "busy (bufs s b)" "valid (bufs s b)" "bdev (bufs s b) = 1" "bsector (bufs s b) < disksize s"
    using cinvD(9) [OF I b] by auto
  have I': "cinv H ?t"
    using h b l cinvD(7) [OF I h(1)] held_unique [OF I b]
    by (intro cinv_upd [OF I]) (auto simp: buf_ok_def)
  have "blk ?t n = ((blk s)(bsector (bufs s b) := f (bdata (bufs s b)))) n" for n
    using blk_upd [OF cinvD(4) [OF I'] cinvD(4) [OF I] h(1), of n] h by auto
  then show ?thesis
    using I' by (intro that [of ?t])
      (auto simp: bmod_def upd_buf_const [of b "\<lambda>x. x\<lparr>bdata := f (bdata x)\<rparr>"] dirties_def)
qed

lemma bdirty_ok:
  assumes I: "cinv H s" and b: "b \<in> H"
  defines "t \<equiv> upd_buf b (set_flag B_DIRTY) s"
  shows "cinv H t" "blk t = blk s" "dirties t = insert b (dirties s)"
    "\<And>i. i \<noteq> b \<Longrightarrow> same_content (bufs s i) (bufs t i)"
    "bsector (bufs t b) = bsector (bufs s b)" "bdata (bufs t b) = bdata (bufs s b)" "dirty (bufs t b)"
proof -
  let ?x = "set_flag B_DIRTY (bufs s b)"
  have t: "t = upd_buf b (\<lambda>_. ?x) s" unfolding t_def by (rule upd_buf_const)
  have h: "b < NBUF" "busy (bufs s b)" "valid (bufs s b)" "bdev (bufs s b) = 1" "bsector (bufs s b) < disksize s"
    using cinvD(9) [OF I b] by auto
  show I': "cinv H t"
    unfolding t using h b cinvD(7) [OF I h(1)] held_unique [OF I b]
    by (intro cinv_upd [OF I]) (auto simp: buf_ok_def)
  show "blk t = blk s"
  proof
    fix n show "blk t n = blk s n"
      using blk_upd [OF cinvD(4) [OF I', unfolded t] cinvD(4) [OF I] h(1), of n] h blk_held [OF I b]
      unfolding t by auto
  qed
  show "dirties t = insert b (dirties s)" using h by (auto simp: t_def dirties_def)
qed (auto simp: t_def)

lemma bwrite_ok:
  assumes I: "cinv H s" and b: "b \<in> H"
  obtains t where "bwrite b s = Done () t" "cinv H t" "beyond s t"
    "disk t = (disk s)(bsector (bufs s b) := bdata (bufs s b))"
    "dwrites t = dwrites s @ [(bsector (bufs s b), bdata (bufs s b))]"
    "blk t = blk s" "dirties t = dirties s - {b}" "\<And>i. i \<noteq> b \<Longrightarrow> same_content (bufs s i) (bufs t i)"
    "bsector (bufs t b) = bsector (bufs s b)" "bdata (bufs t b) = bdata (bufs s b)"
proof -
  let ?n = "bsector (bufs s b)" and ?d = "bdata (bufs s b)"
  let ?x = "set_flag B_VALID (clear_flag B_DIRTY (set_flag B_DIRTY (bufs s b)))"
  let ?s = "s\<lparr>disk := (disk s)(?n := ?d), dwrites := dwrites s @ [(?n, ?d)]\<rparr>"
  let ?t = "upd_buf b (\<lambda>_. ?x) ?s"
  have h: "b < NBUF" "busy (bufs s b)" "valid (bufs s b)" "bdev (bufs s b) = 1" "?n < disksize s"
    using cinvD(9) [OF I b] by auto
  have e: "bwrite b s = Done () ?t"
    using h by (simp add: bwrite_def bind_def seqk_def iderw_write) (simp add: upd_buf_def)
  have ok: "buf_ok ((disk s)(?n := ?d)) (disksize s) (i \<in> H) (bufs s i)" if "i < NBUF" "i \<noteq> b" for i
    using cinvD(7) [OF I that(1)] held_unique [OF I b that] by (auto simp: buf_ok_def)
  have ring: "ring ((bufs s)(b := ?x)) xs = ring (bufs s) xs" for xs
    by (intro ring_cong) auto
  have u: "uniq ((bufs s)(b := ?x)) = uniq (bufs s)"
    by (rule uniq_cong) auto
  have bk: "buf_ok ((disk s)(?n := ?d)) (disksize s) (b \<in> H) ?x"
    using cinvD(7) [OF I h(1)] b h by (simp add: buf_ok_def)
  have "\<exists>xs. ring (bufs s) xs" using I by (simp add: cinv_def)
  then have I': "cinv H ?t"
    using cinvD(1-6) [OF I] ok bk u by (simp add: cinv_def ring cinvD(8) [OF I h(1)])
  have "blk ?t n = blk s n" for n
  proof (cases "n = ?n")
    case True
    then show ?thesis
      using blk_held [OF I b] blk_cached [OF cinvD(4) [OF I'] h(1), of n] h by simp
  next
    case False
    then show ?thesis by (intro blk_cong) (auto simp: h)
  qed
  then show ?thesis
    using e I' by (intro that [of ?t]) (auto simp: dirties_def beyond_def awakened_def upd_buf_def)
qed

lemma woken_bufs [simp]:
  "bufs (woken c s) = bufs s" "disk (woken c s) = disk s" "disksize (woken c s) = disksize s"
  "dwrites (woken c s) = dwrites s" "bstate.more (woken c s) = bstate.more s"
  by (simp_all add: woken_def)

text \<open>The exact effect of \<open>brelse\<close>.\<close>

definition released :: "nat \<Rightarrow> 'z bstate_scheme \<Rightarrow> 'z bstate_scheme" where
  "released b s = woken (Some (Ch_buf b))
     (upd_buf b (clear_flag B_BUSY) (s\<lparr>bufs := link_front b (unlink b (bufs s))\<rparr>))"

lemma brelse_eq:
  assumes "cli_ok s" "lock_free Lk_bcache s" "lock_free Lk_ptable s" "busy (bufs s b)"
  shows "brelse b s = Done () (released b s)"
proof -
  let ?u = "upd_buf b (clear_flag B_BUSY) (s\<lparr>bufs := link_front b (unlink b (bufs s))\<rparr>)"
  have "wakeup (Ch_buf b) (held Lk_bcache ?u) = Done () (woken (Some (Ch_buf b)) (held Lk_bcache ?u))"
    using assms by (intro wakeup_eq) simp_all
  then show ?thesis
    using assms by (simp add: brelse_def released_def seqk_def bind_def acquire_free)
qed

lemma brelse_ok:
  assumes I: "cinv H s" and b: "b \<in> H" and c: "dirty (bufs s b) \<or> bdata (bufs s b) = disk s (bsector (bufs s b))"
  obtains t where "brelse b s = Done () t" "cinv (H - {b}) t" "beyond s t" "disk t = disk s"
    "dwrites t = dwrites s" "blk t = blk s" "dirties t = dirties s"
    "\<And>i. i \<noteq> b \<Longrightarrow> same_content (bufs s i) (bufs t i)" "bsector (bufs t b) = bsector (bufs s b)"
    "\<And>xs. ring (bufs s) xs \<Longrightarrow> \<exists>ys zs. xs = ys @ b # zs \<and> ring (bufs t) (b # ys @ zs)"
proof -
  let ?t = "released b s"
  let ?F = "link_front b (unlink b (bufs s))"
  have h: "b < NBUF" "busy (bufs s b)" "valid (bufs s b)" "bdev (bufs s b) = 1" "bsector (bufs s b) < disksize s"
    using cinvD(9) [OF I b] by auto
  have sc: "same_content (bufs s i) (?F i)" for i by (rule move_front_content)
  have B: "bufs ?t = ?F(b := clear_flag B_BUSY (?F b))" by (simp add: released_def)
  have F: "bdev (?F i) = bdev (bufs s i)" "bsector (?F i) = bsector (bufs s i)" "bdata (?F i) = bdata (bufs s i)"
    "valid (?F i) = valid (bufs s i)" "dirty (?F i) = dirty (bufs s i)" "busy (?F i) = busy (bufs s i)" for i
    using sc [of i] same_content_flags [OF sc, of i] by (simp_all add: same_content_def)
  have f: "bdev (bufs ?t i) = bdev (bufs s i)" "bsector (bufs ?t i) = bsector (bufs s i)"
    "valid (bufs ?t i) = valid (bufs s i)" "dirty (bufs ?t i) = dirty (bufs s i)" "bdata (bufs ?t i) = bdata (bufs s i)"
    "busy (bufs ?t i) = (i \<noteq> b \<and> busy (bufs s i))" for i
    unfolding B by (simp_all add: F)
  have r: "\<exists>ys zs. xs = ys @ b # zs \<and> ring (bufs ?t) (b # ys @ zs)" if "ring (bufs s) xs" for xs
  proof -
    from that h(1) have "b \<in> set xs" by (simp add: ring_def)
    then obtain ys zs where x: "xs = ys @ b # zs" by (auto simp: in_set_conv_decomp)
    with that have "ring ?F (b # ys @ zs)" by (simp add: move_front_ring)
    moreover have "ring (bufs ?t) (b # ys @ zs) = ring ?F (b # ys @ zs)"
      unfolding B by (rule ring_cong) auto
    ultimately show ?thesis using x by blast
  qed
  have aw: "cli_ok ?t" "lock_free Lk_bcache ?t" "lock_free Lk_ptable ?t" "disk ?t = disk s" "disksize ?t = disksize s"
    using cinvD(1-3) [OF I] by (simp_all add: released_def)
  have "buf_ok (disk s) (disksize s) (i \<in> H - {b}) (bufs ?t i)" if "i < NBUF" for i
    using cinvD(7) [OF I that] h c by (cases "i = b") (auto simp: buf_ok_def f)
  moreover have "\<exists>xs. ring (bufs ?t) xs" using r I unfolding cinv_def by metis
  moreover have "uniq (bufs ?t)" using cinvD(4) [OF I] uniq_cong [of "bufs ?t" "bufs s"] f by simp
  ultimately have "cinv (H - {b}) ?t"
    using aw cinvD(5,6) [OF I] by (auto simp: cinv_def)
  moreover have "brelse b s = Done () ?t"
    using cinvD(1-3) [OF I] h by (intro brelse_eq)
  moreover have "beyond s ?t"
    by (simp add: beyond_def released_def awakened_def woken_def wake_proc_def upd_buf_def)
  moreover have "blk ?t = blk s"
    by (rule ext, rule blk_cong) (simp_all add: f aw)
  moreover have "dwrites ?t = dwrites s" by (simp add: released_def)
  moreover have "dirties ?t = dirties s" by (simp add: dirties_def f)
  moreover have "same_content (bufs s i) (bufs ?t i)" if "i \<noteq> b" for i
    using sc [of i] that by (simp add: B)
  ultimately show ?thesis
    using r aw(4) f(2) [of b] by (intro that [of ?t])
qed

text \<open>Reading a block, changing it, writing it through and releasing it.\<close>

lemma dirties_sector:
  assumes "cinv H s" "i \<in> dirties s" "b < NBUF" "bdev (bufs s b) = 1" "bsector (bufs s i) = bsector (bufs s b)"
  shows "i = b"
  using assms cinvD(4,7) [OF assms(1)] unfolding uniq_def dirties_def buf_ok_def by blast

lemma rmw_ok:
  assumes I: "cinv H s" and a: "sec < disksize s" "\<forall>i \<in> H. bsector (bufs s i) \<noteq> sec"
    "card (H \<union> dirties s) < NBUF" and l: "length (f (blk s sec)) = BSIZE"
  obtains t where "bind (bread 1 sec) (\<lambda>b. seqk (bmod b f) (seqk (bwrite b) (brelse b))) s = Done () t"
    "cinv H t" "beyond s t" "disk t = (disk s)(sec := f (blk s sec))" "blk t = (blk s)(sec := f (blk s sec))"
    "dwrites t = dwrites s @ [(sec, f (blk s sec))]" "dirties t = {i \<in> dirties s. bsector (bufs s i) \<noteq> sec}"
    "\<And>i. i \<in> H \<union> dirties t \<Longrightarrow> same_content (bufs s i) (bufs t i)"
proof -
  obtain b t1 where t1: "bread 1 sec s = Done b t1" "b \<notin> H" "cinv (insert b H) t1" "beyond s t1"
    "disk t1 = disk s" "dwrites t1 = dwrites s" "blk t1 = blk s" "dirties t1 = dirties s" "bsector (bufs t1 b) = sec"
    "bdata (bufs t1 b) = blk s sec" "\<And>i. i \<noteq> b \<Longrightarrow> bufs t1 i = bufs s i"
    "b \<in> dirties s \<Longrightarrow> bsector (bufs s b) = sec"
    by (rule bread_ok [OF I a]) blast
  obtain t2 where t2: "bmod b f t1 = Done () t2" "cinv (insert b H) t2" "beyond t1 t2" "disk t2 = disk t1"
    "dwrites t2 = dwrites t1" "blk t2 = (blk t1)(bsector (bufs t1 b) := f (bdata (bufs t1 b)))" "dirties t2 = dirties t1"
    "\<And>i. i \<noteq> b \<Longrightarrow> same_content (bufs t1 i) (bufs t2 i)"
    "bsector (bufs t2 b) = bsector (bufs t1 b)" "bdata (bufs t2 b) = f (bdata (bufs t1 b))"
    by (rule bmod_ok [OF t1(3) insertI1, of f], simp add: l t1(10), blast)
  obtain t3 where t3: "bwrite b t2 = Done () t3" "cinv (insert b H) t3" "beyond t2 t3"
    "disk t3 = (disk t2)(bsector (bufs t2 b) := bdata (bufs t2 b))"
    "dwrites t3 = dwrites t2 @ [(bsector (bufs t2 b), bdata (bufs t2 b))]" "blk t3 = blk t2"
    "dirties t3 = dirties t2 - {b}" "\<And>i. i \<noteq> b \<Longrightarrow> same_content (bufs t2 i) (bufs t3 i)"
    "bsector (bufs t3 b) = bsector (bufs t2 b)" "bdata (bufs t3 b) = bdata (bufs t2 b)"
    by (rule bwrite_ok [OF t2(2) insertI1], blast)
  obtain t where t: "brelse b t3 = Done () t" "cinv (insert b H - {b}) t" "beyond t3 t" "disk t = disk t3"
    "dwrites t = dwrites t3" "blk t = blk t3" "dirties t = dirties t3"
    "\<And>i. i \<noteq> b \<Longrightarrow> same_content (bufs t3 i) (bufs t i)"
    by (rule brelse_ok [OF t3(2) insertI1], simp add: t3, blast)
  have sc: "same_content (bufs s i) (bufs t i)" if "i \<noteq> b" for i
    using t1(11) [OF that] t2(8) [OF that] t3(8) [OF that] t(8) [OF that]
    by (metis same_content_trans)
  have sc: "same_content (bufs s i) (bufs t i)" if "i \<in> H \<union> dirties t" for i
    using that t1(2) t(7) t3(7) by (intro sc) auto
  have "dirties t = {i \<in> dirties s. bsector (bufs s i) \<noteq> sec}"
  proof -
    have "bsector (bufs s i) \<noteq> sec" if "i \<in> dirties s" "i \<noteq> b" for i
      using dirties_sector [OF t1(3), of i b] that t1(8,9,11) cinvD(9) [OF t1(3) insertI1] by auto
    then show ?thesis using t(7) t3(7) t2(7) t1(8,12) by auto
  qed
  then show ?thesis
    using t1(1-10) t2(1-7,9,10) t3(1-7,9,10) t(1-7) sc
    by (intro that [of t]) (auto simp: bind_def seqk_def intro: beyond_trans)
qed

text \<open>At boot the cache is empty: \<open>binit\<close> on zeroed memory establishes the invariant.\<close>

definition buf0 :: buf where
  "buf0 = \<lparr>bflags = 0, bdev = 0, bsector = 0, bprev = 0, bnext = 0, bqnext = None, bdata = replicate BSIZE 0\<rparr>"

lemma binit_loop_ring:
  assumes "bnext (B HEAD) = HEAD" "bprev (B HEAD) = HEAD" "n \<le> NBUF"
  shows "dll (\<lambda>i. bnext (binit_loop n B i)) (\<lambda>i. bprev (binit_loop n B i)) (HEAD # rev [0..<n] @ [HEAD])"
  using assms(3)
proof (induction n)
  case 0
  then show ?case using assms by simp
next
  case (Suc n)
  let ?B = "binit_loop n B" and ?C = "(binit_loop n B)(n := (binit_loop n B n)\<lparr>bdev := - 1\<rparr>)"
  have p: "(\<lambda>i. bnext (?C i)) = (\<lambda>i. bnext (?B i))" "(\<lambda>i. bprev (?C i)) = (\<lambda>i. bprev (?B i))" by auto
  have IH: "dll (\<lambda>i. bnext (?C i)) (\<lambda>i. bprev (?C i)) (HEAD # rev [0..<n] @ [HEAD])"
    using Suc unfolding p by simp
  have n: "n \<noteq> HEAD" using Suc.prems by (simp add: HEAD_def)
  have "bnext (?C HEAD) \<noteq> n"
    using IH n by (cases "rev [0..<n]") (auto dest!: arg_cong [where f = set])
  note l = link_front_ptrs [of n ?C, OF n this]
  show ?case
    using dll_link [OF IH, of n] n Suc.prems l by (simp add: Let_def HEAD_def del: fun_upd_apply)
qed

lemma binit_loop_content:
  "i < NBUF \<Longrightarrow> n \<le> NBUF \<Longrightarrow> same_content ((B i)\<lparr>bdev := if i < n then - 1 else bdev (B i)\<rparr>) (binit_loop n B i)"
proof (induction n)
  case (Suc n)
  let ?C = "(binit_loop n B)(n := (binit_loop n B n)\<lparr>bdev := - 1\<rparr>)"
  have "same_content (?C i) (link_front n ?C i)"
    unfolding link_front_def Let_def
    by (rule same_content_refl same_content_trans [OF _ same_content_upd(1)]
        same_content_trans [OF _ same_content_upd(2)])+
  with Suc show ?case by (auto simp: same_content_def Let_def)
qed simp

lemma binit_ok:
  assumes "cli_ok s" "lock_free Lk_ptable s" "\<And>i. i \<le> NBUF \<Longrightarrow> bufs s i = buf0" "\<And>sec. length (disk s sec) = BSIZE"
  obtains t where "binit s = Done () t" "cinv {} t" "blk t = disk s" "disk t = disk s" "dwrites t = dwrites s"
    "dirties t = {}" "disksize t = disksize s" "bstate.more t = bstate.more s"
    "\<And>i. i < NBUF \<Longrightarrow> bdev (bufs t i) \<noteq> 1"
proof -
  let ?B = "(bufs s)(HEAD := (bufs s HEAD)\<lparr>bprev := HEAD, bnext := HEAD\<rparr>)"
  let ?t = "(upd_lock Lk_bcache (\<lambda>_. \<lparr>locked = 0, lkname = ''bcache'', lkcpu = None\<rparr>) s)\<lparr>bufs := binit_loop NBUF ?B\<rparr>"
  have e: "binit s = Done () ?t"
    by (simp add: binit_def seqk_def bind_def initlock_def) (simp add: upd_lock_def)
  have r: "ring (bufs ?t) (rev [0..<NBUF])"
    using binit_loop_ring [of ?B NBUF] by (auto simp: ring_def)
  have c: "same_content (buf0\<lparr>bdev := - 1\<rparr>) (bufs ?t i)" if "i < NBUF" for i
    using binit_loop_content [OF that order_refl, of ?B] assms(3) [of i] that by (simp add: HEAD_def)
  have b: "bdev (bufs ?t i) \<noteq> 1" "buf_ok d n False (bufs ?t i)" "\<not> dirty (bufs ?t i)" if "i < NBUF" for i d n
    using c [OF that] by (auto simp: same_content_def buf_ok_def buf0_def busy_def dirty_def)
  have "cinv {} ?t"
    using assms r b by (auto simp: cinv_def uniq_def cli_ok_def lock_free_def upd_lock_def)
  moreover have "blk ?t n = disk s n" for n
    using b by (subst blk_uncached) (auto simp: upd_lock_def)
  moreover have "dirties ?t = {}" using b by (auto simp: dirties_def)
  ultimately show ?thesis
    using e b(1) by (intro that [of ?t]) (auto simp: upd_lock_def)
qed

section \<open>Properties\<close>

text \<open>The state of a machine that has just been switched on, with an empty disk of \<open>n\<close> sectors.\<close>

definition bstate0 :: "u32 \<Rightarrow> bstate" where
  "bstate0 n = \<lparr>cpus = (\<lambda>_. cpu0), me = 0, locks = (\<lambda>_. spinlock0), ptable = (\<lambda>_. proc0),
     nextpid = 1, initproc = None, ticks = 0, kpgdir = 0, bufs = (\<lambda>_. buf0),
     disk = (\<lambda>_. replicate BSIZE 0), disksize = n, dwrites = []\<rparr>"

lemma bstate0_ok: "cli_ok (bstate0 n)" "lock_free l (bstate0 n)" "bufs (bstate0 n) i = buf0"
  "length (disk (bstate0 n) sec) = BSIZE" "disk (bstate0 n) sec = replicate BSIZE 0" "disksize (bstate0 n) = n"
  by (simp_all add: bstate0_def cli_ok_def lock_free_def cpu0_def spinlock0_def)

lemma binit_boot:
  obtains s where "binit (bstate0 n) = Done () s" "cinv {} s" "blk s = disk (bstate0 n)" "dirties s = {}"
    "disksize s = n" "dwrites s = []" "\<And>i. i < NBUF \<Longrightarrow> bdev (bufs s i) \<noteq> 1"
proof (rule binit_ok [of "bstate0 n"])
  fix t assume "binit (bstate0 n) = Done () t" "cinv {} t" "blk t = disk (bstate0 n)" "dwrites t = dwrites (bstate0 n)"
    "dirties t = {}" "disksize t = disksize (bstate0 n)" "\<And>i. i < NBUF \<Longrightarrow> bdev (bufs t i) \<noteq> 1"
  then show thesis by (intro that [of t]) (simp_all add: bstate0_def)
qed (simp_all add: bstate0_ok)

text \<open>C17 (write, then read). With room in the cache, reading a sector, overwriting the buffer,
  writing it back and releasing it returns normally; afterwards the disk holds the new block, no
  other sector has changed, and a later \<open>bread\<close> of the sector returns a buffer with the new
  contents.\<close>

theorem bwrite_bread:
  assumes "cinv H s" "sec < disksize s" "\<forall>i \<in> H. bsector (bufs s i) \<noteq> sec"
    and "card (H \<union> dirties s) < NBUF" "length d = BSIZE"
  shows "\<exists>t b u. bind (bread 1 sec) (\<lambda>b. seqk (bmod b (\<lambda>_. d)) (seqk (bwrite b) (brelse b))) s = Done () t \<and>
    cinv H t \<and> disk t = (disk s)(sec := d) \<and> blk t = (blk s)(sec := d) \<and>
    bread 1 sec t = Done b u \<and> bdata (bufs u b) = d \<and> bsector (bufs u b) = sec"
proof -
  obtain t where t: "bind (bread 1 sec) (\<lambda>b. seqk (bmod b (\<lambda>_. d)) (seqk (bwrite b) (brelse b))) s = Done () t"
    "cinv H t" "beyond s t" "disk t = (disk s)(sec := d)" "blk t = (blk s)(sec := d)"
    "dirties t = {i \<in> dirties s. bsector (bufs s i) \<noteq> sec}"
    "\<And>i. i \<in> H \<union> dirties t \<Longrightarrow> same_content (bufs s i) (bufs t i)"
    by (rule rmw_ok [OF assms(1-4), of "\<lambda>_. d"], simp add: assms(5), blast)
  have "\<forall>i \<in> H. bsector (bufs t i) \<noteq> sec" using t(7) assms(3) by (auto simp: same_content_def)
  moreover have "sec < disksize t" using assms(2) t(3) by (simp add: beyond_def)
  moreover have "H \<union> dirties t \<subseteq> H \<union> dirties s" using t(6) by auto
  then have "card (H \<union> dirties t) \<le> card (H \<union> dirties s)"
    using finite_subset [OF cinvD(5) [OF assms(1)]] by (intro card_mono) (auto simp: dirties_def)
  then have "card (H \<union> dirties t) < NBUF" using assms(4) by simp
  ultimately obtain c u where "bread 1 sec t = Done c u" "bdata (bufs u c) = blk t sec" "bsector (bufs u c) = sec"
    using bread_ok [OF t(2), of sec] by blast
  with t show ?thesis by auto
qed

theorem bwrite_bread_witness:
  "\<exists>s t. bind (bread 1 7) (\<lambda>b. seqk (bmod b (\<lambda>_. replicate BSIZE 5)) (seqk (bwrite b) (brelse b))) (s :: bstate)
     = Done () t \<and> blk s 7 = replicate BSIZE 0 \<and> disk t 7 = replicate BSIZE 5"
proof -
  obtain s :: bstate where s: "cinv {} s" "blk s = disk (bstate0 100)" "dirties s = {}" "disksize s = 100"
    by (rule binit_boot [of 100]) blast
  have p: "7 < disksize s" "\<forall>i \<in> {}. bsector (bufs s i) \<noteq> 7" "card ({} \<union> dirties s) < NBUF"
    "length (replicate BSIZE (5 :: byte)) = BSIZE"
    using s by (simp_all add: NBUF_def)
  from bwrite_bread [OF s(1) p] obtain t where
    "bind (bread 1 7) (\<lambda>b. seqk (bmod b (\<lambda>_. replicate BSIZE 5)) (seqk (bwrite b) (brelse b))) s = Done () t"
    "disk t = (disk s)(7 := replicate BSIZE 5)" by blast
  moreover have "blk s 7 = replicate BSIZE 0" by (simp add: s(2) bstate0_ok)
  ultimately show ?thesis by force
qed

text \<open>C18 (least recently used eviction). \<open>brelse\<close> moves the released buffer to the front of the list,
  keeping the order of the others, and a \<open>bread\<close> of a sector that is not cached reuses the last
  buffer of the list that is neither held nor dirty; it can only fail for want of a buffer when every
  buffer is held or dirty.\<close>

theorem eviction_lru:
  assumes "cinv H s" "ring (bufs s) xs" "sec < disksize s"
    and "\<forall>i < NBUF. bdev (bufs s i) = 1 \<longrightarrow> bsector (bufs s i) \<noteq> sec"
  shows "(case filter (\<lambda>i. i \<notin> H \<and> \<not> dirty (bufs s i)) xs of
      [] \<Rightarrow> bread 1 sec s = Panic ''bget: no buffers''
    | js \<Rightarrow> \<exists>t. bread 1 sec s = Done (last js) t \<and> ring (bufs t) xs \<and>
        (\<exists>u ys zs. brelse (last js) t = Done () u \<and> xs = ys @ last js # zs \<and> ring (bufs u) (last js # ys @ zs)))"
proof (cases "filter (\<lambda>i. i \<notin> H \<and> \<not> dirty (bufs s i)) xs")
  case Nil
  have sx: "set xs = {..<NBUF}" using assms(2) by (simp add: ring_def)
  have bs: "busy (bufs s i) = (i \<in> H)" if "i < NBUF" for i
    using cinvD(7) [OF assms(1) that] by (simp add: buf_ok_def)
  have "List.find (\<lambda>i. bdev (bufs s i) = 1 \<and> bsector (bufs s i) = sec) xs = None"
    using assms(4) sx by (auto simp: find_None_iff)
  moreover have "List.find (\<lambda>i. \<not> busy (bufs s i) \<and> \<not> dirty (bufs s i)) (rev xs) = None"
    using Nil sx bs by (auto simp: find_None_iff filter_empty_conv)
  ultimately have "find_cached 1 sec (bufs s) = Some HEAD" "find_clean (bufs s) = Some HEAD"
    using ring_find [OF assms(2)] by simp_all
  then have "bread 1 sec s = Panic ''bget: no buffers''"
    using cinvD(1,2) [OF assms(1)] by (simp add: bread_def bget_def bget_loop_def bind_def seqk_def acquire_free)
  with Nil show ?thesis by simp
next
  case (Cons j r)
  let ?P = "\<lambda>i. i \<notin> H \<and> \<not> dirty (bufs s i)"
  let ?j = "last (j # r)"
  have sx: "set xs = {..<NBUF}" using assms(2) by (simp add: ring_def)
  have jx: "?j \<in> set (filter ?P xs)" unfolding Cons by simp
  then have room: "\<exists>i < NBUF. i \<notin> H \<and> \<not> dirty (bufs s i)" using sx by auto
  have "\<forall>i \<in> H. bsector (bufs s i) \<noteq> sec"
    using assms(4) cinvD(9) [OF assms(1)] by blast
  from bread_eq [OF assms(1,3) this room]
  obtain b x where bx: "bread 1 sec s = Done b (upd_buf b (\<lambda>_. x) s)" "fetched s H sec b x" .
  have "b = ?j"
  proof -
    have "List.find (\<lambda>i. \<not> busy (bufs s i) \<and> \<not> dirty (bufs s i)) (rev xs) = List.find ?P (rev xs)"
      using cinvD(7) [OF assms(1)] sx by (intro find_cong) (auto simp: buf_ok_def)
    also have "\<dots> = Some ?j"
      using Cons by (simp add: find_filter_last)
    finally have "find_clean (bufs s) = Some ?j" using ring_find(2) [OF assms(2)] by simp
    moreover have "find_cached 1 sec (bufs s) = Some HEAD"
      using ring_find(1) [OF assms(2), of 1 sec] assms(4) sx by (simp add: find_None_iff [THEN iffD2])
    moreover have "?j \<noteq> HEAD" using jx sx by (auto simp: HEAD_def)
    ultimately have "bget 1 sec s = Done ?j (upd_buf ?j (\<lambda>x. x\<lparr>bdev := 1, bsector := sec, bflags := B_BUSY\<rparr>) s)"
      using cinvD(1,2) [OF assms(1)] by (simp add: bget_def bget_loop_def bind_def seqk_def acquire_free)
    then show ?thesis
      using bx(1) by (auto simp: bread_def bind_def seqk_def split: outcome.splits)
  qed
  let ?t = "upd_buf b (\<lambda>_. x) s"
  have len: "length (blk s sec) = BSIZE" by (rule length_blk [OF assms(1)])
  have I': "cinv (insert b H) ?t"
    using bx(2) len assms(3) by (intro cinv_upd [OF assms(1)]) (auto simp: fetched_def buf_ok_def)
  have rt: "ring (bufs ?t) xs"
    using assms(2) bx(2) ring_cong [of "bufs ?t" "bufs s" xs] by (auto simp: fetched_def)
  have "dirty (bufs ?t b) \<or> bdata (bufs ?t b) = disk ?t (bsector (bufs ?t b))"
    using bx(2) by (auto simp: fetched_def)
  then obtain u where "brelse b ?t = Done () u" "\<exists>ys zs. xs = ys @ b # zs \<and> ring (bufs u) (b # ys @ zs)"
    by (rule brelse_ok [OF I' insertI1]) (use rt in metis)
  with Cons bx(1) rt \<open>b = ?j\<close> show ?thesis by auto
qed

theorem eviction_lru_witness:
  "\<exists>(s :: bstate) xs t. ring (bufs s) xs \<and> bread 1 7 s = Done (last xs) t"
proof -
  obtain s :: bstate where s: "cinv {} s" "dirties s = {}" "disksize s = 100"
    "\<And>i. i < NBUF \<Longrightarrow> bdev (bufs s i) \<noteq> 1"
    by (rule binit_boot [of 100]) blast
  obtain xs where xs: "ring (bufs s) xs" using s(1) by (auto simp: cinv_def)
  then have sx: "set xs = {..<NBUF}" by (simp add: ring_def)
  have "\<not> dirty (bufs s i)" if "i < NBUF" for i
    using s(2) that by (auto simp: dirties_def)
  then have "\<forall>i \<in> set xs. i \<notin> {} \<and> \<not> dirty (bufs s i)"
    unfolding sx by simp
  then have "filter (\<lambda>i. i \<notin> {} \<and> \<not> dirty (bufs s i)) xs = xs"
    by (rule filter_True)
  moreover have "0 \<in> set xs" unfolding sx by (simp add: NBUF_def)
  then obtain j r where "xs = j # r" by (cases xs) auto
  moreover have "7 < disksize s" "\<forall>i < NBUF. bdev (bufs s i) = 1 \<longrightarrow> bsector (bufs s i) \<noteq> 7"
    using s(3,4) by simp_all
  ultimately have "\<exists>t. bread 1 7 s = Done (last xs) t"
    using eviction_lru [OF s(1) xs, of 7] by auto
  with xs show ?thesis by blast
qed

end
