(* ===== verification/Log.thy ===== *)
theory Log
  imports Bio
begin

text \<open>
  The redo log (\<open>log.c\<close>) and the reading of the super block (\<open>readsb\<close> of \<open>fs.c\<close>) that it needs.
  The in-memory log header is part of the state; its copy on disk is the block \<open>log_start\<close>, encoded
  as the C structure is laid out: the count, then the home sectors, four bytes each.

  \<open>redo\<close> says what recovery makes of a disk. The lemmas follow every write that \<open>log_write\<close>,
  \<open>commit_trans\<close> and \<open>recover_from_log\<close> send to the disk and show that at every point between two
  of them a crash followed by \<open>initlog\<close> leaves all or nothing of the transaction.
\<close>

section \<open>State\<close>

definition LOGSIZE :: nat where "LOGSIZE = 20"
definition ROOTDEV :: u32 where "ROOTDEV = 1"

record superblock =
  sb_size :: u32
  sb_nblocks :: u32
  sb_ninodes :: u32
  sb_nlog :: u32

record lstate = bstate +
  log_start :: int
  log_size :: int
  log_busy :: bool
  log_dev :: u32
  lh_n :: int
  lh_sector :: "nat \<Rightarrow> u32"

section \<open>Operations\<close>

definition de_superblock :: "bytes \<Rightarrow> superblock" where
  "de_superblock bs = \<lparr>sb_size = de32 (slice 0 4 bs), sb_nblocks = de32 (slice 4 4 bs),
     sb_ninodes = de32 (slice 8 4 bs), sb_nlog = de32 (slice 12 4 bs)\<rparr>"

definition readsb :: "u32 \<Rightarrow> (superblock, 'z bstate_scheme) kop" where
  "readsb dev =
     bind (bread dev 1) (\<lambda>bp.
     bind (gets (\<lambda>s. de_superblock (bdata (bufs s bp)))) (\<lambda>sb.
     seqk (brelse bp) (ret sb)))"

text \<open>The number of the log block for the \<open>i\<close>-th logged sector.\<close>

definition logblock :: "'z lstate_scheme \<Rightarrow> nat \<Rightarrow> u32" where
  "logblock s i = word_of_int (log_start s + int i + 1)"

definition install_block :: "nat \<Rightarrow> (unit, 'z lstate_scheme) kop" where
  "install_block tail =
     bind (gets (\<lambda>s. (log_dev s, logblock s tail, lh_sector s tail))) (\<lambda>(dev, from, to).
     bind (bread dev from) (\<lambda>lbuf.
     bind (bread dev to) (\<lambda>dbuf.
     bind (gets (\<lambda>s. bdata (bufs s lbuf))) (\<lambda>dat.
     seqk (bmod dbuf (\<lambda>_. dat))
    (seqk (bwrite dbuf)
    (seqk (brelse lbuf)
     (brelse dbuf)))))))"

definition install_trans :: "(unit, 'z lstate_scheme) kop" where
  "install_trans = bind (gets lh_n) (\<lambda>n. foreach [0..<nat n] install_block)"

text \<open>The header block as a C structure: \<open>n\<close> at offset 0 and \<open>sector[i]\<close> at offset \<open>4 + 4 * i\<close>.\<close>

definition hdr_n :: "bytes \<Rightarrow> int" where
  "hdr_n bs = sint (de32 (slice 0 4 bs))"

definition hdr_sector :: "bytes \<Rightarrow> nat \<Rightarrow> u32" where
  "hdr_sector bs i = de32 (slice (4 + 4 * i) 4 bs)"

definition put_header :: "int \<Rightarrow> (nat \<Rightarrow> u32) \<Rightarrow> bytes \<Rightarrow> bytes" where
  "put_header n sec bs =
     fold (\<lambda>i. splice (4 + 4 * i) (le32 (sec i))) [0..<nat n] (splice 0 (le32 (word_of_int n)) bs)"

definition read_head :: "(unit, 'z lstate_scheme) kop" where
  "read_head =
     bind (gets (\<lambda>s. (log_dev s, log_start s))) (\<lambda>(dev, start).
     bind (bread dev (word_of_int start)) (\<lambda>b.
     bind (gets (\<lambda>s. bdata (bufs s b))) (\<lambda>lh.
     seqk (modify (\<lambda>s. s\<lparr>lh_n := hdr_n lh\<rparr>))
    (seqk (foreach [0..<nat (hdr_n lh)] (\<lambda>i.
        if i < LOGSIZE then modify (\<lambda>s. s\<lparr>lh_sector := (lh_sector s)(i := hdr_sector lh i)\<rparr>)
        else out_of_bounds))
     (brelse b)))))"

definition write_head :: "(unit, 'z lstate_scheme) kop" where
  "write_head =
     bind (gets (\<lambda>s. (log_dev s, log_start s, lh_n s, lh_sector s))) (\<lambda>(dev, start, n, sec).
     bind (bread dev (word_of_int start)) (\<lambda>b.
     seqk (bmod b (put_header n sec))
    (seqk (bwrite b)
     (brelse b))))"

definition recover_from_log :: "(unit, 'z lstate_scheme) kop" where
  "recover_from_log =
     seqk read_head
    (seqk install_trans
    (seqk (modify (\<lambda>s. s\<lparr>lh_n := 0\<rparr>))
     write_head))"

definition initlog :: "(unit, 'z lstate_scheme) kop" where
  "initlog =
     (if 4 + 4 * LOGSIZE \<ge> BSIZE then panic ''initlog: too big logheader''
      else seqk (initlock Lk_log ''log'')
          (bind (readsb ROOTDEV) (\<lambda>sb.
           seqk (modify (\<lambda>s. s\<lparr>log_start := sint (sb_size sb - sb_nlog sb), log_size := sint (sb_nlog sb),
              log_dev := ROOTDEV\<rparr>))
           recover_from_log)))"

text \<open>
  As in \<open>bget\<close>, a call of \<open>sleep\<close> leaves the CPU; the process goes on with \<open>begin_trans_resume\<close>,
  which tests the loop condition again.
\<close>

definition begin_trans_loop :: "(unit, 'z lstate_scheme) kop" where
  "begin_trans_loop =
     bind (gets log_busy) (\<lambda>y.
     if y then sleep Ch_log Lk_log
     else seqk (modify (\<lambda>s. s\<lparr>log_busy := True\<rparr>)) (release Lk_log))"

definition begin_trans :: "(unit, 'z lstate_scheme) kop" where
  "begin_trans = seqk (acquire Lk_log) begin_trans_loop"

definition begin_trans_resume :: "bool \<Rightarrow> (unit, 'z lstate_scheme) kop" where
  "begin_trans_resume ie = seqk (sleep_resume ie Lk_log) begin_trans_loop"

definition is_log_busy :: "(bool, 'z lstate_scheme) kop" where
  "is_log_busy = gets log_busy"

definition commit_trans :: "(unit, 'z lstate_scheme) kop" where
  "commit_trans =
     bind (gets lh_n) (\<lambda>n.
     seqk (whenk (n > 0)
        (seqk write_head
        (seqk install_trans
        (seqk (modify (\<lambda>s. s\<lparr>lh_n := 0\<rparr>))
         write_head))))
    (seqk (acquire Lk_log)
    (seqk (modify (\<lambda>s. s\<lparr>log_busy := False\<rparr>))
    (seqk (wakeup Ch_log)
     (release Lk_log)))))"

definition log_slot :: "nat \<Rightarrow> (nat \<Rightarrow> u32) \<Rightarrow> u32 \<Rightarrow> nat" where
  "log_slot n sec sector = (case List.find (\<lambda>i. sec i = sector) [0..<n] of Some i \<Rightarrow> i | None \<Rightarrow> n)"

definition log_write :: "nat \<Rightarrow> (unit, 'z lstate_scheme) kop" where
  "log_write b =
     bind (gets (\<lambda>s. (lh_n s, log_size s, log_busy s))) (\<lambda>(n, size, y).
     if n \<ge> int LOGSIZE \<or> n \<ge> size - 1 then panic ''too big a transaction''
     else if \<not> y then panic ''write outside of trans''
     else
       bind (gets (\<lambda>s. log_slot (nat n) (lh_sector s) (bsector (bufs s b)))) (\<lambda>i.
       seqk (modify (\<lambda>s. s\<lparr>lh_sector := (lh_sector s)(i := bsector (bufs s b))\<rparr>))
      (bind (gets (\<lambda>s. (bdev (bufs s b), logblock s i))) (\<lambda>(dev, to).
       bind (bread dev to) (\<lambda>lbuf.
       bind (gets (\<lambda>s. bdata (bufs s b))) (\<lambda>dat.
       seqk (bmod lbuf (\<lambda>_. dat))
      (seqk (bwrite lbuf)
      (seqk (brelse lbuf)
      (seqk (whenk (int i = n) (modify (\<lambda>s. s\<lparr>lh_n := lh_n s + 1\<rparr>)))
       (modify (upd_buf b (set_flag B_DIRTY))))))))))))"

section \<open>The header block\<close>

lemma put_sectors:
  fixes sec :: "nat \<Rightarrow> u32"
  assumes "length d = BSIZE" "k \<le> 127"
  defines "F \<equiv> fold (\<lambda>i. splice (4 + 4 * i) (le32 (sec i))) [0..<k] d"
  shows "length F = BSIZE" "slice 0 4 F = slice 0 4 d"
    "i < k \<Longrightarrow> slice (4 + 4 * i) 4 F = le32 (sec i)"
proof -
  have "length F = BSIZE \<and> slice 0 4 F = slice 0 4 d \<and> (\<forall>i < k. slice (4 + 4 * i) 4 F = le32 (sec i))"
    using assms(2) unfolding F_def
  proof (induction k)
    case (Suc k)
    let ?F = "fold (\<lambda>i. splice (4 + 4 * i) (le32 (sec i))) [0..<k] d"
    have IH: "length ?F = BSIZE" "slice 0 4 ?F = slice 0 4 d" "\<And>i. i < k \<Longrightarrow> slice (4 + 4 * i) 4 ?F = le32 (sec i)"
      using Suc by auto
    have "slice (4 + 4 * i) 4 (splice (4 + 4 * k) (le32 (sec k)) ?F) = le32 (sec i)" if "i < Suc k" for i
      using that Suc.prems IH by (cases "i = k") (auto simp: slice_splice_other BSIZE_def)
    then show ?case
      using IH Suc.prems by (auto simp: slice_splice_other BSIZE_def)
  qed (simp add: assms)
  then show "length F = BSIZE" "slice 0 4 F = slice 0 4 d"
    "i < k \<Longrightarrow> slice (4 + 4 * i) 4 F = le32 (sec i)" by auto
qed

lemma sint_of_nat: "k < 2 ^ 31 \<Longrightarrow> sint (word_of_int (int k) :: u32) = int k"
  by transfer (simp add: signed_take_bit_int_eq_self)

lemma put_header_ok:
  assumes "length d = BSIZE" "k \<le> 127"
  shows "length (put_header (int k) sec d) = BSIZE" "hdr_n (put_header (int k) sec d) = int k"
    "i < k \<Longrightarrow> hdr_sector (put_header (int k) sec d) i = sec i"
proof -
  have l: "length (splice 0 (le32 (word_of_int (int k))) d) = BSIZE" using assms by (simp add: BSIZE_def)
  note P = put_sectors [OF l assms(2), where sec = sec]
  show "length (put_header (int k) sec d) = BSIZE" using P(1) by (simp add: put_header_def)
  show "hdr_n (put_header (int k) sec d) = int k"
    using P(2) assms sint_of_nat [of k] by (simp add: put_header_def hdr_n_def BSIZE_def)
  show "i < k \<Longrightarrow> hdr_sector (put_header (int k) sec d) i = sec i"
    using P(3) by (simp add: put_header_def hdr_sector_def)
qed

section \<open>Writes and recovery on the disk\<close>

text \<open>The disk after a sequence of block writes.\<close>

definition apply_writes :: "(u32 \<times> bytes) list \<Rightarrow> (u32 \<Rightarrow> bytes) \<Rightarrow> u32 \<Rightarrow> bytes" where
  "apply_writes ws d = fold (\<lambda>(n, x) d. d(n := x)) ws d"

lemma apply_writes_simps [simp]:
  "apply_writes [] d = d" "apply_writes (w # ws) d = apply_writes ws (d(fst w := snd w))"
  "apply_writes (ws @ vs) d = apply_writes vs (apply_writes ws d)"
  by (simp_all add: apply_writes_def split: prod.split)

lemma apply_writes_other: "n \<notin> fst ` set ws \<Longrightarrow> apply_writes ws d n = d n"
  by (induction ws arbitrary: d) auto

lemma apply_writes_all:
  assumes "\<forall>(n, x) \<in> set ws. f n = x"
  shows "apply_writes ws d n = (if n \<in> fst ` set ws then f n else d n)"
  using assms
proof (induction ws arbitrary: d)
  case (Cons w ws)
  then show ?case by (cases w) auto
qed simp

text \<open>The sector of the header (0) and of the following log blocks.\<close>

definition lsec :: "int \<Rightarrow> nat \<Rightarrow> u32" where
  "lsec start i = word_of_int (start + int i)"

lemma lsec_eqs: "logblock s i = lsec (log_start s) (Suc i)" "word_of_int start = lsec start 0"
  by (simp_all add: lsec_def logblock_def add_ac)

text \<open>What the log on a disk stands for, and the disk that recovery makes of it.\<close>

definition log_pairs :: "int \<Rightarrow> (u32 \<Rightarrow> bytes) \<Rightarrow> (u32 \<times> bytes) list" where
  "log_pairs start d =
     (let h = d (lsec start 0)
      in map (\<lambda>i. (hdr_sector h i, d (lsec start (Suc i)))) [0..<nat (hdr_n h)])"

definition redo :: "int \<Rightarrow> (u32 \<Rightarrow> bytes) \<Rightarrow> u32 \<Rightarrow> bytes" where
  "redo start d = apply_writes (log_pairs start d) d"

text \<open>The sectors of the log, and a log that recovery can work with.\<close>

definition log_area :: "int \<Rightarrow> int \<Rightarrow> u32 set" where
  "log_area start nlog = {n. start \<le> uint n \<and> uint n < start + nlog}"

definition log_wf :: "int \<Rightarrow> int \<Rightarrow> u32 \<Rightarrow> (u32 \<Rightarrow> bytes) \<Rightarrow> bool" where
  "log_wf start nlog dsize d \<longleftrightarrow>
     (let h = d (lsec start 0) in hdr_n h \<le> int LOGSIZE \<and> hdr_n h < nlog \<and>
      (\<forall>i < nat (hdr_n h). hdr_sector h i < dsize \<and> hdr_sector h i \<notin> log_area start nlog))"

definition geometry :: "int \<Rightarrow> int \<Rightarrow> u32 \<Rightarrow> bool" where
  "geometry start nlog dsize \<longleftrightarrow> 2 \<le> start \<and> 1 \<le> nlog \<and> start + nlog \<le> uint dsize \<and> uint dsize < 2 ^ 31"

lemma lsec_area:
  assumes "geometry start nlog dsize" "int i < nlog"
  shows "lsec start i \<in> log_area start nlog" "lsec start i < dsize" "uint (lsec start i) = start + int i"
proof -
  have "0 \<le> start + int i" "start + int i < 2 ^ 32" using assms by (auto simp: geometry_def)
  then show u: "uint (lsec start i) = start + int i"
    unfolding lsec_def uint_word_of_int_eq by (intro take_bit_int_eq_self) simp_all
  show "lsec start i \<in> log_area start nlog" "lsec start i < dsize"
    using assms u by (auto simp: log_area_def geometry_def word_less_def)
qed

lemma lsec_inj:
  assumes "geometry start nlog dsize" "int i < nlog" "int j < nlog"
  shows "lsec start i = lsec start j \<longleftrightarrow> i = j"
  using lsec_area(3) [OF assms(1,2)] lsec_area(3) [OF assms(1,3)] by (metis add_left_cancel of_nat_eq_iff)

lemma redo_home:
  assumes "\<And>i. i < nat (hdr_n (d (lsec start 0))) \<Longrightarrow> hdr_sector (d (lsec start 0)) i \<noteq> n"
  shows "redo start d n = d n"
  unfolding redo_def by (rule apply_writes_other) (use assms in \<open>fastforce simp: log_pairs_def Let_def\<close>)

lemma redo_empty: "hdr_n (d (lsec start 0)) \<le> 0 \<Longrightarrow> redo start d = d"
  by (simp add: redo_def log_pairs_def Let_def)

section \<open>Copying blocks through the cache\<close>

lemma room_insert: "finite A \<Longrightarrow> card A + 1 < n \<Longrightarrow> card (insert b A) < n"
  by (simp add: card_insert_if)

lemma finite_pins: "cinv H s \<Longrightarrow> finite (H \<union> dirties s)"
  using cinvD(5) [of H s] finite_subset by (auto simp: dirties_def)

text \<open>The body of the loop of \<open>install_trans\<close>: one block of the disk is copied to another.\<close>

definition copy_block :: "u32 \<Rightarrow> u32 \<Rightarrow> (unit, 'z bstate_scheme) kop" where
  "copy_block from to =
     bind (bread 1 from) (\<lambda>lbuf.
     bind (bread 1 to) (\<lambda>dbuf.
     bind (gets (\<lambda>s. bdata (bufs s lbuf))) (\<lambda>dat.
     seqk (bmod dbuf (\<lambda>_. dat))
    (seqk (bwrite dbuf)
    (seqk (brelse lbuf)
     (brelse dbuf))))))"

lemma copy_block_ok:
  assumes I: "cinv H s" and a: "from < disksize s" "to < disksize s" "from \<noteq> to"
    "\<forall>i \<in> H. bsector (bufs s i) \<noteq> from \<and> bsector (bufs s i) \<noteq> to"
    "card (H \<union> dirties s) + 1 < NBUF"
  obtains t where "copy_block from to s = Done () t" "cinv H t" "beyond s t"
    "disk t = (disk s)(to := blk s from)" "blk t = (blk s)(to := blk s from)"
    "dwrites t = dwrites s @ [(to, blk s from)]" "dirties t = {i \<in> dirties s. bsector (bufs s i) \<noteq> to}"
    "\<And>i. i \<in> dirties t \<Longrightarrow> bsector (bufs t i) = bsector (bufs s i)"
proof -
  have a1: "\<forall>i \<in> H. bsector (bufs s i) \<noteq> from" "card (H \<union> dirties s) < NBUF" using a by auto
  obtain l t1 where t1: "bread 1 from s = Done l t1" "l \<notin> H" "cinv (insert l H) t1" "beyond s t1"
    "disk t1 = disk s" "dwrites t1 = dwrites s" "blk t1 = blk s" "dirties t1 = dirties s" "bsector (bufs t1 l) = from"
    "bdata (bufs t1 l) = blk s from" "dirty (bufs t1 l) \<or> blk s from = disk s from"
    "\<And>i. i \<noteq> l \<Longrightarrow> bufs t1 i = bufs s i" "l \<in> dirties s \<Longrightarrow> bsector (bufs s l) = from"
    by (rule bread_ok [OF I a(1) a1]) blast
  have a2: "to < disksize t1" "\<forall>i \<in> insert l H. bsector (bufs t1 i) \<noteq> to" "card (insert l H \<union> dirties t1) < NBUF"
  proof -
    show "to < disksize t1" using a(2) t1(4) by (simp add: beyond_def)
    show "card (insert l H \<union> dirties t1) < NBUF"
      using room_insert [OF finite_pins [OF I] a(5)] t1(8) by simp
    show "\<forall>i \<in> insert l H. bsector (bufs t1 i) \<noteq> to"
      using a(3,4) t1(9,12) by (metis insert_iff)
  qed
  obtain d t2 where t2: "bread 1 to t1 = Done d t2" "d \<notin> insert l H" "cinv (insert d (insert l H)) t2" "beyond t1 t2"
    "disk t2 = disk t1" "dwrites t2 = dwrites t1" "blk t2 = blk t1" "dirties t2 = dirties t1" "bsector (bufs t2 d) = to"
    "\<And>i. i \<noteq> d \<Longrightarrow> bufs t2 i = bufs t1 i" "d \<in> dirties t1 \<Longrightarrow> bsector (bufs t1 d) = to"
    by (rule bread_ok [OF t1(3) a2]) blast
  have dl: "d \<noteq> l" using t2(2) by auto
  let ?x = "blk s from"
  have xl: "bdata (bufs t2 l) = ?x" using t2(10) [of l] dl t1(10) by simp
  have lx: "length ?x = BSIZE" by (rule length_blk [OF I])
  obtain t3 where t3: "bmod d (\<lambda>_. ?x) t2 = Done () t3" "cinv (insert d (insert l H)) t3" "beyond t2 t3"
    "disk t3 = disk t2" "dwrites t3 = dwrites t2" "blk t3 = (blk t2)(bsector (bufs t2 d) := ?x)" "dirties t3 = dirties t2"
    "\<And>i. i \<noteq> d \<Longrightarrow> same_content (bufs t2 i) (bufs t3 i)"
    "bsector (bufs t3 d) = bsector (bufs t2 d)" "bdata (bufs t3 d) = ?x"
    by (rule bmod_ok [OF t2(3) insertI1, of "\<lambda>_. ?x"], simp add: lx, blast)
  obtain t4 where t4: "bwrite d t3 = Done () t4" "cinv (insert d (insert l H)) t4" "beyond t3 t4"
    "disk t4 = (disk t3)(bsector (bufs t3 d) := bdata (bufs t3 d))"
    "dwrites t4 = dwrites t3 @ [(bsector (bufs t3 d), bdata (bufs t3 d))]" "blk t4 = blk t3"
    "dirties t4 = dirties t3 - {d}" "\<And>i. i \<noteq> d \<Longrightarrow> same_content (bufs t3 i) (bufs t4 i)"
    "bsector (bufs t4 d) = bsector (bufs t3 d)" "bdata (bufs t4 d) = bdata (bufs t3 d)"
    by (rule bwrite_ok [OF t3(2) insertI1], blast)
  have sc: "same_content (bufs t1 i) (bufs t4 i)" if "i \<noteq> d" for i
    using t2(10) [OF that] t3(8) [OF that] t4(8) [OF that] by (metis same_content_trans)
  have l4: "bsector (bufs t4 l) = from" "bdata (bufs t4 l) = ?x" "dirty (bufs t4 l) = dirty (bufs t1 l)"
    using sc [of l] dl t1(9,10) by (auto simp: same_content_def same_content_flags)
  have c4: "dirty (bufs t4 l) \<or> bdata (bufs t4 l) = disk t4 (bsector (bufs t4 l))"
    using l4 t1(5,11) t4(4) t3(4,9) t2(5,9) a(3) by auto
  obtain t5 where t5: "brelse l t4 = Done () t5" "cinv (insert d (insert l H) - {l}) t5" "beyond t4 t5" "disk t5 = disk t4"
    "dwrites t5 = dwrites t4" "blk t5 = blk t4" "dirties t5 = dirties t4"
    "\<And>i. i \<noteq> l \<Longrightarrow> same_content (bufs t4 i) (bufs t5 i)" "bsector (bufs t5 l) = bsector (bufs t4 l)"
    by (rule brelse_ok [OF t4(2) _ c4], simp, blast)
  have H5: "insert d (insert l H) - {l} = insert d H" using t1(2) dl by auto
  have c5: "dirty (bufs t5 d) \<or> bdata (bufs t5 d) = disk t5 (bsector (bufs t5 d))"
    using t5(4) t5(8) [OF dl] t4(4,9,10) by (auto simp: same_content_def)
  obtain t where t: "brelse d t5 = Done () t" "cinv (insert d H - {d}) t" "beyond t5 t" "disk t = disk t5"
    "dwrites t = dwrites t5" "blk t = blk t5" "dirties t = dirties t5"
    "\<And>i. i \<noteq> d \<Longrightarrow> same_content (bufs t5 i) (bufs t i)"
    by (rule brelse_ok [OF t5(2) [unfolded H5] insertI1 c5], blast)
  have D: "dirties t = dirties s - {d}"
    using t(7) t5(7) t4(7) t3(7) t2(8) t1(8) by simp
  have "dirties t = {i \<in> dirties s. bsector (bufs s i) \<noteq> to}"
  proof -
    have *: "bsector (bufs s i) \<noteq> to" if "i \<in> dirties s" "i \<noteq> d" for i
    proof
      assume e: "bsector (bufs s i) = to"
      have "i \<noteq> l" using e t1(13) a(3) that(1) by auto
      then have "bufs t2 i = bufs s i" using t2(10) [OF that(2)] t1(12) [of i] by simp
      then have "i = d"
        using dirties_sector [OF t2(3), of i d] that(1) e t2(8,9) t1(8) cinvD(9) [OF t2(3) insertI1] by auto
      with that(2) show False by simp
    qed
    moreover have "bsector (bufs s d) = to" if "d \<in> dirties s"
      using t2(11) that t1(8) t1(12) [OF dl] by simp
    ultimately show ?thesis unfolding D by auto
  qed
  moreover have "bsector (bufs t i) = bsector (bufs s i)" if "i \<in> dirties t" for i
  proof -
    have i: "i \<noteq> d" "i \<in> dirties s" using that D by auto
    have "bsector (bufs t i) = bsector (bufs t5 i)" using t(8) [OF i(1)] by (simp add: same_content_def)
    also have "\<dots> = bsector (bufs t1 i)"
      using t5(8) [of i] sc [OF i(1)] l4(1) t5(9) t1(9) by (cases "i = l") (auto simp: same_content_def)
    also have "\<dots> = bsector (bufs s i)"
      using t1(9,12,13) i(2) by (cases "i = l") auto
    finally show ?thesis .
  qed
  moreover have "beyond s t"
    using t1(4) t2(4) t3(3) t4(3) t5(3) t(3) by (meson beyond_trans)
  ultimately show ?thesis
    using t1(1-8) t2(1-9) t3(1-7,9,10) t4(1-7) t5(1-7) t(1-7) xl
    by (intro that [of t]) (auto simp: copy_block_def bind_def seqk_def)
qed

section \<open>The log operations on a quiet cache\<close>

text \<open>What the log operations leave alone.\<close>

definition lbeyond :: "'z lstate_scheme \<Rightarrow> 'z lstate_scheme \<Rightarrow> bool" where
  "lbeyond s t \<longleftrightarrow> awakened s t \<and> disksize t = disksize s \<and> log_start t = log_start s \<and> log_size t = log_size s \<and>
     log_busy t = log_busy s \<and> log_dev t = log_dev s \<and> lstate.more t = lstate.more s"

lemma lbeyond_refl [simp]: "lbeyond s s"
  by (simp add: lbeyond_def)

lemma lbeyond_trans: "lbeyond s t \<Longrightarrow> lbeyond t u \<Longrightarrow> lbeyond s u"
  unfolding lbeyond_def using awakened_trans by fastforce

lemma beyond_log:
  fixes s t :: "'z lstate_scheme"
  assumes "beyond s t"
  shows "lbeyond s t" "lh_n t = lh_n s" "lh_sector t = lh_sector s" "log_start t = log_start s"
    "log_size t = log_size s" "log_dev t = log_dev s" "disksize t = disksize s" "log_busy t = log_busy s"
  using assms by (cases s, cases t, simp add: beyond_def lbeyond_def)+

lemma lbeyondD:
  assumes "lbeyond s t"
  shows "log_start t = log_start s" "log_size t = log_size s" "log_dev t = log_dev s" "disksize t = disksize s"
    "log_busy t = log_busy s" "awakened s t" "lstate.more t = lstate.more s"
  using assms by (simp_all add: lbeyond_def)

lemma install_block_copy:
  "log_dev s = 1 \<Longrightarrow> install_block i s = copy_block (lsec (log_start s) (Suc i)) (lh_sector s i) s"
  by (simp add: install_block_def copy_block_def lsec_eqs bind_def)

lemma install_loop_ok:
  assumes "cinv {} s" "log_dev s = 1" "card (dirties s) + 1 < NBUF"
    and "\<forall>i \<in> set is. lsec (log_start s) (Suc i) < disksize s \<and> lh_sector s i < disksize s"
    and "\<forall>i \<in> set is. \<forall>j \<in> set is. lh_sector s j \<noteq> lsec (log_start s) (Suc i)"
  defines "ps \<equiv> map (\<lambda>i. (lh_sector s i, blk s (lsec (log_start s) (Suc i)))) is"
  shows "\<exists>t. foreach is install_block s = Done () t \<and> cinv {} t \<and> beyond s t \<and>
    disk t = apply_writes ps (disk s) \<and> blk t = apply_writes ps (blk s) \<and> dwrites t = dwrites s @ ps \<and>
    dirties t = {k \<in> dirties s. bsector (bufs s k) \<notin> lh_sector s ` set is} \<and>
    (\<forall>k \<in> dirties t. bsector (bufs t k) = bsector (bufs s k))"
  using assms(1-5) unfolding ps_def
proof (induction "is" arbitrary: s)
  case (Cons i "is")
  have sep: "lsec (log_start s) (Suc i) < disksize s" "lh_sector s i < disksize s" "lsec (log_start s) (Suc i) \<noteq> lh_sector s i"
    "\<forall>i \<in> {}. bsector (bufs s i) \<noteq> lsec (log_start s) (Suc i) \<and> bsector (bufs s i) \<noteq> lh_sector s i"
    "card ({} \<union> dirties s) + 1 < NBUF"
    using Cons.prems by (auto dest!: spec [of _ i])
  let ?p = "(lh_sector s i, blk s (lsec (log_start s) (Suc i)))"
  obtain u where u: "copy_block (lsec (log_start s) (Suc i)) (lh_sector s i) s = Done () u" "cinv {} u" "beyond s u"
    "disk u = (disk s)(fst ?p := snd ?p)" "blk u = (blk s)(fst ?p := snd ?p)" "dwrites u = dwrites s @ [?p]"
    "dirties u = {k \<in> dirties s. bsector (bufs s k) \<noteq> lh_sector s i}"
    "\<And>k. k \<in> dirties u \<Longrightarrow> bsector (bufs u k) = bsector (bufs s k)"
    using copy_block_ok [of "{}" s "lsec (log_start s) (Suc i)" "lh_sector s i"] Cons.prems(1) sep by auto
  note b = beyond_log [OF u(3)]
  have "card (dirties u) \<le> card (dirties s)"
    unfolding u(7) by (intro card_mono) (auto simp: dirties_def)
  then have "\<exists>t. foreach is install_block u = Done () t \<and> cinv {} t \<and> beyond u t \<and>
    disk t = apply_writes (map (\<lambda>i. (lh_sector u i, blk u (lsec (log_start u) (Suc i)))) is) (disk u) \<and>
    blk t = apply_writes (map (\<lambda>i. (lh_sector u i, blk u (lsec (log_start u) (Suc i)))) is) (blk u) \<and>
    dwrites t = dwrites u @ map (\<lambda>i. (lh_sector u i, blk u (lsec (log_start u) (Suc i)))) is \<and>
    dirties t = {k \<in> dirties u. bsector (bufs u k) \<notin> lh_sector u ` set is} \<and>
    (\<forall>k \<in> dirties t. bsector (bufs t k) = bsector (bufs u k))"
    using Cons.prems b by (intro Cons.IH [OF u(2)]) auto
  then obtain t where t: "foreach is install_block u = Done () t" "cinv {} t" "beyond u t"
    "disk t = apply_writes (map (\<lambda>i. (lh_sector u i, blk u (lsec (log_start u) (Suc i)))) is) (disk u)"
    "blk t = apply_writes (map (\<lambda>i. (lh_sector u i, blk u (lsec (log_start u) (Suc i)))) is) (blk u)"
    "dwrites t = dwrites u @ map (\<lambda>i. (lh_sector u i, blk u (lsec (log_start u) (Suc i)))) is"
    "dirties t = {k \<in> dirties u. bsector (bufs u k) \<notin> lh_sector u ` set is}"
    "\<forall>k \<in> dirties t. bsector (bufs t k) = bsector (bufs u k)" by blast
  have m: "map (\<lambda>i. (lh_sector u i, blk u (lsec (log_start u) (Suc i)))) is =
      map (\<lambda>i. (lh_sector s i, blk s (lsec (log_start s) (Suc i)))) is"
    using Cons.prems(5) b by (auto simp: u(5))
  have "foreach (i # is) install_block s = Done () t"
    using u(1) t(1) Cons.prems(2) by (simp add: install_block_copy seqk_def bind_def)
  moreover have "beyond s t" using u(3) t(3) by (rule beyond_trans)
  moreover have "dirties t = {k \<in> dirties s. bsector (bufs s k) \<notin> lh_sector s ` set (i # is)}"
    using t(7) u(7,8) b(3) by auto
  moreover have "\<forall>k \<in> dirties t. bsector (bufs t k) = bsector (bufs s k)"
    using t(7,8) u(8) by auto
  ultimately show ?case
    using t(2) t(4-6) [unfolded m] u(4-6) by auto
qed (simp add: assms)

lemma write_head_ok:
  assumes I: "cinv {} s" and a: "log_dev s = 1" "lh_n s = int k" "k \<le> 127" "lsec (log_start s) 0 < disksize s"
    "card (dirties s) < NBUF"
  defines "h \<equiv> put_header (int k) (lh_sector s) (blk s (lsec (log_start s) 0))"
  obtains t where "write_head s = Done () t" "cinv {} t" "beyond s t"
    "disk t = (disk s)(lsec (log_start s) 0 := h)" "blk t = (blk s)(lsec (log_start s) 0 := h)"
    "dwrites t = dwrites s @ [(lsec (log_start s) 0, h)]"
    "dirties t = {i \<in> dirties s. bsector (bufs s i) \<noteq> lsec (log_start s) 0}"
    "\<And>i. i \<in> dirties t \<Longrightarrow> bsector (bufs t i) = bsector (bufs s i)"
proof -
  let ?n = "lsec (log_start s) 0"
  have l: "length (put_header (int k) (lh_sector s) (blk s ?n)) = BSIZE"
    by (rule put_header_ok(1) [OF length_blk [OF I] a(3)])
  have w: "write_head s =
      bind (bread 1 ?n) (\<lambda>b. seqk (bmod b (put_header (int k) (lh_sector s))) (seqk (bwrite b) (brelse b))) s"
    using a(1,2) by (simp add: write_head_def bind_def lsec_eqs(2))
  show ?thesis
    by (rule rmw_ok [OF I a(4), of "put_header (int k) (lh_sector s)"])
      (use a l that in \<open>auto simp: w h_def same_content_def\<close>)
qed

lemma load_sectors:
  assumes "k \<le> LOGSIZE"
  shows "foreach [0..<k] (\<lambda>i. if i < LOGSIZE then modify (\<lambda>s. s\<lparr>lh_sector := (lh_sector s)(i := f i)\<rparr>)
      else out_of_bounds) s = Done () (s\<lparr>lh_sector := \<lambda>i. if i < k then f i else lh_sector s i\<rparr>)"
proof -
  have app: "foreach (xs @ ys) g t = seqk (foreach xs g) (foreach ys g) t" for xs ys and g :: "nat \<Rightarrow> (unit, 'z lstate_scheme) kop" and t
    by (induction xs arbitrary: t) (auto simp: seqk_def bind_def split: outcome.splits)
  show ?thesis
    using assms
  proof (induction k)
    case (Suc k)
    then show ?case
      by (simp add: app seqk_def bind_def) (rule arg_cong [where f = "\<lambda>x. s\<lparr>lh_sector := x\<rparr>"], auto)
  qed simp
qed

lemma bread0_ok:
  assumes I: "cinv {} s" and a: "sec < disksize s" "card (dirties s) < NBUF"
  obtains b t where "bread 1 sec s = Done b t" "cinv {b} t" "beyond s t"
    "disk t = disk s" "dwrites t = dwrites s" "blk t = blk s" "dirties t = dirties s"
    "bsector (bufs t b) = sec" "bdata (bufs t b) = blk s sec" "dirty (bufs t b) \<or> blk s sec = disk s sec"
    "\<And>i. i \<noteq> b \<Longrightarrow> bufs t i = bufs s i" "b < NBUF" "b \<in> dirties s \<Longrightarrow> bsector (bufs s b) = sec"
proof (rule bread_ok [of "{}" s sec])
  show "card ({} \<union> dirties s) < NBUF" using a(2) by simp
qed (use I a(1) that in blast)+

lemma read_head_ok:
  assumes I: "cinv {} s" and a: "log_dev s = 1" "lsec (log_start s) 0 < disksize s" "card (dirties s) < NBUF"
  defines "h \<equiv> blk s (lsec (log_start s) 0)"
  assumes n: "hdr_n h \<le> int LOGSIZE"
  obtains t where "read_head s = Done () t" "cinv {} t" "lbeyond s t" "disk t = disk s" "blk t = blk s"
    "dwrites t = dwrites s" "dirties t = dirties s" "lh_n t = hdr_n h" "\<And>i. i < nat (hdr_n h) \<Longrightarrow> lh_sector t i = hdr_sector h i"
    "\<And>i. i \<in> dirties t \<Longrightarrow> bsector (bufs t i) = bsector (bufs s i)"
proof -
  let ?n = "lsec (log_start s) 0"
  obtain b t1 where t1: "bread 1 ?n s = Done b t1" "b < NBUF" "cinv {b} t1" "beyond s t1"
    "disk t1 = disk s" "dwrites t1 = dwrites s" "blk t1 = blk s" "dirties t1 = dirties s" "bsector (bufs t1 b) = ?n"
    "bdata (bufs t1 b) = blk s ?n" "dirty (bufs t1 b) \<or> blk s ?n = disk s ?n"
    "\<And>i. i \<noteq> b \<Longrightarrow> bufs t1 i = bufs s i" "b \<in> dirties s \<Longrightarrow> bsector (bufs s b) = ?n"
    by (rule bread0_ok [OF I a(2,3)]) blast
  define t2 where "t2 = t1\<lparr>lh_n := hdr_n h, lh_sector := \<lambda>i. if i < nat (hdr_n h) then hdr_sector h i else lh_sector t1 i\<rparr>"
  have same: "bufs t2 = bufs t1" "disk t2 = disk t1" "dwrites t2 = dwrites t1" "disksize t2 = disksize t1"
    "cpus t2 = cpus t1" "me t2 = me t1" "locks t2 = locks t1" "ptable t2 = ptable t1"
    by (simp_all add: t2_def)
  have I2: "cinv {b} t2" using t1(3) by (simp add: cinv_def same cli_ok_def lock_free_def)
  have "blk t2 = blk t1" by (rule ext, rule blk_cong) (simp_all add: same)
  moreover have "dirties t2 = dirties t1" by (simp add: dirties_def same)
  ultimately have b2: "blk t2 = blk t1" "dirties t2 = dirties t1" by simp_all
  have c: "dirty (bufs t2 b) \<or> bdata (bufs t2 b) = disk t2 (bsector (bufs t2 b))"
    using t1 by (simp add: same)
  obtain t where t: "brelse b t2 = Done () t" "cinv ({b} - {b}) t" "beyond t2 t" "disk t = disk t2"
    "dwrites t = dwrites t2" "blk t = blk t2" "dirties t = dirties t2"
    "\<And>i. i \<noteq> b \<Longrightarrow> same_content (bufs t2 i) (bufs t i)" "bsector (bufs t b) = bsector (bufs t2 b)"
    by (rule brelse_ok [OF I2 singletonI c], blast)
  have "lbeyond t1 t2" by (simp add: lbeyond_def t2_def awakened_def)
  then have lb: "lbeyond s t"
    using beyond_log(1) [OF t1(4)] beyond_log(1) [OF t(3)] lbeyond_trans by blast
  have sec: "bsector (bufs t i) = bsector (bufs s i)" if "i \<in> dirties t" for i
    using t(8) [of i] t(9) t1(9,12,13) that t(7) b2 t1(8) by (cases "i = b") (auto simp: same same_content_def)
  have rh: "read_head s = Done () t"
    using t1(1,10) a(1) t(1) n
    by (simp add: read_head_def bind_def seqk_def lsec_eqs(2) load_sectors t2_def h_def cong: if_cong)
  show ?thesis
    by (rule that [OF rh]) (use lb t(1-7) t1(5-8) b2 same beyond_log [OF t(3)] sec in \<open>auto simp: t2_def\<close>)
qed

section \<open>Crashes between writes\<close>

lemma apply_writes_over:
  "n \<in> fst ` set ps \<or> d n = e n \<Longrightarrow> apply_writes ps d n = apply_writes ps e n"
proof (induction ps arbitrary: d e)
  case (Cons p ps)
  then show ?case by (cases "n = fst p") auto
qed simp

text \<open>
  The writes of an installation: the log on the disk is copied home block by block and then
  erased. At every prefix the disk stands for the same contents.
\<close>

definition install_writes :: "int \<Rightarrow> (u32 \<Rightarrow> bytes) \<Rightarrow> bytes \<Rightarrow> (u32 \<times> bytes) list" where
  "install_writes start d h0 = log_pairs start d @ [(lsec start 0, h0)]"

lemma log_pairs_cong:
  assumes "geometry start nlog dsize" "log_wf start nlog dsize d" "\<And>n. n \<in> log_area start nlog \<Longrightarrow> e n = d n"
  shows "log_pairs start e = log_pairs start d" "log_wf start nlog dsize e"
proof -
  have h: "e (lsec start 0) = d (lsec start 0)"
    using assms(1) by (intro assms(3) lsec_area(1) [OF assms(1)]) (simp add: geometry_def)
  have "e (lsec start (Suc i)) = d (lsec start (Suc i))" if "i < nat (hdr_n (d (lsec start 0)))" for i
    using that assms(2) by (intro assms(3) lsec_area(1) [OF assms(1)]) (auto simp: log_wf_def Let_def zless_nat_eq_int_zless)
  then show "log_pairs start e = log_pairs start d" by (simp add: log_pairs_def h Let_def)
  show "log_wf start nlog dsize e" using assms(2) by (simp add: log_wf_def h)
qed

lemma redo_prefix:
  assumes g: "geometry start nlog dsize" and w: "log_wf start nlog dsize d" and h0: "hdr_n h0 = 0"
    and vs: "vs = take k (install_writes start d h0)"
  shows "log_wf start nlog dsize (apply_writes vs d)"
    "n \<notin> log_area start nlog \<Longrightarrow> redo start (apply_writes vs d) n = redo start d n"
proof -
  let ?ps = "log_pairs start d"
  have home: "m \<notin> log_area start nlog" if "m \<in> fst ` set ?ps" for m
    using that w by (auto simp: log_pairs_def log_wf_def Let_def)
  have "log_wf start nlog dsize (apply_writes vs d) \<and>
    (n \<notin> log_area start nlog \<longrightarrow> redo start (apply_writes vs d) n = redo start d n)"
  proof (cases "k \<le> length ?ps")
    case True
    then have v: "vs = take k ?ps" using vs by (simp add: install_writes_def)
    have sub: "fst ` set vs \<subseteq> fst ` set ?ps" unfolding v by (auto dest: in_set_takeD)
    have "apply_writes vs d m = d m" if "m \<in> log_area start nlog" for m
    proof (rule apply_writes_other)
      show "m \<notin> fst ` set vs" using that home [of m] sub by (meson subsetD)
    qed
    note c = log_pairs_cong [OF g w this]
    have "n \<in> fst ` set ?ps \<or> apply_writes vs d n = d n"
      using sub apply_writes_other [of n vs d] by (meson subsetD)
    then have "apply_writes ?ps (apply_writes vs d) n = apply_writes ?ps d n"
      by (rule apply_writes_over)
    then show ?thesis using c by (simp add: redo_def)
  next
    case False
    then have v: "vs = ?ps @ [(lsec start 0, h0)]" using vs by (simp add: install_writes_def)
    let ?e = "apply_writes vs d"
    have e: "?e = (apply_writes ?ps d)(lsec start 0 := h0)" unfolding v by simp
    then have "redo start ?e = ?e" using h0 by (intro redo_empty) simp
    moreover have "?e n = apply_writes ?ps d n" if "n \<notin> log_area start nlog"
      using that lsec_area(1) [OF g, of 0] g unfolding e by (auto simp: geometry_def)
    moreover have "log_wf start nlog dsize ?e"
      using h0 g by (simp add: log_wf_def e geometry_def)
    ultimately show ?thesis by (simp add: redo_def)
  qed
  then show "log_wf start nlog dsize (apply_writes vs d)"
    "n \<notin> log_area start nlog \<Longrightarrow> redo start (apply_writes vs d) n = redo start d n" by auto
qed

lemma clean_blk:
  assumes "cinv {} s" "dirties s = {}"
  shows "blk s = disk s"
proof
  fix n show "blk s n = disk s n"
  proof (rule blk_cases [OF cinvD(4) [OF assms(1)], of n])
    fix i assume "i < NBUF" "bdev (bufs s i) = 1" "valid (bufs s i)" "bsector (bufs s i) = n" "blk s n = bdata (bufs s i)"
    then show ?thesis
      using cinvD(7) [OF assms(1), of i] assms(2) by (auto simp: buf_ok_def dirties_def)
  qed
qed

text \<open>Installing the log that is on the disk, when the in-memory header agrees with it.\<close>

lemma install_erase_ok:
  assumes I: "cinv {} s" "log_dev s = 1" and g: "geometry (log_start s) (log_size s) (disksize s)"
    and w: "log_wf (log_start s) (log_size s) (disksize s) (disk s)"
    and n: "lh_n s = hdr_n (disk s (lsec (log_start s) 0))"
    and hs: "\<forall>i < nat (lh_n s). lh_sector s i = hdr_sector (disk s (lsec (log_start s) 0)) i"
    and d: "\<forall>i \<in> dirties s. bsector (bufs s i) \<in> lh_sector s ` {..<nat (lh_n s)}" "card (dirties s) + 1 < NBUF"
    and lb: "\<forall>m \<in> log_area (log_start s) (log_size s). blk s m = disk s m"
  defines "st \<equiv> log_start s"
  shows "\<exists>t h0. seqk install_trans (seqk (modify (\<lambda>s. s\<lparr>lh_n := 0\<rparr>)) write_head) s = Done () t \<and>
    cinv {} t \<and> lbeyond s t \<and> lh_n t = 0 \<and> dirties t = {} \<and> hdr_n h0 = 0 \<and>
    dwrites t = dwrites s @ install_writes st (disk s) h0 \<and> disk t = apply_writes (install_writes st (disk s) h0) (disk s)"
proof -
  let ?k = "nat (lh_n s)" and ?is = "[0..<nat (lh_n s)]"
  let ?ps = "map (\<lambda>i. (lh_sector s i, blk s (lsec (log_start s) (Suc i)))) ?is"
  have k: "lh_n s \<le> int LOGSIZE" "lh_n s < log_size s"
    "\<And>i. i < ?k \<Longrightarrow> lh_sector s i < disksize s \<and> lh_sector s i \<notin> log_area (log_start s) (log_size s)"
    using w n hs by (auto simp: log_wf_def Let_def)
  have a: "\<And>i. i < ?k \<Longrightarrow> lsec (log_start s) (Suc i) \<in> log_area (log_start s) (log_size s) \<and> lsec (log_start s) (Suc i) < disksize s"
    using lsec_area [OF g] k(2) by (auto simp: zless_nat_eq_int_zless)
  have ps: "?ps = log_pairs st (disk s)"
    using a lb hs by (auto simp: log_pairs_def st_def Let_def n)
  obtain u where u: "foreach ?is install_block s = Done () u" "cinv {} u" "beyond s u"
    "disk u = apply_writes ?ps (disk s)" "dwrites u = dwrites s @ ?ps"
    "dirties u = {k \<in> dirties s. bsector (bufs s k) \<notin> lh_sector s ` set ?is}"
  proof -
    have "\<forall>i \<in> set ?is. lsec (log_start s) (Suc i) < disksize s \<and> lh_sector s i < disksize s"
      using a k(3) by simp
    moreover have "\<forall>i \<in> set ?is. \<forall>j \<in> set ?is. lh_sector s j \<noteq> lsec (log_start s) (Suc i)"
    proof (intro ballI)
      fix i j assume "i \<in> set ?is" "j \<in> set ?is"
      then show "lh_sector s j \<noteq> lsec (log_start s) (Suc i)" using a [of i] k(3) [of j] by auto
    qed
    ultimately show thesis
      using install_loop_ok [OF I d(2), of ?is] that by blast
  qed
  have du: "dirties u = {}" using u(6) d(1) by (auto simp: atLeast0LessThan)
  define v where "v = u\<lparr>lh_n := 0\<rparr>"
  have same: "bufs v = bufs u" "disk v = disk u" "dwrites v = dwrites u" "disksize v = disksize u"
    "cpus v = cpus u" "me v = me u" "locks v = locks u" "ptable v = ptable u" "lh_sector v = lh_sector u"
    "log_start v = log_start u" "log_dev v = log_dev u" "lh_n v = int 0"
    by (simp_all add: v_def)
  note b = beyond_log [OF u(3)]
  have Iv: "cinv {} v" using u(2) by (simp add: cinv_def same cli_ok_def lock_free_def)
  have dv: "dirties v = {}" using du by (simp add: dirties_def same)
  let ?h0 = "put_header (int 0) (lh_sector v) (blk v (lsec (log_start v) 0))"
  obtain t where t: "write_head v = Done () t" "cinv {} t" "beyond v t" "disk t = (disk v)(lsec (log_start v) 0 := ?h0)"
    "dwrites t = dwrites v @ [(lsec (log_start v) 0, ?h0)]"
    "dirties t = {i \<in> dirties v. bsector (bufs v i) \<noteq> lsec (log_start v) 0}"
  proof (rule write_head_ok [OF Iv _ same(12)])
    show "lsec (log_start v) 0 < disksize v"
      using lsec_area(2) [OF g, of 0] g by (simp add: same b geometry_def)
  qed (use dv same b I(2) in \<open>auto simp: NBUF_def\<close>)
  have "lbeyond u v" by (simp add: lbeyond_def v_def awakened_def)
  then have lb: "lbeyond s t" using b(1) beyond_log(1) [OF t(3)] lbeyond_trans by blast
  have "hdr_n ?h0 = 0" using put_header_ok(2) [OF length_blk [OF Iv], of 0] by simp
  moreover have "seqk install_trans (seqk (modify (\<lambda>s. s\<lparr>lh_n := 0\<rparr>)) write_head) s = Done () t"
    using u(1) t(1) by (simp add: install_trans_def seqk_def bind_def v_def)
  moreover have "dirties t = {}" using t(6) dv by simp
  moreover have "disk t = apply_writes (install_writes st (disk s) ?h0) (disk s)"
    "dwrites t = dwrites s @ install_writes st (disk s) ?h0"
    using t(4,5) u(4,5) ps by (simp_all add: same b install_writes_def st_def)
  ultimately show ?thesis
    using t(2) lb beyond_log(2) [OF t(3)] same(12) by auto
qed

lemma recover_ok:
  assumes I: "cinv {} s" "dirties s = {}" "log_dev s = 1" and g: "geometry (log_start s) (log_size s) (disksize s)"
    and w: "log_wf (log_start s) (log_size s) (disksize s) (disk s)"
  shows "\<exists>t h0. recover_from_log s = Done () t \<and> cinv {} t \<and> lbeyond s t \<and> lh_n t = 0 \<and> dirties t = {} \<and> hdr_n h0 = 0 \<and>
    dwrites t = dwrites s @ install_writes (log_start s) (disk s) h0 \<and>
    disk t = apply_writes (install_writes (log_start s) (disk s) h0) (disk s)"
proof -
  let ?h = "disk s (lsec (log_start s) 0)"
  have bd: "blk s = disk s" by (rule clean_blk [OF I(1,2)])
  have a: "lsec (log_start s) 0 < disksize s" "card (dirties s) < NBUF" "hdr_n (blk s (lsec (log_start s) 0)) \<le> int LOGSIZE"
    using lsec_area(2) [OF g, of 0] g w I(2) by (auto simp: geometry_def NBUF_def bd log_wf_def Let_def)
  obtain u where u: "read_head s = Done () u" "cinv {} u" "lbeyond s u" "disk u = disk s" "blk u = blk s"
    "dwrites u = dwrites s" "dirties u = dirties s" "lh_n u = hdr_n ?h"
    "\<And>i. i < nat (hdr_n ?h) \<Longrightarrow> lh_sector u i = hdr_sector ?h i"
    by (rule read_head_ok [OF I(1,3) a]) (simp add: bd)
  note b = lbeyondD [OF u(3)]
  have "\<exists>t h0. seqk install_trans (seqk (modify (\<lambda>s. s\<lparr>lh_n := 0\<rparr>)) write_head) u = Done () t \<and>
    cinv {} t \<and> lbeyond u t \<and> lh_n t = 0 \<and> dirties t = {} \<and> hdr_n h0 = 0 \<and>
    dwrites t = dwrites u @ install_writes (log_start u) (disk u) h0 \<and>
    disk t = apply_writes (install_writes (log_start u) (disk u) h0) (disk u)"
    by (rule install_erase_ok) (use u b g w I bd in \<open>auto simp: NBUF_def\<close>)
  then obtain t h0 where t: "seqk install_trans (seqk (modify (\<lambda>s. s\<lparr>lh_n := 0\<rparr>)) write_head) u = Done () t"
    "cinv {} t" "lbeyond u t" "lh_n t = 0" "dirties t = {}" "hdr_n h0 = 0"
    "dwrites t = dwrites u @ install_writes (log_start u) (disk u) h0"
    "disk t = apply_writes (install_writes (log_start u) (disk u) h0) (disk u)" by blast
  have "recover_from_log s = Done () t" using u(1) t(1) by (simp add: recover_from_log_def seqk_def bind_def)
  then show ?thesis
    using t(2,4-8) u(4,6) b(1) lbeyond_trans [OF u(3) t(3)] by auto
qed

text \<open>A machine that has just been started: nothing is cached, and the super block gives the log's place.\<close>

definition rebooted :: "int \<Rightarrow> int \<Rightarrow> 'z lstate_scheme \<Rightarrow> bool" where
  "rebooted start nlog s \<longleftrightarrow> cinv {} s \<and> dirties s = {} \<and> geometry start nlog (disksize s) \<and>
     sint (sb_size (de_superblock (disk s 1)) - sb_nlog (de_superblock (disk s 1))) = start \<and>
     sint (sb_nlog (de_superblock (disk s 1))) = nlog"

lemma readsb_ok:
  assumes "cinv H s" "1 < disksize s" "\<forall>i \<in> H. bsector (bufs s i) \<noteq> 1" "card (H \<union> dirties s) < NBUF"
  obtains t where "readsb 1 s = Done (de_superblock (blk s 1)) t" "cinv H t" "beyond s t" "disk t = disk s" "blk t = blk s"
    "dwrites t = dwrites s" "dirties t = dirties s" "\<And>i. i \<in> H \<union> dirties t \<Longrightarrow> bsector (bufs t i) = bsector (bufs s i)"
    "\<And>i. i \<in> H \<Longrightarrow> same_content (bufs s i) (bufs t i)"
proof -
  obtain b t1 where t1: "bread 1 1 s = Done b t1" "b \<notin> H" "cinv (insert b H) t1" "beyond s t1"
    "disk t1 = disk s" "dwrites t1 = dwrites s" "blk t1 = blk s" "dirties t1 = dirties s" "bsector (bufs t1 b) = 1"
    "bdata (bufs t1 b) = blk s 1" "dirty (bufs t1 b) \<or> blk s 1 = disk s 1" "\<And>i. i \<noteq> b \<Longrightarrow> bufs t1 i = bufs s i"
    "b \<in> dirties s \<Longrightarrow> bsector (bufs s b) = 1"
    by (rule bread_ok [OF assms]) blast
  have c: "dirty (bufs t1 b) \<or> bdata (bufs t1 b) = disk t1 (bsector (bufs t1 b))" using t1 by auto
  obtain t where t: "brelse b t1 = Done () t" "cinv (insert b H - {b}) t" "beyond t1 t" "disk t = disk t1"
    "dwrites t = dwrites t1" "blk t = blk t1" "dirties t = dirties t1"
    "\<And>i. i \<noteq> b \<Longrightarrow> same_content (bufs t1 i) (bufs t i)" "bsector (bufs t b) = bsector (bufs t1 b)"
    by (rule brelse_ok [OF t1(3) insertI1 c], blast)
  have sc: "same_content (bufs s i) (bufs t i)" if "i \<noteq> b" for i
    using t(8) [OF that] t1(12) [OF that] by simp
  have "bsector (bufs t i) = bsector (bufs s i)" if "i \<in> H \<union> dirties t" for i
    using sc [of i] that t(7,9) t1(2,8,9,13) by (cases "i = b") (auto simp: same_content_def)
  moreover have "readsb 1 s = Done (de_superblock (blk s 1)) t"
    using t1(1,10) t(1) by (simp add: readsb_def bind_def seqk_def)
  moreover have "same_content (bufs s i) (bufs t i)" if "i \<in> H" for i
    using that t1(2) by (intro sc) auto
  moreover have "beyond s t" using t1(4) t(3) by (rule beyond_trans)
  ultimately show ?thesis
    using t(2-7) t1(2,5-8) by (intro that [of t]) auto
qed

lemma initlog_ok:
  assumes r: "rebooted start nlog s" and w: "log_wf start nlog (disksize s) (disk s)"
  shows "\<exists>t h0. initlog s = Done () t \<and> cinv {} t \<and> dirties t = {} \<and> log_start t = start \<and> log_size t = nlog \<and>
    log_dev t = 1 \<and> lh_n t = 0 \<and> lock_free Lk_log t \<and> disksize t = disksize s \<and> log_busy t = log_busy s \<and>
    hdr_n h0 = 0 \<and> dwrites t = dwrites s @ install_writes start (disk s) h0 \<and>
    disk t = apply_writes (install_writes start (disk s) h0) (disk s)"
proof -
  define s1 where "s1 = upd_lock Lk_log (\<lambda>_. \<lparr>locked = 0, lkname = ''log'', lkcpu = None\<rparr>) s"
  have same: "bufs s1 = bufs s" "disk s1 = disk s" "dwrites s1 = dwrites s" "disksize s1 = disksize s" "log_busy s1 = log_busy s"
    by (simp_all add: s1_def upd_lock_def)
  have lk: "cli_ok s1 = cli_ok s" "lock_free Lk_bcache s1 = lock_free Lk_bcache s" "lock_free Lk_ptable s1 = lock_free Lk_ptable s"
    "lock_free Lk_log s1"
    by (simp_all add: s1_def upd_lock_def cli_ok_def lock_free_def)
  have I1: "cinv {} s1" using r by (simp add: rebooted_def cinv_def same lk)
  have d1: "dirties s1 = {}" using r by (simp add: rebooted_def dirties_def same)
  have g: "geometry start nlog (disksize s)" using r by (simp add: rebooted_def)
  then have one: "1 < disksize s1" by (simp add: same geometry_def word_less_def)
  have c: "card ({} \<union> dirties s1) < NBUF" by (simp add: d1 NBUF_def)
  obtain s2 where s2: "readsb 1 s1 = Done (de_superblock (blk s1 1)) s2" "cinv {} s2" "beyond s1 s2" "disk s2 = disk s1"
    "dwrites s2 = dwrites s1" "dirties s2 = dirties s1"
    by (rule readsb_ok [OF I1 one _ c]) auto
  have sb: "blk s1 1 = disk s 1" using clean_blk [OF I1 d1] by (simp add: same)
  define s3 where "s3 = s2\<lparr>log_start := start, log_size := nlog, log_dev := 1\<rparr>"
  have same3: "bufs s3 = bufs s2" "disk s3 = disk s2" "dwrites s3 = dwrites s2" "disksize s3 = disksize s2"
    "cpus s3 = cpus s2" "me s3 = me s2" "locks s3 = locks s2" "log_start s3 = start" "log_size s3 = nlog" "log_dev s3 = 1"
    "log_busy s3 = log_busy s2"
    by (simp_all add: s3_def)
  have I3: "cinv {} s3" using s2(2) by (simp add: cinv_def same3 cli_ok_def lock_free_def)
  have d3: "dirties s3 = {}" using s2(6) d1 by (simp add: dirties_def same3)
  note b2 = beyond_log [OF s2(3)]
  have ds: "disksize s3 = disksize s" by (simp add: same3 b2 same)
  have "\<exists>t h0. recover_from_log s3 = Done () t \<and> cinv {} t \<and> lbeyond s3 t \<and> lh_n t = 0 \<and> dirties t = {} \<and> hdr_n h0 = 0 \<and>
    dwrites t = dwrites s3 @ install_writes (log_start s3) (disk s3) h0 \<and>
    disk t = apply_writes (install_writes (log_start s3) (disk s3) h0) (disk s3)"
    by (rule recover_ok [OF I3 d3]) (use g w s2(4) in \<open>simp_all add: same3 ds same b2\<close>)
  then obtain t h0 where t: "recover_from_log s3 = Done () t" "cinv {} t" "lbeyond s3 t" "lh_n t = 0" "dirties t = {}"
    "hdr_n h0 = 0" "dwrites t = dwrites s3 @ install_writes start (disk s3) h0"
    "disk t = apply_writes (install_writes start (disk s3) h0) (disk s3)" by (auto simp: same3)
  have "initlog s = Done () t"
    using s2(1) t(1) r sb
    by (simp add: initlog_def LOGSIZE_def BSIZE_def seqk_def bind_def initlock_def ROOTDEV_def s1_def [symmetric]
        rebooted_def s3_def)
  moreover have "lock_free Lk_log t"
    using lk(4) s2(3) lbeyondD(6) [OF t(3)] by (simp add: beyond_def awakened_def lock_free_def same3)
  ultimately show ?thesis
    using t lbeyondD [OF t(3)] same3 s2(4,5) same ds b2 by (intro exI [of _ t] exI [of _ h0]) auto
qed

section \<open>The invariant of a transaction\<close>

text \<open>
  The sectors in the transaction; a held buffer whose contents the log has already taken; and the
  invariant: \<open>H\<close> are the held buffers, and for every logged sector that nobody holds, the log block
  on disk is what the kernel sees.
\<close>

definition logged :: "'z lstate_scheme \<Rightarrow> u32 set" where
  "logged s = lh_sector s ` {..<nat (lh_n s)}"

definition log_sectors :: "'z lstate_scheme \<Rightarrow> u32 set" where
  "log_sectors s = log_area (log_start s) (log_size s)"

definition settled :: "'z lstate_scheme \<Rightarrow> nat \<Rightarrow> bool" where
  "settled s b \<longleftrightarrow> (dirty (bufs s b) \<or> bdata (bufs s b) = disk s (bsector (bufs s b))) \<and>
     (\<forall>i < nat (lh_n s). lh_sector s i = bsector (bufs s b) \<longrightarrow>
        disk s (lsec (log_start s) (Suc i)) = bdata (bufs s b))"

definition linv :: "nat set \<Rightarrow> 'z lstate_scheme \<Rightarrow> bool" where
  "linv H s \<longleftrightarrow> cinv H s \<and> lock_free Lk_log s \<and> log_dev s = 1 \<and>
     geometry (log_start s) (log_size s) (disksize s) \<and>
     0 \<le> lh_n s \<and> lh_n s \<le> int LOGSIZE \<and> lh_n s < log_size s \<and> inj_on (lh_sector s) {..<nat (lh_n s)} \<and>
     (\<forall>n \<in> logged s. n < disksize s \<and> n \<notin> log_sectors s) \<and>
     hdr_n (disk s (lsec (log_start s) 0)) = 0 \<and>
     (\<forall>i \<in> dirties s. bsector (bufs s i) \<in> logged s) \<and>
     (\<forall>i \<in> H. bsector (bufs s i) \<notin> log_sectors s) \<and>
     (\<forall>i < nat (lh_n s). (\<forall>b \<in> H. bsector (bufs s b) \<noteq> lh_sector s i) \<longrightarrow>
        disk s (lsec (log_start s) (Suc i)) = blk s (lh_sector s i))"

lemma linvD:
  assumes "linv H s"
  shows "cinv H s" "lock_free Lk_log s" "log_dev s = 1" "geometry (log_start s) (log_size s) (disksize s)"
    "0 \<le> lh_n s" "lh_n s \<le> int LOGSIZE" "lh_n s < log_size s" "inj_on (lh_sector s) {..<nat (lh_n s)}"
    "n \<in> logged s \<Longrightarrow> n < disksize s" "n \<in> logged s \<Longrightarrow> n \<notin> log_sectors s"
    "hdr_n (disk s (lsec (log_start s) 0)) = 0" "i \<in> dirties s \<Longrightarrow> bsector (bufs s i) \<in> logged s"
    "i \<in> H \<Longrightarrow> bsector (bufs s i) \<notin> log_sectors s"
    "k < nat (lh_n s) \<Longrightarrow> (\<And>b. b \<in> H \<Longrightarrow> bsector (bufs s b) \<noteq> lh_sector s k) \<Longrightarrow>
        disk s (lsec (log_start s) (Suc k)) = blk s (lh_sector s k)"
  using assms by (simp_all add: linv_def)

lemma linvI:
  assumes "cinv H s" "lock_free Lk_log s" "log_dev s = 1" "geometry (log_start s) (log_size s) (disksize s)"
    "0 \<le> lh_n s" "lh_n s \<le> int LOGSIZE" "lh_n s < log_size s" "inj_on (lh_sector s) {..<nat (lh_n s)}"
    "\<And>n. n \<in> logged s \<Longrightarrow> n < disksize s" "\<And>n. n \<in> logged s \<Longrightarrow> n \<notin> log_sectors s"
    "hdr_n (disk s (lsec (log_start s) 0)) = 0" "\<And>i. i \<in> dirties s \<Longrightarrow> bsector (bufs s i) \<in> logged s"
    "\<And>i. i \<in> H \<Longrightarrow> bsector (bufs s i) \<notin> log_sectors s"
    "\<And>k. k < nat (lh_n s) \<Longrightarrow> (\<And>b. b \<in> H \<Longrightarrow> bsector (bufs s b) \<noteq> lh_sector s k) \<Longrightarrow>
        disk s (lsec (log_start s) (Suc k)) = blk s (lh_sector s k)"
  shows "linv H s"
  using assms by (simp add: linv_def)

lemma linv_log_blk:
  assumes I: "linv H s" and n: "n \<in> log_sectors s"
  shows "blk s n = disk s n"
proof (rule blk_cases [OF cinvD(4) [OF linvD(1) [OF I]], of n])
  fix i assume i: "i < NBUF" "bdev (bufs s i) = 1" "valid (bufs s i)" "bsector (bufs s i) = n" "blk s n = bdata (bufs s i)"
  have "i \<notin> H" using linvD(13) [OF I, of i] i(4) n by auto
  moreover have "\<not> dirty (bufs s i)"
    using linvD(12) [OF I, of i] linvD(10) [OF I, of n] i(1,4) n by (auto simp: dirties_def)
  ultimately show ?thesis
    using cinvD(7) [OF linvD(1) [OF I] i(1)] i by (auto simp: buf_ok_def)
qed

lemma card_logged: "linv H s \<Longrightarrow> card (logged s) = nat (lh_n s)"
  by (simp add: logged_def card_image linvD(8))

lemma linv_room:
  assumes I: "linv H s"
  shows "card (dirties s) \<le> nat (lh_n s)" "card H + nat (lh_n s) < NBUF \<Longrightarrow> card (H \<union> dirties s) < NBUF"
proof -
  have "inj_on (\<lambda>i. bsector (bufs s i)) (dirties s)"
  proof (rule inj_onI)
    fix i j assume ij: "i \<in> dirties s" "j \<in> dirties s" "bsector (bufs s i) = bsector (bufs s j)"
    have "bdev (bufs s j) = 1" "j < NBUF"
      using ij(2) cinvD(7) [OF linvD(1) [OF I], of j] by (auto simp: dirties_def buf_ok_def)
    then show "i = j" using dirties_sector [OF linvD(1) [OF I] ij(1), of j] ij(3) by simp
  qed
  moreover have "(\<lambda>i. bsector (bufs s i)) ` dirties s \<subseteq> logged s"
    using linvD(12) [OF I] by auto
  ultimately show c: "card (dirties s) \<le> nat (lh_n s)"
    using card_inj_on_le [of "\<lambda>i. bsector (bufs s i)" "dirties s" "logged s"] card_logged [OF I]
    by (simp add: logged_def)
  show "card H + nat (lh_n s) < NBUF \<Longrightarrow> card (H \<union> dirties s) < NBUF"
    using c card_Un_le [of H "dirties s"] by simp
qed

text \<open>Reading, changing and releasing blocks outside the log keeps the invariant.\<close>

lemma lbread_ok:
  assumes I: "linv H s" and a: "sec < disksize s" "sec \<notin> log_sectors s" "\<forall>i \<in> H. bsector (bufs s i) \<noteq> sec"
    "card H + nat (lh_n s) < NBUF"
  obtains b t where "bread 1 sec s = Done b t" "b \<notin> H" "linv (insert b H) t" "beyond s t" "blk t = blk s"
    "disk t = disk s" "dwrites t = dwrites s" "bsector (bufs t b) = sec" "bdata (bufs t b) = blk s sec" "settled t b"
    "\<And>i. i \<in> H \<Longrightarrow> bufs t i = bufs s i"
proof -
  obtain b t where t: "bread 1 sec s = Done b t" "b \<notin> H" "cinv (insert b H) t" "beyond s t"
    "disk t = disk s" "dwrites t = dwrites s" "blk t = blk s" "dirties t = dirties s"
    "bsector (bufs t b) = sec" "bdata (bufs t b) = blk s sec" "dirty (bufs t b) \<or> blk s sec = disk s sec"
    "\<And>i. i \<noteq> b \<Longrightarrow> bufs t i = bufs s i" "b < NBUF" "b \<in> dirties s \<Longrightarrow> bsector (bufs s b) = sec"
    by (rule bread_ok [OF linvD(1) [OF I] a(1,3) linv_room(2) [OF I a(4)]]) blast
  note L = beyond_log [OF t(4)] linvD [OF I]
  have eq: "logged t = logged s" "log_sectors t = log_sectors s" by (simp_all add: logged_def log_sectors_def L)
  have H: "bufs t i = bufs s i" if "i \<in> H" for i using that t(2,12) by metis
  have "linv (insert b H) t"
  proof (rule linvI)
    show "bsector (bufs t i) \<in> logged t" if "i \<in> dirties t" for i
      using that t(8,9,12,14) linvD(12) [OF I, of i] eq by (cases "i = b") auto
    show "lock_free Lk_log t" using L(10) awakened_frame(2) t(4) by (metis beyond_def)
    show "disk t (lsec (log_start t) (Suc k)) = blk t (lh_sector t k)"
      if "k < nat (lh_n t)" "\<And>c. c \<in> insert b H \<Longrightarrow> bsector (bufs t c) \<noteq> lh_sector t k" for k
    proof -
      have "disk s (lsec (log_start s) (Suc k)) = blk s (lh_sector s k)"
        using that(1) that(2) [OF insertI2] H by (intro linvD(14) [OF I]) (simp_all add: L(1-8))
      then show ?thesis by (simp add: L(1-8) t(5,7))
    qed
    show "bsector (bufs t i) \<notin> log_sectors t" if "i \<in> insert b H" for i
      using that H a(2) t(9) linvD(13) [OF I] eq by auto
  qed (use t(3,5) eq L in simp_all)
  moreover have "settled t b"
    unfolding settled_def
  proof (intro conjI allI impI)
    show "dirty (bufs t b) \<or> bdata (bufs t b) = disk t (bsector (bufs t b))" using t(5,9-11) by simp
    fix i assume "i < nat (lh_n t)" "lh_sector t i = bsector (bufs t b)"
    then show "disk t (lsec (log_start t) (Suc i)) = bdata (bufs t b)"
      using linvD(14) [OF I, of i] a(3) by (simp add: L(1-8) t(5,9,10))
  qed
  ultimately show ?thesis using t(1-2,4-10) H that by blast
qed

lemma lbmod_ok:
  assumes I: "linv H s" and b: "b \<in> H" and l: "length (f (bdata (bufs s b))) = BSIZE"
  obtains t where "bmod b f s = Done () t" "linv H t" "beyond s t" "disk t = disk s" "dwrites t = dwrites s"
    "blk t = (blk s)(bsector (bufs s b) := f (bdata (bufs s b)))"
    "\<And>i. i \<noteq> b \<Longrightarrow> same_content (bufs s i) (bufs t i)"
    "bsector (bufs t b) = bsector (bufs s b)" "bdata (bufs t b) = f (bdata (bufs s b))"
proof -
  obtain t where t: "bmod b f s = Done () t" "cinv H t" "beyond s t" "disk t = disk s" "dwrites t = dwrites s"
    "blk t = (blk s)(bsector (bufs s b) := f (bdata (bufs s b)))" "dirties t = dirties s"
    "\<And>i. i \<noteq> b \<Longrightarrow> same_content (bufs s i) (bufs t i)"
    "bsector (bufs t b) = bsector (bufs s b)" "bdata (bufs t b) = f (bdata (bufs s b))"
    by (rule bmod_ok [OF linvD(1) [OF I] b, of f], rule l, blast)
  note L = beyond_log [OF t(3)] linvD [OF I]
  have eq: "logged t = logged s" "log_sectors t = log_sectors s" by (simp_all add: logged_def log_sectors_def L)
  have sec: "bsector (bufs t i) = bsector (bufs s i)" for i
    using t(8) [of i] t(9) by (cases "i = b") (auto simp: same_content_def)
  have "linv H t"
  proof (rule linvI)
    show "lock_free Lk_log t" using L(10) awakened_frame(2) t(3) by (metis beyond_def)
    show "disk t (lsec (log_start t) (Suc k)) = blk t (lh_sector t k)"
      if "k < nat (lh_n t)" "\<And>c. c \<in> H \<Longrightarrow> bsector (bufs t c) \<noteq> lh_sector t k" for k
    proof -
      have "disk s (lsec (log_start s) (Suc k)) = blk s (lh_sector s k)"
        using that(1,2) sec by (intro linvD(14) [OF I]) (simp_all add: L(1-8))
      then show ?thesis using that(2) [OF b] by (simp add: L(1-8) t(4,6) sec)
    qed
  qed (use t(2,4,7) eq L sec in simp_all)
  with t(1,3-6,8-10) that show ?thesis by blast
qed

lemma lbrelse_ok:
  assumes I: "linv H s" and b: "b \<in> H" and st: "settled s b"
  obtains t where "brelse b s = Done () t" "linv (H - {b}) t" "beyond s t" "disk t = disk s"
    "dwrites t = dwrites s" "blk t = blk s" "\<And>i. i \<noteq> b \<Longrightarrow> same_content (bufs s i) (bufs t i)"
proof -
  have c: "dirty (bufs s b) \<or> bdata (bufs s b) = disk s (bsector (bufs s b))" using st by (simp add: settled_def)
  obtain t where t: "brelse b s = Done () t" "cinv (H - {b}) t" "beyond s t" "disk t = disk s"
    "dwrites t = dwrites s" "blk t = blk s" "dirties t = dirties s"
    "\<And>i. i \<noteq> b \<Longrightarrow> same_content (bufs s i) (bufs t i)" "bsector (bufs t b) = bsector (bufs s b)"
    by (rule brelse_ok [OF linvD(1) [OF I] b c], blast)
  note L = beyond_log [OF t(3)] linvD [OF I]
  have eq: "logged t = logged s" "log_sectors t = log_sectors s" by (simp_all add: logged_def log_sectors_def L)
  have sec: "bsector (bufs t i) = bsector (bufs s i)" for i
    using t(8) [of i] t(9) by (cases "i = b") (auto simp: same_content_def)
  have "linv (H - {b}) t"
  proof (rule linvI)
    show "lock_free Lk_log t" using L(10) awakened_frame(2) t(3) by (metis beyond_def)
    show "disk t (lsec (log_start t) (Suc k)) = blk t (lh_sector t k)"
      if k: "k < nat (lh_n t)" "\<And>c. c \<in> H - {b} \<Longrightarrow> bsector (bufs t c) \<noteq> lh_sector t k" for k
    proof (cases "lh_sector s k = bsector (bufs s b)")
      case True
      then have "disk s (lsec (log_start s) (Suc k)) = bdata (bufs s b)" using st k(1) by (simp add: settled_def L(1-8))
      then show ?thesis using blk_held [OF linvD(1) [OF I] b] True by (simp add: L(1-8) t(4,6))
    next
      case False
      have "disk s (lsec (log_start s) (Suc k)) = blk s (lh_sector s k)"
      proof (rule linvD(14) [OF I])
        show "k < nat (lh_n s)" using k(1) by (simp add: L(1-8))
        show "bsector (bufs s c) \<noteq> lh_sector s k" if "c \<in> H" for c
          using k(2) [of c] that False sec by (cases "c = b") (auto simp: L(1-8))
      qed
      then show ?thesis by (simp add: L(1-8) t(4,6))
    qed
  qed (use t(2,4,7) eq L sec in simp_all)
  with t(1,3-6,8) that show ?thesis by blast
qed

lemma log_slot_cases:
  fixes sec :: "nat \<Rightarrow> u32" and n :: nat and x :: u32
  defines "i \<equiv> log_slot n sec x"
  shows "i \<le> n" "i < n \<Longrightarrow> sec i = x" "i = n \<Longrightarrow> j < n \<Longrightarrow> sec j \<noteq> x"
proof -
  have "i \<le> n \<and> (i < n \<longrightarrow> sec i = x) \<and> (i = n \<longrightarrow> (\<forall>j < n. sec j \<noteq> x))"
  proof (cases "List.find (\<lambda>i. sec i = x) [0..<n]")
    case None
    then have "i = n" by (simp add: i_def log_slot_def)
    with None [unfolded find_None_iff] show ?thesis by auto
  next
    case (Some k)
    then have "k < n \<and> sec k = x" by (auto simp: find_Some_iff)
    with Some show ?thesis unfolding i_def log_slot_def by simp
  qed
  then show "i \<le> n" "i < n \<Longrightarrow> sec i = x" "i = n \<Longrightarrow> j < n \<Longrightarrow> sec j \<noteq> x" by auto
qed

lemma log_write_steps:
  assumes I: "linv H s" and b: "b \<in> H" and y: "log_busy s" "lh_n s < int LOGSIZE" "lh_n s < log_size s - 1"
    and room: "card H + nat (lh_n s) < NBUF"
  defines "i \<equiv> log_slot (nat (lh_n s)) (lh_sector s) (bsector (bufs s b))"
    and "to \<equiv> lsec (log_start s) (Suc (log_slot (nat (lh_n s)) (lh_sector s) (bsector (bufs s b))))"
  obtains t where "log_write b s = Done () t" "cinv H t" "lbeyond s t"
    "lh_sector t = (lh_sector s)(i := bsector (bufs s b))" "lh_n t = (if int i = lh_n s then lh_n s + 1 else lh_n s)"
    "disk t = (disk s)(to := bdata (bufs s b))" "dwrites t = dwrites s @ [(to, bdata (bufs s b))]"
    "blk t = (blk s)(to := bdata (bufs s b))" "dirties t = insert b (dirties s)" "dirty (bufs t b)"
    "\<And>c. c \<in> H \<Longrightarrow> c \<noteq> b \<Longrightarrow> same_content (bufs s c) (bufs t c)"
    "bsector (bufs t b) = bsector (bufs s b)" "bdata (bufs t b) = bdata (bufs s b)"
    "\<And>c. c \<in> dirties s \<Longrightarrow> bsector (bufs t c) = bsector (bufs s c)"
proof -
  let ?x = "bdata (bufs s b)"
  define s1 where "s1 = s\<lparr>lh_sector := (lh_sector s)(i := bsector (bufs s b))\<rparr>"
  have same: "bufs s1 = bufs s" "disk s1 = disk s" "dwrites s1 = dwrites s" "disksize s1 = disksize s"
    "cpus s1 = cpus s" "me s1 = me s" "locks s1 = locks s" "log_start s1 = log_start s"
    by (simp_all add: s1_def)
  have I1: "cinv H s1" using linvD(1) [OF I] by (simp add: cinv_def same cli_ok_def lock_free_def)
  have B1: "blk s1 = blk s" by (rule ext, rule blk_cong) (simp_all add: same)
  have D1: "dirties s1 = dirties s" by (simp add: dirties_def same)
  note g = linvD(4) [OF I]
  have in_: "int (Suc i) < log_size s"
    using log_slot_cases(1) [of "nat (lh_n s)" "lh_sector s" "bsector (bufs s b)"] y(3) linvD(5) [OF I]
    unfolding i_def by linarith
  have to: "to = lsec (log_start s) (Suc i)" by (simp add: to_def i_def)
  have ta: "to \<in> log_sectors s" "to < disksize s1"
    using lsec_area [OF g in_] by (simp_all add: log_sectors_def to same)
  have a: "\<forall>c \<in> H. bsector (bufs s1 c) \<noteq> to" "card (H \<union> dirties s1) < NBUF"
    using linvD(13) [OF I] ta(1) linv_room(2) [OF I room] by (auto simp: same D1)
  obtain l t1 where t1: "bread 1 to s1 = Done l t1" "l \<notin> H" "cinv (insert l H) t1" "beyond s1 t1"
    "disk t1 = disk s1" "dwrites t1 = dwrites s1" "blk t1 = blk s1" "dirties t1 = dirties s1" "bsector (bufs t1 l) = to"
    "\<And>c. c \<noteq> l \<Longrightarrow> bufs t1 c = bufs s1 c" "l \<in> dirties s1 \<Longrightarrow> bsector (bufs s1 l) = to"
    by (rule bread_ok [OF I1 ta(2) a]) blast
  have bl: "b \<noteq> l" using b t1(2) by auto
  have lx: "length ?x = BSIZE" using cinvD(8,9) [OF linvD(1) [OF I]] b by blast
  obtain t2 where t2: "bmod l (\<lambda>_. ?x) t1 = Done () t2" "cinv (insert l H) t2" "beyond t1 t2" "disk t2 = disk t1"
    "dwrites t2 = dwrites t1" "blk t2 = (blk t1)(bsector (bufs t1 l) := ?x)" "dirties t2 = dirties t1"
    "\<And>c. c \<noteq> l \<Longrightarrow> same_content (bufs t1 c) (bufs t2 c)"
    "bsector (bufs t2 l) = bsector (bufs t1 l)" "bdata (bufs t2 l) = ?x"
    by (rule bmod_ok [OF t1(3) insertI1, of "\<lambda>_. ?x"], rule lx, blast)
  obtain t3 where t3: "bwrite l t2 = Done () t3" "cinv (insert l H) t3" "beyond t2 t3"
    "disk t3 = (disk t2)(bsector (bufs t2 l) := bdata (bufs t2 l))"
    "dwrites t3 = dwrites t2 @ [(bsector (bufs t2 l), bdata (bufs t2 l))]" "blk t3 = blk t2"
    "dirties t3 = dirties t2 - {l}" "\<And>c. c \<noteq> l \<Longrightarrow> same_content (bufs t2 c) (bufs t3 c)"
    "bsector (bufs t3 l) = bsector (bufs t2 l)" "bdata (bufs t3 l) = bdata (bufs t2 l)"
    by (rule bwrite_ok [OF t2(2) insertI1], blast)
  obtain t4 where t4: "brelse l t3 = Done () t4" "cinv (insert l H - {l}) t4" "beyond t3 t4" "disk t4 = disk t3"
    "dwrites t4 = dwrites t3" "blk t4 = blk t3" "dirties t4 = dirties t3"
    "\<And>c. c \<noteq> l \<Longrightarrow> same_content (bufs t3 c) (bufs t4 c)"
    by (rule brelse_ok [OF t3(2) insertI1], simp add: t3, blast)
  have sc: "same_content (bufs s c) (bufs t4 c)" if "c \<noteq> l" for c
    using t1(10) [OF that] t2(8) [OF that] t3(8) [OF that] t4(8) [OF that] by (metis same same_content_trans)
  have I4: "cinv H t4" using t4(2) t1(2) by simp
  have ld: "l \<notin> dirties s" using t1(11) linvD(10,12) [OF I] ta(1) D1 same by metis
  define t5 where "t5 = (if int i = lh_n s then t4\<lparr>lh_n := lh_n s + 1\<rparr> else t4)"
  have same5: "bufs t5 = bufs t4" "disk t5 = disk t4" "dwrites t5 = dwrites t4" "disksize t5 = disksize t4"
    "cpus t5 = cpus t4" "me t5 = me t4" "locks t5 = locks t4" by (simp_all add: t5_def)
  have I5: "cinv H t5" using I4 by (simp add: cinv_def same5 cli_ok_def lock_free_def)
  have B5: "blk t5 = blk t4" by (rule ext, rule blk_cong) (simp_all add: same5)
  have D5: "dirties t5 = dirties t4" by (simp add: dirties_def same5)
  let ?t = "upd_buf b (set_flag B_DIRTY) t5"
  note dd = bdirty_ok [OF I5 b]
  have "beyond s1 t4" using t1(4) t2(3) t3(3) t4(3) by (meson beyond_trans)
  note b4 = beyond_log [OF this]
  have n1: "lh_n s1 = lh_n s" by (simp add: s1_def)
  have lb: "lbeyond s ?t"
    using b4(1) by (simp add: lbeyond_def s1_def t5_def upd_buf_def awakened_def)
  have e: "log_write b s = Done () ?t"
    using y t1(1) t2(1) t3(1) t4(1) t1(10) [OF bl] b4(2) cinvD(9) [OF linvD(1) [OF I] b]
    unfolding log_write_def
    by (simp add: bind_def seqk_def whenk_def lsec_eqs same t5_def to_def i_def [symmetric] s1_def [symmetric] n1)
  show ?thesis
  proof (rule that [OF e dd(1) lb])
    show "lh_sector ?t = (lh_sector s)(i := bsector (bufs s b))" using b4(3) by (simp add: t5_def upd_buf_def s1_def)
    show "lh_n ?t = (if int i = lh_n s then lh_n s + 1 else lh_n s)" using b4(2) n1 by (simp add: t5_def upd_buf_def)
    show "disk ?t = (disk s)(to := ?x)" "dwrites ?t = dwrites s @ [(to, ?x)]"
      using t1(5,6,9) t2(4,5,9,10) t3(4,5) t4(4,5) by (simp_all add: same same5)
    show "blk ?t = (blk s)(to := ?x)" using dd(2) B5 t4(6) t3(6) t2(6) t1(7,9) B1 by simp
    show "dirties ?t = insert b (dirties s)" using dd(3) D5 t4(7) t3(7) t2(7) t1(8) D1 ld by auto
    show "same_content (bufs s c) (bufs ?t c)" if "c \<in> H" "c \<noteq> b" for c
      using sc [of c] that t1(2) by (auto simp: same5)
    show "bsector (bufs ?t b) = bsector (bufs s b)" "bdata (bufs ?t b) = ?x"
      using sc [OF bl] by (auto simp: same5 same_content_def)
    show "bsector (bufs ?t c) = bsector (bufs s c)" if "c \<in> dirties s" for c
      using sc [of c] that ld by (cases "c = l") (auto simp: same5 same_content_def)
  qed simp
qed

lemma log_write_ok:
  assumes I: "linv H s" and b: "b \<in> H" and y: "log_busy s" "lh_n s < int LOGSIZE" "lh_n s < log_size s - 1"
    and room: "card H + nat (lh_n s) < NBUF"
  obtains t to where "log_write b s = Done () t" "linv H t" "lbeyond s t" "settled t b"
    "logged t = insert (bsector (bufs s b)) (logged s)" "lh_n t \<le> lh_n s + 1" "lh_n s \<le> lh_n t" "to \<in> log_sectors s"
    "to \<noteq> lsec (log_start s) 0" "disk t = (disk s)(to := bdata (bufs s b))" "dwrites t = dwrites s @ [(to, bdata (bufs s b))]"
    "blk t = (blk s)(to := bdata (bufs s b))"
    "\<And>c. c \<in> H \<Longrightarrow> c \<noteq> b \<Longrightarrow> same_content (bufs s c) (bufs t c)"
    "\<And>c. c \<in> H \<Longrightarrow> settled s c \<Longrightarrow> settled t c"
    "bsector (bufs t b) = bsector (bufs s b)" "bdata (bufs t b) = bdata (bufs s b)"
proof -
  let ?n = "nat (lh_n s)" and ?sec = "bsector (bufs s b)" and ?x = "bdata (bufs s b)"
  define i where "i = log_slot ?n (lh_sector s) ?sec"
  define to where "to = lsec (log_start s) (Suc i)"
  obtain t where t: "log_write b s = Done () t" "cinv H t" "lbeyond s t"
    "lh_sector t = (lh_sector s)(i := ?sec)" "lh_n t = (if int i = lh_n s then lh_n s + 1 else lh_n s)"
    "disk t = (disk s)(to := ?x)" "dwrites t = dwrites s @ [(to, ?x)]"
    "blk t = (blk s)(to := ?x)" "dirties t = insert b (dirties s)" "dirty (bufs t b)"
    "\<And>c. c \<in> H \<Longrightarrow> c \<noteq> b \<Longrightarrow> same_content (bufs s c) (bufs t c)"
    "bsector (bufs t b) = ?sec" "bdata (bufs t b) = ?x" "\<And>c. c \<in> dirties s \<Longrightarrow> bsector (bufs t c) = bsector (bufs s c)"
    unfolding to_def i_def by (rule log_write_steps [OF I b y room]) blast
  note lb = lbeyondD [OF t(3)]
  note L = linvD [OF I]
  note g = L(4)
  have i: "i \<le> ?n" "i < ?n \<Longrightarrow> lh_sector s i = ?sec" "\<And>j. i = ?n \<Longrightarrow> j < ?n \<Longrightarrow> lh_sector s j \<noteq> ?sec"
    using log_slot_cases [of ?n "lh_sector s" ?sec] by (auto simp: i_def)
  have isz: "int (Suc i) < log_size s" using i(1) y(3) L(5) by linarith
  have n': "nat (lh_n t) = (if i = ?n then Suc ?n else ?n)" using t(5) L(5) by (auto simp: Suc_nat_eq_nat_zadd1)
  have ls: "log_sectors t = log_sectors s" by (simp add: log_sectors_def lb)
  have tos: "to \<in> log_sectors s" using lsec_area(1) [OF g isz] by (simp add: to_def log_sectors_def)
  have to0: "to \<noteq> lsec (log_start s) 0" using lsec_inj [OF g isz, of 0] g by (simp add: to_def geometry_def)
  have secL: "?sec \<notin> log_sectors s" "?sec < disksize s" using L(13) b cinvD(9) [OF L(1)] by auto
  have lg: "logged t = insert ?sec (logged s)"
  proof (cases "i = ?n")
    case True
    then show ?thesis using n' t(4) by (auto simp: logged_def lessThan_Suc)
  next
    case False
    then have "i < ?n" using i(1) by simp
    with i(2) n' have "(lh_sector s)(i := ?sec) = lh_sector s" "?sec \<in> logged s" "nat (lh_n t) = ?n"
      by (auto simp: logged_def rev_image_eqI)
    then show ?thesis using t(4) by (simp add: logged_def insert_absorb)
  qed
  have inj: "inj_on (lh_sector t) {..<nat (lh_n t)}"
  proof (cases "i = ?n")
    case True
    have "\<forall>j < ?n. lh_sector s j \<noteq> ?sec \<and> ?sec \<noteq> lh_sector s j" using i(3) [OF True] by metis
    then show ?thesis
      using True n' t(4) L(8) by (auto simp: lessThan_Suc inj_on_def)
  next
    case False
    then have "(lh_sector s)(i := ?sec) = lh_sector s" using i(1,2) by auto
    then show ?thesis using False n' t(4) L(8) by simp
  qed
  have other: "disk t (lsec (log_start s) (Suc k)) = disk s (lsec (log_start s) (Suc k)) \<and> k < ?n \<and> lh_sector t k = lh_sector s k"
    if "k < nat (lh_n t)" "lh_sector t k \<noteq> ?sec" for k
  proof -
    have "k \<noteq> i" using that(2) t(4) by auto
    moreover have "k < ?n" using that(1) n' \<open>k \<noteq> i\<close> by (auto split: if_splits)
    moreover have "int (Suc k) < log_size s" using \<open>k < ?n\<close> L(7) by linarith
    ultimately show ?thesis using t(4,6) lsec_inj [OF g _ isz, of "Suc k"] by (auto simp: to_def)
  qed
  have secc: "bsector (bufs t c) = bsector (bufs s c)" if "c \<in> H" for c
    using t(11) [OF that] t(12) by (cases "c = b") (auto simp: same_content_def)
  have lin: "linv H t"
  proof (rule linvI)
    show "lock_free Lk_log t" using L(2) awakened_frame(2) [OF lb(6)] by simp
    show "lh_n t \<le> int LOGSIZE" "lh_n t < log_size t" "0 \<le> lh_n t" using t(5) y L(5-7) lb(2) by auto
    show "n < disksize t" "n \<notin> log_sectors t" if "n \<in> logged t" for n
      using that lg L(9,10) secL ls lb(4) by auto
    show "hdr_n (disk t (lsec (log_start t) 0)) = 0" using to0 L(11) by (simp add: t(6) lb)
    show "bsector (bufs t c) \<in> logged t" if "c \<in> dirties t" for c
      using that t(9,12,14) L(12) lg by auto
    show "bsector (bufs t c) \<notin> log_sectors t" if "c \<in> H" for c
      using L(13) that secc ls by auto
    show "disk t (lsec (log_start t) (Suc k)) = blk t (lh_sector t k)"
      if k: "k < nat (lh_n t)" "\<And>c. c \<in> H \<Longrightarrow> bsector (bufs t c) \<noteq> lh_sector t k" for k
    proof -
      have ns: "lh_sector t k \<noteq> ?sec" using k(2) [OF b] t(12) by auto
      note o = other [OF k(1) ns]
      have "disk s (lsec (log_start s) (Suc k)) = blk s (lh_sector s k)"
        using o k(2) secc by (intro L(14)) auto
      moreover have "lh_sector s k \<noteq> to" using L(10) [of "lh_sector s k"] o tos by (auto simp: logged_def)
      ultimately show ?thesis using o t(8) lb(1) by simp
    qed
  qed (use t(2) lb L inj in simp_all)
  have "settled t b"
    unfolding settled_def
  proof (intro conjI allI impI)
    fix k assume k: "k < nat (lh_n t)" "lh_sector t k = bsector (bufs t b)"
    have "i < nat (lh_n t)" "lh_sector t i = bsector (bufs t b)" using i(1) n' t(4,12) by auto
    then have "k = i" using k inj by (auto simp: inj_on_def)
    then show "disk t (lsec (log_start t) (Suc k)) = bdata (bufs t b)" using t(6,13) lb(1) by (simp add: to_def)
  qed (simp add: t(10))
  moreover have "settled t c" if "c \<in> H" "settled s c" for c
  proof (cases "c = b")
    case False
    note f = t(11) [OF that(1) False]
    have sc: "bsector (bufs t c) = bsector (bufs s c)" "bdata (bufs t c) = bdata (bufs s c)" "dirty (bufs t c) = dirty (bufs s c)"
      using f same_content_flags(3) [OF f] by (auto simp: same_content_def)
    have ne: "bsector (bufs s c) \<noteq> ?sec" "bsector (bufs s c) \<noteq> to"
      using held_unique [OF L(1) b, of c] cinvD(9) [OF L(1) that(1)] False L(13) [OF that(1)] tos by auto
    show ?thesis
      using that(2) other ne sc lb(1) t(6) unfolding settled_def by auto
  qed (use \<open>settled t b\<close> in simp)
  ultimately show ?thesis
    using t(1,3,5-8,11-13) lin lg tos to0 by (intro that [of t to]) auto
qed

section \<open>Commit\<close>

lemma held_log [simp]:
  "log_busy (held l s) = log_busy s" "lh_n (held l s) = lh_n s"
  "(held l s)\<lparr>log_busy := x\<rparr> = held l (s\<lparr>log_busy := x\<rparr>)"
  "cli_ok (s\<lparr>log_busy := x\<rparr>) = cli_ok s" "lock_free k (s\<lparr>log_busy := x\<rparr>) = lock_free k s"
  by (simp_all add: held_def upd_lock_def upd_mycpu_def cli_ok_def lock_free_def)

text \<open>The end of \<open>commit_trans\<close>.\<close>

definition unbusy :: "'z lstate_scheme \<Rightarrow> 'z lstate_scheme" where
  "unbusy s = woken (Some Ch_log) (s\<lparr>log_busy := False\<rparr>)"

lemma unbusy_eq:
  assumes "cli_ok s" "lock_free Lk_log s" "lock_free Lk_ptable s"
  shows "seqk (acquire Lk_log) (seqk (modify (\<lambda>s. s\<lparr>log_busy := False\<rparr>)) (seqk (wakeup Ch_log) (release Lk_log))) s =
    Done () (unbusy s)"
proof -
  have "wakeup Ch_log (held Lk_log (s\<lparr>log_busy := False\<rparr>)) = Done () (woken (Some Ch_log) (held Lk_log (s\<lparr>log_busy := False\<rparr>)))"
    using assms by (intro wakeup_eq) simp_all
  then show ?thesis
    using assms by (simp add: unbusy_def seqk_def bind_def acquire_free)
qed

lemma unbusy_same:
  "bufs (unbusy s) = bufs s" "disk (unbusy s) = disk s" "dwrites (unbusy s) = dwrites s" "disksize (unbusy s) = disksize s"
  "blk (unbusy s) = blk s" "dirties (unbusy s) = dirties s" "cinv H (unbusy s) = cinv H s" "\<not> log_busy (unbusy s)"
  "lh_n (unbusy s) = lh_n s" "lh_sector (unbusy s) = lh_sector s" "log_start (unbusy s) = log_start s"
  "log_size (unbusy s) = log_size s" "log_dev (unbusy s) = log_dev s" "lstate.more (unbusy s) = lstate.more s"
  "lock_free l (unbusy s) = lock_free l s" "awakened s (unbusy s)" "logged (unbusy s) = logged s"
  "log_sectors (unbusy s) = log_sectors s"
proof -
  have e: "bufs (unbusy s) = bufs s" "disk (unbusy s) = disk s" "disksize (unbusy s) = disksize s"
    "cpus (unbusy s) = cpus s" "me (unbusy s) = me s" "locks (unbusy s) = locks s"
    by (simp_all add: unbusy_def woken_def)
  show "blk (unbusy s) = blk s" by (rule ext, rule blk_cong) (simp_all add: e)
  show "cinv H (unbusy s) = cinv H s" by (simp add: cinv_def e cli_ok_def lock_free_def)
  show "awakened s (unbusy s)" by (simp add: awakened_def unbusy_def woken_def wake_proc_def)
qed (simp_all add: unbusy_def woken_def dirties_def lock_free_def logged_def log_sectors_def)

lemma unlogged_blk:
  assumes I: "linv {} s" and n: "n \<notin> logged s"
  shows "blk s n = disk s n"
proof (rule blk_cases [OF cinvD(4) [OF linvD(1) [OF I]], of n])
  fix i assume i: "i < NBUF" "bdev (bufs s i) = 1" "valid (bufs s i)" "bsector (bufs s i) = n" "blk s n = bdata (bufs s i)"
  have "\<not> dirty (bufs s i)" using linvD(12) [OF I, of i] n i by (auto simp: dirties_def)
  then show ?thesis
    using cinvD(7) [OF linvD(1) [OF I] i(1)] i by (auto simp: buf_ok_def)
qed

lemma lbeyond_lock_free: "lbeyond s t \<Longrightarrow> lock_free l t = lock_free l s" "lbeyond s t \<Longrightarrow> cli_ok t = cli_ok s"
  by (simp_all add: awakened_frame lbeyondD(6))

text \<open>The writes of a commit: the header with the sectors, then the installation of that log.\<close>

lemma commit_writes_ok:
  assumes I: "linv {} s" and n: "0 < lh_n s" "nat (lh_n s) + 1 < NBUF"
  obtains t h h0 where
    "seqk write_head (seqk install_trans (seqk (modify (\<lambda>s. s\<lparr>lh_n := 0\<rparr>)) write_head)) s = Done () t"
    "cinv {} t" "lbeyond s t" "lh_n t = 0" "dirties t = {}" "hdr_n h0 = 0"
    "dwrites t = dwrites s @ (lsec (log_start s) 0, h) # install_writes (log_start s) ((disk s)(lsec (log_start s) 0 := h)) h0"
    "disk t = apply_writes ((lsec (log_start s) 0, h) # install_writes (log_start s) ((disk s)(lsec (log_start s) 0 := h)) h0) (disk s)"
    "log_wf (log_start s) (log_size s) (disksize s) ((disk s)(lsec (log_start s) 0 := h))"
    "\<And>m. m \<notin> log_sectors s \<Longrightarrow> redo (log_start s) ((disk s)(lsec (log_start s) 0 := h)) m = blk s m"
    "fst ` set (log_pairs (log_start s) ((disk s)(lsec (log_start s) 0 := h))) = logged s"
proof -
  note L = linvD [OF I]
  let ?k = "nat (lh_n s)" and ?n = "lsec (log_start s) 0"
  have k: "lh_n s = int ?k" "?k \<le> 127" using L(5,6) n by (auto simp: LOGSIZE_def)
  have a: "?n < disksize s" "card (dirties s) < NBUF" "?n \<in> log_sectors s"
    using lsec_area [OF L(4), of 0] L(4) linv_room(1) [OF I] n(2) by (auto simp: geometry_def log_sectors_def)
  define h where "h = put_header (int ?k) (lh_sector s) (blk s ?n)"
  obtain u where u: "write_head s = Done () u" "cinv {} u" "beyond s u" "disk u = (disk s)(?n := h)" "blk u = (blk s)(?n := h)"
    "dwrites u = dwrites s @ [(?n, h)]" "dirties u = {i \<in> dirties s. bsector (bufs s i) \<noteq> ?n}"
    "\<And>i. i \<in> dirties u \<Longrightarrow> bsector (bufs u i) = bsector (bufs s i)"
    unfolding h_def by (rule write_head_ok [OF L(1,3) k a(1,2)]) blast
  have h: "hdr_n h = int ?k" "\<And>i. i < ?k \<Longrightarrow> hdr_sector h i = lh_sector s i"
    using put_header_ok [OF length_blk [OF L(1)] k(2)] by (auto simp: h_def)
  note b = beyond_log [OF u(3)]
  have lb: "blk u m = disk u m" if "m \<in> log_area (log_start u) (log_size u)" for m
    using linv_log_blk [OF I, of m] that by (simp add: u(4,5) b log_sectors_def)
  have wf: "log_wf (log_start s) (log_size s) (disksize s) ((disk s)(?n := h))"
    using L(6,7,9,10) h k(1) by (auto simp: log_wf_def logged_def log_sectors_def)
  have "card (dirties u) \<le> card (dirties s)" unfolding u(7) by (intro card_mono) (auto simp: dirties_def)
  then have c: "card (dirties u) + 1 < NBUF" using linv_room(1) [OF I] n(2) by simp
  have "\<exists>t h0. seqk install_trans (seqk (modify (\<lambda>s. s\<lparr>lh_n := 0\<rparr>)) write_head) u = Done () t \<and>
    cinv {} t \<and> lbeyond u t \<and> lh_n t = 0 \<and> dirties t = {} \<and> hdr_n h0 = 0 \<and>
    dwrites t = dwrites u @ install_writes (log_start u) (disk u) h0 \<and>
    disk t = apply_writes (install_writes (log_start u) (disk u) h0) (disk u)"
  proof (rule install_erase_ok [OF u(2)])
    show "\<forall>i \<in> dirties u. bsector (bufs u i) \<in> lh_sector u ` {..<nat (lh_n u)}"
      using u(7,8) L(12) by (auto simp: b logged_def)
    show "\<forall>i < nat (lh_n u). lh_sector u i = hdr_sector (disk u (lsec (log_start u) 0)) i"
      using h(2) by (simp add: b u(4))
  qed (use L(3,4) wf lb c h(1) k(1) in \<open>simp_all add: b u(4)\<close>)
  then obtain t h0 where t: "seqk install_trans (seqk (modify (\<lambda>s. s\<lparr>lh_n := 0\<rparr>)) write_head) u = Done () t"
    "cinv {} t" "lbeyond u t" "lh_n t = 0" "dirties t = {}" "hdr_n h0 = 0"
    "dwrites t = dwrites u @ install_writes (log_start u) (disk u) h0"
    "disk t = apply_writes (install_writes (log_start u) (disk u) h0) (disk u)" by blast
  have redo: "redo (log_start s) ((disk s)(?n := h)) m = blk s m" if m: "m \<notin> log_sectors s" for m
  proof -
    let ?d = "(disk s)(?n := h)"
    have ne: "lsec (log_start s) (Suc i) \<noteq> ?n" if "i < ?k" for i
      using lsec_inj [OF L(4), of "Suc i" 0] that L(4,7) by (auto simp: geometry_def zless_nat_eq_int_zless)
    have ps: "log_pairs (log_start s) ?d = map (\<lambda>i. (lh_sector s i, blk s (lh_sector s i))) [0..<?k]"
      using h ne L(14) by (auto simp: log_pairs_def Let_def)
    have "apply_writes (log_pairs (log_start s) ?d) ?d m = (if m \<in> logged s then blk s m else ?d m)"
      by (subst apply_writes_all [of _ "blk s"]) (auto simp: ps logged_def image_image atLeast0LessThan)
    moreover have "m \<noteq> ?n" using m a(3) by auto
    ultimately show ?thesis using unlogged_blk [OF I] by (auto simp: redo_def)
  qed
  have lg: "fst ` set (log_pairs (log_start s) ((disk s)(?n := h))) = logged s"
    using h by (auto simp: log_pairs_def Let_def logged_def image_image)
  have e: "seqk write_head (seqk install_trans (seqk (modify (\<lambda>s. s\<lparr>lh_n := 0\<rparr>)) write_head)) s = Done () t"
    using u(1) t(1) by (simp add: seqk_def bind_def)
  show ?thesis
    by (rule that [OF e t(2) _ t(4-6), of h])
      (use t(7,8) u(4,6) b lbeyond_trans [OF b(1) t(3)] wf redo lg in simp_all)
qed

section \<open>Properties\<close>

lemma install_all:
  assumes "geometry start nlog dsize" "log_wf start nlog dsize d" "hdr_n h0 = 0" "n \<notin> log_area start nlog"
  shows "apply_writes (install_writes start d h0) d n = redo start d n"
proof -
  let ?e = "apply_writes (install_writes start d h0) d"
  have "redo start ?e n = redo start d n"
    using redo_prefix(2) [OF assms(1-3), of "install_writes start d h0" "length (install_writes start d h0)"] assms(4) by simp
  moreover have "redo start ?e = ?e"
    by (rule redo_empty) (simp add: install_writes_def assms(3))
  ultimately show ?thesis by simp
qed

text \<open>Where the super block of a disk puts the log, and a machine started with such a disk.\<close>

definition sb_log :: "(u32 \<Rightarrow> bytes) \<Rightarrow> int \<times> int" where
  "sb_log d = (sint (sb_size (de_superblock (d 1)) - sb_nlog (de_superblock (d 1))),
     sint (sb_nlog (de_superblock (d 1))))"

definition booted_on :: "(u32 \<Rightarrow> bytes) \<Rightarrow> u32 \<Rightarrow> 'z lstate_scheme \<Rightarrow> bool" where
  "booted_on d n r \<longleftrightarrow> cinv {} r \<and> dirties r = {} \<and> disk r = d \<and> disksize r = n"

lemma boot_recovers:
  assumes "booted_on d dsize r" "sb_log d = (start, nlog)" "geometry start nlog dsize" "log_wf start nlog dsize d"
  shows "\<exists>u h0. initlog r = Done () u \<and> linv {} u \<and> disksize u = dsize \<and> log_start u = start \<and> log_size u = nlog \<and>
    log_busy u = log_busy r \<and> hdr_n h0 = 0 \<and> lh_n u = 0 \<and> blk u = disk u \<and>
    dwrites u = dwrites r @ install_writes start d h0 \<and> disk u = apply_writes (install_writes start d h0) d \<and>
    (\<forall>n. n \<notin> log_area start nlog \<longrightarrow> disk u n = redo start d n)"
proof -
  have r: "rebooted start nlog r" using assms(1-3) by (simp add: rebooted_def booted_on_def sb_log_def)
  have d: "disk r = d" "disksize r = dsize" using assms(1) by (simp_all add: booted_on_def)
  from initlog_ok [OF r] assms(4) d obtain u h0 where u: "initlog r = Done () u" "cinv {} u" "dirties u = {}"
    "log_start u = start" "log_size u = nlog" "log_dev u = 1" "lh_n u = 0" "lock_free Lk_log u" "disksize u = dsize"
    "log_busy u = log_busy r" "hdr_n h0 = 0" "dwrites u = dwrites r @ install_writes start d h0"
    "disk u = apply_writes (install_writes start d h0) d" by auto
  have "linv {} u"
    using u assms(3) by (intro linvI)
      (simp_all add: logged_def install_writes_def geometry_def)
  moreover have "\<forall>n. n \<notin> log_area start nlog \<longrightarrow> disk u n = redo start d n"
    using install_all [OF assms(3,4) u(11)] u(13) by simp
  ultimately show ?thesis
    using u clean_blk [OF u(2,3)] by (intro exI [of _ u] exI [of _ h0]) simp
qed

text \<open>C1 (atomic commit). A transaction of up to \<open>NBUF - 2\<close> blocks commits, and then every home block on disk is
  what the kernel saw. If the machine stops after any number \<open>k\<close> of the disk writes of
  \<open>commit_trans\<close> and is started again on the disk it left, \<open>initlog\<close> returns and every block outside the
  log holds its contents from before the transaction when no write was done, and the contents the
  transaction gave it in all other cases.\<close>

theorem commit_crash_atomic:
  fixes s :: "'z lstate_scheme"
  assumes I: "linv {} s" and n: "nat (lh_n s) + 1 < NBUF"
    and sb: "sb_log (disk s) = (log_start s, log_size s)" "1 \<notin> logged s"
  shows "\<exists>t ws. commit_trans s = Done () t \<and> linv {} t \<and> \<not> log_busy t \<and> dwrites t = dwrites s @ ws \<and>
    (\<forall>m. m \<notin> log_sectors s \<longrightarrow> disk t m = blk s m \<and> blk t m = blk s m) \<and>
    (\<forall>k (r :: 'z lstate_scheme). booted_on (apply_writes (take k ws) (disk s)) (disksize s) r \<longrightarrow>
      (\<exists>u. initlog r = Done () u \<and>
        (\<forall>m. m \<notin> log_sectors s \<longrightarrow> disk u m = (if k = 0 then disk s m else blk s m))))"
proof (cases "lh_n s = 0")
  case True
  note L = linvD [OF I]
  have e: "commit_trans s = Done () (unbusy s)"
    using True unbusy_eq [of s] cinvD(1,3) [OF L(1)] L(2) by (simp add: commit_trans_def bind_def seqk_def)
  have bd: "blk s = disk s" using unlogged_blk [OF I] True by (simp add: logged_def fun_eq_iff)
  have wf: "log_wf (log_start s) (log_size s) (disksize s) (disk s)"
    using L(4,11) by (simp add: log_wf_def geometry_def)
  have "linv {} (unbusy s)"
    by (rule linvI) (use L in \<open>simp_all add: unbusy_same True\<close>)
  moreover have "\<exists>u. initlog r = Done () u \<and> (\<forall>m. m \<notin> log_sectors s \<longrightarrow> disk u m = (if k = 0 then disk s m else blk s m))"
    if "booted_on (disk s) (disksize s) r" for k :: nat and r :: "'z lstate_scheme"
    using boot_recovers [OF that sb(1) L(4) wf] redo_empty [of "disk s" "log_start s"] L(11)
    by (auto simp: log_sectors_def bd)
  ultimately show ?thesis
    using e by (intro exI [of _ "unbusy s"] exI [of _ "[]"]) (auto simp: unbusy_same bd simp del: if_split)
next
  case False
  note L = linvD [OF I]
  let ?st = "log_start s" and ?n = "lsec (log_start s) 0"
  have n0: "0 < lh_n s" using False L(5) by simp
  obtain t h h0 where t:
    "seqk write_head (seqk install_trans (seqk (modify (\<lambda>s. s\<lparr>lh_n := 0\<rparr>)) write_head)) s = Done () t"
    "cinv {} t" "lbeyond s t" "lh_n t = 0" "dirties t = {}" "hdr_n h0 = 0"
    "dwrites t = dwrites s @ (?n, h) # install_writes ?st ((disk s)(?n := h)) h0"
    "disk t = apply_writes ((?n, h) # install_writes ?st ((disk s)(?n := h)) h0) (disk s)"
    "log_wf ?st (log_size s) (disksize s) ((disk s)(?n := h))"
    "\<And>m. m \<notin> log_sectors s \<Longrightarrow> redo ?st ((disk s)(?n := h)) m = blk s m"
    "fst ` set (log_pairs ?st ((disk s)(?n := h))) = logged s"
    by (rule commit_writes_ok [OF I n0 n]) (rule that)
  let ?d = "(disk s)(?n := h)" and ?ws = "(?n, h) # install_writes ?st ((disk s)(?n := h)) h0"
  note lb = lbeyondD [OF t(3)]
  have e: "commit_trans s = Done () (unbusy t)"
    using t(1) n0 unbusy_eq [of t] cinvD(1,3) [OF t(2)] L(2) lbeyond_lock_free(1) [OF t(3)]
    by (simp add: commit_trans_def bind_def seqk_def split: outcome.splits)
  have dt: "disk t m = blk s m" if "m \<notin> log_sectors s" for m
    using install_all [OF L(4) t(9,6), of m] t(8,10) that by (simp add: log_sectors_def)
  have lin: "linv {} (unbusy t)"
    by (rule linvI) (use L(2-7) t(2-6,8) lb lbeyond_lock_free(1) [OF t(3)] in
        \<open>simp_all add: unbusy_same logged_def install_writes_def\<close>)
  have crash: "\<exists>u. initlog r = Done () u \<and> (\<forall>m. m \<notin> log_sectors s \<longrightarrow> disk u m = (if k = 0 then disk s m else blk s m))"
    if r: "booted_on (apply_writes (take k ?ws) (disk s)) (disksize s) r" for k and r :: "'z lstate_scheme"
  proof -
    let ?e = "apply_writes (take k ?ws) (disk s)"
    have "?n \<noteq> 1" using lsec_area(3) [OF L(4), of 0] L(4) by (auto simp: geometry_def)
    then have "1 \<notin> fst ` set ?ws" using t(11) sb(2) by (auto simp: install_writes_def)
    then have "1 \<notin> fst ` set (take k ?ws)" using set_take_subset [of k ?ws] by blast
    then have sbe: "sb_log ?e = (?st, log_size s)" using sb(1) by (simp add: sb_log_def apply_writes_other)
    have we: "log_wf ?st (log_size s) (disksize s) ?e \<and>
        (\<forall>m. m \<notin> log_sectors s \<longrightarrow> redo ?st ?e m = (if k = 0 then disk s m else blk s m))"
    proof (cases k)
      case 0
      then show ?thesis
        using L(4,11) redo_empty [of "disk s" ?st] by (simp add: log_wf_def geometry_def)
    next
      case (Suc j)
      then have "?e = apply_writes (take j (install_writes ?st ?d h0)) ?d" by simp
      then show ?thesis
        using redo_prefix [OF L(4) t(9,6) refl, where k = j] t(10) Suc by (simp add: log_sectors_def)
    qed
    then show ?thesis
      using boot_recovers [OF r sbe L(4)] by (auto simp: log_sectors_def)
  qed
  show ?thesis
    using e lin crash t(7,8) dt clean_blk [OF t(2,5)]
    by (intro exI [of _ "unbusy t"] exI [of _ ?ws]) (auto simp: unbusy_same simp del: apply_writes_simps)
qed

text \<open>C2 (recovery can be interrupted). \<open>initlog\<close> brings every block outside the log to the contents that the disk
  with its log stands for; if the machine stops after any number of the writes of the recovery and is started
  again, the second recovery returns with the same contents.\<close>

theorem recovery_restartable:
  fixes r :: "'z lstate_scheme"
  assumes "booted_on d dsize r" "sb_log d = (start, nlog)" "geometry start nlog dsize" "log_wf start nlog dsize d"
    and "1 \<notin> fst ` set (log_pairs start d)"
  shows "\<exists>u ws. initlog r = Done () u \<and> linv {} u \<and> dwrites u = dwrites r @ ws \<and>
    (\<forall>m. m \<notin> log_area start nlog \<longrightarrow> disk u m = redo start d m) \<and>
    (\<forall>k (q :: 'z lstate_scheme). booted_on (apply_writes (take k ws) d) dsize q \<longrightarrow>
      (\<exists>v. initlog q = Done () v \<and> (\<forall>m. m \<notin> log_area start nlog \<longrightarrow> disk v m = redo start d m)))"
proof -
  obtain u h0 where u: "initlog r = Done () u" "linv {} u" "hdr_n h0 = 0" "dwrites u = dwrites r @ install_writes start d h0"
    "\<forall>m. m \<notin> log_area start nlog \<longrightarrow> disk u m = redo start d m"
    using boot_recovers [OF assms(1-4)] by blast
  have "\<exists>v. initlog q = Done () v \<and> (\<forall>m. m \<notin> log_area start nlog \<longrightarrow> disk v m = redo start d m)"
    if q: "booted_on (apply_writes (take k (install_writes start d h0)) d) dsize q" for k and q :: "'z lstate_scheme"
  proof -
    let ?e = "apply_writes (take k (install_writes start d h0)) d"
    have "lsec start 0 \<noteq> 1" using lsec_area(3) [OF assms(3), of 0] assms(3) by (auto simp: geometry_def)
    then have "1 \<notin> fst ` set (install_writes start d h0)" using assms(5) by (auto simp: install_writes_def)
    then have "1 \<notin> fst ` set (take k (install_writes start d h0))"
      using set_take_subset [of k "install_writes start d h0"] by blast
    then have "sb_log ?e = (start, nlog)" using assms(2) by (simp add: sb_log_def apply_writes_other)
    then show ?thesis
      using boot_recovers [OF q _ assms(3)] redo_prefix [OF assms(3,4) u(3) refl, where k = k] by force
  qed
  then show ?thesis using u by blast
qed

text \<open>C3 (no effect before commit). Logging a changed block changes no block outside the log on disk, only what the
  kernel sees through the cache stays changed; if the machine stops now, the next start finds the disk as it was
  before the transaction.\<close>

theorem log_write_uncommitted:
  fixes s :: "'z lstate_scheme"
  assumes I: "linv H s" and b: "b \<in> H" and y: "log_busy s" "lh_n s < int LOGSIZE" "lh_n s < log_size s - 1"
    and room: "card H + nat (lh_n s) < NBUF" and sb: "sb_log (disk s) = (log_start s, log_size s)"
  shows "\<exists>t. log_write b s = Done () t \<and> linv H t \<and> bsector (bufs s b) \<in> logged t \<and>
    (\<forall>m. m \<notin> log_sectors s \<longrightarrow> disk t m = disk s m \<and> blk t m = blk s m) \<and>
    (\<forall>r :: 'z lstate_scheme. booted_on (disk t) (disksize t) r \<longrightarrow>
      (\<exists>u. initlog r = Done () u \<and> (\<forall>m. m \<notin> log_sectors s \<longrightarrow> disk u m = disk s m)))"
proof -
  obtain t to where t: "log_write b s = Done () t" "linv H t" "lbeyond s t"
    "logged t = insert (bsector (bufs s b)) (logged s)" "to \<in> log_sectors s"
    "disk t = (disk s)(to := bdata (bufs s b))" "blk t = (blk s)(to := bdata (bufs s b))"
    by (rule log_write_ok [OF I b y room]) (rule that)
  note lb = lbeyondD [OF t(3)]
  note L = linvD [OF t(2)]
  have ls: "log_sectors t = log_sectors s" by (simp add: log_sectors_def lb)
  have home: "disk t m = disk s m \<and> blk t m = blk s m" if "m \<notin> log_sectors s" for m
    using that t(5-7) by auto
  have "1 \<notin> log_sectors s"
    using linvD(4) [OF I] by (simp add: log_sectors_def log_area_def geometry_def)
  then have sbt: "sb_log (disk t) = (log_start t, log_size t)" using sb home by (simp add: sb_log_def lb)
  have wf: "log_wf (log_start t) (log_size t) (disksize t) (disk t)"
    using L(4,11) by (simp add: log_wf_def geometry_def)
  have "\<exists>u. initlog r = Done () u \<and> (\<forall>m. m \<notin> log_sectors s \<longrightarrow> disk u m = disk s m)"
    if r: "booted_on (disk t) (disksize t) r" for r :: "'z lstate_scheme"
    using boot_recovers [OF r sbt L(4) wf] redo_empty [of "disk t" "log_start t"] L(11) home ls
    by (auto simp: log_sectors_def)
  then show ?thesis using t(1,2,4) home by blast
qed

text \<open>\<open>begin_trans\<close> takes the log if it is free.\<close>

lemma begin_trans_ok:
  assumes "cli_ok s" "lock_free Lk_log s" "\<not> log_busy s"
  shows "begin_trans s = Done () (s\<lparr>log_busy := True\<rparr>)"
  using assms by (simp add: begin_trans_def begin_trans_loop_def seqk_def bind_def acquire_free)

lemma linv_busy:
  "linv H (s\<lparr>log_busy := x\<rparr>) = linv H s" "blk (s\<lparr>log_busy := x\<rparr>) = blk s" "disk (s\<lparr>log_busy := x\<rparr>) = disk s"
proof -
  have b: "blk (s\<lparr>log_busy := x\<rparr>) = blk s" by (rule ext, rule blk_cong) simp_all
  then show "blk (s\<lparr>log_busy := x\<rparr>) = blk s" "disk (s\<lparr>log_busy := x\<rparr>) = disk s" by simp_all
  show "linv H (s\<lparr>log_busy := x\<rparr>) = linv H s"
    by (simp add: linv_def cinv_def b logged_def log_sectors_def dirties_def cli_ok_def lock_free_def)
qed

text \<open>A small disk with a log of ten blocks, and the machine after its first transaction has logged a block.\<close>

definition lstate0 :: "(u32 \<Rightarrow> bytes) \<Rightarrow> u32 \<Rightarrow> lstate" where
  "lstate0 d n = \<lparr>cpus = (\<lambda>_. cpu0), me = 0, locks = (\<lambda>_. spinlock0), ptable = (\<lambda>_. proc0),
     nextpid = 1, initproc = None, ticks = 0, kpgdir = 0, bufs = (\<lambda>_. buf0), disk = d, disksize = n, dwrites = [],
     log_start = 0, log_size = 0, log_busy = False, log_dev = 0, lh_n = 0, lh_sector = (\<lambda>_. 0)\<rparr>"

definition demo_disk :: "u32 \<Rightarrow> bytes" where
  "demo_disk n = (if n = 1 then le32 100 @ le32 50 @ le32 50 @ le32 10 @ replicate 496 0 else replicate BSIZE 0)"

lemma demo_disk_ok:
  "length (demo_disk n) = BSIZE" "sb_log demo_disk = (90, 10)" "geometry 90 10 100"
  "log_wf 90 10 100 demo_disk" "log_pairs 90 demo_disk = []"
proof -
  have s: "slice 0 4 (demo_disk 1) = le32 100" "slice 12 4 (demo_disk 1) = le32 10"
    by (simp_all add: demo_disk_def slice_def le32_def)
  show "length (demo_disk n) = BSIZE" by (simp add: demo_disk_def BSIZE_def)
  show "sb_log demo_disk = (90, 10)" by (simp add: sb_log_def de_superblock_def s)
  show g: "geometry 90 10 100" by (simp add: geometry_def)
  have "lsec 90 0 \<noteq> 1" using lsec_area(3) [OF g, of 0] by auto
  moreover have "de32 (replicate 4 0) = 0" by (simp add: de32_def numeral_eq_Suc)
  moreover have "slice 0 4 (replicate BSIZE (0 :: byte)) = replicate 4 0" by (simp add: BSIZE_def)
  ultimately have h: "hdr_n (demo_disk (lsec 90 0)) = 0"
    by (simp only: demo_disk_def hdr_n_def if_False) simp
  show "log_wf 90 10 100 demo_disk" by (simp add: log_wf_def h)
  show "log_pairs 90 demo_disk = []" by (simp add: log_pairs_def h)
qed

lemma boot_exists:
  assumes "\<And>n. length (d n) = BSIZE"
  shows "\<exists>r :: lstate. booted_on d n r \<and> \<not> log_busy r"
proof (rule binit_ok [of "lstate0 d n"])
  fix t assume t: "cinv {} t" "disk t = disk (lstate0 d n)" "dirties t = {}" "disksize t = disksize (lstate0 d n)"
    "bstate.more t = bstate.more (lstate0 d n)"
  have "log_busy t = log_busy (lstate0 d n)" using t(5) by (cases t) (simp add: lstate0_def)
  with t show ?thesis by (intro exI [of _ t]) (simp add: booted_on_def lstate0_def)
qed (use assms in \<open>simp_all add: lstate0_def cli_ok_def lock_free_def cpu0_def spinlock0_def\<close>)

lemma demo_started:
  obtains s :: lstate where "linv {} s" "lh_n s = 0" "log_busy s" "log_start s = 90" "log_size s = 10" "disksize s = 100"
    "\<And>m. m \<notin> log_sectors s \<Longrightarrow> disk s m = demo_disk m" "blk s = disk s" "sb_log (disk s) = (90, 10)"
proof -
  obtain r :: lstate where r: "booted_on demo_disk 100 r" "\<not> log_busy r" using boot_exists [of demo_disk 100, OF demo_disk_ok(1)] by blast
  obtain u h0 where u: "initlog r = Done () u" "linv {} u" "disksize u = 100" "log_start u = 90" "log_size u = 10"
    "lh_n u = 0" "blk u = disk u" "\<forall>n. n \<notin> log_area 90 10 \<longrightarrow> disk u n = redo 90 demo_disk n"
    using boot_recovers [OF r(1) demo_disk_ok(2-4)] by blast
  have d: "disk u m = demo_disk m" if "m \<notin> log_area 90 10" for m
    using u(8) that by (simp add: redo_def demo_disk_ok)
  have "sb_log (disk u) = sb_log demo_disk"
    using d [of 1] by (simp add: sb_log_def log_area_def)
  then show ?thesis
    using u d by (intro that [of "u\<lparr>log_busy := True\<rparr>"])
      (simp_all add: linv_busy log_sectors_def demo_disk_ok(2))
qed

text \<open>The same machine with block 5 read and changed, and after it was logged and released.\<close>

lemma demo_changed:
  obtains b and s :: lstate where "linv {b} s" "log_busy s" "lh_n s = 0" "log_start s = 90" "log_size s = 10"
    "disksize s = 100" "sb_log (disk s) = (90, 10)" "bsector (bufs s b) = 5" "bdata (bufs s b) = replicate BSIZE 7"
    "disk s 5 = replicate BSIZE 0" "5 \<notin> log_sectors s"
proof -
  obtain s :: lstate where s: "linv {} s" "lh_n s = 0" "log_busy s" "log_start s = 90" "log_size s = 10" "disksize s = 100"
    "\<And>m. m \<notin> log_sectors s \<Longrightarrow> disk s m = demo_disk m" "blk s = disk s" "sb_log (disk s) = (90, 10)"
    by (rule demo_started) (rule that)
  have five: "5 \<notin> log_sectors s" using s(4,5) by (simp add: log_sectors_def log_area_def)
  have pre: "(5 :: u32) < disksize s" "\<forall>i \<in> {}. bsector (bufs s i) \<noteq> 5" "card ({} :: nat set) + nat (lh_n s) < NBUF"
    using s(2,6) by (simp_all add: NBUF_def)
  obtain b t where t: "linv (insert b {}) t" "beyond s t" "disk t = disk s" "bsector (bufs t b) = 5"
    by (rule lbread_ok [OF s(1) pre(1) five pre(2,3)]) (rule that)
  have l: "length (replicate BSIZE (7 :: byte)) = BSIZE" by simp
  obtain u where u: "linv (insert b {}) u" "beyond t u" "disk u = disk t" "bsector (bufs u b) = bsector (bufs t b)"
    "bdata (bufs u b) = replicate BSIZE 7"
    by (rule lbmod_ok [OF t(1) insertI1, of "\<lambda>_. replicate BSIZE 7", OF l]) (rule that)
  note b = beyond_log [OF beyond_trans [OF t(2) u(2)]]
  show ?thesis
    by (rule that [of b u])
      (use u t(3,4) s(2-6,9) s(7) [OF five] five b in \<open>simp_all add: log_sectors_def demo_disk_def\<close>)
qed

lemma demo_released:
  obtains s :: lstate where "linv {} s" "lh_n s \<le> 1" "logged s = {5}" "sb_log (disk s) = (log_start s, log_size s)"
    "blk s 5 = replicate BSIZE 7" "disk s 5 = replicate BSIZE 0" "5 \<notin> log_sectors s" "disksize s = 100"
proof -
  obtain b and s :: lstate where s: "linv {b} s" "log_busy s" "lh_n s = 0" "log_start s = 90" "log_size s = 10"
    "disksize s = 100" "sb_log (disk s) = (90, 10)" "bsector (bufs s b) = 5" "bdata (bufs s b) = replicate BSIZE 7"
    "disk s 5 = replicate BSIZE 0" "5 \<notin> log_sectors s"
    by (rule demo_changed) (rule that)
  have pre: "lh_n s < int LOGSIZE" "lh_n s < log_size s - 1" "card {b} + nat (lh_n s) < NBUF"
    using s(3,5) by (simp_all add: LOGSIZE_def NBUF_def)
  obtain t to where t: "linv {b} t" "lbeyond s t" "settled t b" "logged t = insert (bsector (bufs s b)) (logged s)"
    "lh_n t \<le> lh_n s + 1" "to \<in> log_sectors s" "disk t = (disk s)(to := bdata (bufs s b))"
    "blk t = (blk s)(to := bdata (bufs s b))"
    by (rule log_write_ok [OF s(1) singletonI s(2) pre]) (rule that)
  obtain u where u: "linv ({b} - {b}) u" "beyond t u" "disk u = disk t" "blk u = blk t"
    by (rule lbrelse_ok [OF t(1) singletonI t(3)]) (rule that)
  note lb = lbeyondD [OF t(2)] and b = beyond_log [OF u(2)]
  have ne: "5 \<noteq> to" "1 \<noteq> to"
    using t(6) s(4,5,11) by (auto simp: log_sectors_def log_area_def)
  have "sb_log (disk u) = sb_log (disk s)" using ne u(3) t(7) by (simp add: sb_log_def)
  moreover have "logged u = {5}" using t(4) s(3,8) b by (simp add: logged_def)
  moreover have "blk s 5 = replicate BSIZE 7" using blk_held [OF linvD(1) [OF s(1)] singletonI] s(8,9) by simp
  ultimately show ?thesis
    using u s(3-7,10,11) t(5,7,8) lb b ne by (intro that [of u]) (simp_all add: log_sectors_def)
qed

theorem commit_crash_atomic_witness:
  "\<exists>(s :: lstate) t. linv {} s \<and> disk s 5 = replicate BSIZE 0 \<and> blk s 5 = replicate BSIZE 7 \<and>
    commit_trans s = Done () t \<and> disk t 5 = replicate BSIZE 7"
proof -
  obtain s :: lstate where s: "linv {} s" "lh_n s \<le> 1" "logged s = {5}" "sb_log (disk s) = (log_start s, log_size s)"
    "blk s 5 = replicate BSIZE 7" "disk s 5 = replicate BSIZE 0" "5 \<notin> log_sectors s"
    by (rule demo_released) (rule that)
  have "nat (lh_n s) + 1 < NBUF" "1 \<notin> logged s" using s(2,3) by (simp_all add: NBUF_def)
  from commit_crash_atomic [OF s(1) this(1) s(4) this(2)] s show ?thesis by metis
qed

theorem recovery_restartable_witness:
  "\<exists>(r :: lstate) u. booted_on demo_disk 100 r \<and> initlog r = Done () u \<and> disk u 5 = replicate BSIZE 0"
proof -
  obtain r :: lstate where r: "booted_on demo_disk 100 r" using boot_exists [of demo_disk 100, OF demo_disk_ok(1)] by blast
  have "1 \<notin> fst ` set (log_pairs 90 demo_disk)" by (simp add: demo_disk_ok)
  from recovery_restartable [OF r demo_disk_ok(2-4) this] obtain u where
    "initlog r = Done () u" "\<forall>m. m \<notin> log_area 90 10 \<longrightarrow> disk u m = redo 90 demo_disk m" by blast
  moreover have "5 \<notin> log_area 90 10" by (simp add: log_area_def)
  moreover have "redo 90 demo_disk 5 = replicate BSIZE 0" by (simp add: redo_def demo_disk_ok demo_disk_def)
  ultimately show ?thesis using r by metis
qed

theorem log_write_uncommitted_witness:
  "\<exists>(s :: lstate) b t. log_write b s = Done () t \<and> blk t 5 = replicate BSIZE 7 \<and> disk t 5 = replicate BSIZE 0"
proof -
  obtain b and s :: lstate where s: "linv {b} s" "log_busy s" "lh_n s = 0" "log_start s = 90" "log_size s = 10"
    "disksize s = 100" "sb_log (disk s) = (90, 10)" "bsector (bufs s b) = 5" "bdata (bufs s b) = replicate BSIZE 7"
    "disk s 5 = replicate BSIZE 0" "5 \<notin> log_sectors s"
    by (rule demo_changed) (rule that)
  have pre: "lh_n s < int LOGSIZE" "lh_n s < log_size s - 1" "card {b} + nat (lh_n s) < NBUF"
    "sb_log (disk s) = (log_start s, log_size s)"
    using s(3-5,7) by (simp_all add: LOGSIZE_def NBUF_def)
  have "blk s 5 = replicate BSIZE 7" using blk_held [OF linvD(1) [OF s(1)] singletonI] s(8,9) by simp
  with log_write_uncommitted [OF s(1) singletonI s(2) pre] s(10,11) show ?thesis by metis
qed

end
