(* ===== verification/Block.thy ===== *)
theory Block
  imports Log
begin

text \<open>
  Disk blocks (\<open>bzero\<close>, \<open>balloc\<close> and \<open>bfree\<close> of \<open>fs.c\<close>, the block geometry of \<open>fs.h\<close>), on top of the
  transactions of the log.

  Two relations carry the proofs of the file system: \<open>ro H s t\<close>, a step that only reads, and
  \<open>rw H k s t\<close>, a step inside a transaction that logs at most \<open>k\<close> more blocks; both keep the
  invariant of the log and the contents of the buffers \<open>H\<close> that the caller holds.
\<close>

section \<open>Operations\<close>

definition BPB :: nat where "BPB = BSIZE * 8"
definition IPB :: nat where "IPB = BSIZE div 64"

definition IBLOCK :: "u32 \<Rightarrow> u32" where
  "IBLOCK i = i div of_nat IPB + 2"

definition BBLOCK :: "u32 \<Rightarrow> u32 \<Rightarrow> u32" where
  "BBLOCK b ninodes = b div of_nat BPB + ninodes div of_nat IPB + 3"

definition bzero :: "u32 \<Rightarrow> u32 \<Rightarrow> (unit, 'z lstate_scheme) kop" where
  "bzero dev bno =
     bind (bread dev bno) (\<lambda>bp.
     seqk (bmod bp (\<lambda>_. replicate BSIZE 0))
    (seqk (log_write bp)
     (brelse bp)))"

text \<open>The bit for block \<open>bi\<close> of a bitmap block.\<close>

definition bit_used :: "bytes \<Rightarrow> nat \<Rightarrow> bool" where
  "bit_used bs bi \<longleftrightarrow> bs ! (bi div 8) AND push_bit (bi mod 8) 1 \<noteq> 0"

definition bit_set :: "nat \<Rightarrow> bytes \<Rightarrow> bytes" where
  "bit_set bi bs = bs[bi div 8 := bs ! (bi div 8) OR push_bit (bi mod 8) 1]"

definition bit_clear :: "nat \<Rightarrow> bytes \<Rightarrow> bytes" where
  "bit_clear bi bs = bs[bi div 8 := bs ! (bi div 8) AND NOT (push_bit (bi mod 8) 1)]"

text \<open>The loop of \<open>balloc\<close> over the bitmap blocks whose first bit is for the listed blocks.\<close>

primrec balloc_loop :: "u32 \<Rightarrow> superblock \<Rightarrow> nat list \<Rightarrow> (u32, 'z lstate_scheme) kop" where
  "balloc_loop dev sb [] = panic ''balloc: out of blocks''"
| "balloc_loop dev sb (b # bs) =
     bind (bread dev (BBLOCK (of_nat b) (sb_ninodes sb))) (\<lambda>bp.
     bind (gets (\<lambda>s. List.find (\<lambda>bi. \<not> bit_used (bdata (bufs s bp)) bi)
        [0..<min BPB (unat (sb_size sb) - b)])) (\<lambda>f.
     case f of
       Some bi \<Rightarrow>
         seqk (bmod bp (bit_set bi))
        (seqk (log_write bp)
        (seqk (brelse bp)
        (seqk (bzero dev (of_nat (b + bi)))
         (ret (of_nat (b + bi))))))
     | None \<Rightarrow> seqk (brelse bp) (balloc_loop dev sb bs)))"

definition bitmap_starts :: "nat \<Rightarrow> nat list" where
  "bitmap_starts n = map (\<lambda>k. k * BPB) [0..<(n + BPB - 1) div BPB]"

definition balloc :: "u32 \<Rightarrow> (u32, 'z lstate_scheme) kop" where
  "balloc dev = bind (readsb dev) (\<lambda>sb. balloc_loop dev sb (bitmap_starts (unat (sb_size sb))))"

definition bfree :: "u32 \<Rightarrow> u32 \<Rightarrow> (unit, 'z lstate_scheme) kop" where
  "bfree dev b =
     bind (readsb dev) (\<lambda>sb.
     bind (bread dev (BBLOCK b (sb_ninodes sb))) (\<lambda>bp.
     bind (gets (\<lambda>s. bit_used (bdata (bufs s bp)) (unat b mod BPB))) (\<lambda>used.
     if \<not> used then panic ''freeing free block''
     else seqk (bmod bp (bit_clear (unat b mod BPB)))
         (seqk (log_write bp)
          (brelse bp)))))"

section \<open>The bitmap\<close>

lemma bitmap_starts_iff: "b \<in> set (bitmap_starts n) \<longleftrightarrow> b mod BPB = 0 \<and> b < n"
proof -
  have p: "0 < BPB" by (simp add: BPB_def BSIZE_def)
  have "b \<in> set (bitmap_starts n) \<longleftrightarrow> (\<exists>k. b = k * BPB \<and> k < (n + BPB - 1) div BPB)"
    by (auto simp: bitmap_starts_def)
  also have "\<dots> \<longleftrightarrow> (\<exists>k. b = k * BPB \<and> k * BPB < n)"
  proof -
    have "k < (n + BPB - 1) div BPB \<longleftrightarrow> k * BPB < n" for k
      unfolding Suc_le_eq [symmetric] using p less_eq_div_iff_mult_less_eq [OF p, of "Suc k" "n + BPB - 1"]
      by (simp add: Suc_le_eq) linarith
    then show ?thesis by simp
  qed
  also have "\<dots> \<longleftrightarrow> b mod BPB = 0 \<and> b < n" by (auto simp: mod_eq_0_iff_dvd dvd_def mult.commute)
  finally show ?thesis .
qed

lemma bit_used_set:
  assumes "bi div 8 < length bs"
  shows "bit_used (bit_set bi bs) bj \<longleftrightarrow> bj = bi \<or> bit_used bs bj"
    "bit_used (bit_clear bi bs) bj \<longleftrightarrow> bj \<noteq> bi \<and> bit_used bs bj"
proof -
  have t: "x AND 2 ^ k = 0 \<longleftrightarrow> \<not> bit x k" for x :: byte and k
    by (rule and_exp_eq_0_iff_not_bit)
  have e: "bj = bi \<longleftrightarrow> bj div 8 = bi div 8 \<and> bj mod 8 = bi mod 8"
    by (metis div_mult_mod_eq)
  show "bit_used (bit_set bi bs) bj \<longleftrightarrow> bj = bi \<or> bit_used bs bj"
    "bit_used (bit_clear bi bs) bj \<longleftrightarrow> bj \<noteq> bi \<and> bit_used bs bj"
    unfolding e bit_used_def bit_set_def bit_clear_def using assms
    by (auto simp: t nth_list_update bit_simps)
qed

lemma bit_clear_set:
  assumes "\<not> bit_used bs k"
  shows "bit_clear k (bit_set k bs) = bs"
proof (cases "k div 8 < length bs")
  case True
  have "(x OR 2 ^ j) AND NOT (2 ^ j) = x" if "x AND 2 ^ j = 0" for x :: byte and j
    using that by (intro bit_word_eqI) (auto simp: bit_simps and_exp_eq_0_iff_not_bit)
  then show ?thesis using assms True by (simp add: bit_clear_def bit_set_def bit_used_def)
qed (simp add: bit_clear_def bit_set_def list_update_beyond)

lemma length_bit [simp]: "length (bit_set bi bs) = length bs" "length (bit_clear bi bs) = length bs"
  by (simp_all add: bit_set_def bit_clear_def)

section \<open>Steps of the file system\<close>

text \<open>
  What the file system sees of the disk: the blocks outside the log, with the changes of the running
  transaction.
\<close>

definition vol :: "'z lstate_scheme \<Rightarrow> u32 \<Rightarrow> bytes" where
  "vol s n = (if n \<in> log_sectors s then [] else blk s n)"

text \<open>
  Inside a transaction that may log the blocks \<open>W\<close> (outside of any transaction when that set is empty), the caller holding the buffers \<open>H\<close>: at most two
  buffers at a time, and at most 17 blocks in all, so that one buffer is left (log.c pins every logged
  block in the cache of 20 buffers).
\<close>

definition fs :: "nat set \<Rightarrow> u32 set \<Rightarrow> 'z lstate_scheme \<Rightarrow> bool" where
  "fs H W s \<longleftrightarrow> linv H s \<and> (W \<noteq> {} \<longrightarrow> log_busy s) \<and> finite W \<and> card H \<le> 2 \<and> card (logged s \<union> W) + 2 < NBUF \<and>
     int (card (logged s \<union> W)) + 1 < log_size s"

definition keeps :: "nat set \<Rightarrow> 'z lstate_scheme \<Rightarrow> 'z lstate_scheme \<Rightarrow> bool" where
  "keeps H s t \<longleftrightarrow> lbeyond s t \<and> (\<forall>m. m \<notin> log_sectors s \<longrightarrow> disk t m = disk s m) \<and>
     (\<forall>i \<in> H. same_content (bufs s i) (bufs t i)) \<and> (\<forall>i \<in> H. settled s i \<longrightarrow> settled t i)"

text \<open>A sector that may be read now: on the disk, outside the log, in no held buffer.\<close>

definition open_sec :: "nat set \<Rightarrow> 'z lstate_scheme \<Rightarrow> u32 \<Rightarrow> bool" where
  "open_sec H s n \<longleftrightarrow> n < disksize s \<and> n \<notin> log_sectors s \<and> (\<forall>i \<in> H. bsector (bufs s i) \<noteq> n)"

lemma settled_cong:
  fixes s t :: "'z lstate_scheme"
  assumes sc: "same_content (bufs s i) (bufs t i)" and "disk t = disk s" and b: "beyond s t"
  shows "settled t i = settled s i"
proof -
  have "bsector (bufs t i) = bsector (bufs s i)" "bdata (bufs t i) = bdata (bufs s i)" using sc by (simp_all add: same_content_def)
  then show ?thesis
    by (simp add: settled_def assms(2) same_content_flags(3) [OF sc] beyond_log [OF b])
qed

lemma keeps_refl [simp]: "keeps H s s"
  by (simp add: keeps_def)

lemma keepsD:
  assumes "keeps H s t"
  shows "lbeyond s t" "log_sectors t = log_sectors s" "disksize t = disksize s" "lstate.more t = lstate.more s"
    "i \<in> H \<Longrightarrow> same_content (bufs s i) (bufs t i)" "i \<in> H \<Longrightarrow> settled s i \<Longrightarrow> settled t i"
    "m \<notin> log_sectors s \<Longrightarrow> disk t m = disk s m" "awakened s t"
    "i \<in> H \<Longrightarrow> bsector (bufs t i) = bsector (bufs s i)"
  using assms by (auto simp: keeps_def log_sectors_def lbeyond_def same_content_def)

lemma keeps_trans: "keeps H s t \<Longrightarrow> keeps H t u \<Longrightarrow> keeps H s u"
  using keepsD(2) [of H s t] unfolding keeps_def by (auto intro: lbeyond_trans same_content_trans)

lemma keeps_mono: "keeps H s t \<Longrightarrow> G \<subseteq> H \<Longrightarrow> keeps G s t"
  unfolding keeps_def by auto

lemma open_sec_keeps:
  assumes "keeps H s t"
  shows "open_sec H t n = open_sec H s n"
  unfolding open_sec_def keepsD(2,3) [OF assms] using keepsD(9) [OF assms] by auto

lemma fsD:
  assumes "fs H W s"
  shows "linv H s" "W \<noteq> {} \<Longrightarrow> log_busy s" "finite W" "card H + nat (lh_n s) < NBUF" "lh_n s < int LOGSIZE" "lh_n s < log_size s - 1"
proof -
  have "finite (logged s \<union> W)" using assms by (simp add: fs_def logged_def)
  then have "card (logged s) \<le> card (logged s \<union> W)" by (simp add: card_mono)
  then have "nat (lh_n s) \<le> card (logged s \<union> W)" "0 \<le> lh_n s"
    using assms card_logged [of H s] linvD(5) [of H s] by (auto simp: fs_def)
  then show "linv H s" "W \<noteq> {} \<Longrightarrow> log_busy s" "finite W" "card H + nat (lh_n s) < NBUF" "lh_n s < int LOGSIZE" "lh_n s < log_size s - 1"
    using assms by (auto simp: fs_def LOGSIZE_def NBUF_def)
qed

lemma fs_linv: "fs H W s \<Longrightarrow> linv H t \<Longrightarrow> lbeyond s t \<Longrightarrow> logged t \<union> W = logged s \<union> W \<Longrightarrow> fs H W t"
  unfolding fs_def by (simp add: lbeyond_def)

lemma fs_held:
  assumes "fs H W s" "b \<in> H"
  shows "bdata (bufs s b) = vol s (bsector (bufs s b))" "length (bdata (bufs s b)) = BSIZE"
    "bsector (bufs s b) \<notin> log_sectors s"
proof -
  note I = fsD(1) [OF assms(1)]
  show l: "bsector (bufs s b) \<notin> log_sectors s" by (rule linvD(13) [OF I assms(2)])
  show e: "bdata (bufs s b) = vol s (bsector (bufs s b))"
    using blk_held [OF linvD(1) [OF I] assms(2)] l by (simp add: vol_def)
  show "length (bdata (bufs s b)) = BSIZE"
    using length_blk [OF linvD(1) [OF I]] e l by (simp add: vol_def)
qed

lemma bread_fs:
  assumes F: "fs H W s" and c: "card H \<le> 1" and n: "open_sec H s n"
    and Q: "\<And>b t. \<lbrakk>b \<notin> H; fs (insert b H) W t; keeps H s t; vol t = vol s; bsector (bufs t b) = n; settled t b\<rbrakk> \<Longrightarrow> Q b t"
  shows "wp (bread 1 n) Q s"
proof -
  note I = fsD(1) [OF F]
  obtain b t where t: "bread 1 n s = Done b t" "b \<notin> H" "linv (insert b H) t" "beyond s t" "blk t = blk s"
    "disk t = disk s" "dwrites t = dwrites s" "bsector (bufs t b) = n" "bdata (bufs t b) = blk s n" "settled t b"
    "\<And>i. i \<in> H \<Longrightarrow> bufs t i = bufs s i"
    by (rule lbread_ok [OF I, of n]) (use n fsD(4) [OF F] in \<open>auto simp: open_sec_def\<close>)
  note L = beyond_log [OF t(4)]
  have "keeps H s t" unfolding keeps_def using t(6,11) L by (auto simp: settled_def)
  moreover have "fs (insert b H) W t"
    using F t(3) c L card_insert_le_m1 [of 2 H b] by (auto simp: fs_def logged_def)
  moreover have "vol t = vol s" using t(5) L by (auto simp: vol_def log_sectors_def)
  ultimately show ?thesis using Q t by (auto simp: wp_Done)
qed

lemma brelse_fs:
  assumes F: "fs H W s" and b: "b \<in> H" "settled s b"
    and Q: "\<And>t. \<lbrakk>fs (H - {b}) W t; keeps (H - {b}) s t; vol t = vol s\<rbrakk> \<Longrightarrow> Q () t"
  shows "wp (brelse b) Q s"
proof -
  obtain t where t: "brelse b s = Done () t" "linv (H - {b}) t" "beyond s t" "disk t = disk s"
    "dwrites t = dwrites s" "blk t = blk s" "\<And>i. i \<noteq> b \<Longrightarrow> same_content (bufs s i) (bufs t i)"
    by (rule lbrelse_ok [OF fsD(1) [OF F] b]) (rule that)
  note L = beyond_log [OF t(3)]
  have "settled t i = settled s i" if "i \<noteq> b" for i by (rule settled_cong [OF t(7) [OF that] t(4,3)])
  then have "keeps (H - {b}) s t" unfolding keeps_def using t(4,7) L(1) by simp
  moreover have "fs (H - {b}) W t"
    using F t(2) L(2,3,5,8) card_Diff1_le [of H b] by (simp add: fs_def logged_def)
  moreover have "vol t = vol s" using t(6) L by (auto simp: vol_def log_sectors_def)
  ultimately show ?thesis using Q t(1) by (simp add: wp_Done)
qed

lemma bmod_fs:
  assumes F: "fs H W s" and b: "b \<in> H" and l: "length (f (vol s (bsector (bufs s b)))) = BSIZE"
    and Q: "\<And>t. \<lbrakk>fs H W t; keeps (H - {b}) s t; vol t = (vol s)(bsector (bufs s b) := f (vol s (bsector (bufs s b))));
      bsector (bufs t b) = bsector (bufs s b)\<rbrakk> \<Longrightarrow> Q () t"
  shows "wp (bmod b f) Q s"
proof -
  note h = fs_held [OF F b]
  obtain t where t: "bmod b f s = Done () t" "linv H t" "beyond s t" "disk t = disk s" "dwrites t = dwrites s"
    "blk t = (blk s)(bsector (bufs s b) := f (bdata (bufs s b)))"
    "\<And>i. i \<noteq> b \<Longrightarrow> same_content (bufs s i) (bufs t i)"
    "bsector (bufs t b) = bsector (bufs s b)" "bdata (bufs t b) = f (bdata (bufs s b))"
    by (rule lbmod_ok [OF fsD(1) [OF F] b, of f]) (use l h(1) in simp, rule that)
  note L = beyond_log [OF t(3)]
  have "settled t i = settled s i" if "i \<noteq> b" for i by (rule settled_cong [OF t(7) [OF that] t(4,3)])
  then have "keeps (H - {b}) s t" unfolding keeps_def using t(4,7) L(1) by simp
  moreover have "fs H W t" by (rule fs_linv [OF F t(2) L(1)]) (simp add: logged_def L(2,3))
  moreover have "vol t = (vol s)(bsector (bufs s b) := f (vol s (bsector (bufs s b))))"
    using h by (simp add: fun_eq_iff vol_def log_sectors_def t(6) L(4,5))
  ultimately show ?thesis using Q t(1,8) by (simp add: wp_Done)
qed

lemma log_write_fs:
  assumes F: "fs H W s" and b: "b \<in> H" and w: "bsector (bufs s b) \<in> W"
    and Q: "\<And>t. \<lbrakk>fs H W t; keeps (H - {b}) s t; vol t = vol s; bsector (bufs t b) = bsector (bufs s b); settled t b\<rbrakk> \<Longrightarrow> Q () t"
  shows "wp (log_write b) Q s"
proof -
  note I = fsD(1) [OF F]
  obtain t to where t: "log_write b s = Done () t" "linv H t" "lbeyond s t" "settled t b"
    "logged t = insert (bsector (bufs s b)) (logged s)" "to \<in> log_sectors s"
    "disk t = (disk s)(to := bdata (bufs s b))" "blk t = (blk s)(to := bdata (bufs s b))"
    "\<And>c. c \<in> H \<Longrightarrow> c \<noteq> b \<Longrightarrow> same_content (bufs s c) (bufs t c)"
    "\<And>c. c \<in> H \<Longrightarrow> settled s c \<Longrightarrow> settled t c" "bsector (bufs t b) = bsector (bufs s b)"
    by (rule log_write_ok [OF I b fsD(2) [OF F] fsD(5,6,4) [OF F]]) (use w in blast, rule that)
  have "keeps (H - {b}) s t" unfolding keeps_def using t(3,6,7,9,10) by auto
  moreover have "fs H W t" by (rule fs_linv [OF F t(2,3)]) (use t(5) w in auto)
  moreover have "vol t = vol s" using t(6,8) lbeyondD [OF t(3)] by (auto simp: vol_def log_sectors_def)
  ultimately show ?thesis using Q t(1,4,11) by (simp add: wp_Done)
qed

text \<open>Reading a block, and changing a block, from \<open>bread\<close> to \<open>brelse\<close>.\<close>

lemma read_fs:
  assumes F: "fs H W s" and c: "card H \<le> 1" and n: "open_sec H s n"
    and Q: "\<And>t. \<lbrakk>fs H W t; keeps H s t; vol t = vol s\<rbrakk> \<Longrightarrow> wp (m (g (vol s n))) Q t"
  shows "wp (bind (bread 1 n) (\<lambda>b. bind (gets (\<lambda>s. g (bdata (bufs s b)))) (\<lambda>r. seqk (brelse b) (m r)))) Q s"
  unfolding wp_bind wp_seqk wp_gets
proof (rule bread_fs [OF F c n])
  fix b t assume t: "b \<notin> H" "fs (insert b H) W t" "keeps H s t" "vol t = vol s" "bsector (bufs t b) = n" "settled t b"
  have d: "bdata (bufs t b) = vol s n" using fs_held(1) [OF t(2), of b] t(4,5) by simp
  show "wp (brelse b) (\<lambda>_. wp (m (g (bdata (bufs t b)))) Q) t"
    unfolding d
  proof (rule brelse_fs [OF t(2) insertI1 t(6)])
    fix u assume "fs (insert b H - {b}) W u" "keeps (insert b H - {b}) t u" "vol u = vol t"
    then show "wp (m (g (vol s n))) Q u" using t(1,3,4) Q [of u] keeps_trans [of H s t u] by simp
  qed
qed

lemma held_update_fs:
  assumes F: "fs H W s" and b: "b \<in> H" "bsector (bufs s b) = n" "n \<in> W" and l: "length (f (vol s n)) = BSIZE"
    and Q: "\<And>t. \<lbrakk>fs (H - {b}) W t; keeps (H - {b}) s t; vol t = (vol s)(n := f (vol s n))\<rbrakk> \<Longrightarrow> wp m Q t"
  shows "wp (seqk (bmod b f) (seqk (log_write b) (seqk (brelse b) m))) Q s"
  unfolding wp_seqk
proof (rule bmod_fs [OF F b(1)])
  show "length (f (vol s (bsector (bufs s b)))) = BSIZE" using l b by simp
  fix t assume t: "fs H W t" "keeps (H - {b}) s t" "vol t = (vol s)(bsector (bufs s b) := f (vol s (bsector (bufs s b))))"
    "bsector (bufs t b) = bsector (bufs s b)"
  show "wp (log_write b) (\<lambda>_. wp (brelse b) (\<lambda>_. wp m Q)) t"
  proof (rule log_write_fs [OF t(1) b(1)])
    show "bsector (bufs t b) \<in> W" using b t by simp
    fix u assume u: "fs H W u" "keeps (H - {b}) t u" "vol u = vol t" "bsector (bufs u b) = bsector (bufs t b)" "settled u b"
    show "wp (brelse b) (\<lambda>_. wp m Q) u"
      by (rule brelse_fs [OF u(1) b(1) u(5)])
        (use t(2,3) u(2,3) b(2) Q keeps_trans [of "H - {b}"] in \<open>metis (no_types, lifting)\<close>)
  qed
qed

lemma update_fs:
  assumes F: "fs H W s" and c: "card H \<le> 1" and n: "open_sec H s n" "n \<in> W" and l: "length (f (vol s n)) = BSIZE"
    and Q: "\<And>t. \<lbrakk>fs H W t; keeps H s t; vol t = (vol s)(n := f (vol s n))\<rbrakk> \<Longrightarrow> wp m Q t"
  shows "wp (bind (bread 1 n) (\<lambda>b. seqk (bmod b f) (seqk (log_write b) (seqk (brelse b) m)))) Q s"
  unfolding wp_bind
proof (rule bread_fs [OF F c n(1)])
  fix b t assume t: "b \<notin> H" "fs (insert b H) W t" "keeps H s t" "vol t = vol s" "bsector (bufs t b) = n" "settled t b"
  show "wp (seqk (bmod b f) (seqk (log_write b) (seqk (brelse b) m))) Q t"
    by (rule held_update_fs [OF t(2) insertI1 t(5) n(2)])
      (use t(1,3,4) l Q keeps_trans [of H s t] in simp_all)
qed

lemma seqk_ret_unit [simp]: "seqk (m :: (unit, 's) kop) (ret ()) = m"
  by (rule ext) (simp add: seqk_def bind_def split: outcome.splits)

lemma length_vol: "fs H W s \<Longrightarrow> n \<notin> log_sectors s \<Longrightarrow> length (vol s n) = BSIZE"
  using length_blk [OF linvD(1) [OF fsD(1)]] by (simp add: vol_def)

lemma bzero_fs:
  assumes "fs H W s" "card H \<le> 1" "open_sec H s n" "n \<in> W"
    and "\<And>t. \<lbrakk>fs H W t; keeps H s t; vol t = (vol s)(n := replicate BSIZE 0)\<rbrakk> \<Longrightarrow> Q () t"
  shows "wp (bzero 1 n) Q s"
  unfolding bzero_def
  using update_fs [OF assms(1-4), of "\<lambda>_. replicate BSIZE 0" "ret ()" Q] assms(5) by simp

section \<open>Allocating and freeing blocks\<close>

definition bbsec :: "superblock \<Rightarrow> nat \<Rightarrow> u32" where
  "bbsec sb b = BBLOCK (of_nat b) (sb_ninodes sb)"

definition used :: "(u32 \<Rightarrow> bytes) \<Rightarrow> superblock \<Rightarrow> nat \<Rightarrow> bool" where
  "used v sb b = bit_used (v (bbsec sb b)) (b mod BPB)"

definition nblocks :: "superblock \<Rightarrow> nat" where
  "nblocks sb = unat (sb_size sb)"

lemma BPB_pos [simp]: "0 < BPB"
  by (simp add: BPB_def BSIZE_def)

lemma bbsec_group:
  assumes "b mod BPB = 0" "i < BPB" "b + i < 2 ^ 32"
  shows "bbsec sb (b + i) = bbsec sb b" "(b + i) mod BPB = i"
proof -
  have "(of_nat (b + i) :: u32) div of_nat BPB = of_nat b div of_nat BPB"
  proof (rule word_unat_eq_iff [THEN iffD2])
    have "(b + i) div BPB = b div BPB" using assms(1,2) by (auto simp: div_add1_eq)
    moreover have "unat (of_nat c div of_nat BPB :: u32) = c div BPB" if "c < 2 ^ 32" for c
      using that by (simp add: unat_div unsigned_of_nat take_bit_nat_eq_self BPB_def BSIZE_def)
    ultimately show "unat (of_nat (b + i) div of_nat BPB :: u32) = unat (of_nat b div of_nat BPB :: u32)"
      using assms(3) by (metis add_lessD1)
  qed
  then show "bbsec sb (b + i) = bbsec sb b" by (simp add: bbsec_def BBLOCK_def)
  show "(b + i) mod BPB = i" using assms(1,2) by (metis mod_add_left_eq add_0 mod_less)
qed

lemma find_shift: "List.find P [b..<b + m] = map_option ((+) b) (List.find (\<lambda>i. P (b + i)) [0..<m])"
proof -
  have "[b..<b + m] = map ((+) b) [0..<m]" by (rule nth_equalityI) simp_all
  moreover have "List.find P (map f xs) = map_option f (List.find (P \<circ> f) xs)" for f :: "nat \<Rightarrow> nat" and xs
    by (induction xs) auto
  ultimately show ?thesis by (simp add: comp_def)
qed

lemma find_append: "List.find P (xs @ ys) = (case List.find P xs of None \<Rightarrow> List.find P ys | Some x \<Rightarrow> Some x)"
  by (induction xs) auto

lemma find_group:
  assumes "b mod BPB = 0" "b < n" "n < 2 ^ 32"
  shows "List.find (\<lambda>x. \<not> used v sb x) [b..<n] =
    (case List.find (\<lambda>i. \<not> bit_used (v (bbsec sb b)) i) [0..<min BPB (n - b)] of
      Some i \<Rightarrow> Some (b + i)
    | None \<Rightarrow> List.find (\<lambda>x. \<not> used v sb x) [b + BPB..<n])"
proof -
  let ?m = "min BPB (n - b)"
  have "[b..<n] = [b..<b + ?m] @ [b + BPB..<n]"
    using assms(2) upt_add_eq_append [of b "b + BPB" "n - (b + BPB)"] by (auto simp: min_def)
  moreover have "List.find (\<lambda>i. \<not> used v sb (b + i)) [0..<?m] = List.find (\<lambda>i. \<not> bit_used (v (bbsec sb b)) i) [0..<?m]"
    by (rule find_cong [OF refl]) (use assms in \<open>auto simp: used_def bbsec_group\<close>)
  ultimately show ?thesis by (simp add: find_append find_shift split: option.splits)
qed

definition balloc_vol :: "superblock \<Rightarrow> nat \<Rightarrow> (u32 \<Rightarrow> bytes) \<Rightarrow> u32 \<Rightarrow> bytes" where
  "balloc_vol sb r v = (v(bbsec sb r := bit_set (r mod BPB) (v (bbsec sb r))))(of_nat r := replicate BSIZE 0)"

lemma starts_Cons:
  assumes "k * BPB < n"
  shows "map (\<lambda>k. k * BPB) [k..<(n + BPB - 1) div BPB] = k * BPB # map (\<lambda>k. k * BPB) [Suc k..<(n + BPB - 1) div BPB]"
proof -
  have "k < (n + BPB - 1) div BPB" using bitmap_starts_iff [of "k * BPB" n] assms by (auto simp: bitmap_starts_def)
  then show ?thesis by (simp add: upt_conv_Cons)
qed

lemma balloc_loop_fs:
  assumes "fs H W s" "card H \<le> 1" "\<forall>b < nblocks sb. open_sec H s (bbsec sb b)"
    and "List.find (\<lambda>b. \<not> used (vol s) sb b) [k * BPB..<nblocks sb] = Some r"
    and "open_sec H s (of_nat r)" "bbsec sb r \<in> W" "of_nat r \<in> W"
    and "\<And>t. \<lbrakk>fs H W t; keeps H s t; vol t = balloc_vol sb r (vol s)\<rbrakk> \<Longrightarrow> Q (of_nat r) t"
  shows "wp (balloc_loop 1 sb (map (\<lambda>k. k * BPB) [k..<(nblocks sb + BPB - 1) div BPB])) Q s"
  using assms
proof (induction "nblocks sb - k * BPB" arbitrary: k s rule: less_induct)
  case less
  note F = less.prems(1) and c = less.prems(2) and Q = less.prems(8)
  let ?b = "k * BPB" and ?n = "nblocks sb"
  have n32: "?n < 2 ^ 32" by (simp add: nblocks_def unat_u32_less [simplified])
  have lt: "?b < ?n" using less.prems(4) by (cases "?b < ?n") auto
  have m: "?n - Suc k * BPB < ?n - ?b" using lt BPB_pos unfolding mult_Suc by linarith
  have op: "open_sec H s (bbsec sb ?b)" using less.prems(3) lt by blast
  note fg = find_group [of ?b ?n "vol s" sb, OF _ lt n32]
  show ?case
    unfolding starts_Cons [OF lt] balloc_loop.simps bbsec_def [symmetric] wp_bind
  proof (rule bread_fs [OF F c op])
    fix b t assume t: "b \<notin> H" "fs (insert b H) W t" "keeps H s t" "vol t = vol s" "bsector (bufs t b) = bbsec sb ?b" "settled t b"
    have d: "bdata (bufs t b) = vol s (bbsec sb ?b)" using fs_held(1) [OF t(2), of b] t(4,5) by simp
    let ?f = "List.find (\<lambda>bi. \<not> bit_used (bdata (bufs t b)) bi) [0..<min BPB (?n - ?b)]"
    show "wp (gets (\<lambda>s. List.find (\<lambda>bi. \<not> bit_used (bdata (bufs s b)) bi) [0..<min BPB (unat (sb_size sb) - ?b)]))
       (\<lambda>f. wp (case f of None \<Rightarrow> seqk (brelse b) (balloc_loop 1 sb (map (\<lambda>k. k * BPB) [Suc k..<(?n + BPB - 1) div BPB]))
          | Some bi \<Rightarrow> seqk (bmod b (bit_set bi)) (seqk (log_write b) (seqk (brelse b)
              (seqk (bzero 1 (of_nat (?b + bi))) (ret (of_nat (?b + bi))))))) Q) t"
      unfolding wp_gets nblocks_def [symmetric]
    proof (cases ?f)
      case None
      have r: "List.find (\<lambda>x. \<not> used (vol s) sb x) [Suc k * BPB..<?n] = Some r"
        using fg less.prems(4) None d by (simp add: add.commute)
      show "wp (case ?f of None \<Rightarrow> seqk (brelse b) (balloc_loop 1 sb (map (\<lambda>k. k * BPB) [Suc k..<(?n + BPB - 1) div BPB]))
          | Some bi \<Rightarrow> seqk (bmod b (bit_set bi)) (seqk (log_write b) (seqk (brelse b)
              (seqk (bzero 1 (of_nat (?b + bi))) (ret (of_nat (?b + bi))))))) Q t"
        unfolding None option.case wp_seqk
      proof (rule brelse_fs [OF t(2) insertI1 t(6)])
        fix u assume "fs (insert b H - {b}) W u" "keeps (insert b H - {b}) t u" "vol u = vol t"
        then have u: "fs H W u" "keeps H s u" "vol u = vol s" using t(1,3,4) keeps_trans [of H s t u] by simp_all
        show "wp (balloc_loop 1 sb (map (\<lambda>k. k * BPB) [Suc k..<(?n + BPB - 1) div BPB])) Q u"
          by (rule less.hyps [OF m])
            (use u r less.prems open_sec_keeps [OF u(2)] keeps_trans [OF u(2)] in \<open>simp_all add: add.commute\<close>)
      qed
    next
      case (Some bi)
      have r: "r = ?b + bi" using fg less.prems(4) Some d by simp
      have bi: "bi < BPB" "?b + bi < ?n" using find_Some_iff [THEN iffD1, OF Some] by (auto simp: min_def split: if_splits)
      have g: "bbsec sb r = bbsec sb ?b" "r mod BPB = bi" unfolding r using bbsec_group [of ?b bi] bi n32 by auto
      show "wp (case ?f of None \<Rightarrow> seqk (brelse b) (balloc_loop 1 sb (map (\<lambda>k. k * BPB) [Suc k..<(?n + BPB - 1) div BPB]))
          | Some bi \<Rightarrow> seqk (bmod b (bit_set bi)) (seqk (log_write b) (seqk (brelse b)
              (seqk (bzero 1 (of_nat (?b + bi))) (ret (of_nat (?b + bi))))))) Q t"
        unfolding Some option.case
      proof (rule held_update_fs [OF t(2) insertI1 t(5)])
        show "bbsec sb ?b \<in> W" using less.prems(6) g by simp
        show "length (bit_set bi (vol t (bbsec sb ?b))) = BSIZE"
          using length_vol [OF t(2)] fs_held(3) [OF t(2) insertI1] t(5) by simp
        fix u assume "fs (insert b H - {b}) W u" "keeps (insert b H - {b}) t u"
          "vol u = (vol t)(bbsec sb ?b := bit_set bi (vol t (bbsec sb ?b)))"
        then have u: "fs H W u" "keeps H s u" "vol u = (vol s)(bbsec sb ?b := bit_set bi (vol s (bbsec sb ?b)))"
          using t(1,3,4) keeps_trans [of H s t u] by simp_all
        show "wp (seqk (bzero 1 (of_nat (?b + bi))) (ret (of_nat (?b + bi)))) Q u"
          unfolding wp_seqk r [symmetric]
          by (rule bzero_fs [OF u(1) c])
            (use less.prems(5,7) open_sec_keeps [OF u(2)] u(3) g Q keeps_trans [OF u(2)] in \<open>simp_all add: balloc_vol_def\<close>)
      qed
    qed
  qed
qed

lemma readsb_fs:
  assumes "fs H W s" "card H \<le> 1" "open_sec H s 1"
    and "\<And>t. \<lbrakk>fs H W t; keeps H s t; vol t = vol s\<rbrakk> \<Longrightarrow> Q (de_superblock (vol s 1)) t"
  shows "wp (readsb 1) Q s"
  unfolding readsb_def
  by (rule read_fs [OF assms(1-3)]) (simp only: wp_ret assms(4))

text \<open>
  The map of free blocks: it can be read, it covers the disk, and the blocks that hold the map or the log
  are marked as used.
\<close>

definition bitmap_ok :: "'z lstate_scheme \<Rightarrow> bool" where
  "bitmap_ok s \<longleftrightarrow> (let sb = de_superblock (vol s 1) in
     1 < disksize s \<and> 1 \<notin> log_sectors s \<and> sb_size sb \<le> disksize s \<and>
     (\<forall>b < nblocks sb. bbsec sb b < disksize s \<and> bbsec sb b \<notin> log_sectors s \<and> bbsec sb b \<noteq> 1 \<and>
        (of_nat b \<in> log_sectors s \<or> of_nat b \<in> bbsec sb ` {..<nblocks sb} \<or> b = 1 \<longrightarrow> used (vol s) sb b)))"

lemma bitmap_okD:
  assumes "bitmap_ok s" "sb = de_superblock (vol s 1)"
  shows "open_sec {} s 1" "b < nblocks sb \<Longrightarrow> open_sec {} s (bbsec sb b)" "b < nblocks sb \<Longrightarrow> bbsec sb b \<noteq> 1"
    "b < nblocks sb \<Longrightarrow> \<not> used (vol s) sb b \<Longrightarrow> open_sec {} s (of_nat b)"
    "b < nblocks sb \<Longrightarrow> \<not> used (vol s) sb b \<Longrightarrow> c < nblocks sb \<Longrightarrow> of_nat b \<noteq> bbsec sb c"
    "b < nblocks sb \<Longrightarrow> \<not> used (vol s) sb b \<Longrightarrow> of_nat b \<noteq> (1 :: u32)"
proof -
  note d = assms(1) [unfolded bitmap_ok_def Let_def, folded assms(2)]
  have c: "unat (of_nat b :: u32) = b" if "b < nblocks sb" for b
    using that unat_u32_less [of "sb_size sb"] by (simp add: nblocks_def unsigned_of_nat take_bit_nat_eq_self)
  have l: "of_nat b < disksize s" if "b < nblocks sb" for b
    using d c [OF that] that by (metis nblocks_def word_less_nat_alt order_less_le_trans)
  show "open_sec {} s 1" "b < nblocks sb \<Longrightarrow> open_sec {} s (bbsec sb b)" "b < nblocks sb \<Longrightarrow> bbsec sb b \<noteq> 1"
    "b < nblocks sb \<Longrightarrow> \<not> used (vol s) sb b \<Longrightarrow> open_sec {} s (of_nat b)"
    using d l by (auto simp: open_sec_def)
  show "b < nblocks sb \<Longrightarrow> \<not> used (vol s) sb b \<Longrightarrow> c < nblocks sb \<Longrightarrow> of_nat b \<noteq> bbsec sb c"
    using d by blast
  have "b = 1" if "b < nblocks sb" "of_nat b = (1 :: u32)" using c [OF that(1)] that(2) by simp
  then show "b < nblocks sb \<Longrightarrow> \<not> used (vol s) sb b \<Longrightarrow> of_nat b \<noteq> (1 :: u32)" using d by blast
qed

lemma used_balloc:
  assumes "of_nat r \<noteq> bbsec sb b" "length (v (bbsec sb r)) = BSIZE" "b < nblocks sb" "r < nblocks sb"
  shows "used (balloc_vol sb r v) sb b \<longleftrightarrow> b = r \<or> used v sb b"
proof -
  have div: "(b mod BPB) div 8 < BSIZE" for b
    using mod_less_divisor [OF BPB_pos, of b] by (simp add: BPB_def less_mult_imp_div_less mult.commute)
  have n: "b < 2 ^ 32" "r < 2 ^ 32" using assms(3,4) unat_u32_less [of "sb_size sb"] by (simp_all add: nblocks_def)
  have "b = r" if e: "bbsec sb b = bbsec sb r" "b mod BPB = r mod BPB"
  proof -
    have u: "unat (of_nat c div of_nat BPB :: u32) = c div BPB" if "c < 2 ^ 32" for c
      using that by (simp add: unat_div unsigned_of_nat take_bit_nat_eq_self BPB_def BSIZE_def)
    have "b div BPB = r div BPB" using e(1) u [OF n(1)] u [OF n(2)] by (simp add: bbsec_def BBLOCK_def)
    then show ?thesis using e(2) by (metis div_mult_mod_eq)
  qed
  then show ?thesis
    using assms(1,2) bit_used_set(1) [of "r mod BPB" "v (bbsec sb r)"] div [of r]
    by (cases "bbsec sb b = bbsec sb r") (auto simp: used_def balloc_vol_def)
qed

lemma balloc_fs:
  assumes F: "fs H W s" "card H \<le> 1" and o: "open_sec H s 1" "\<forall>b < nblocks sb. open_sec H s (bbsec sb b)"
    and sb: "sb = de_superblock (vol s 1)"
    and r: "List.find (\<lambda>b. \<not> used (vol s) sb b) [0..<nblocks sb] = Some r" "open_sec H s (of_nat r)" "bbsec sb r \<in> W" "of_nat r \<in> W"
    and Q: "\<And>t. \<lbrakk>fs H W t; keeps H s t; vol t = balloc_vol sb r (vol s)\<rbrakk> \<Longrightarrow> Q (of_nat r) t"
  shows "wp (balloc 1) Q s"
  unfolding balloc_def wp_bind
proof (rule readsb_fs [OF F o(1)])
  fix t assume t: "fs H W t" "keeps H s t" "vol t = vol s"
  show "wp (balloc_loop 1 (de_superblock (vol s 1)) (bitmap_starts (unat (sb_size (de_superblock (vol s 1)))))) Q t"
    unfolding sb [symmetric] bitmap_starts_def nblocks_def [symmetric]
    by (rule balloc_loop_fs [OF t(1) F(2), of sb 0 r])
      (use o(2) r Q open_sec_keeps [OF t(2)] keeps_trans [OF t(2)] t(3) in simp_all)
qed

lemma bfree_fs:
  assumes F: "fs H W s" "card H \<le> 1" and o: "open_sec H s 1" "open_sec H s (bbsec sb b)"
    and sb: "sb = de_superblock (vol s 1)" and b: "b < 2 ^ 32" "used (vol s) sb b" "bbsec sb b \<in> W"
    and Q: "\<And>t. \<lbrakk>fs H W t; keeps H s t; vol t = (vol s)(bbsec sb b := bit_clear (b mod BPB) (vol s (bbsec sb b)))\<rbrakk> \<Longrightarrow> Q () t"
  shows "wp (bfree 1 (of_nat b)) Q s"
  unfolding bfree_def wp_bind
proof (rule readsb_fs [OF F o(1)])
  fix t assume t: "fs H W t" "keeps H s t" "vol t = vol s"
  have ub: "unat (of_nat b :: u32) = b" using b(1) by (simp add: unsigned_of_nat take_bit_nat_eq_self)
  show "wp (bread 1 (BBLOCK (of_nat b) (sb_ninodes (de_superblock (vol s 1))))) (\<lambda>bp.
      wp (gets (\<lambda>s. bit_used (bdata (bufs s bp)) (unat (of_nat b :: u32) mod BPB))) (\<lambda>used.
      wp (if \<not> used then panic ''freeing free block'' else seqk (bmod bp (bit_clear (unat (of_nat b :: u32) mod BPB)))
        (seqk (log_write bp) (brelse bp))) Q)) t"
    unfolding sb [symmetric] bbsec_def [symmetric] ub
  proof (rule bread_fs [OF t(1) F(2)])
    show "open_sec H t (bbsec sb b)" using o(2) open_sec_keeps [OF t(2)] by simp
    fix c u assume u: "c \<notin> H" "fs (insert c H) W u" "keeps H t u" "vol u = vol t" "bsector (bufs u c) = bbsec sb b" "settled u c"
    have "bdata (bufs u c) = vol s (bbsec sb b)" using fs_held(1) [OF u(2), of c] u(4,5) t(3) by simp
    then have w: "bit_used (bdata (bufs u c)) (b mod BPB)" using b(2) by (simp add: used_def)
    have "wp (seqk (bmod c (bit_clear (b mod BPB))) (seqk (log_write c) (seqk (brelse c) (ret ())))) Q u"
    proof (rule held_update_fs [OF u(2) insertI1 u(5) b(3)])
      show "length (bit_clear (b mod BPB) (vol u (bbsec sb b))) = BSIZE"
        using length_vol [OF u(2)] fs_held(3) [OF u(2) insertI1] u(5) by simp
      fix w assume "fs (insert c H - {c}) W w" "keeps (insert c H - {c}) u w"
        "vol w = (vol u)(bbsec sb b := bit_clear (b mod BPB) (vol u (bbsec sb b)))"
      then show "wp (ret ()) Q w"
        using u(1,3,4) t(2,3) Q [of w] keeps_trans [OF keeps_trans [OF t(2) u(3)], of w] by simp
    qed
    then show "wp (gets (\<lambda>s. bit_used (bdata (bufs s c)) (b mod BPB))) (\<lambda>used.
        wp (if \<not> used then panic ''freeing free block'' else seqk (bmod c (bit_clear (b mod BPB))) (seqk (log_write c) (brelse c))) Q) u"
      using w by simp
  qed
qed

lemma bind_Panic: "wp m (\<lambda>a t. f a t = Panic e) s \<Longrightarrow> bind m f s = Panic e"
  by (auto simp: wp_def bind_def)

lemma seqk_Panic: "wp m (\<lambda>_ t. n t = Panic e) s \<Longrightarrow> seqk m n s = Panic e"
  by (auto simp: seqk_def intro: bind_Panic)

lemma balloc_loop_full:
  assumes "fs H W s" "card H \<le> 1" "\<forall>b < nblocks sb. open_sec H s (bbsec sb b)"
    and "List.find (\<lambda>b. \<not> used (vol s) sb b) [k * BPB..<nblocks sb] = None"
  shows "balloc_loop 1 sb (map (\<lambda>k. k * BPB) [k..<(nblocks sb + BPB - 1) div BPB]) s = Panic ''balloc: out of blocks''"
  using assms
proof (induction "nblocks sb - k * BPB" arbitrary: k s rule: less_induct)
  case less
  let ?b = "k * BPB" and ?n = "nblocks sb"
  have n32: "?n < 2 ^ 32" by (simp add: nblocks_def unat_u32_less [simplified])
  show ?case
  proof (cases "?b < ?n")
    case False
    then have "(?n + BPB - 1) div BPB \<le> k"
      using bitmap_starts_iff [of ?b ?n] by (auto simp: bitmap_starts_def image_iff not_less [symmetric])
    then have "map (\<lambda>k. k * BPB) [k..<(?n + BPB - 1) div BPB] = []" by simp
    then show ?thesis by (simp only: balloc_loop.simps panic_apply)
  next
    case lt: True
    have m: "?n - Suc k * BPB < ?n - ?b" using lt BPB_pos unfolding mult_Suc by linarith
    have op: "open_sec H s (bbsec sb ?b)" using less.prems(3) lt by blast
    note fg = find_group [of ?b ?n "vol s" sb, OF _ lt n32]
    show ?thesis
      unfolding starts_Cons [OF lt] balloc_loop.simps bbsec_def [symmetric]
    proof (intro bind_Panic bread_fs [OF less.prems(1,2) op])
      fix b t assume t: "b \<notin> H" "fs (insert b H) W t" "keeps H s t" "vol t = vol s" "bsector (bufs t b) = bbsec sb ?b" "settled t b"
      have d: "bdata (bufs t b) = vol s (bbsec sb ?b)" using fs_held(1) [OF t(2), of b] t(4,5) by simp
      have f: "List.find (\<lambda>bi. \<not> bit_used (bdata (bufs t b)) bi) [0..<min BPB (unat (sb_size sb) - ?b)] = None"
        and f': "List.find (\<lambda>x. \<not> used (vol s) sb x) [Suc k * BPB..<?n] = None"
        using fg less.prems(4) d by (auto simp: add.commute nblocks_def split: option.splits)
      have "seqk (brelse b) (balloc_loop 1 sb (map (\<lambda>k. k * BPB) [Suc k..<(?n + BPB - 1) div BPB])) t
        = Panic ''balloc: out of blocks''"
      proof (intro seqk_Panic brelse_fs [OF t(2) insertI1 t(6)])
        fix u assume "fs (insert b H - {b}) W u" "keeps (insert b H - {b}) t u" "vol u = vol t"
        then have u: "fs H W u" "keeps H s u" "vol u = vol s" using t(1,3,4) keeps_trans [of H s t u] by simp_all
        show "balloc_loop 1 sb (map (\<lambda>k. k * BPB) [Suc k..<(?n + BPB - 1) div BPB]) u = Panic ''balloc: out of blocks''"
          by (rule less.hyps [OF m u(1)]) (use f' u less.prems open_sec_keeps [OF u(2)] in simp_all)
      qed
      then show "wp (gets (\<lambda>s. List.find (\<lambda>bi. \<not> bit_used (bdata (bufs s b)) bi) [0..<min BPB (unat (sb_size sb) - ?b)]))
       (\<lambda>f t. (case f of None \<Rightarrow> seqk (brelse b) (balloc_loop 1 sb (map (\<lambda>k. k * BPB) [Suc k..<(?n + BPB - 1) div BPB]))
          | Some bi \<Rightarrow> seqk (bmod b (bit_set bi)) (seqk (log_write b) (seqk (brelse b)
              (seqk (bzero 1 (of_nat (?b + bi))) (ret (of_nat (?b + bi))))))) t = Panic ''balloc: out of blocks'') t"
        by (simp add: f)
    qed
  qed
qed

lemma bfree_free_fs:
  assumes F: "fs H W s" "card H \<le> 1" and o: "open_sec H s 1" "open_sec H s (bbsec sb b)"
    and sb: "sb = de_superblock (vol s 1)" and b: "b < 2 ^ 32" "\<not> used (vol s) sb b"
  shows "bfree 1 (of_nat b) s = Panic ''freeing free block''"
  unfolding bfree_def
proof (rule bind_Panic [OF readsb_fs [OF F o(1)]])
  fix t assume t: "fs H W t" "keeps H s t" "vol t = vol s"
  have ub: "unat (of_nat b :: u32) = b" using b(1) by (simp add: unsigned_of_nat take_bit_nat_eq_self)
  show "bind (bread 1 (BBLOCK (of_nat b) (sb_ninodes (de_superblock (vol s 1))))) (\<lambda>bp.
      bind (gets (\<lambda>s. bit_used (bdata (bufs s bp)) (unat (of_nat b :: u32) mod BPB))) (\<lambda>used.
      if \<not> used then panic ''freeing free block'' else seqk (bmod bp (bit_clear (unat (of_nat b :: u32) mod BPB)))
        (seqk (log_write bp) (brelse bp)))) t = Panic ''freeing free block''"
    unfolding sb [symmetric] bbsec_def [symmetric] ub
  proof (rule bind_Panic [OF bread_fs [OF t(1) F(2)]])
    show "open_sec H t (bbsec sb b)" using o(2) open_sec_keeps [OF t(2)] by simp
    fix c u assume u: "c \<notin> H" "fs (insert c H) W u" "vol u = vol t" "bsector (bufs u c) = bbsec sb b"
    have "bdata (bufs u c) = vol s (bbsec sb b)" using fs_held(1) [OF u(2), of c] u(3,4) t(3) by simp
    then have "\<not> bit_used (bdata (bufs u c)) (b mod BPB)" using b(2) by (simp add: used_def)
    then show "bind (gets (\<lambda>s. bit_used (bdata (bufs s c)) (b mod BPB))) (\<lambda>used.
        if \<not> used then panic ''freeing free block'' else seqk (bmod c (bit_clear (b mod BPB))) (seqk (log_write c) (brelse c))) u
           = Panic ''freeing free block''"
      by (simp add: bind_def)
  qed
qed

lemma find_first:
  assumes "r < n" "\<not> P r" "\<And>b. b < r \<Longrightarrow> P b"
  shows "List.find (\<lambda>b. \<not> P b) [0..<n] = Some r"
  unfolding find_Some_iff using assms by (intro exI [of _ r]) auto

section \<open>A machine in its first transaction\<close>

lemma linv_more: "linv H (s\<lparr>log_busy := x, lstate.more := y\<rparr>) = linv H s" "blk (s\<lparr>log_busy := x, lstate.more := y\<rparr>) = blk s"
proof -
  show b: "blk (s\<lparr>log_busy := x, lstate.more := y\<rparr>) = blk s" by (rule ext, rule blk_cong) simp_all
  show "linv H (s\<lparr>log_busy := x, lstate.more := y\<rparr>) = linv H s"
    by (simp add: linv_def cinv_def b logged_def log_sectors_def dirties_def cli_ok_def lock_free_def)
qed

lemma started_on:
  assumes d: "\<And>n. length (d n) = BSIZE" "sb_log d = (start, nlog)" "geometry start nlog n" "hdr_n (d (lsec start 0)) = 0"
    and W: "finite W" "card W + 2 < NBUF" "int (card W) + 1 < nlog"
  obtains s :: "'z lstate_scheme" where "fs {} W s" "\<And>m. m \<notin> log_area start nlog \<Longrightarrow> vol s m = d m" "disksize s = n"
    "log_sectors s = log_area start nlog" "lstate.more s = x" "logged s = {}"
proof -
  let ?s0 = "lstate.extend (lstate0 d n) x :: 'z lstate_scheme"
  note defs = lstate.defs lstate0_def
  have "\<exists>r :: 'z lstate_scheme. booted_on d n r"
  proof (rule binit_ok [of ?s0])
    fix t :: "'z lstate_scheme" assume "cinv {} t" "disk t = disk ?s0" "dirties t = {}" "disksize t = disksize ?s0"
    then show ?thesis by (intro exI [of _ t]) (simp add: booted_on_def defs)
  qed (use d(1) in \<open>simp_all add: defs cli_ok_def lock_free_def cpu0_def spinlock0_def\<close>)
  then obtain r :: "'z lstate_scheme" where r: "booted_on d n r" by blast
  have wf: "log_wf start nlog n d" using d(3,4) by (simp add: log_wf_def geometry_def)
  obtain u h0 where u: "initlog r = Done () u" "linv {} u" "disksize u = n" "log_start u = start" "log_size u = nlog"
    "lh_n u = 0" "blk u = disk u" "\<forall>m. m \<notin> log_area start nlog \<longrightarrow> disk u m = redo start d m"
    using boot_recovers [OF r d(2,3) wf] by blast
  let ?t = "u\<lparr>log_busy := True, lstate.more := x\<rparr>"
  have l: "log_sectors ?t = log_area start nlog" "logged ?t = {}" using u(4-6) by (simp_all add: log_sectors_def logged_def)
  have rd: "redo start d = d" using d(4) by (intro redo_empty) simp
  have "fs {} W ?t" using u(2,5) W l(2) by (simp add: fs_def linv_more)
  moreover have "vol ?t m = d m" if "m \<notin> log_area start nlog" for m
    using that u(7,8) l(1) rd by (simp add: vol_def linv_more)
  ultimately show ?thesis using that [of ?t] u(3) l by simp
qed

text \<open>
  A disk of 100 blocks with 50 inodes (blocks 2 to 8), the map of free blocks in block 9 and a log of ten
  blocks at its end; the blocks 10 to 89 are free.
\<close>

definition demo_fs :: "(u32 \<Rightarrow> bytes) \<Rightarrow> u32 \<Rightarrow> bytes" where
  "demo_fs c n =
     (if n = 1 then le32 100 @ le32 50 @ le32 50 @ le32 10 @ replicate 496 0
      else if n = 9 then [255, 3] @ replicate 9 0 @ [252, 255] @ replicate 499 0
      else if n < 90 then c n
      else replicate BSIZE 0)"

definition demo_sb :: superblock where
  "demo_sb = \<lparr>sb_size = 100, sb_nblocks = 50, sb_ninodes = 50, sb_nlog = 10\<rparr>"

lemma demo_fs_ok:
  assumes "\<And>n. length (c n) = BSIZE"
  shows "length (demo_fs c n) = BSIZE" "sb_log (demo_fs c) = (90, 10)" "geometry 90 10 100"
    "hdr_n (demo_fs c (lsec 90 0)) = 0" "de_superblock (demo_fs c 1) = demo_sb"
proof -
  show sb: "de_superblock (demo_fs c 1) = demo_sb"
    by (simp add: de_superblock_def demo_sb_def demo_fs_def slice_def)
  show "length (demo_fs c n) = BSIZE" using assms by (simp add: demo_fs_def BSIZE_def)
  show "sb_log (demo_fs c) = (90, 10)" by (simp add: sb_log_def sb) (simp add: demo_sb_def)
  show "geometry 90 10 100" by (simp add: geometry_def)
  have "lsec 90 0 = 90" by (simp add: lsec_def)
  moreover have "de32 (replicate 4 0) = 0" by (simp add: de32_def numeral_eq_Suc)
  ultimately show "hdr_n (demo_fs c (lsec 90 0)) = 0" by (simp add: demo_fs_def hdr_n_def BSIZE_def)
qed

section \<open>Properties\<close>

text \<open>C22: \<open>balloc\<close> inside a transaction returns the first free block of the disk: it did not belong to
  anyone, its contents are zero afterwards, its bit is the only one that changed in the map of used blocks, and
  no other block of the disk changed.
\<close>

theorem balloc_first_free:
  assumes "fs {} W s" "bitmap_ok s" "sb = de_superblock (vol s 1)"
    and "r < nblocks sb" "\<not> used (vol s) sb r" "\<And>b. b < r \<Longrightarrow> used (vol s) sb b" "bbsec sb r \<in> W" "of_nat r \<in> W"
  shows "\<exists>t. balloc 1 s = Done (of_nat r) t \<and> fs {} W t \<and> bitmap_ok t \<and> vol t (of_nat r) = replicate BSIZE 0 \<and>
    (\<forall>b < nblocks sb. used (vol t) sb b \<longleftrightarrow> b = r \<or> used (vol s) sb b) \<and>
    (\<forall>n. n \<noteq> of_nat r \<longrightarrow> n \<noteq> bbsec sb r \<longrightarrow> vol t n = vol s n)"
proof -
  note b = bitmap_okD [OF assms(2,3)]
  have "wp (balloc 1) (\<lambda>x t. x = of_nat r \<and> fs {} W t \<and> keeps {} s t \<and> vol t = balloc_vol sb r (vol s)) s"
    by (rule balloc_fs [OF assms(1) _ b(1) _ assms(3) find_first [of r _ "used (vol s) sb"]])
      (use assms b in simp_all)
  then obtain t where t: "balloc 1 s = Done (of_nat r) t" "fs {} W t" "keeps {} s t" "vol t = balloc_vol sb r (vol s)"
    by (auto simp: wp_def)
  have u: "used (vol t) sb c \<longleftrightarrow> c = r \<or> used (vol s) sb c" if "c < nblocks sb" for c
    unfolding t(4) using that assms(4,5) b(2) [OF assms(4)] b(5) length_vol [OF assms(1)]
    by (intro used_balloc) (auto simp: open_sec_def)
  have v: "vol t n = vol s n" if "n \<noteq> of_nat r" "n \<noteq> bbsec sb r" for n
    using that t(4) by (simp add: balloc_vol_def)
  have sb: "de_superblock (vol t 1) = sb" using v [of 1] b(3) [OF assms(4)] b(6) [OF assms(4,5)] assms(3) by metis
  have "bitmap_ok t"
    using assms(2) u unfolding bitmap_ok_def sb assms(3) [symmetric] Let_def keepsD(2,3) [OF t(3)] by blast
  then show ?thesis using t u v by (auto simp: balloc_vol_def)
qed


text \<open>C23: Freeing the block that \<open>balloc\<close> returned gives back the map of used blocks of before; freeing it
  once more panics.
\<close>

theorem bfree_undoes_balloc:
  assumes "fs {} W s" "bitmap_ok s" "sb = de_superblock (vol s 1)"
    and "r < nblocks sb" "\<not> used (vol s) sb r" "\<And>b. b < r \<Longrightarrow> used (vol s) sb b" "bbsec sb r \<in> W" "of_nat r \<in> W"
  shows "\<exists>t u. balloc 1 s = Done (of_nat r) t \<and> bfree 1 (of_nat r) t = Done () u \<and>
    vol u = (vol s)(of_nat r := replicate BSIZE 0) \<and> bfree 1 (of_nat r) u = Panic ''freeing free block''"
proof -
  note b = bitmap_okD [OF assms(2,3)]
  let ?bb = "bbsec sb r" and ?r = "of_nat r :: u32"
  have "wp (balloc 1) (\<lambda>x t. x = ?r \<and> fs {} W t \<and> keeps {} s t \<and> vol t = balloc_vol sb r (vol s)) s"
    by (rule balloc_fs [OF assms(1) _ b(1) _ assms(3) find_first [of r _ "used (vol s) sb"]])
      (use assms b in simp_all)
  then obtain t where t: "balloc 1 s = Done ?r t" "fs {} W t" "keeps {} s t" "vol t = balloc_vol sb r (vol s)"
    by (auto simp: wp_def)
  have ne: "?r \<noteq> ?bb" "?bb \<noteq> 1" "?r \<noteq> 1" using b(5,6) [OF assms(4,5)] b(3) assms(4) by auto
  have lb: "length (vol s ?bb) = BSIZE" using length_vol [OF assms(1)] b(2) assms(4) by (simp add: open_sec_def)
  have i: "(r mod BPB) div 8 < BSIZE"
    using mod_less_divisor [OF BPB_pos, of r] by (simp add: BPB_def less_mult_imp_div_less mult.commute)
  have r32: "r < 2 ^ 32" using assms(4) unat_u32_less [of "sb_size sb"] by (simp add: nblocks_def)
  have sbt: "sb = de_superblock (vol t 1)" using assms(3) ne t(4) by (simp add: balloc_vol_def)
  have ut: "used (vol t) sb r" using used_balloc [of r sb r "vol s"] ne lb assms(4) t(4) by simp
  note ot = open_sec_keeps [OF t(3)]
  have "wp (bfree 1 ?r) (\<lambda>_ u. fs {} W u \<and> keeps {} t u \<and> vol u = (vol t)(?bb := bit_clear (r mod BPB) (vol t ?bb))) t"
    by (rule bfree_fs [OF t(2) _ _ _ sbt r32 ut assms(7)]) (use b assms(4) ot in simp_all)
  then obtain u where u: "bfree 1 ?r t = Done () u" "fs {} W u" "keeps {} t u"
    "vol u = (vol t)(?bb := bit_clear (r mod BPB) (vol t ?bb))" by (auto simp: wp_def)
  have vu: "vol u = (vol s)(?r := replicate BSIZE 0)"
    using u(4) t(4) ne assms(5) bit_clear_set [of "vol s ?bb" "r mod BPB"] by (auto simp: balloc_vol_def used_def fun_eq_iff)
  have "bfree 1 ?r u = Panic ''freeing free block''"
    by (rule bfree_free_fs [OF u(2) _ _ _ _ r32, where sb = sb])
      (use b(1,2) assms(3,4,5) ot open_sec_keeps [OF u(3)] vu ne ne(1) [symmetric] in \<open>simp_all add: used_def\<close>)
  then show ?thesis using t(1) u(1) vu by blast
qed

lemma demo_bits:
  assumes "k < 100" "v (9 :: u32) = demo_fs c 9"
  shows "used v demo_sb k \<longleftrightarrow> k < 10 \<or> 90 \<le> k" "bbsec demo_sb k = 9"
proof -
  have all: "\<forall>k \<in> set [0..<100]. bit_used ([255, 3] @ replicate 9 0 @ [252, 255] @ replicate 499 0) k \<longleftrightarrow> k < 10 \<or> 90 \<le> k"
    unfolding bit_used_def by code_simp
  have m: "k mod BPB = k" using assms(1) by (simp add: BPB_def BSIZE_def)
  have "(of_nat k :: u32) div 4096 = 0"
    using assms(1) by (simp add: word_arith_nat_div unsigned_of_nat take_bit_nat_eq_self)
  then show b: "bbsec demo_sb k = 9" by (simp add: bbsec_def BBLOCK_def demo_sb_def BPB_def BSIZE_def IPB_def)
  show "used v demo_sb k \<longleftrightarrow> k < 10 \<or> 90 \<le> k"
    using all assms unfolding used_def b m by (simp add: demo_fs_def)
qed

lemma demo_fs_started:
  assumes c: "\<And>n. length (c n) = BSIZE" and W: "finite W" "card W < 9"
  obtains s :: "'z lstate_scheme" where "fs {} W s" "bitmap_ok s" "\<And>m. m < 90 \<Longrightarrow> vol s m = demo_fs c m" "disksize s = 100"
    "log_sectors s = {n. 90 \<le> n \<and> n < 100}" "lstate.more s = x" "de_superblock (vol s 1) = demo_sb" "logged s = {}"
proof -
  note d = demo_fs_ok [OF c]
  obtain s :: "'z lstate_scheme" where s: "fs {} W s" "\<And>m. m \<notin> log_area 90 10 \<Longrightarrow> vol s m = demo_fs c m" "disksize s = 100"
    "log_sectors s = log_area 90 10" "lstate.more s = x" "logged s = {}"
    by (rule started_on [of "demo_fs c" 90 10 100 W]) (use d W in \<open>simp_all add: NBUF_def\<close>, rule that)
  have l: "log_area 90 10 = {n. 90 \<le> n \<and> n < 100}" by (auto simp: log_area_def word_le_def word_less_def)
  have v: "vol s m = demo_fs c m" if "m < 90" for m
    using s(2) [of m] that l by (auto simp: not_le [symmetric])
  have sb: "de_superblock (vol s 1) = demo_sb" using v [of 1] d(5) by simp
  note b = demo_bits [of _ "vol s" c, OF _ v]
  have "bitmap_ok s" unfolding bitmap_ok_def sb Let_def
  proof (intro conjI allI impI)
    show "1 < disksize s" "1 \<notin> log_sectors s" "sb_size demo_sb \<le> disksize s" using s(3,4) l by (auto simp: demo_sb_def word_le_def)
    fix k assume "k < nblocks demo_sb"
    then have k: "k < 100" by (simp add: nblocks_def demo_sb_def)
    have u: "unat (of_nat k :: u32) = k" using k by (simp add: unsigned_of_nat take_bit_nat_eq_self)
    show "bbsec demo_sb k < disksize s" "bbsec demo_sb k \<notin> log_sectors s" "bbsec demo_sb k \<noteq> 1"
      using b(2) [OF k] s(3,4) l by (auto simp: word_le_def)
    assume a: "of_nat k \<in> log_sectors s \<or> of_nat k \<in> bbsec demo_sb ` {..<nblocks demo_sb} \<or> k = 1"
    have "bbsec demo_sb ` {..<nblocks demo_sb} \<subseteq> {9}" using b(2) by (auto simp: nblocks_def demo_sb_def)
    moreover have "k = 9" if "of_nat k = (9 :: u32)" using u unfolding that by simp
    moreover have "of_nat k \<in> log_sectors s \<Longrightarrow> 90 \<le> k" using u s(4) l by (auto simp: word_le_nat_alt)
    ultimately show "used (vol s) demo_sb k" using a b(1) [OF k] by auto
  qed
  then show ?thesis using that [OF s(1) _ v s(3) _ s(5) sb s(6)] s(4) l by simp
qed

lemma demo_sb_n: "nblocks demo_sb = 100"
  by (simp add: nblocks_def demo_sb_def)

lemma nine: "(9 :: u32) < 90"
  by simp

theorem balloc_first_free_witness:
  "\<exists>(s :: lstate) t. balloc 1 s = Done 10 t \<and> vol t 10 = replicate BSIZE 0 \<and> used (vol t) demo_sb 10 \<and> \<not> used (vol t) demo_sb 11"
proof -
  obtain s :: lstate where s: "fs {} {9, 10} s" "bitmap_ok s" "\<And>m. m < 90 \<Longrightarrow> vol s m = demo_fs (\<lambda>_. replicate BSIZE 7) m"
    "de_superblock (vol s 1) = demo_sb"
    by (rule demo_fs_started [of "\<lambda>_. replicate BSIZE 7" "{9, 10}"]) (rule that | simp)+
  note b = demo_bits [of _ "vol s", OF _ s(3) [OF nine]]
  from balloc_first_free [OF s(1,2) s(4) [symmetric], of 10] obtain t where t: "balloc 1 s = Done 10 t" "vol t 10 = replicate BSIZE 0"
    "\<forall>b < 100. used (vol t) demo_sb b \<longleftrightarrow> b = 10 \<or> used (vol s) demo_sb b"
    by (auto simp: demo_sb_n b)
  have "used (vol t) demo_sb 10" "\<not> used (vol t) demo_sb 11" using t(3) b(1) [of 11] by simp_all
  with t show ?thesis by blast
qed


theorem bfree_undoes_balloc_witness:
  "\<exists>(s :: lstate) t u. balloc 1 s = Done 10 t \<and> bfree 1 10 t = Done () u \<and> bfree 1 10 u = Panic ''freeing free block''"
proof -
  obtain s :: lstate where s: "fs {} {9, 10} s" "bitmap_ok s" "\<And>m. m < 90 \<Longrightarrow> vol s m = demo_fs (\<lambda>_. replicate BSIZE 7) m"
    "de_superblock (vol s 1) = demo_sb"
    by (rule demo_fs_started [of "\<lambda>_. replicate BSIZE 7" "{9, 10}"]) (rule that | simp)+
  note b = demo_bits [of _ "vol s", OF _ s(3) [OF nine]]
  from bfree_undoes_balloc [OF s(1,2) s(4) [symmetric], of 10] show ?thesis by (auto simp: demo_sb_n b)
qed

end
