(* ===== verification/Inode.thy ===== *)
theory Inode
  imports Block
begin

text \<open>
  Inodes (\<open>fs.c\<close> from \<open>iinit\<close> to \<open>writei_ext\<close>, the structures of \<open>fs.h\<close>, \<open>file.h\<close> and \<open>stat.h\<close>): the inode
  cache, the on-disk inode byte by byte, checksums, replicas, block mapping, reading and writing.

  A pointer to a cached inode is its index in the cache; where the code tests for a null pointer
  it is an option.  The device switch is a parameter \<open>dv\<close>: \<open>devsw[major]\<close> with the read
  and write functions that drivers have put there.
\<close>

section \<open>Data\<close>

definition NINODE :: nat where "NINODE = 100"
definition NDEV :: nat where "NDEV = 10"
definition NDIRECT :: nat where "NDIRECT = 10"
definition NINDIRECT :: nat where "NINDIRECT = BSIZE div 4"
definition MAXFILE :: nat where "MAXFILE = NDIRECT + NINDIRECT"

definition T_DIR :: u16 where "T_DIR = 1"
definition T_FILE :: u16 where "T_FILE = 2"
definition T_DEV :: u16 where "T_DEV = 3"
definition T_DITTO :: u16 where "T_DITTO = 4"

definition I_BUSY :: u32 where "I_BUSY = 1"
definition I_VALID :: u32 where "I_VALID = 2"
definition E_CORRUPTED :: int where "E_CORRUPTED = - 10"

record dinode =
  dtype :: u16
  dmajor :: u16
  dminor :: u16
  dnlink :: u16
  dsize :: u32
  daddrs :: "u32 list"
  dchild1 :: u16
  dchild2 :: u16
  dchecksum :: u32

record inode =
  idev :: u32
  inum :: u32
  iref :: int
  iflags :: u32
  itype :: u16
  major :: u16
  minor :: u16
  nlink :: u16
  isize :: u32
  addrs :: "u32 list"
  child1 :: u16
  child2 :: u16
  icheck :: u32

record fstate = lstate +
  icache :: "nat \<Rightarrow> inode"

record 's devsw =
  devread :: "(nat \<Rightarrow> int \<Rightarrow> (int \<times> bytes, 's) kop) option"
  devwrite :: "(nat \<Rightarrow> bytes \<Rightarrow> int \<Rightarrow> (int, 's) kop) option"

record stat =
  st_type :: u16
  st_dev :: u32
  st_ino :: u32
  st_nlink :: u16
  st_size :: u32
  st_child1 :: u16
  st_child2 :: u16
  st_checksum :: u32

text \<open>The 64 bytes of an on-disk inode: \<open>addrs\<close> is at offset 12, the replica fields follow at 56.\<close>

definition de_dinode :: "bytes \<Rightarrow> dinode" where
  "de_dinode bs = \<lparr>dtype = de16 (slice 0 2 bs), dmajor = de16 (slice 2 2 bs), dminor = de16 (slice 4 2 bs),
     dnlink = de16 (slice 6 2 bs), dsize = de32 (slice 8 4 bs),
     daddrs = map (\<lambda>i. de32 (slice (12 + 4 * i) 4 bs)) [0..<NDIRECT + 1],
     dchild1 = de16 (slice 56 2 bs), dchild2 = de16 (slice 58 2 bs), dchecksum = de32 (slice 60 4 bs)\<rparr>"

definition en_dinode :: "dinode \<Rightarrow> bytes" where
  "en_dinode d = le16 (dtype d) @ le16 (dmajor d) @ le16 (dminor d) @ le16 (dnlink d) @ le32 (dsize d) @
     concat (map le32 (daddrs d)) @ le16 (dchild1 d) @ le16 (dchild2 d) @ le32 (dchecksum d)"

text \<open>The place of an inode in its block, and assignments to parts of it.\<close>

definition ioff :: "u32 \<Rightarrow> nat" where
  "ioff n = 64 * (unat n mod IPB)"

definition put_meta :: "nat \<Rightarrow> inode \<Rightarrow> bytes \<Rightarrow> bytes" where
  "put_meta o' ip bs = splice (o' + 56) (le16 (child1 ip) @ le16 (child2 ip))
     (splice o' (le16 (itype ip) @ le16 (major ip) @ le16 (minor ip) @ le16 (nlink ip) @ le32 (isize ip)) bs)"

definition put_data :: "nat \<Rightarrow> inode \<Rightarrow> bytes \<Rightarrow> bytes" where
  "put_data o' ip bs = splice (o' + 12) (concat (map le32 (addrs ip))) (splice (o' + 60) (le32 (icheck ip)) bs)"

definition iset :: "nat \<Rightarrow> (inode \<Rightarrow> inode) \<Rightarrow> (unit, 'z fstate_scheme) kop" where
  "iset ip f = modify (\<lambda>s. s\<lparr>icache := (icache s)(ip := f (icache s ip))\<rparr>)"

definition igets :: "nat \<Rightarrow> (inode \<Rightarrow> 'a) \<Rightarrow> ('a, 'z fstate_scheme) kop" where
  "igets ip f = gets (\<lambda>s. f (icache s ip))"

definition iflag :: "u32 \<Rightarrow> inode \<Rightarrow> bool" where
  "iflag m i \<longleftrightarrow> iflags i AND m \<noteq> 0"

section \<open>The inode cache\<close>

definition iinit :: "(unit, 'z fstate_scheme) kop" where
  "iinit = initlock Lk_icache ''icache''"

definition iget :: "u32 \<Rightarrow> u32 \<Rightarrow> (nat, 'z fstate_scheme) kop" where
  "iget dev n =
     seqk (acquire Lk_icache)
    (bind (gets icache) (\<lambda>c.
     case List.find (\<lambda>i. iref (c i) > 0 \<and> idev (c i) = dev \<and> inum (c i) = n) [0..<NINODE] of
       Some ip \<Rightarrow>
         seqk (iset ip (\<lambda>i. i\<lparr>iref := iref i + 1\<rparr>))
        (seqk (release Lk_icache)
         (ret ip))
     | None \<Rightarrow>
        (case List.find (\<lambda>i. iref (c i) = 0) [0..<NINODE] of
           None \<Rightarrow> panic ''iget: no inodes''
         | Some ip \<Rightarrow>
             seqk (iset ip (\<lambda>i. i\<lparr>idev := dev, inum := n, iref := 1, iflags := 0\<rparr>))
            (seqk (release Lk_icache)
             (ret ip)))))"

definition idup :: "nat \<Rightarrow> (nat, 'z fstate_scheme) kop" where
  "idup ip =
     seqk (acquire Lk_icache)
    (seqk (iset ip (\<lambda>i. i\<lparr>iref := iref i + 1\<rparr>))
    (seqk (release Lk_icache)
     (ret ip)))"

primrec ialloc_loop :: "u32 \<Rightarrow> u16 \<Rightarrow> nat list \<Rightarrow> (nat, 'z fstate_scheme) kop" where
  "ialloc_loop dev ty [] = panic ''ialloc: no inodes''"
| "ialloc_loop dev ty (n # ns) =
     bind (bread dev (IBLOCK (of_nat n))) (\<lambda>bp.
     bind (gets (\<lambda>s. de16 (slice (ioff (of_nat n)) 2 (bdata (bufs s bp))))) (\<lambda>t.
     if t = 0 then
       seqk (bmod bp (splice (ioff (of_nat n)) (le16 ty @ replicate 62 0)))
      (seqk (log_write bp)
      (seqk (brelse bp)
       (iget dev (of_nat n))))
     else seqk (brelse bp) (ialloc_loop dev ty ns)))"

definition ialloc :: "u32 \<Rightarrow> u16 \<Rightarrow> (nat, 'z fstate_scheme) kop" where
  "ialloc dev ty = bind (readsb dev) (\<lambda>sb. ialloc_loop dev ty [1..<unat (sb_ninodes sb)])"

definition iunlock :: "nat option \<Rightarrow> (unit, 'z fstate_scheme) kop" where
  "iunlock p = (case p of None \<Rightarrow> panic ''iunlock'' | Some ip \<Rightarrow>
     bind (igets ip (\<lambda>i. \<not> iflag I_BUSY i \<or> iref i < 1)) (\<lambda>bad.
     if bad then panic ''iunlock''
     else seqk (acquire Lk_icache)
         (seqk (iset ip (\<lambda>i. i\<lparr>iflags := iflags i AND NOT I_BUSY\<rparr>))
         (seqk (wakeup (Ch_inode ip))
          (release Lk_icache)))))"

section \<open>Mapping blocks of a file\<close>

definition ptr_at :: "nat \<Rightarrow> bytes \<Rightarrow> u32" where
  "ptr_at j bs = de32 (slice (4 * j) 4 bs)"

definition put_ptr :: "nat \<Rightarrow> u32 \<Rightarrow> bytes \<Rightarrow> bytes" where
  "put_ptr j a bs = splice (4 * j) (le32 a) bs"

definition balloc_slot :: "nat \<Rightarrow> nat \<Rightarrow> (u32, 'z fstate_scheme) kop" where
  "balloc_slot ip k =
     bind (igets ip (\<lambda>i. addrs i ! k)) (\<lambda>addr.
     if addr = 0 then
       bind (igets ip idev) (\<lambda>dev.
       bind (balloc dev) (\<lambda>addr.
       seqk (iset ip (\<lambda>i. i\<lparr>addrs := (addrs i)[k := addr]\<rparr>))
       (ret addr)))
     else ret addr)"

definition bmap :: "nat \<Rightarrow> nat \<Rightarrow> (u32, 'z fstate_scheme) kop" where
  "bmap ip bn =
     (if bn < NDIRECT then balloc_slot ip bn
      else let bn = bn - NDIRECT in
        if bn < NINDIRECT then
          bind (balloc_slot ip NDIRECT) (\<lambda>addr.
          bind (igets ip idev) (\<lambda>dev.
          bind (bread dev addr) (\<lambda>bp.
          bind (gets (\<lambda>s. ptr_at bn (bdata (bufs s bp)))) (\<lambda>addr.
          if addr = 0 then
            bind (balloc dev) (\<lambda>addr.
            seqk (bmod bp (put_ptr bn addr))
           (seqk (log_write bp)
           (seqk (brelse bp)
            (ret addr))))
          else seqk (brelse bp) (ret addr)))))
        else panic ''bmap: out of range'')"

section \<open>Reading\<close>

function readi_loop :: "nat \<Rightarrow> nat \<Rightarrow> nat \<Rightarrow> (bytes, 'z fstate_scheme) kop" where
  "readi_loop ip off n =
     (if n = 0 then ret []
      else bind (bmap ip (off div BSIZE)) (\<lambda>addr.
        bind (igets ip idev) (\<lambda>dev.
        bind (bread dev addr) (\<lambda>bp.
        bind (gets (\<lambda>s. slice (off mod BSIZE) (min n (BSIZE - off mod BSIZE)) (bdata (bufs s bp)))) (\<lambda>xs.
        seqk (brelse bp)
       (bind (readi_loop ip (off + min n (BSIZE - off mod BSIZE)) (n - min n (BSIZE - off mod BSIZE))) (\<lambda>ys.
        ret (xs @ ys))))))))"
  by pat_completeness auto
termination
  by (relation "measure (\<lambda>(ip, off, n). n)") (auto simp: BSIZE_def)

definition readi :: "(nat \<Rightarrow> 'z fstate_scheme devsw) \<Rightarrow> nat \<Rightarrow> u32 \<Rightarrow> u32 \<Rightarrow> (int \<times> bytes, 'z fstate_scheme) kop" where
  "readi dv ip off n =
     bind (igets ip (\<lambda>i. (itype i, sint (major i), isize i))) (\<lambda>(ty, maj, sz).
     if ty = T_DEV then
       (if maj < 0 \<or> maj \<ge> int NDEV then ret (- 1, [])
        else case devread (dv (nat maj)) of
          None \<Rightarrow> ret (- 1, [])
        | Some f \<Rightarrow> f ip (sint n))
     else if off > sz \<or> off + n < off then ret (- 1, [])
     else let n = (if off + n > sz then sz - off else n) in
       bind (readi_loop ip (unat off) (unat n)) (\<lambda>xs.
       ret (sint n, xs)))"

definition xor_words :: "nat \<Rightarrow> bytes \<Rightarrow> u32 \<Rightarrow> u32" where
  "xor_words k bs c = foldl (\<lambda>c i. c XOR de32 (slice (4 * i) 4 bs)) c [0..<k]"

text \<open>
  The loop of \<open>ichecksum\<close>, for at most the given number of reads: a file has at most
  \<open>MAXFILE\<close> blocks and each read but the last takes four of them, so 40 reads are enough.
\<close>

primrec ichecksum_loop ::
  "nat \<Rightarrow> (nat \<Rightarrow> 'z fstate_scheme devsw) \<Rightarrow> nat \<Rightarrow> u32 \<Rightarrow> u32 \<Rightarrow> (u32, 'z fstate_scheme) kop" where
  "ichecksum_loop 0 dv ip off c = (\<lambda>s. Diverge)"
| "ichecksum_loop (Suc k) dv ip off c =
     bind (readi dv ip off 2048) (\<lambda>(r, xs).
     if (word_of_int r :: u32) > 0
     then ichecksum_loop k dv ip (off + word_of_int r) (xor_words 512 (splice 0 xs (replicate 2048 0)) c)
     else ret c)"

definition ichecksum :: "(nat \<Rightarrow> 'z fstate_scheme devsw) \<Rightarrow> nat \<Rightarrow> (u32, 'z fstate_scheme) kop" where
  "ichecksum dv ip =
     bind (igets ip itype) (\<lambda>ty.
     if ty = T_DEV then ret 0
     else ichecksum_loop 40 dv ip 0 0)"

section \<open>Locking\<close>

definition ilock_busy :: "nat \<Rightarrow> (unit, 'z fstate_scheme) kop" where
  "ilock_busy ip =
     bind (igets ip (iflag I_BUSY)) (\<lambda>busy.
     if busy then sleep (Ch_inode ip) Lk_icache
     else seqk (iset ip (\<lambda>i. i\<lparr>iflags := iflags i OR I_BUSY\<rparr>)) (release Lk_icache))"

definition load_inode :: "dinode \<Rightarrow> inode \<Rightarrow> inode" where
  "load_inode d i = i\<lparr>itype := dtype d, major := dmajor d, minor := dminor d, nlink := dnlink d, isize := dsize d,
     addrs := daddrs d, child1 := dchild1 d, child2 := dchild2 d, icheck := dchecksum d\<rparr>"

definition ilock_load :: "nat \<Rightarrow> (unit, 'z fstate_scheme) kop" where
  "ilock_load ip =
     bind (igets ip (\<lambda>i. (idev i, inum i))) (\<lambda>(dev, n).
     bind (bread dev (IBLOCK n)) (\<lambda>bp.
     bind (gets (\<lambda>s. de_dinode (slice (ioff n) 64 (bdata (bufs s bp))))) (\<lambda>d.
     seqk (iset ip (load_inode d))
     (brelse bp))))"

text \<open>
  The replica search of \<open>ilock_ext\<close>, with the replicas that remain to be tried: \<open>None\<close> when the checksum
  matches, otherwise what \<open>ilock_ext\<close> returns. \<open>lk\<close> is \<open>ilock\<close>.
\<close>

definition zc_failure :: "nat \<Rightarrow> (int option, 'z fstate_scheme) kop" where
  "zc_failure ip = seqk (iunlock (Some ip)) (ret (Some E_CORRUPTED))"

primrec zc_verify ::
  "(nat \<Rightarrow> (int, 'z fstate_scheme) kop) \<Rightarrow> (nat \<Rightarrow> 'z fstate_scheme devsw) \<Rightarrow> nat \<Rightarrow> (inode \<Rightarrow> u16) list \<Rightarrow>
   (int option, 'z fstate_scheme) kop" where
  "zc_verify lk dv ip [] =
     bind (ichecksum dv ip) (\<lambda>c. bind (igets ip icheck) (\<lambda>e.
     if c = e then ret None else zc_failure ip))"
| "zc_verify lk dv ip (ch # chs) =
     bind (ichecksum dv ip) (\<lambda>c. bind (igets ip icheck) (\<lambda>e.
     if c = e then ret None
     else bind (igets ip ch) (\<lambda>rinum.
       if rinum = 0 then zc_failure ip
       else bind (igets ip idev) (\<lambda>dev.
         bind (iget dev (ucast rinum)) (\<lambda>rinode.
         bind (lk rinode) (\<lambda>r.
         if r = 0 then
           seqk (iunlock (Some rinode))
          (seqk (iunlock (Some ip))
           (ret (Some (uint rinum))))
         else zc_verify lk dv ip chs))))))"

text \<open>
  \<open>ilock_ext\<close> calls itself for the replicas. Every call that is still running keeps its own inode locked, so
  there are at most as many nested calls as there are inodes in the cache: \<open>fuel\<close> is the number of calls
  that may still be nested.
\<close>

primrec ilock_rec ::
  "nat \<Rightarrow> (nat \<Rightarrow> 'z fstate_scheme devsw) \<Rightarrow> bool \<Rightarrow> nat option \<Rightarrow> (int, 'z fstate_scheme) kop" where
  "ilock_rec 0 dv ck p = (\<lambda>s. Diverge)"
| "ilock_rec (Suc fuel) dv ck p =
     (case p of None \<Rightarrow> panic ''ilock'' | Some ip \<Rightarrow>
      bind (igets ip iref) (\<lambda>ref.
      if ref < 1 then panic ''ilock''
      else
        seqk (acquire Lk_icache)
       (seqk (ilock_busy ip)
       (bind (igets ip (iflag I_VALID)) (\<lambda>ok.
        if ok then ret 0
        else
          seqk (ilock_load ip)
         (bind (if ck then zc_verify (\<lambda>r. ilock_rec fuel dv True (Some r)) dv ip [child1, child2] else ret None) (\<lambda>v.
          case v of
            Some r \<Rightarrow> ret r
          | None \<Rightarrow>
              seqk (iset ip (\<lambda>i. i\<lparr>iflags := iflags i OR I_VALID\<rparr>))
             (bind (igets ip itype) (\<lambda>ty.
              if ty = 0 then panic ''ilock: no type''
              else ret 0))))))))) "

definition ilock_ext :: "(nat \<Rightarrow> 'z fstate_scheme devsw) \<Rightarrow> nat option \<Rightarrow> bool \<Rightarrow> (int, 'z fstate_scheme) kop" where
  "ilock_ext dv p ck = ilock_rec (NINODE + 1) dv ck p"

definition ilock :: "(nat \<Rightarrow> 'z fstate_scheme devsw) \<Rightarrow> nat option \<Rightarrow> (int, 'z fstate_scheme) kop" where
  "ilock dv p = ilock_ext dv p True"
section \<open>Writing inodes back\<close>

definition cupdate :: "(nat \<Rightarrow> 'z fstate_scheme devsw) \<Rightarrow> nat \<Rightarrow> nat \<Rightarrow> (unit, 'z fstate_scheme) kop" where
  "cupdate dv ip ic =
     seqk (ilock_ext dv (Some ic) False)
    (bind (igets ic itype) (\<lambda>ty.
     if ty \<noteq> T_DITTO then panic (''trying to update a \"child\" that is not a ditto block!'' @ [CHR 0x0A])
     else
       bind (igets ic (\<lambda>i. (idev i, inum i))) (\<lambda>(dev, n).
       bind (bread dev (IBLOCK n)) (\<lambda>bp.
       bind (gets (\<lambda>s. icache s ip)) (\<lambda>par.
       seqk (iset ic (\<lambda>i. i\<lparr>isize := isize par\<rparr>))
      (seqk (bind (gets (\<lambda>s. icache s ic)) (\<lambda>i. bmod bp (put_meta (ioff n) (i\<lparr>nlink := 1\<rparr>))))
      (seqk (bind (gets (\<lambda>s. icache s ip)) (\<lambda>par. iset ic (\<lambda>i. i\<lparr>icheck := icheck par\<rparr>)))
      (seqk (bind (gets (\<lambda>s. icache s ic)) (\<lambda>i. bmod bp (put_data (ioff n) i)))
      (seqk (log_write bp)
      (seqk (brelse bp)
       (iunlock (Some ic))))))))))))"

definition cupdate_child :: "(nat \<Rightarrow> 'z fstate_scheme devsw) \<Rightarrow> nat \<Rightarrow> (inode \<Rightarrow> u16) \<Rightarrow> (unit, 'z fstate_scheme) kop" where
  "cupdate_child dv ip ch =
     bind (igets ip (\<lambda>i. (idev i, ch i))) (\<lambda>(dev, c).
     whenk (c \<noteq> 0) (bind (iget dev (scast c)) (cupdate dv ip)))"

definition iupdate_ext :: "(nat \<Rightarrow> 'z fstate_scheme devsw) \<Rightarrow> nat \<Rightarrow> bool \<Rightarrow> (unit, 'z fstate_scheme) kop" where
  "iupdate_ext dv ip skip =
     bind (igets ip (\<lambda>i. (idev i, inum i))) (\<lambda>(dev, n).
     bind (bread dev (IBLOCK n)) (\<lambda>bp.
     seqk (bind (gets (\<lambda>s. icache s ip)) (\<lambda>i. bmod bp (put_meta (ioff n) i)))
    (bind (ichecksum dv ip) (\<lambda>c.
     seqk (iset ip (\<lambda>i. i\<lparr>icheck := c\<rparr>))
    (seqk (bind (gets (\<lambda>s. icache s ip)) (\<lambda>i. bmod bp (put_data (ioff n) i)))
    (seqk (log_write bp)
    (seqk (brelse bp)
     (whenk (\<not> skip)
       (seqk (cupdate_child dv ip child1)
             (cupdate_child dv ip child2))))))))))"

definition iupdate :: "(nat \<Rightarrow> 'z fstate_scheme devsw) \<Rightarrow> nat \<Rightarrow> (unit, 'z fstate_scheme) kop" where
  "iupdate dv ip = iupdate_ext dv ip False"

section \<open>Writing\<close>

function writei_loop :: "nat \<Rightarrow> bytes \<Rightarrow> nat \<Rightarrow> nat \<Rightarrow> (unit, 'z fstate_scheme) kop" where
  "writei_loop ip src off n =
     (if n = 0 then ret ()
      else bind (bmap ip (off div BSIZE)) (\<lambda>addr.
        bind (igets ip idev) (\<lambda>dev.
        bind (bread dev addr) (\<lambda>bp.
        seqk (bmod bp (splice (off mod BSIZE) (take (min n (BSIZE - off mod BSIZE)) src)))
       (seqk (log_write bp)
       (seqk (brelse bp)
        (writei_loop ip (drop (min n (BSIZE - off mod BSIZE)) src) (off + min n (BSIZE - off mod BSIZE))
           (n - min n (BSIZE - off mod BSIZE)))))))))"
  by pat_completeness auto
termination
  by (relation "measure (\<lambda>(ip, src, off, n). n)") (auto simp: BSIZE_def)

text \<open>
  As for \<open>ilock_ext\<close>, \<open>fuel\<close> bounds the nested calls for replicas of replicas: each holds the lock of its
  inode.
\<close>

primrec writei_rec ::
  "nat \<Rightarrow> (nat \<Rightarrow> 'z fstate_scheme devsw) \<Rightarrow> nat \<Rightarrow> bytes \<Rightarrow> u32 \<Rightarrow> u32 \<Rightarrow> bool \<Rightarrow> (int, 'z fstate_scheme) kop" where
  "writei_rec 0 dv ip src off n skip = (\<lambda>s. Diverge)"
| "writei_rec (Suc fuel) dv ip src off n skip =
     bind (igets ip (\<lambda>i. (itype i, sint (major i), isize i))) (\<lambda>(ty, maj, sz).
     if ty = T_DEV then
       (if maj < 0 \<or> maj \<ge> int NDEV then ret (- 1)
        else case devwrite (dv (nat maj)) of
          None \<Rightarrow> ret (- 1)
        | Some f \<Rightarrow> f ip src (sint n))
     else if off > sz \<or> off + n < off then ret (- 1)
     else if off + n > of_nat (MAXFILE * BSIZE) then ret (- 1)
     else
       seqk (writei_loop ip src (unat off) (unat n))
      (seqk (whenk (\<not> skip)
         (foreach [child1, child2] (\<lambda>ch.
            bind (igets ip (\<lambda>i. (idev i, ch i))) (\<lambda>(dev, c).
            whenk (c \<noteq> 0)
              (bind (iget dev (scast c)) (\<lambda>ci.
               seqk (ilock_ext dv (Some ci) False)
              (seqk (writei_rec fuel dv ci src off n False)
               (iunlock (Some ci)))))))))
      (bind (igets ip itype) (\<lambda>ty.
       if ty = T_DITTO then ret (sint n)
       else
         seqk (iset ip (\<lambda>i. if n > 0 \<and> off + n > isize i then i\<lparr>isize := off + n\<rparr> else i))
        (seqk (whenk (ty \<noteq> T_DEV) (iupdate_ext dv ip skip))
         (ret (sint n)))))))"

definition writei_ext ::
  "(nat \<Rightarrow> 'z fstate_scheme devsw) \<Rightarrow> nat \<Rightarrow> bytes \<Rightarrow> u32 \<Rightarrow> u32 \<Rightarrow> bool \<Rightarrow> (int, 'z fstate_scheme) kop" where
  "writei_ext = writei_rec (NINODE + 1)"

definition writei ::
  "(nat \<Rightarrow> 'z fstate_scheme devsw) \<Rightarrow> nat \<Rightarrow> bytes \<Rightarrow> u32 \<Rightarrow> u32 \<Rightarrow> (int, 'z fstate_scheme) kop" where
  "writei dv ip src off n = writei_ext dv ip src off n False"

section \<open>Replicas\<close>

text \<open>
  The loop of \<open>iduplicate\<close>: the offset grows with every read, or, when it is past the end of the source, goes
  down by one each time because of the result -1; so at most \<open>ntotal + off + 2\<close> rounds.
\<close>

primrec iduplicate_loop ::
  "nat \<Rightarrow> (nat \<Rightarrow> 'z fstate_scheme devsw) \<Rightarrow> nat \<Rightarrow> nat \<Rightarrow> u32 \<Rightarrow> u32 \<Rightarrow> (unit, 'z fstate_scheme) kop" where
  "iduplicate_loop 0 dv src dst off end = (\<lambda>s. Diverge)"
| "iduplicate_loop (Suc k) dv src dst off end =
     bind (readi dv src off 512) (\<lambda>(r, xs).
     if (word_of_int r :: u32) > 0 \<and> off < end then
       seqk (writei_ext dv dst (splice 0 xs (replicate 512 0)) off (word_of_int r) True)
       (iduplicate_loop k dv src dst (off + word_of_int r) end)
     else ret ())"

definition iduplicate ::
  "(nat \<Rightarrow> 'z fstate_scheme devsw) \<Rightarrow> nat \<Rightarrow> nat \<Rightarrow> u32 \<Rightarrow> u32 \<Rightarrow> (unit, 'z fstate_scheme) kop" where
  "iduplicate dv src dst off ntotal =
     bind (gets (\<lambda>s. icache s src)) (\<lambda>i.
     seqk (iset dst (\<lambda>d. d\<lparr>icheck := icheck i\<rparr>))
    (bind (gets (\<lambda>s. icache s src)) (\<lambda>i.
     seqk (iset dst (\<lambda>d. d\<lparr>isize := isize i\<rparr>))
     (iduplicate_loop (unat ntotal + unat off + 2) dv src dst off (ntotal + off)))))"

definition rescue_max :: int where
  "rescue_max = (int LOGSIZE - 1 - 1 - 2) div 4 * 512"

definition chunks :: "int \<Rightarrow> (int \<times> int) list" where
  "chunks n = map (\<lambda>k. (int k * rescue_max, min (n - int k * rescue_max) rescue_max))
     [0..<nat ((n + rescue_max - 1) div rescue_max)]"

definition irescue :: "(nat \<Rightarrow> 'z fstate_scheme devsw) \<Rightarrow> nat \<Rightarrow> nat \<Rightarrow> (unit, 'z fstate_scheme) kop" where
  "irescue dv ip rinode =
     seqk (ilock_ext dv (Some rinode) False)
    (seqk (ilock_ext dv (Some ip) False)
    (bind (igets ip (\<lambda>i. sint (isize i))) (\<lambda>n.
     seqk (foreach (chunks n) (\<lambda>(i, n1).
        seqk begin_trans
       (seqk (iduplicate dv rinode ip (word_of_int i) (word_of_int n1))
        commit_trans)))
    (seqk (iunlock (Some rinode))
     (iunlock (Some ip))))))"

definition ilock_trans :: "(nat \<Rightarrow> 'z fstate_scheme devsw) \<Rightarrow> nat option \<Rightarrow> (int, 'z fstate_scheme) kop" where
  "ilock_trans dv p =
     bind (ilock dv p) (\<lambda>r.
     if r = 0 then ret 0
     else if r = E_CORRUPTED then ret E_CORRUPTED
     else
       seqk (case p of
           Some ip \<Rightarrow> whenk (r > 0)
             (bind (igets ip idev) (\<lambda>dev.
              bind (iget dev (word_of_int r)) (\<lambda>ic.
              irescue dv ip ic)))
         | None \<Rightarrow> ret ())
      (bind (ilock dv p) (\<lambda>r.
       if r = 0 then ret 0
       else panic ''ilock_trans attempted to recover but still failed to unlock'')))"

section \<open>Truncating and releasing\<close>

definition itrunc :: "(nat \<Rightarrow> 'z fstate_scheme devsw) \<Rightarrow> nat \<Rightarrow> (unit, 'z fstate_scheme) kop" where
  "itrunc dv ip =
     seqk (foreach [0..<NDIRECT] (\<lambda>i.
        bind (igets ip (\<lambda>x. (idev x, addrs x ! i))) (\<lambda>(dev, a).
        whenk (a \<noteq> 0)
          (seqk (bfree dev a)
                (iset ip (\<lambda>x. x\<lparr>addrs := (addrs x)[i := 0]\<rparr>))))))
    (seqk (bind (igets ip (\<lambda>x. (idev x, addrs x ! NDIRECT))) (\<lambda>(dev, ind).
        whenk (ind \<noteq> 0)
          (bind (bread dev ind) (\<lambda>bp.
           seqk (foreach [0..<NINDIRECT] (\<lambda>j.
              bind (gets (\<lambda>s. ptr_at j (bdata (bufs s bp)))) (\<lambda>a.
              whenk (a \<noteq> 0) (bfree dev a))))
          (seqk (brelse bp)
          (seqk (bfree dev ind)
           (iset ip (\<lambda>x. x\<lparr>addrs := (addrs x)[NDIRECT := 0]\<rparr>))))))))
    (seqk (iset ip (\<lambda>x. x\<lparr>isize := 0\<rparr>))
     (iupdate dv ip)))"

definition iput :: "(nat \<Rightarrow> 'z fstate_scheme devsw) \<Rightarrow> nat \<Rightarrow> (unit, 'z fstate_scheme) kop" where
  "iput dv ip =
     seqk (acquire Lk_icache)
    (bind (gets (\<lambda>s. icache s ip)) (\<lambda>i.
     seqk (whenk (iref i = 1 \<and> iflag I_VALID i \<and> nlink i = 0)
       (if iflag I_BUSY i then panic ''iput busy''
        else
          seqk (iset ip (\<lambda>i. i\<lparr>iflags := iflags i OR I_BUSY\<rparr>))
         (seqk (release Lk_icache)
         (seqk (itrunc dv ip)
         (seqk (iset ip (\<lambda>i. i\<lparr>itype := 0\<rparr>))
         (seqk (iupdate dv ip)
         (seqk (acquire Lk_icache)
         (seqk (iset ip (\<lambda>i. i\<lparr>iflags := 0\<rparr>))
          (wakeup (Ch_inode ip))))))))))
    (seqk (iset ip (\<lambda>i. i\<lparr>iref := iref i - 1\<rparr>))
     (release Lk_icache))))"

definition iunlockput :: "(nat \<Rightarrow> 'z fstate_scheme devsw) \<Rightarrow> nat \<Rightarrow> (unit, 'z fstate_scheme) kop" where
  "iunlockput dv ip = seqk (iunlock (Some ip)) (iput dv ip)"

definition stati :: "nat \<Rightarrow> (stat, 'z fstate_scheme) kop" where
  "stati ip = igets ip (\<lambda>i. \<lparr>st_type = itype i, st_dev = idev i, st_ino = inum i, st_nlink = nlink i,
     st_size = isize i, st_child1 = child1 i, st_child2 = child2 i, st_checksum = icheck i\<rparr>)"

declare readi_loop.simps [simp del] writei_loop.simps [simp del]

section \<open>States that differ in the inode cache\<close>

lemma icache_same [simp]:
  fixes s :: "'z fstate_scheme"
  shows "blk (s\<lparr>icache := c\<rparr>) = blk s" "linv H (s\<lparr>icache := c\<rparr>) = linv H s" "log_sectors (s\<lparr>icache := c\<rparr>) = log_sectors s"
    "logged (s\<lparr>icache := c\<rparr>) = logged s" "vol (s\<lparr>icache := c\<rparr>) = vol s" "fs H W (s\<lparr>icache := c\<rparr>) = fs H W s"
    "open_sec H (s\<lparr>icache := c\<rparr>) = open_sec H s" "settled (s\<lparr>icache := c\<rparr>) = settled s"
    "cli_ok (s\<lparr>icache := c\<rparr>) = cli_ok s" "lock_free l (s\<lparr>icache := c\<rparr>) = lock_free l s"
proof -
  show b: "blk (s\<lparr>icache := c\<rparr>) = blk s" by (rule ext, rule blk_cong) simp_all
  show lf: "cli_ok (s\<lparr>icache := c\<rparr>) = cli_ok s" "lock_free l (s\<lparr>icache := c\<rparr>) = lock_free l s" for l
    by (simp_all add: cli_ok_def lock_free_def)
  show ls: "log_sectors (s\<lparr>icache := c\<rparr>) = log_sectors s" "logged (s\<lparr>icache := c\<rparr>) = logged s"
    by (simp_all add: logged_def log_sectors_def)
  show l: "linv H (s\<lparr>icache := c\<rparr>) = linv H s" by (simp add: linv_def cinv_def b lf ls dirties_def)
  show "vol (s\<lparr>icache := c\<rparr>) = vol s" by (simp add: vol_def b ls fun_eq_iff)
  show "fs H W (s\<lparr>icache := c\<rparr>) = fs H W s" by (simp add: fs_def l ls)
  show "open_sec H (s\<lparr>icache := c\<rparr>) = open_sec H s" by (simp add: open_sec_def ls fun_eq_iff)
  show "settled (s\<lparr>icache := c\<rparr>) = settled s" by (simp add: settled_def fun_eq_iff)
qed

lemma woken_fs [simp]:
  fixes s :: "'z fstate_scheme"
  shows "blk (woken c s) = blk s" "linv H (woken c s) = linv H s" "log_sectors (woken c s) = log_sectors s"
    "logged (woken c s) = logged s" "vol (woken c s) = vol s" "fs H W (woken c s) = fs H W s"
    "open_sec H (woken c s) = open_sec H s" "settled (woken c s) = settled s" "icache (woken c s) = icache s"
proof -
  have f: "log_start (woken c s) = log_start s" "log_size (woken c s) = log_size s" "log_dev (woken c s) = log_dev s"
    "lh_n (woken c s) = lh_n s" "lh_sector (woken c s) = lh_sector s" "log_busy (woken c s) = log_busy s"
    by (simp_all add: woken_def)
  show b: "blk (woken c s) = blk s" by (rule ext, rule blk_cong) simp_all
  show ls: "log_sectors (woken c s) = log_sectors s" "logged (woken c s) = logged s"
    by (simp_all add: logged_def log_sectors_def f)
  show l: "linv H (woken c s) = linv H s" by (simp add: linv_def cinv_def b ls dirties_def f)
  show "vol (woken c s) = vol s" by (simp add: vol_def b ls fun_eq_iff)
  show "fs H W (woken c s) = fs H W s" by (simp add: fs_def l ls f)
  show "open_sec H (woken c s) = open_sec H s" by (simp add: open_sec_def ls fun_eq_iff)
  show "settled (woken c s) = settled s" by (simp add: settled_def fun_eq_iff f)
  show "icache (woken c s) = icache s" by (simp add: woken_def)
qed

lemma keeps_icache: "keeps H (s :: 'z fstate_scheme) t \<Longrightarrow> icache t = icache s"
  using keepsD(4) [of H s t] by (cases s, cases t) simp

lemma wp_igets [simp]: "wp (igets ip f) Q s = Q (f (icache s ip)) s"
  by (simp add: igets_def)

lemma bind_igets: "bind (igets ip f) g s = g (f (icache s ip)) s"
  by (simp add: igets_def bind_def)

lemma wp_iset [simp]: "wp (iset ip f) Q s = Q () (s\<lparr>icache := (icache s)(ip := f (icache s ip))\<rparr>)"
  by (simp add: iset_def)

section \<open>File contents\<close>

definition faddr :: "(u32 \<Rightarrow> bytes) \<Rightarrow> inode \<Rightarrow> nat \<Rightarrow> u32" where
  "faddr v i bn = (if bn < NDIRECT then addrs i ! bn else ptr_at (bn - NDIRECT) (v (addrs i ! NDIRECT)))"

text \<open>The \<open>n\<close> bytes of a file from offset \<open>off\<close>.\<close>

definition fbytes :: "(u32 \<Rightarrow> bytes) \<Rightarrow> inode \<Rightarrow> nat \<Rightarrow> nat \<Rightarrow> bytes" where
  "fbytes v i off n = map (\<lambda>k. v (faddr v i (k div BSIZE)) ! (k mod BSIZE)) [off..<off + n]"

text \<open>The first \<open>nb\<close> blocks of the file are allocated and can be read.\<close>

definition solid :: "nat set \<Rightarrow> 'z lstate_scheme \<Rightarrow> inode \<Rightarrow> nat \<Rightarrow> bool" where
  "solid H s i nb \<longleftrightarrow> idev i = 1 \<and> nb \<le> MAXFILE \<and>
     (\<forall>bn < nb. faddr (vol s) i bn \<noteq> 0 \<and> open_sec H s (faddr (vol s) i bn)) \<and>
     (NDIRECT < nb \<longrightarrow> addrs i ! NDIRECT \<noteq> 0 \<and> open_sec H s (addrs i ! NDIRECT))"

lemma solid_keeps: "keeps H s t \<Longrightarrow> vol t = vol s \<Longrightarrow> solid H t i nb = solid H s i nb"
  by (simp add: solid_def open_sec_keeps)

lemma length_fbytes [simp]: "length (fbytes v i off n) = n"
  by (simp add: fbytes_def)

lemma fbytes_append: "fbytes v i off (m + n) = fbytes v i off m @ fbytes v i (off + m) n"
  using upt_add_eq_append [of off "off + m" n] by (simp add: fbytes_def add.assoc)

lemma block_index:
  fixes off k B :: nat
  assumes "off mod B + k < B"
  shows "(off + k) div B = off div B" "(off + k) mod B = off mod B + k"
proof -
  have e: "off + k = (off mod B + k) + off div B * B" by (simp add: algebra_simps)
  have "B \<noteq> 0" using assms by auto
  then show "(off + k) div B = off div B"
    using arg_cong [OF e, of "\<lambda>x. x div B"] div_mult_self1 [of B "off mod B + k" "off div B"] div_less [OF assms] by linarith
  show "(off + k) mod B = off mod B + k"
    using arg_cong [OF e, of "\<lambda>x. x mod B"] mod_mult_self1 [of "off mod B + k" "off div B" B] mod_less [OF assms] by linarith
qed

lemma fbytes_block:
  assumes "off mod BSIZE + m \<le> BSIZE" "length (v (faddr v i (off div BSIZE))) = BSIZE"
  shows "slice (off mod BSIZE) m (v (faddr v i (off div BSIZE))) = fbytes v i off m"
proof (rule nth_equalityI)
  show "length (slice (off mod BSIZE) m (v (faddr v i (off div BSIZE)))) = length (fbytes v i off m)" using assms by simp
  fix k assume "k < length (slice (off mod BSIZE) m (v (faddr v i (off div BSIZE))))"
  then have k: "k < m" "off mod BSIZE + k < BSIZE" using assms by simp_all
  have "(off + k) div BSIZE = off div BSIZE" "(off + k) mod BSIZE = off mod BSIZE + k"
    using block_index [OF k(2)] by simp_all
  then show "slice (off mod BSIZE) m (v (faddr v i (off div BSIZE))) ! k = fbytes v i off m ! k"
    using assms k(1) by (simp add: nth_slice fbytes_def)
qed

lemma bmap_fs:
  assumes F: "fs H W s" "card H \<le> 1" and so: "solid H s (icache s ip) nb" "bn < nb"
    and Q: "\<And>t. \<lbrakk>fs H W t; keeps H s t; vol t = vol s\<rbrakk> \<Longrightarrow> Q (faddr (vol s) (icache s ip) bn) t"
  shows "wp (bmap ip bn) Q s"
proof -
  let ?i = "icache s ip"
  have b: "bn < NDIRECT + NINDIRECT" "idev ?i = 1" "faddr (vol s) ?i bn \<noteq> 0" using so by (simp_all add: solid_def MAXFILE_def)
  show ?thesis
  proof (cases "bn < NDIRECT")
    case True
    then show ?thesis using b(3) Q [OF F(1)] by (simp add: bmap_def balloc_slot_def faddr_def)
  next
    case False
    then have ind: "addrs ?i ! NDIRECT \<noteq> 0" "open_sec H s (addrs ?i ! NDIRECT)" using so by (auto simp: solid_def)
    have lt: "bn - NDIRECT < NINDIRECT" using False b(1) by simp
    have p: "ptr_at (bn - NDIRECT) (vol s (addrs ?i ! NDIRECT)) = faddr (vol s) ?i bn" using False by (simp add: faddr_def)
    let ?m = "bind (bread 1 (addrs ?i ! NDIRECT)) (\<lambda>bp.
        bind (gets (\<lambda>s. ptr_at (bn - NDIRECT) (bdata (bufs s bp)))) (\<lambda>addr.
        if addr = 0 then bind (balloc 1) (\<lambda>addr. seqk (bmod bp (put_ptr (bn - NDIRECT) addr))
           (seqk (log_write bp) (seqk (brelse bp) (ret addr)))) else seqk (brelse bp) (ret addr)))"
    have "bmap ip bn s = ?m s"
      using False lt ind b(2) by (simp add: bmap_def balloc_slot_def Let_def bind_def igets_def)
    moreover have "wp ?m Q s"
      unfolding wp_bind
    proof (rule bread_fs [OF F ind(2)])
      fix c t assume t: "c \<notin> H" "fs (insert c H) W t" "keeps H s t" "vol t = vol s"
        "bsector (bufs t c) = addrs ?i ! NDIRECT" "settled t c"
      have d: "ptr_at (bn - NDIRECT) (bdata (bufs t c)) = faddr (vol s) ?i bn"
        using fs_held(1) [OF t(2), of c] t(4,5) p by simp
      show "wp (gets (\<lambda>s. ptr_at (bn - NDIRECT) (bdata (bufs s c)))) (\<lambda>addr.
        wp (if addr = 0 then bind (balloc 1) (\<lambda>addr. seqk (bmod c (put_ptr (bn - NDIRECT) addr))
           (seqk (log_write c) (seqk (brelse c) (ret addr)))) else seqk (brelse c) (ret addr)) Q) t"
        unfolding wp_gets d wp_if
        using b(3) by (simp, intro brelse_fs [OF t(2) insertI1 t(6)])
          (use t(1,3,4) Q keeps_trans [OF t(3)] in simp)
    qed
    ultimately show ?thesis by (simp add: wp_def)
  qed
qed

lemma readi_loop_fs:
  assumes "fs H W s" "card H \<le> 1" "solid H s (icache s ip) nb" "off + n \<le> nb * BSIZE"
    and "\<And>t. \<lbrakk>fs H W t; keeps H s t; vol t = vol s\<rbrakk> \<Longrightarrow> Q (fbytes (vol s) (icache s ip) off n) t"
  shows "wp (readi_loop ip off n) Q s"
  using assms
proof (induction ip off n arbitrary: s Q rule: readi_loop.induct)
  case (1 ip off n)
  note F = "1.prems"(1,2) and so = "1.prems"(3) and Q = "1.prems"(5)
  let ?i = "icache s ip" and ?m = "min n (BSIZE - off mod BSIZE)"
  show ?case
  proof (cases "n = 0")
    case True
    then show ?thesis using Q [OF F(1)] by (simp add: fbytes_def readi_loop.simps)
  next
    case False
    have B: "0 < BSIZE" by (simp add: BSIZE_def)
    have bn: "off div BSIZE < nb" using "1.prems"(4) False B by (simp add: less_mult_imp_div_less)
    let ?a = "faddr (vol s) ?i (off div BSIZE)"
    have dev: "idev ?i = 1" and op: "open_sec H s ?a" using so bn by (auto simp: solid_def)
    have m: "off mod BSIZE + ?m \<le> BSIZE" using mod_less_divisor [OF B, of off] by simp
    have d: "slice (off mod BSIZE) ?m (vol s ?a) = fbytes (vol s) ?i off ?m"
      by (rule fbytes_block [OF m]) (use op length_vol [OF F(1)] in \<open>simp add: open_sec_def\<close>)
    have f: "fbytes (vol s) ?i off ?m @ fbytes (vol s) ?i (off + ?m) (n - ?m) = fbytes (vol s) ?i off n"
      using fbytes_append [of "vol s" ?i off ?m "n - ?m"] by simp
    show ?thesis
      unfolding readi_loop.simps [of ip off n] if_not_P [OF False] wp_bind wp_igets
    proof (rule bmap_fs [OF F so bn])
      fix t assume t: "fs H W t" "keeps H s t" "vol t = vol s"
      have it: "icache t = icache s" by (rule keeps_icache [OF t(2)])
      have op': "open_sec H t ?a" using op open_sec_keeps [OF t(2)] by simp
      show "wp (bread (idev (icache t ip)) ?a) (\<lambda>bp. wp (gets (\<lambda>s. slice (off mod BSIZE) ?m (bdata (bufs s bp)))) (\<lambda>xs.
         wp (seqk (brelse bp) (bind (readi_loop ip (off + ?m) (n - ?m)) (\<lambda>ys. ret (xs @ ys)))) Q)) t"
        unfolding it dev wp_bind [symmetric]
      proof (rule read_fs [OF t(1) F(2) op'])
        fix u assume u: "fs H W u" "keeps H t u" "vol u = vol t"
        note su = keeps_trans [OF t(2) u(2)]
        have vu: "vol u = vol s" "icache u = icache s" using u(3) t(3) keeps_icache [OF su] by simp_all
        show "wp (bind (readi_loop ip (off + ?m) (n - ?m)) (\<lambda>ys. ret (slice (off mod BSIZE) ?m (vol t ?a) @ ys))) Q u"
          unfolding t(3) d wp_bind wp_ret
          by (rule "1.IH" [OF False])
            (use F u(1) so "1.prems"(4) vu Q f keeps_trans [OF su] solid_keeps [OF su vu(1)] in simp_all)
      qed
    qed
  qed
qed

lemma MAXFILE_bytes: "MAXFILE * BSIZE = 70656"
  by (simp add: MAXFILE_def NDIRECT_def NINDIRECT_def BSIZE_def)

lemma solid_bytes: "solid H s i nb \<Longrightarrow> m \<le> nb * BSIZE \<Longrightarrow> m \<le> 70656"
  using MAXFILE_bytes by (metis solid_def mult_le_mono1 order_trans)

lemma sint_small: "unat (w :: u32) < 2 ^ 31 \<Longrightarrow> sint w = int (unat w)"
  using sint_of_nat [of "unat w"] by simp

lemma readi_fs:
  assumes F: "fs H W s" "card H \<le> 1" and so: "solid H s i nb" "unat (isize i) \<le> nb * BSIZE" "itype i \<noteq> T_DEV"
    and i: "i = icache s ip" and o: "off \<le> isize i" "unat off + unat n < 2 ^ 32"
    and m: "m = min (unat n) (unat (isize i) - unat off)"
    and Q: "\<And>t. \<lbrakk>fs H W t; keeps H s t; vol t = vol s\<rbrakk> \<Longrightarrow> Q (int m, fbytes (vol s) i (unat off) m) t"
  shows "wp (readi dv ip off n) Q s"
proof -
  have le: "unat off \<le> unat (isize i)" using o(1) by (simp add: word_le_nat_alt)
  have sum: "unat (off + n) = unat off + unat n" using o(2) by (simp add: unat_word_ariths)
  define k where "k = (if off + n > isize i then isize i - off else n)"
  have k: "unat k = m" using le sum m by (auto simp: k_def word_less_nat_alt unat_sub_if')
  have mb: "m < 2 ^ 31" using m solid_bytes [OF so(1,2)] by simp
  have c: "\<not> (off > isize i \<or> off + n < off)" using le sum by (auto simp: word_less_nat_alt)
  have bound: "unat off + m \<le> nb * BSIZE" using le so(2) unfolding m by linarith
  have "wp (readi_loop ip (unat off) m) (\<lambda>xs. Q (int m, xs)) s"
    by (rule readi_loop_fs [OF F so(1) [unfolded i] bound]) (rule Q [unfolded i])
  then show ?thesis
    using so(3) c sint_small [of k] k mb
    by (simp add: readi_def Let_def i [symmetric] k_def [symmetric] wp_fun)
qed

text \<open>The checksum of a sequence of bytes: the exclusive or of its words, the last one padded with zeros.\<close>

function cksum :: "bytes \<Rightarrow> u32" where
  "cksum bs = (if bs = [] then 0 else de32 (take 4 (bs @ [0, 0, 0])) XOR cksum (drop 4 bs))"
  by pat_completeness auto
termination
  by (relation "measure length") auto

declare cksum.simps [simp del]

lemma cksum_append: "4 dvd length xs \<Longrightarrow> cksum (xs @ ys) = cksum xs XOR cksum ys"
proof (induction xs rule: cksum.induct)
  case (1 xs)
  show ?case
  proof (cases "xs = []")
    case False
    then have l: "4 \<le> length xs" using "1.prems" by (simp add: dvd_imp_le)
    then have "cksum (drop 4 xs @ ys) = cksum (drop 4 xs) XOR cksum ys" using "1.IH" [OF False] "1.prems" by simp
    then show ?thesis using False l cksum.simps [of "xs @ ys"] cksum.simps [of xs] by (simp add: ac_simps)
  qed (simp add: cksum.simps)
qed

lemma de32_zeros: "de32 (replicate n 0) = 0"
proof -
  have "a = 0 \<and> b = 0 \<and> c = 0 \<and> d = 0" if "replicate n 0 = a # b # c # d # xs" for a b c d :: byte and xs
    using set_replicate_conv_if [of n "0 :: byte"] that by (auto split: if_splits)
  then show ?thesis by (fastforce simp: de32_def split: list.split)
qed

lemma cksum_zeros: "cksum (replicate n 0) = 0"
proof (induction n rule: less_induct)
  case (less n)
  have "take 4 (replicate n 0 @ [0, 0, 0]) = (replicate (min 4 (n + 3)) 0 :: bytes)"
    by (rule nth_equalityI) (auto simp: nth_append nth_Cons' numeral_eq_Suc)
  then show ?case using less.IH [of "n - 4"] by (subst cksum.simps) (simp add: de32_zeros)
qed

lemma cksum_pad: "cksum (xs @ replicate n 0) = cksum xs"
proof (induction xs rule: cksum.induct)
  case (1 xs)
  show ?case
  proof (cases "xs = []")
    case True
    then show ?thesis by (simp add: cksum_zeros cksum.simps [of "[]"])
  next
    case False
    then obtain k where k: "length xs = Suc k" by (cases xs) simp_all
    have "take 4 ((xs @ replicate n 0) @ [0, 0, 0]) = take 4 (xs @ [0, 0, 0])"
    proof (rule nth_equalityI)
      show "length (take 4 ((xs @ replicate n 0) @ [0, 0, 0])) = length (take 4 (xs @ [0, 0, 0]))" by (simp add: k)
      fix j assume "j < length (take 4 ((xs @ replicate n 0) @ [0, 0, 0 :: byte]))"
      then have "j < 4" by simp
      then show "take 4 ((xs @ replicate n 0) @ [0, 0, 0]) ! j = take 4 (xs @ [0, 0, 0]) ! j"
        by (auto simp: k nth_append nth_Cons')
    qed
    moreover have "cksum (drop 4 xs @ replicate (n - (4 - length xs)) 0) = cksum (drop 4 xs)"
      using "1.IH" [OF False] by (cases "length xs \<le> 4") (simp_all add: cksum_zeros cksum.simps [of "[]"])
    ultimately show ?thesis using False cksum.simps [of "xs @ replicate n 0"] cksum.simps [of xs] by simp
  qed
qed

lemma xor_words_cksum: "4 * k \<le> length bs \<Longrightarrow> xor_words k bs c = c XOR cksum (take (4 * k) bs)"
proof (induction k)
  case 0
  show ?case by (simp add: xor_words_def cksum.simps [of "[]"])
next
  case (Suc k)
  have w: "cksum (slice (4 * k) 4 bs) = de32 (slice (4 * k) 4 bs)"
  proof -
    have "length (slice (4 * k) 4 bs) = 4" using Suc.prems by simp
    then show ?thesis by (subst cksum.simps) (auto simp: cksum.simps [of "[]"])
  qed
  have "take (4 * Suc k) bs = take (4 * k) bs @ slice (4 * k) 4 bs"
    unfolding slice_def take_add [symmetric] by (simp add: add.commute)
  then have "cksum (take (4 * Suc k) bs) = cksum (take (4 * k) bs) XOR de32 (slice (4 * k) 4 bs)"
    using Suc.prems cksum_append [of "take (4 * k) bs"] w by simp
  then show ?case using Suc by (simp add: xor_words_def ac_simps)
qed

lemma xor_words_buffer:
  assumes "length xs \<le> 2048"
  shows "xor_words 512 (splice 0 xs (replicate 2048 0)) c = c XOR cksum xs"
  using assms xor_words_cksum [of 512 "splice 0 xs (replicate 2048 0)" c] cksum_pad [of xs "2048 - length xs"]
  by (simp add: splice_def)

lemma ichecksum_loop_fs:
  assumes "fs H W s" "card H \<le> 1" "solid H s i nb" "unat (isize i) \<le> nb * BSIZE" "itype i \<noteq> T_DEV" "i = icache s ip"
    and "off \<le> isize i" "unat (isize i) - unat off \<le> (k - 1) * 2048" "0 < k"
    and "\<And>t. \<lbrakk>fs H W t; keeps H s t; vol t = vol s\<rbrakk> \<Longrightarrow>
      Q (c XOR cksum (fbytes (vol s) i (unat off) (unat (isize i) - unat off))) t"
  shows "wp (ichecksum_loop k dv ip off c) Q s"
  using assms
proof (induction k arbitrary: s off c)
  case 0
  then show ?case by simp
next
  case (Suc k)
  let ?r = "unat (isize i) - unat off"
  define m where "m = min 2048 ?r"
  have small: "unat off + 2048 < 2 ^ 32"
    using Suc.prems(7) solid_bytes [OF Suc.prems(3,4)] by (simp add: word_le_nat_alt)
  have m': "m = min (unat (2048 :: u32)) ?r" by (simp add: m_def)
  show ?case
    unfolding ichecksum_loop.simps(2) [of k] wp_bind
  proof (rule readi_fs [OF Suc.prems(1-6,7) _ m'])
    show "unat off + unat (2048 :: u32) < 2 ^ 32" using small by simp
    fix t assume t: "fs H W t" "keeps H s t" "vol t = vol s"
    let ?xs = "fbytes (vol s) i (unat off) m"
    have um: "unat (word_of_int (int m) :: u32) = m" by (simp add: m_def unsigned_of_nat take_bit_nat_eq_self)
    have x: "xor_words 512 (splice 0 ?xs (replicate 2048 0)) c = c XOR cksum ?xs"
      by (rule xor_words_buffer) (simp add: m_def)
    show "wp (case (int m, ?xs) of (r, xs) \<Rightarrow> if (0 :: u32) < word_of_int r
        then ichecksum_loop k dv ip (off + word_of_int r) (xor_words 512 (splice 0 xs (replicate 2048 0)) c) else ret c) Q t"
    proof (cases "?r = 0")
      case True
      then show ?thesis using Suc.prems(10) [OF t] by (simp add: m_def fbytes_def cksum.simps [of "[]"])
    next
      case False
      then have pos: "(0 :: u32) < word_of_int (int m)" using um by (simp add: word_less_nat_alt m_def del: of_int_of_nat_eq)
      have uo: "unat (off + word_of_int (int m)) = unat off + m"
        using small um by (simp add: unat_word_ariths m_def del: of_int_of_nat_eq)
      have o': "off + word_of_int (int m) \<le> isize i" using uo False by (auto simp: word_le_nat_alt m_def)
      have rest: "unat (isize i) - unat (off + word_of_int (int m)) = ?r - m" using uo by simp
      have it: "i = icache t ip" using keeps_icache [OF t(2)] Suc.prems(6) by simp
      note IH = Suc.IH [OF t(1) Suc.prems(2) _ Suc.prems(4,5) it o']
      have d: "c XOR cksum (fbytes (vol s) i (unat off) ?r) = (c XOR cksum ?xs) XOR cksum (fbytes (vol s) i (unat off + m) (?r - m))"
      proof (cases "m = 2048")
        case True
        then have "fbytes (vol s) i (unat off) ?r = ?xs @ fbytes (vol s) i (unat off + m) (?r - m)"
          using fbytes_append [of "vol s" i "unat off" m "?r - m"] by (simp add: m_def)
        then show ?thesis using True cksum_append [of ?xs] by (simp add: ac_simps)
      next
        case False
        then have "m = ?r" by (auto simp: m_def)
        then show ?thesis by (simp add: fbytes_def cksum.simps [of "[]"])
      qed
      have k: "0 < k" "?r - m \<le> (k - 1) * 2048" using False Suc.prems(8) by (cases k; simp add: m_def)+
      show ?thesis
        using pos by (simp add: x del: of_int_of_nat_eq ichecksum_loop.simps, intro IH)
          (use Suc.prems(3,10) t rest uo d solid_keeps [OF t(2,3)] keeps_trans [OF t(2)] k in
            \<open>simp_all del: of_int_of_nat_eq\<close>)
    qed
  qed
qed

definition fcontent :: "(u32 \<Rightarrow> bytes) \<Rightarrow> inode \<Rightarrow> bytes" where
  "fcontent v i = fbytes v i 0 (unat (isize i))"

text \<open>What \<open>ichecksum\<close> computes: nothing for a device, the checksum of the contents otherwise.\<close>

definition checksum_of :: "(u32 \<Rightarrow> bytes) \<Rightarrow> inode \<Rightarrow> u32" where
  "checksum_of v i = (if itype i = T_DEV then 0 else cksum (fcontent v i))"

definition whole :: "nat set \<Rightarrow> 'z lstate_scheme \<Rightarrow> inode \<Rightarrow> bool" where
  "whole H s i \<longleftrightarrow> itype i = T_DEV \<or> unat (isize i) \<le> MAXFILE * BSIZE \<and> solid H s i ((unat (isize i) + BSIZE - 1) div BSIZE)"

lemma whole_bytes: "unat (isize i) \<le> (unat (isize i) + BSIZE - 1) div BSIZE * BSIZE"
  using div_mult_mod_eq [of "unat (isize i) + BSIZE - 1" BSIZE] mod_less_divisor [of BSIZE "unat (isize i) + BSIZE - 1"]
  by (simp add: BSIZE_def)

lemma ichecksum_fs:
  assumes F: "fs H W s" "card H \<le> 1" and w: "whole H s (icache s ip)"
    and Q: "\<And>t. \<lbrakk>fs H W t; keeps H s t; vol t = vol s\<rbrakk> \<Longrightarrow> Q (checksum_of (vol s) (icache s ip)) t"
  shows "wp (ichecksum dv ip) Q s"
proof (cases "itype (icache s ip) = T_DEV")
  case True
  then show ?thesis using Q [OF F(1)] by (simp add: ichecksum_def checksum_of_def)
next
  case False
  let ?i = "icache s ip"
  have so: "solid H s ?i ((unat (isize ?i) + BSIZE - 1) div BSIZE)" "unat (isize ?i) \<le> 70656"
    using w False MAXFILE_bytes by (simp_all add: whole_def)
  have "wp (ichecksum_loop 40 dv ip 0 0) Q s"
    by (rule ichecksum_loop_fs [OF F so(1) whole_bytes False refl])
      (use so(2) Q False in \<open>simp_all add: checksum_of_def fcontent_def\<close>)
  then show ?thesis using False by (simp add: ichecksum_def)
qed

section \<open>Locking inodes\<close>

lemma iflag_bits: "iflag I_BUSY i \<longleftrightarrow> bit (iflags i) 0" "iflag I_VALID i \<longleftrightarrow> bit (iflags i) 1"
  using and_exp_eq_0_iff_not_bit [of "iflags i" 0] and_exp_eq_0_iff_not_bit [of "iflags i" 1]
  by (simp_all add: iflag_def I_BUSY_def I_VALID_def)

lemma iflag_simps [simp]:
  "iflag I_BUSY (i\<lparr>iflags := w OR I_BUSY\<rparr>)" "iflag I_VALID (i\<lparr>iflags := w OR I_BUSY\<rparr>) = iflag I_VALID (i\<lparr>iflags := w\<rparr>)"
  "iflag I_VALID (i\<lparr>iflags := w OR I_VALID\<rparr>)" "iflag I_BUSY (i\<lparr>iflags := w OR I_VALID\<rparr>) = iflag I_BUSY (i\<lparr>iflags := w\<rparr>)"
  "\<not> iflag I_BUSY (i\<lparr>iflags := w AND NOT I_BUSY\<rparr>)"
  "iflag I_VALID (i\<lparr>iflags := w AND NOT I_BUSY\<rparr>) = iflag I_VALID (i\<lparr>iflags := w\<rparr>)"
  "\<not> iflag m (i\<lparr>iflags := 0\<rparr>)"
  "iflag m (load_inode d i) = iflag m i"
proof -
  have b: "bit I_BUSY 0" "\<not> bit I_BUSY 1" "bit I_VALID 1" "\<not> bit I_VALID 0" by (simp_all add: I_BUSY_def I_VALID_def)
  show "iflag I_BUSY (i\<lparr>iflags := w OR I_BUSY\<rparr>)" "iflag I_VALID (i\<lparr>iflags := w OR I_BUSY\<rparr>) = iflag I_VALID (i\<lparr>iflags := w\<rparr>)"
    "iflag I_VALID (i\<lparr>iflags := w OR I_VALID\<rparr>)" "iflag I_BUSY (i\<lparr>iflags := w OR I_VALID\<rparr>) = iflag I_BUSY (i\<lparr>iflags := w\<rparr>)"
    "\<not> iflag I_BUSY (i\<lparr>iflags := w AND NOT I_BUSY\<rparr>)"
    "iflag I_VALID (i\<lparr>iflags := w AND NOT I_BUSY\<rparr>) = iflag I_VALID (i\<lparr>iflags := w\<rparr>)"
    unfolding iflag_bits using b by (simp_all add: bit_simps)
  show "\<not> iflag m (i\<lparr>iflags := 0\<rparr>)" "iflag m (load_inode d i) = iflag m i"
    by (simp_all add: iflag_def load_inode_def)
qed

lemma iflag_same: "iflag m (j\<lparr>iflags := iflags i\<rparr>) = iflag m i"
  by (simp add: iflag_def)

text \<open>Everything but the inode cache is kept.\<close>

definition moves :: "nat set \<Rightarrow> 'z fstate_scheme \<Rightarrow> 'z fstate_scheme \<Rightarrow> bool" where
  "moves H s t \<longleftrightarrow> keeps H (s\<lparr>icache := icache t\<rparr>) t"

lemma keeps_upd:
  fixes s t :: "'z fstate_scheme"
  assumes "keeps H s t"
  shows "keeps H (s\<lparr>icache := c\<rparr>) (t\<lparr>icache := c\<rparr>)"
proof -
  have "lbeyond (s\<lparr>icache := c\<rparr>) (t\<lparr>icache := c\<rparr>)"
    using keepsD(1) [OF assms] by (cases s, cases t) (simp add: lbeyond_def awakened_def)
  then show ?thesis using assms by (simp add: keeps_def)
qed

lemma keeps_moves: "keeps H s t \<Longrightarrow> moves H s t"
  using keeps_icache [of H s t] by (simp add: moves_def)

lemma moves_refl [simp]: "moves H s s"
  by (simp add: moves_def)

lemma moves_trans:
  assumes "moves H s t" "moves H t u"
  shows "moves H s u"
  using keeps_trans [OF keeps_upd [of H "s\<lparr>icache := icache t\<rparr>" t "icache u"] ] assms by (simp add: moves_def)

lemma moves_iset [simp]: "moves H s (s\<lparr>icache := c\<rparr>)"
  by (simp add: moves_def)

lemma moves_woken [simp]: "moves H s (woken c s)"
proof -
  have "lbeyond (s\<lparr>icache := icache s\<rparr>) (woken c s)"
    using woken_awakened [of s c] by (simp add: lbeyond_def woken_def)
  then show ?thesis by (simp add: moves_def keeps_def)
qed

lemma movesD:
  assumes "moves H s t"
  shows "open_sec H t = open_sec H s" "log_sectors t = log_sectors s" "disksize t = disksize s" "cli_ok t = cli_ok s"
    "lock_free l t = lock_free l s" "awakened (s\<lparr>icache := icache t\<rparr>) t"
proof -
  note k = assms [unfolded moves_def]
  show "open_sec H t = open_sec H s" using open_sec_keeps [OF k] by (simp add: fun_eq_iff)
  show "log_sectors t = log_sectors s" "disksize t = disksize s" using keepsD(2,3) [OF k] by simp_all
  show "cli_ok t = cli_ok s" "lock_free l t = lock_free l s" using awakened_frame [OF keepsD(8) [OF k]] by simp_all
  show "awakened (s\<lparr>icache := icache t\<rparr>) t" by (rule keepsD(8) [OF k])
qed

lemma whole_moves: "moves H s t \<Longrightarrow> vol t = vol s \<Longrightarrow> whole H t i = whole H s i"
  by (simp add: whole_def solid_def movesD(1))

lemma fs_free: "fs H W s \<Longrightarrow> cli_ok s" "fs H W s \<Longrightarrow> lock_free Lk_ptable s"
  using cinvD(1,3) [OF linvD(1) [OF fsD(1)]] by blast+

lemma held_icache [simp]:
  "icache (held l s) = icache s" "(held l s)\<lparr>icache := c\<rparr> = held l (s\<lparr>icache := c\<rparr>)"
  by (simp_all add: held_def upd_lock_def upd_mycpu_def)

lemma iget_cached:
  assumes "cli_ok s" "lock_free Lk_icache s"
    "List.find (\<lambda>i. iref (icache s i) > 0 \<and> idev (icache s i) = dev \<and> inum (icache s i) = n) [0..<NINODE] = Some ip"
  shows "iget dev n s = Done ip (s\<lparr>icache := (icache s)(ip := (icache s ip)\<lparr>iref := iref (icache s ip) + 1\<rparr>)\<rparr>)"
  using assms by (simp add: iget_def iset_def seqk_def bind_def acquire_free)

lemma iget_fresh:
  assumes "cli_ok s" "lock_free Lk_icache s"
    "List.find (\<lambda>i. iref (icache s i) > 0 \<and> idev (icache s i) = dev \<and> inum (icache s i) = n) [0..<NINODE] = None"
    "List.find (\<lambda>i. iref (icache s i) = 0) [0..<NINODE] = Some ip"
  shows "iget dev n s = Done ip (s\<lparr>icache := (icache s)(ip := (icache s ip)\<lparr>idev := dev, inum := n, iref := 1, iflags := 0\<rparr>)\<rparr>)"
  using assms by (simp add: iget_def iset_def seqk_def bind_def acquire_free)

lemma iunlock_eq:
  assumes "cli_ok s" "lock_free Lk_icache s" "lock_free Lk_ptable s" "iflag I_BUSY (icache s ip)" "1 \<le> iref (icache s ip)"
  shows "iunlock (Some ip) s =
    Done () (woken (Some (Ch_inode ip)) (s\<lparr>icache := (icache s)(ip := (icache s ip)\<lparr>iflags := iflags (icache s ip) AND NOT I_BUSY\<rparr>)\<rparr>))"
  using assms by (simp add: iunlock_def igets_def iset_def seqk_def bind_def acquire_free wakeup_eq)

lemma iunlock_fs:
  assumes "fs H W s" "lock_free Lk_icache s" "iflag I_BUSY (icache s ip)" "1 \<le> iref (icache s ip)"
    and "\<And>t. \<lbrakk>fs H W t; moves H s t; vol t = vol s;
      icache t = (icache s)(ip := (icache s ip)\<lparr>iflags := iflags (icache s ip) AND NOT I_BUSY\<rparr>)\<rbrakk> \<Longrightarrow> Q () t"
  shows "wp (iunlock (Some ip)) Q s"
  unfolding wp_Done [of "iunlock (Some ip)", OF iunlock_eq [OF fs_free(1) [OF assms(1)] assms(2) fs_free(2) [OF assms(1)] assms(3,4)]]
  by (rule assms(5)) (use assms(1) in \<open>auto intro: moves_trans [OF moves_iset moves_woken]\<close>)

lemma ilock_busy_eq:
  assumes "cli_ok s" "lock_free Lk_icache s" "\<not> iflag I_BUSY (icache s ip)"
  shows "seqk (acquire Lk_icache) (ilock_busy ip) s =
    Done () (s\<lparr>icache := (icache s)(ip := (icache s ip)\<lparr>iflags := iflags (icache s ip) OR I_BUSY\<rparr>)\<rparr>)"
  using assms by (simp add: ilock_busy_def igets_def iset_def seqk_def bind_def acquire_free)

text \<open>The on-disk inode with a number.\<close>

definition dinode_at :: "(u32 \<Rightarrow> bytes) \<Rightarrow> u32 \<Rightarrow> dinode" where
  "dinode_at v n = de_dinode (slice (ioff n) 64 (v (IBLOCK n)))"

lemma ilock_load_fs:
  assumes F: "fs H W s" "card H \<le> 1" and i: "idev (icache s ip) = 1" "open_sec H s (IBLOCK (inum (icache s ip)))"
    and Q: "\<And>t. \<lbrakk>fs H W t; moves H s t; vol t = vol s;
      icache t = (icache s)(ip := load_inode (dinode_at (vol s) (inum (icache s ip))) (icache s ip))\<rbrakk> \<Longrightarrow> Q () t"
  shows "wp (ilock_load ip) Q s"
proof -
  let ?n = "inum (icache s ip)"
  have "wp (bread 1 (IBLOCK ?n)) (\<lambda>bp. wp (bind (gets (\<lambda>s. de_dinode (slice (ioff ?n) 64 (bdata (bufs s bp))))) (\<lambda>d.
     seqk (iset ip (load_inode d)) (brelse bp))) Q) s"
  proof (rule bread_fs [OF F i(2)])
    fix b t assume t: "b \<notin> H" "fs (insert b H) W t" "keeps H s t" "vol t = vol s" "bsector (bufs t b) = IBLOCK ?n" "settled t b"
    have it: "icache t = icache s" by (rule keeps_icache [OF t(3)])
    have d: "de_dinode (slice (ioff ?n) 64 (bdata (bufs t b))) = dinode_at (vol s) ?n"
      using fs_held(1) [OF t(2), of b] t(4,5) by (simp add: dinode_at_def)
    let ?u = "t\<lparr>icache := (icache s)(ip := load_inode (dinode_at (vol s) ?n) (icache s ip))\<rparr>"
    have "wp (brelse b) Q ?u"
    proof (rule brelse_fs)
      show "fs (insert b H) W ?u" "b \<in> insert b H" "settled ?u b" using t by simp_all
      fix v assume v: "fs (insert b H - {b}) W v" "keeps (insert b H - {b}) ?u v" "vol v = vol ?u"
      then have k: "keeps H ?u v" using t(1) by simp
      show "Q () v"
        by (rule Q) (use v t(1,4) keeps_icache [OF k] moves_trans [OF keeps_moves [OF t(3)] moves_trans [OF moves_iset keeps_moves [OF k]]] in simp_all)
    qed
    then show "wp (bind (gets (\<lambda>s. de_dinode (slice (ioff ?n) 64 (bdata (bufs s b))))) (\<lambda>d.
       seqk (iset ip (load_inode d)) (brelse b))) Q t"
      by (simp add: d it)
  qed
  then show ?thesis using i(1) by (simp add: ilock_load_def wp_fun)
qed

text \<open>An inode of the cache that is referenced and unlocked, and whose block can be read.\<close>

definition lockable :: "'z fstate_scheme \<Rightarrow> nat \<Rightarrow> bool" where
  "lockable s ip \<longleftrightarrow> 1 \<le> iref (icache s ip) \<and> \<not> iflag I_BUSY (icache s ip) \<and> idev (icache s ip) = 1 \<and>
     open_sec {} s (IBLOCK (inum (icache s ip)))"

definition loaded :: "'z fstate_scheme \<Rightarrow> nat \<Rightarrow> inode" where
  "loaded s ip = load_inode (dinode_at (vol s) (inum (icache s ip))) (icache s ip)"

definition busied :: "inode \<Rightarrow> inode" where
  "busied i = i\<lparr>iflags := iflags i OR I_BUSY\<rparr>"

lemma busied_simps [simp]:
  "iflag I_BUSY (busied i)" "iflag I_VALID (busied i) = iflag I_VALID i" "iref (busied i) = iref i" "idev (busied i) = idev i"
  "inum (busied i) = inum i" "itype (busied i) = itype i" "child1 (busied i) = child1 i" "child2 (busied i) = child2 i"
  "icheck (busied i) = icheck i" "isize (busied i) = isize i" "addrs (busied i) = addrs i" "major (busied i) = major i"
  "iflags (busied i) = iflags i OR I_BUSY"
  by (simp_all add: busied_def)

lemma load_inode_simps [simp]:
  "iref (load_inode d i) = iref i" "idev (load_inode d i) = idev i" "inum (load_inode d i) = inum i"
  "iflags (load_inode d i) = iflags i"
  by (simp_all add: load_inode_def)

lemma load_inode_flags: "load_inode d (i\<lparr>iflags := w\<rparr>) = (load_inode d i)\<lparr>iflags := w\<rparr>"
  by (cases i) (simp add: load_inode_def)

lemma faddr_cong: "addrs i = addrs j \<Longrightarrow> faddr v i = faddr v j"
  by (simp add: faddr_def fun_eq_iff)

lemma fbytes_cong: "addrs i = addrs j \<Longrightarrow> fbytes v i = fbytes v j"
  by (simp add: fbytes_def fun_eq_iff faddr_cong [of i j])

lemma checksum_of_cong:
  "addrs i = addrs j \<Longrightarrow> isize i = isize j \<Longrightarrow> itype i = itype j \<Longrightarrow> checksum_of v i = checksum_of v j"
  by (simp add: checksum_of_def fcontent_def fbytes_cong [of i j])

lemma inode_views [simp]:
  "faddr v (busied i) = faddr v i" "fbytes v (busied i) = fbytes v i" "checksum_of v (busied i) = checksum_of v i"
  "whole H s (busied i) = whole H s i"
proof -
  show f: "faddr v (busied i) = faddr v i" for v by (rule faddr_cong) simp
  show b: "fbytes v (busied i) = fbytes v i" by (simp add: fbytes_def f fun_eq_iff)
  show "checksum_of v (busied i) = checksum_of v i" by (simp add: checksum_of_def fcontent_def b)
  show "whole H s (busied i) = whole H s i" by (simp add: whole_def solid_def f)
qed

lemma ilock_enter:
  fixes s :: "'z fstate_scheme"
  assumes F: "fs {} W s" "lock_free Lk_icache s" and l: "lockable s ip" "\<not> iflag I_VALID (icache s ip)"
    and Q: "\<And>t. \<lbrakk>fs {} W t; moves {} s t; vol t = vol s; icache t = (icache s)(ip := busied (loaded s ip))\<rbrakk> \<Longrightarrow>
      wp (bind (if ck then zc_verify (\<lambda>r. ilock_rec f dv True (Some r)) dv ip [child1, child2] else ret None) (\<lambda>v.
          case v of
            Some r \<Rightarrow> ret r
          | None \<Rightarrow> seqk (iset ip (\<lambda>i. i\<lparr>iflags := iflags i OR I_VALID\<rparr>))
             (bind (igets ip itype) (\<lambda>ty. if ty = 0 then panic ''ilock: no type'' else ret 0)))) Q t"
  shows "wp (ilock_rec (Suc f) dv ck (Some ip)) Q s"
proof -
  let ?i = "icache s ip"
  let ?s1 = "s\<lparr>icache := (icache s)(ip := ?i\<lparr>iflags := iflags ?i OR I_BUSY\<rparr>)\<rparr>"
  let ?m = "bind (if ck then zc_verify (\<lambda>r. ilock_rec f dv True (Some r)) dv ip [child1, child2] else ret None) (\<lambda>v.
          case v of
            Some r \<Rightarrow> ret r
          | None \<Rightarrow> seqk (iset ip (\<lambda>i. i\<lparr>iflags := iflags i OR I_VALID\<rparr>))
             (bind (igets ip itype) (\<lambda>ty. if ty = 0 then panic ''ilock: no type'' else ret 0)))"
  note lk = l(1) [unfolded lockable_def]
  have b: "seqk (acquire Lk_icache) (ilock_busy ip) s = Done () ?s1"
    by (rule ilock_busy_eq) (use fs_free [OF F(1)] F(2) lk in simp_all)
  have "wp (ilock_load ip) (\<lambda>_. wp ?m Q) ?s1"
  proof (rule ilock_load_fs)
    show "fs {} W ?s1" "card ({} :: nat set) \<le> 1" "idev (icache ?s1 ip) = 1" "open_sec {} ?s1 (IBLOCK (inum (icache ?s1 ip)))"
      using F lk by simp_all
    fix t assume t: "fs {} W t" "moves {} ?s1 t" "vol t = vol ?s1"
      "icache t = (icache ?s1)(ip := load_inode (dinode_at (vol ?s1) (inum (icache ?s1 ip))) (icache ?s1 ip))"
    have "icache t = (icache s)(ip := busied (loaded s ip))" using t(4) by (simp add: loaded_def busied_def load_inode_flags)
    then show "wp ?m Q t" using t(1,3) moves_trans [OF moves_iset t(2)] by (intro Q) simp_all
  qed
  moreover have step: "seqk (acquire Lk_icache) (seqk (ilock_busy ip) n) s = n ?s1" for n
    using seqk_Done [of "seqk (acquire Lk_icache) (ilock_busy ip)", OF b] by (simp add: seqk_def bind_assoc)
  have "ilock_rec (Suc f) dv ck (Some ip) s = seqk (ilock_load ip) ?m ?s1"
    using lk l(2) by (simp add: bind_igets step del: zc_verify.simps)
  ultimately show ?thesis unfolding wp_seqk [symmetric] wp_def by simp
qed

definition validated :: "inode \<Rightarrow> inode" where
  "validated i = i\<lparr>iflags := (iflags i OR I_BUSY) OR I_VALID\<rparr>"

definition matches :: "(u32 \<Rightarrow> bytes) \<Rightarrow> inode \<Rightarrow> bool" where
  "matches v i \<longleftrightarrow> checksum_of v i = icheck i"

lemma matches_busied [simp]: "matches v (busied i) = matches v i"
  by (simp add: matches_def)

lemma zc_match:
  assumes "fs {} W s" "whole {} s (icache s ip)" "matches (vol s) (icache s ip)"
    and "\<And>t. \<lbrakk>fs {} W t; keeps {} s t; vol t = vol s\<rbrakk> \<Longrightarrow> Q None t"
  shows "wp (zc_verify lk dv ip chs) Q s"
proof -
  have "wp (ichecksum dv ip) (\<lambda>c. wp (bind (igets ip icheck) (\<lambda>e. if c = e then ret None else m c e)) Q) s"
    for m :: "u32 \<Rightarrow> u32 \<Rightarrow> (int option, 'a fstate_scheme) kop"
    by (rule ichecksum_fs [OF assms(1) _ assms(2)])
      (use assms(3,4) in \<open>auto simp: matches_def dest: keeps_icache\<close>)
  then show ?thesis by (cases chs) (simp_all only: zc_verify.simps wp_bind)
qed

lemma zc_alone:
  assumes F: "fs {} W s" "lock_free Lk_icache s" and i: "whole {} s (icache s ip)" "\<not> matches (vol s) (icache s ip)" "ch (icache s ip) = 0"
    "iflag I_BUSY (icache s ip)" "1 \<le> iref (icache s ip)"
    and Q: "\<And>t. \<lbrakk>fs {} W t; moves {} s t; vol t = vol s;
      icache t = (icache s)(ip := (icache s ip)\<lparr>iflags := iflags (icache s ip) AND NOT I_BUSY\<rparr>)\<rbrakk> \<Longrightarrow> Q (Some E_CORRUPTED) t"
  shows "wp (zc_verify lk dv ip (ch # chs)) Q s"
  unfolding zc_verify.simps wp_bind wp_igets
proof (rule ichecksum_fs [OF F(1) _ i(1)])
  fix t assume t: "fs {} W t" "keeps {} s t" "vol t = vol s"
  have it: "icache t = icache s" by (rule keeps_icache [OF t(2)])
  have "wp (zc_failure ip) Q t"
    unfolding zc_failure_def wp_seqk wp_ret
    by (rule iunlock_fs [OF t(1)])
      (use F(2) i t(3) it Q movesD(5) [OF keeps_moves [OF t(2)]] moves_trans [OF keeps_moves [OF t(2)]] in simp_all)
  then show "wp (if checksum_of (vol s) (icache s ip) = icheck (icache t ip) then ret None
     else bind (igets ip ch) (\<lambda>rinum. if rinum = 0 then zc_failure ip
       else bind (igets ip idev) (\<lambda>dev. bind (iget dev (ucast rinum)) (\<lambda>rinode. bind (lk rinode) (\<lambda>r.
         if r = 0 then seqk (iunlock (Some rinode)) (seqk (iunlock (Some ip)) (ret (Some (uint rinum))))
         else zc_verify lk dv ip chs))))) Q t"
    using i(2,3) by (simp add: it matches_def)
qed simp

lemma ilock_match:
  fixes s :: "'z fstate_scheme"
  assumes F: "fs {} W s" "lock_free Lk_icache s" and l: "lockable s ip" "\<not> iflag I_VALID (icache s ip)"
    and i: "ck \<Longrightarrow> whole {} s (loaded s ip) \<and> matches (vol s) (loaded s ip)" "itype (loaded s ip) \<noteq> 0"
    and Q: "\<And>t. \<lbrakk>fs {} W t; moves {} s t; vol t = vol s; icache t = (icache s)(ip := validated (loaded s ip))\<rbrakk> \<Longrightarrow> Q 0 t"
  shows "wp (ilock_rec (Suc f) dv ck (Some ip)) Q s"
proof (rule ilock_enter [OF F l])
  fix t assume t: "fs {} W t" "moves {} s t" "vol t = vol s" "icache t = (icache s)(ip := busied (loaded s ip))"
  let ?n = "\<lambda>v. case v of Some r \<Rightarrow> ret r
          | None \<Rightarrow> seqk (iset ip (\<lambda>i. i\<lparr>iflags := iflags i OR I_VALID\<rparr>))
             (bind (igets ip itype) (\<lambda>ty. if ty = 0 then panic ''ilock: no type'' else ret 0))"
  have n: "wp (?n None) Q u" if u: "fs {} W u" "keeps {} t u" "vol u = vol t" for u
  proof -
    let ?u = "u\<lparr>icache := (icache s)(ip := validated (loaded s ip))\<rparr>"
    have iu: "icache u = (icache s)(ip := busied (loaded s ip))" using keeps_icache [OF u(2)] t(4) by simp
    have "Q 0 ?u" by (rule Q)
      (use u(1,3) t(3) moves_trans [OF moves_trans [OF t(2) keeps_moves [OF u(2)]] moves_iset] in simp_all)
    then show ?thesis using i(2) by (simp add: iu validated_def busied_def)
  qed
  show "wp (bind (if ck then zc_verify (\<lambda>r. ilock_rec f dv True (Some r)) dv ip [child1, child2] else ret None) ?n) Q t"
  proof (cases ck)
    case True
    have "wp (zc_verify (\<lambda>r. ilock_rec f dv True (Some r)) dv ip [child1, child2]) (\<lambda>v. wp (?n v) Q) t"
    proof (rule zc_match [OF t(1)])
      show "whole {} t (icache t ip)" "matches (vol t) (icache t ip)"
        using i(1) [OF True] t(3,4) whole_moves [OF t(2,3)] by simp_all
    qed (rule n)
    then show ?thesis using True by (simp del: zc_verify.simps)
  next
    case False
    then show ?thesis using n [OF t(1)] by simp
  qed
qed

lemma ilock_alone:
  fixes s :: "'z fstate_scheme"
  assumes F: "fs {} W s" "lock_free Lk_icache s" and l: "lockable s ip" "\<not> iflag I_VALID (icache s ip)"
    and i: "whole {} s (loaded s ip)" "\<not> matches (vol s) (loaded s ip)" "child1 (loaded s ip) = 0"
    and Q: "\<And>t. \<lbrakk>fs {} W t; moves {} s t; vol t = vol s;
      icache t = (icache s)(ip := (loaded s ip)\<lparr>iflags := (iflags (icache s ip) OR I_BUSY) AND NOT I_BUSY\<rparr>)\<rbrakk> \<Longrightarrow> Q E_CORRUPTED t"
  shows "wp (ilock_rec (Suc f) dv True (Some ip)) Q s"
proof (rule ilock_enter [OF F l])
  fix t assume t: "fs {} W t" "moves {} s t" "vol t = vol s" "icache t = (icache s)(ip := busied (loaded s ip))"
  let ?n = "\<lambda>v. case v of Some r \<Rightarrow> ret r
          | None \<Rightarrow> seqk (iset ip (\<lambda>i. i\<lparr>iflags := iflags i OR I_VALID\<rparr>))
             (bind (igets ip itype) (\<lambda>ty. if ty = 0 then panic ''ilock: no type'' else ret 0))"
  have "wp (zc_verify (\<lambda>r. ilock_rec f dv True (Some r)) dv ip [child1, child2]) (\<lambda>v. wp (?n v) Q) t"
  proof (rule zc_alone [OF t(1)])
    show "lock_free Lk_icache t" using F(2) movesD(5) [OF t(2)] by simp
    show "whole {} t (icache t ip)" "\<not> matches (vol t) (icache t ip)" "child1 (icache t ip) = 0"
      "iflag I_BUSY (icache t ip)" "1 \<le> iref (icache t ip)"
      using i t(3,4) whole_moves [OF t(2,3)] l(1) by (simp_all add: lockable_def loaded_def)
    fix u assume u: "fs {} W u" "moves {} t u" "vol u = vol t"
      "icache u = (icache t)(ip := (icache t ip)\<lparr>iflags := iflags (icache t ip) AND NOT I_BUSY\<rparr>)"
    have "Q E_CORRUPTED u" by (rule Q)
      (use u t(3,4) moves_trans [OF t(2) u(2)] in \<open>simp_all add: busied_def loaded_def\<close>)
    then show "wp (?n (Some E_CORRUPTED)) Q u" by simp
  qed
  then show "wp (bind (if True then zc_verify (\<lambda>r. ilock_rec f dv True (Some r)) dv ip [child1, child2] else ret None) ?n) Q t"
    by (simp del: zc_verify.simps)
qed

text \<open>The cache entry that \<open>iget\<close> makes for an inode, and what locking it loads.\<close>

definition fresh_inode :: "u32 \<Rightarrow> u32 \<Rightarrow> inode \<Rightarrow> inode" where
  "fresh_inode dev n i = i\<lparr>idev := dev, inum := n, iref := 1, iflags := 0\<rparr>"

definition reploaded :: "'z fstate_scheme \<Rightarrow> u32 \<Rightarrow> nat \<Rightarrow> inode" where
  "reploaded s n r = load_inode (dinode_at (vol s) n) (fresh_inode 1 n (icache s r))"

definition uncached :: "u32 \<Rightarrow> nat \<Rightarrow> (nat \<Rightarrow> inode) \<Rightarrow> bool" where
  "uncached n r c \<longleftrightarrow> List.find (\<lambda>i. iref (c i) > 0 \<and> idev (c i) = 1 \<and> inum (c i) = n) [0..<NINODE] = None \<and>
     List.find (\<lambda>i. iref (c i) = 0) [0..<NINODE] = Some r"

definition unlocked_only :: "nat \<Rightarrow> inode \<Rightarrow> nat \<Rightarrow> inode \<Rightarrow> (nat \<Rightarrow> inode) \<Rightarrow> (nat \<Rightarrow> inode) \<Rightarrow> bool" where
  "unlocked_only ip i r j c d \<longleftrightarrow> d = c(ip := i\<lparr>iflags := (iflags i OR I_BUSY) AND NOT I_BUSY\<rparr>,
     r := j\<lparr>iflags := ((iflags j OR I_BUSY) OR I_VALID) AND NOT I_BUSY\<rparr>)"

lemma uncached_upd:
  assumes "uncached n r c" "iref j = iref (c ip)" "idev j = idev (c ip)" "inum j = inum (c ip)"
  shows "uncached n r (c(ip := j))"
proof -
  have "(\<lambda>i. iref ((c(ip := j)) i) > 0 \<and> idev ((c(ip := j)) i) = 1 \<and> inum ((c(ip := j)) i) = n) =
      (\<lambda>i. iref (c i) > 0 \<and> idev (c i) = 1 \<and> inum (c i) = n)" "(\<lambda>i. iref ((c(ip := j)) i) = 0) = (\<lambda>i. iref (c i) = 0)"
    using assms(2-4) by (auto simp: fun_eq_iff)
  then show ?thesis using assms(1) by (simp only: uncached_def)
qed

lemma ilock_replica:
  fixes s :: "'z fstate_scheme"
  assumes F: "fs {} W s" "lock_free Lk_icache s" and l: "lockable s ip" "\<not> iflag I_VALID (icache s ip)"
    and i: "whole {} s (loaded s ip)" "\<not> matches (vol s) (loaded s ip)" "child1 (loaded s ip) = c" "c \<noteq> 0" "n = ucast c"
    and r: "uncached n r (icache s)" "open_sec {} s (IBLOCK n)" "whole {} s (reploaded s n r)" "matches (vol s) (reploaded s n r)" "itype (reploaded s n r) \<noteq> 0"
    and Q: "\<And>t. \<lbrakk>fs {} W t; moves {} s t; vol t = vol s; unlocked_only ip (loaded s ip) r (reploaded s n r) (icache s) (icache t)\<rbrakk> \<Longrightarrow> Q (uint c) t"
  shows "wp (ilock_rec (Suc (Suc f)) dv True (Some ip)) Q s"
proof (rule ilock_enter [OF F l])
  fix t assume t: "fs {} W t" "moves {} s t" "vol t = vol s" "icache t = (icache s)(ip := busied (loaded s ip))"
  let ?lk = "\<lambda>r. ilock_rec (Suc f) dv True (Some r)"
  let ?n = "\<lambda>v. case v of Some r \<Rightarrow> ret r
          | None \<Rightarrow> seqk (iset ip (\<lambda>i. i\<lparr>iflags := iflags i OR I_VALID\<rparr>))
             (bind (igets ip itype) (\<lambda>ty. if ty = 0 then panic ''ilock: no type'' else ret 0))"
  let ?rest = "\<lambda>r. bind (?lk r) (\<lambda>x. if x = 0 then seqk (iunlock (Some r)) (seqk (iunlock (Some ip)) (ret (Some (uint c))))
         else zc_verify ?lk dv ip [child2])"
  have ip: "1 \<le> iref (icache s ip)" "idev (icache s ip) = 1" using l(1) by (simp_all add: lockable_def)
  have ne: "r \<noteq> ip" using r(1) ip by (auto simp: uncached_def find_Some_iff)
  have rest: "wp (?rest r) (\<lambda>v. wp (?n v) Q) (u\<lparr>icache := (icache u)(r := fresh_inode 1 n (icache u r))\<rparr>)"
    if u: "fs {} W u" "keeps {} t u" "vol u = vol t" for u
  proof -
    let ?u = "u\<lparr>icache := (icache u)(r := fresh_inode 1 n (icache u r))\<rparr>"
    note tu = moves_trans [OF t(2) keeps_moves [OF u(2)]]
    note su = moves_trans [OF tu moves_iset]
    have iu: "icache u = (icache s)(ip := busied (loaded s ip))" using keeps_icache [OF u(2)] t(4) by simp
    have j: "loaded ?u r = reploaded s n r" using u(3) t(3) iu ne by (simp add: loaded_def reploaded_def fresh_inode_def)
    show ?thesis
      unfolding wp_bind
    proof (rule ilock_match)
      show "fs {} W ?u" "lock_free Lk_icache ?u" using u(1) F(2) movesD(5) [OF tu] by simp_all
      show "lockable ?u r" "\<not> iflag I_VALID (icache ?u r)"
        using r(2) movesD(1) [OF tu] by (simp_all add: lockable_def fresh_inode_def iflag_def)
      show "whole {} ?u (loaded ?u r) \<and> matches (vol ?u) (loaded ?u r)" "itype (loaded ?u r) \<noteq> 0"
        using r(3-5) u(3) t(3) whole_moves [OF su] unfolding j
        by (auto simp: whole_def solid_def movesD(1) [OF tu])
      fix w assume w: "fs {} W w" "moves {} ?u w" "vol w = vol ?u" "icache w = (icache ?u)(r := validated (loaded ?u r))"
      have iw: "icache w = (icache s)(ip := busied (loaded s ip), r := validated (reploaded s n r))"
        using w(4) iu unfolding j by simp
      have lw: "lock_free Lk_icache w" using F(2) movesD(5) [OF tu] movesD(5) [OF w(2)] by simp
      have jr: "iref (reploaded s n r) = 1" by (simp add: reploaded_def fresh_inode_def)
      have "wp (seqk (iunlock (Some r)) (seqk (iunlock (Some ip)) (ret (Some (uint c))))) (\<lambda>v. wp (?n v) Q) w"
        unfolding wp_seqk wp_fun
      proof (rule iunlock_fs [OF w(1) lw])
        show "iflag I_BUSY (icache w r)" "1 \<le> iref (icache w r)" using jr by (simp_all add: iw validated_def)
        fix x assume x: "fs {} W x" "moves {} w x" "vol x = vol w" "icache x = (icache w)(r := (icache w r)\<lparr>iflags := iflags (icache w r) AND NOT I_BUSY\<rparr>)"
        show "wp (iunlock (Some ip)) (\<lambda>_. wp (?n (Some (uint c))) Q) x"
        proof (rule iunlock_fs [OF x(1)])
          show "lock_free Lk_icache x" using lw movesD(5) [OF x(2)] by simp
          show "iflag I_BUSY (icache x ip)" "1 \<le> iref (icache x ip)" using x(4) ne iw ip by (simp_all add: loaded_def)
          fix y assume y: "fs {} W y" "moves {} x y" "vol y = vol x" "icache y = (icache x)(ip := (icache x ip)\<lparr>iflags := iflags (icache x ip) AND NOT I_BUSY\<rparr>)"
          have "moves {} s y" using moves_trans [OF moves_trans [OF moves_trans [OF su w(2)] x(2)] y(2)] .
          moreover have "unlocked_only ip (loaded s ip) r (reploaded s n r) (icache s) (icache y)"
            using ne by (auto simp: unlocked_only_def y(4) x(4) iw validated_def busied_def fun_eq_iff)
          ultimately show "wp (?n (Some (uint c))) Q y" using Q [OF y(1)] y(3) x(3) w(3) u(3) t(3) by simp
        qed
      qed
      then show "wp (if (0 :: int) = 0 then seqk (iunlock (Some r)) (seqk (iunlock (Some ip)) (ret (Some (uint c)))) else zc_verify ?lk dv ip [child2])
          (\<lambda>v. wp (?n v) Q) w" by simp
    qed
  qed
  have "wp (zc_verify ?lk dv ip [child1, child2]) (\<lambda>v. wp (?n v) Q) t"
    unfolding zc_verify.simps(2) [of ?lk dv ip child1] wp_bind wp_igets
  proof (rule ichecksum_fs [OF t(1)])
    show "whole {} t (icache t ip)" using i(1) t(4) whole_moves [OF t(2,3)] by simp
    fix u assume u: "fs {} W u" "keeps {} t u" "vol u = vol t"
    have iu: "icache u = (icache s)(ip := busied (loaded s ip))" using keeps_icache [OF u(2)] t(4) by simp
    have g: "iget 1 n u = Done r (u\<lparr>icache := (icache u)(r := fresh_inode 1 n (icache u r))\<rparr>)"
      using iget_fresh [of u 1 n r] fs_free(1) [OF u(1)] F(2) movesD(5) [OF moves_trans [OF t(2) keeps_moves [OF u(2)]]]
        uncached_upd [OF r(1), of "busied (loaded s ip)" ip]
      by (simp add: uncached_def iu fresh_inode_def loaded_def)
    have main: "wp (bind (iget 1 n) ?rest) (\<lambda>v. wp (?n v) Q) u"
      unfolding wp_bind [of "iget 1 n"] wp_Done [of "iget 1 n" u, OF g] by (rule rest [OF u])
    have mis: "checksum_of (vol t) (icache t ip) \<noteq> icheck (icache u ip)" using i(2) t(3,4) iu by (simp add: matches_def)
    have ch: "child1 (icache u ip) = c" "c \<noteq> 0" "n = ucast c" "idev (icache u ip) = 1" using i(3-5) ip(2) iu by (simp_all add: loaded_def)
    show "wp (if checksum_of (vol t) (icache t ip) = icheck (icache u ip) then ret None
     else bind (igets ip child1) (\<lambda>rinum. if rinum = 0 then zc_failure ip
       else bind (igets ip idev) (\<lambda>dev. bind (iget dev (ucast rinum)) (\<lambda>rinode. bind (?lk rinode) (\<lambda>r.
         if r = 0 then seqk (iunlock (Some rinode)) (seqk (iunlock (Some ip)) (ret (Some (uint rinum))))
         else zc_verify ?lk dv ip [child2]))))) (\<lambda>v. wp (?n v) Q) u"
      using main mis ch by (simp del: zc_verify.simps ilock_rec.simps cong: if_cong)
  qed simp
  then show "wp (bind (if True then zc_verify ?lk dv ip [child1, child2] else ret None) ?n) Q t"
    by (simp del: zc_verify.simps ilock_rec.simps)
qed

section \<open>The on-disk inode\<close>

definition to_dinode :: "inode \<Rightarrow> dinode" where
  "to_dinode i = \<lparr>dtype = itype i, dmajor = major i, dminor = minor i, dnlink = nlink i, dsize = isize i,
     daddrs = addrs i, dchild1 = child1 i, dchild2 = child2 i, dchecksum = icheck i\<rparr>"

lemma length_words [simp]: "length (concat (map le32 ws)) = 4 * length ws"
  by (induction ws) simp_all

lemma slice_words: "i < length ws \<Longrightarrow> slice (4 * i) 4 (concat (map le32 ws) @ rest) = le32 (ws ! i)"
proof (induction ws arbitrary: i)
  case (Cons w ws)
  then show ?case by (cases i) (simp_all add: slice_def)
qed simp

lemma slice_skip: "slice (length xs + k) n (xs @ ys) = slice k n ys"
  by (simp add: slice_def)

lemma slice_first: "length xs = n \<Longrightarrow> slice 0 n (xs @ ys) = xs"
  by (simp add: slice_def)

lemma length_en_dinode: "length (daddrs d) = NDIRECT + 1 \<Longrightarrow> length (en_dinode d) = 64"
  by (simp add: en_dinode_def NDIRECT_def)

lemma de_en_dinode:
  assumes "length (daddrs d) = NDIRECT + 1"
  shows "de_dinode (en_dinode d) = d"
proof -
  let ?A = "le16 (dtype d) @ le16 (dmajor d) @ le16 (dminor d) @ le16 (dnlink d) @ le32 (dsize d)"
  let ?C = "le16 (dchild1 d) @ le16 (dchild2 d) @ le32 (dchecksum d)"
  have e: "en_dinode d = ?A @ concat (map le32 (daddrs d)) @ ?C" by (simp add: en_dinode_def)
  have "slice (12 + 4 * i) 4 (en_dinode d) = le32 (daddrs d ! i)" if "i < NDIRECT + 1" for i
    unfolding e using slice_skip [of ?A "4 * i" 4] slice_words [of i "daddrs d"] that assms by simp
  then have a: "map (\<lambda>i. de32 (slice (12 + 4 * i) 4 (en_dinode d))) [0..<NDIRECT + 1] = daddrs d"
    using assms by (intro nth_equalityI) (simp_all del: upt_Suc)
  have "slice 0 2 (en_dinode d) = le16 (dtype d)" "slice 2 2 (en_dinode d) = le16 (dmajor d)"
    "slice 4 2 (en_dinode d) = le16 (dminor d)" "slice 6 2 (en_dinode d) = le16 (dnlink d)"
    "slice 8 4 (en_dinode d) = le32 (dsize d)" "slice 56 2 (en_dinode d) = le16 (dchild1 d)"
    "slice 58 2 (en_dinode d) = le16 (dchild2 d)" "slice 60 4 (en_dinode d) = le32 (dchecksum d)"
    using assms by (simp_all add: en_dinode_def slice_def NDIRECT_def)
  then show ?thesis using a by (simp add: de_dinode_def del: upt_Suc)
qed

lemma splice_pieces:
  assumes "length A = 12" "length B = 44" "length C = 4" "length D = 4" "k + 64 \<le> length bs"
  shows "splice (k + 12) B (splice (k + 60) D (splice (k + 56) C (splice k A bs))) = splice k (A @ B @ C @ D) bs"
  using assms by (intro nth_equalityI) (auto simp: nth_splice nth_append not_less add.commute)

lemma put_dinode:
  assumes "length (addrs i) = NDIRECT + 1" "k + 64 \<le> length bs"
  shows "put_data k i (put_meta k i bs) = splice k (en_dinode (to_dinode i)) bs"
  unfolding put_data_def put_meta_def
  using assms by (subst splice_pieces) (simp_all add: en_dinode_def to_dinode_def NDIRECT_def)

lemma ioff_bound: "ioff n + 64 \<le> BSIZE"
proof -
  have "unat n mod IPB < 8" using mod_less_divisor [of 8 "unat n"] by (simp add: IPB_def BSIZE_def)
  then show ?thesis by (simp add: ioff_def BSIZE_def)
qed

lemma ioff_disjoint:
  assumes "IBLOCK m = IBLOCK n" "m \<noteq> n"
  shows "ioff m + 64 \<le> ioff n \<or> ioff n + 64 \<le> ioff m"
proof -
  have "m div 8 = n div 8" using assms(1) by (simp add: IBLOCK_def IPB_def BSIZE_def)
  then have "unat (m div 8) = unat (n div 8)" by simp
  then have "unat m div 8 = unat n div 8" unfolding unat_div by simp
  moreover have "unat m \<noteq> unat n" using assms(2) word_unat_eq_iff by blast
  ultimately have "unat m mod 8 \<noteq> unat n mod 8" by (metis div_mult_mod_eq)
  then show ?thesis by (auto simp: ioff_def IPB_def BSIZE_def)
qed

text \<open>The blocks of a file are none of the given blocks.\<close>

definition apart :: "u32 \<Rightarrow> (u32 \<Rightarrow> bytes) \<Rightarrow> inode \<Rightarrow> bool" where
  "apart n v i \<longleftrightarrow> itype i = T_DEV \<or>
     (\<forall>bn < (unat (isize i) + BSIZE - 1) div BSIZE. faddr v i bn \<noteq> n) \<and>
     (NDIRECT < (unat (isize i) + BSIZE - 1) div BSIZE \<longrightarrow> addrs i ! NDIRECT \<noteq> n)"

lemma faddr_other: "bn < NDIRECT \<or> addrs i ! NDIRECT \<noteq> n \<Longrightarrow> faddr (v(n := x)) i bn = faddr v i bn"
  by (auto simp: faddr_def)

lemma fbytes_other:
  assumes "\<And>bn. bn < nb \<Longrightarrow> faddr v i bn \<noteq> n" "NDIRECT < nb \<Longrightarrow> addrs i ! NDIRECT \<noteq> n" "off + m \<le> nb * BSIZE"
  shows "fbytes (v(n := x)) i off m = fbytes v i off m"
  unfolding fbytes_def
proof (rule map_cong [OF refl])
  fix k assume "k \<in> set [off..<off + m]"
  then have "k div BSIZE < nb" using assms(3) by (simp add: less_mult_imp_div_less)
  then show "(v(n := x)) (faddr (v(n := x)) i (k div BSIZE)) ! (k mod BSIZE) = v (faddr v i (k div BSIZE)) ! (k mod BSIZE)"
    using assms(1,2) faddr_other [of "k div BSIZE" i n v x] by (cases "k div BSIZE < NDIRECT") auto
qed

lemma apart_same:
  assumes "apart n v i"
  shows "checksum_of (v(n := x)) i = checksum_of v i" "apart n (v(n := x)) i"
proof -
  let ?nb = "(unat (isize i) + BSIZE - 1) div BSIZE"
  show "checksum_of (v(n := x)) i = checksum_of v i"
    using assms fbytes_other [of ?nb v i n 0 "unat (isize i)" x] whole_bytes [of i]
    by (auto simp: checksum_of_def fcontent_def apart_def)
  have "faddr (v(n := x)) i bn = faddr v i bn" if "bn < ?nb" "itype i \<noteq> T_DEV" for bn
    using assms that faddr_other [of bn i n v x] by (cases "bn < NDIRECT") (auto simp: apart_def)
  then show "apart n (v(n := x)) i" using assms by (auto simp: apart_def)
qed

lemma whole_hold:
  assumes "whole H s i" "apart n (vol s) i" "keeps H s t" "vol t = (vol s)(n := x)" "bsector (bufs t b) = n"
  shows "whole (insert b H) t i"
proof (cases "itype i = T_DEV")
  case False
  let ?nb = "(unat (isize i) + BSIZE - 1) div BSIZE"
  have f: "faddr (vol t) i bn = faddr (vol s) i bn" if "bn < ?nb" for bn
    using assms(2,4) that False faddr_other [of bn i n "vol s" x] by (cases "bn < NDIRECT") (auto simp: apart_def)
  have o: "open_sec (insert b H) t m" if "open_sec H s m" "m \<noteq> n" for m
    using that open_sec_keeps [OF assms(3)] assms(5) by (auto simp: open_sec_def)
  show ?thesis using assms(1,2) False f o by (auto simp: whole_def solid_def apart_def)
qed (simp add: whole_def)

definition checked :: "(u32 \<Rightarrow> bytes) \<Rightarrow> inode \<Rightarrow> inode" where
  "checked v i = i\<lparr>icheck := checksum_of v i\<rparr>"

definition put_inode :: "inode \<Rightarrow> (u32 \<Rightarrow> bytes) \<Rightarrow> u32 \<Rightarrow> bytes" where
  "put_inode i v = v(IBLOCK (inum i) := splice (ioff (inum i)) (en_dinode (to_dinode i)) (v (IBLOCK (inum i))))"

lemma length_put:
  "length bs = BSIZE \<Longrightarrow> length (put_meta (ioff n) i bs) = BSIZE"
  "length bs = BSIZE \<Longrightarrow> length (addrs i) = NDIRECT + 1 \<Longrightarrow> length (put_data (ioff n) i bs) = BSIZE"
  using ioff_bound [of n] by (simp_all add: put_meta_def put_data_def NDIRECT_def)

lemma put_data_meta_check: "put_meta k (i\<lparr>icheck := c\<rparr>) = put_meta k i"
  by (simp add: put_meta_def fun_eq_iff)

lemma iupdate_fs:
  fixes s :: "'z fstate_scheme"
  assumes F: "fs {} W s" and i: "i = icache s ip" "idev i = 1" "open_sec {} s (IBLOCK (inum i))" "IBLOCK (inum i) \<in> W"
    "length (addrs i) = NDIRECT + 1" "whole {} s i" "apart (IBLOCK (inum i)) (vol s) i"
    and sk: "skip \<or> child1 i = 0 \<and> child2 i = 0"
    and Q: "\<And>t. \<lbrakk>fs {} W t; moves {} s t; vol t = put_inode (checked (vol s) i) (vol s);
      icache t = (icache s)(ip := checked (vol s) i)\<rbrakk> \<Longrightarrow> Q () t"
  shows "wp (iupdate_ext dv ip skip) Q s"
proof -
  let ?n = "inum i" and ?B = "IBLOCK (inum i)" and ?c = "checked (vol s) i"
  let ?tail = "\<lambda>bp. seqk (bind (gets (\<lambda>s. icache s ip)) (\<lambda>i. bmod bp (put_data (ioff ?n) i))) (seqk (log_write bp)
     (seqk (brelse bp) (whenk (\<not> skip) (seqk (cupdate_child dv ip child1) (cupdate_child dv ip child2)))))"
  have fin: "wp (whenk (\<not> skip) (seqk (cupdate_child dv ip child1) (cupdate_child dv ip child2))) Q t"
    if "fs {} W t" "moves {} s t" "vol t = put_inode ?c (vol s)" "icache t = (icache s)(ip := ?c)" for t
    using sk Q [OF that] that(4) by (auto simp: cupdate_child_def checked_def)
  have "wp (bread 1 ?B) (\<lambda>bp. wp (seqk (bind (gets (\<lambda>s. icache s ip)) (\<lambda>i. bmod bp (put_meta (ioff ?n) i)))
    (bind (ichecksum dv ip) (\<lambda>c. seqk (iset ip (\<lambda>i. i\<lparr>icheck := c\<rparr>)) (?tail bp)))) Q) s"
  proof (rule bread_fs [OF F _ i(3)])
    fix b t assume t: "b \<notin> {}" "fs (insert b {}) W t" "keeps {} s t" "vol t = vol s" "bsector (bufs t b) = ?B" "settled t b"
    have it: "icache t = icache s" by (rule keeps_icache [OF t(3)])
    have lb: "length (vol s ?B) = BSIZE" using length_vol [OF F] i(3) by (simp add: open_sec_def)
    have "wp (bmod b (put_meta (ioff ?n) i))
      (\<lambda>_. wp (bind (ichecksum dv ip) (\<lambda>c. seqk (iset ip (\<lambda>i. i\<lparr>icheck := c\<rparr>)) (?tail b))) Q) t"
    proof (rule bmod_fs [OF t(2) insertI1])
      show "length (put_meta (ioff ?n) i (vol t (bsector (bufs t b)))) = BSIZE" using lb t(4,5) by (simp add: length_put)
      fix u assume u: "fs (insert b {}) W u" "keeps (insert b {} - {b}) t u"
        "vol u = (vol t)(bsector (bufs t b) := put_meta (ioff ?n) i (vol t (bsector (bufs t b))))" "bsector (bufs u b) = bsector (bufs t b)"
      have su: "keeps {} s u" using keeps_trans [OF t(3)] u(2) by (simp add: insert_Diff_if)
      have vu: "vol u = (vol s)(?B := put_meta (ioff ?n) i (vol s ?B))" using u(3) t(4,5) by simp
      have iu: "icache u ip = i" using keeps_icache [OF su] i(1) by simp
      have w: "whole (insert b {}) u (icache u ip)" unfolding iu
        by (rule whole_hold [OF i(6,7) su vu]) (use u(4) t(5) in simp)
      show "wp (bind (ichecksum dv ip) (\<lambda>c. seqk (iset ip (\<lambda>i. i\<lparr>icheck := c\<rparr>)) (?tail b))) Q u"
      proof (subst wp_bind, rule ichecksum_fs [OF u(1) _ w])
        fix v assume v: "fs (insert b {}) W v" "keeps (insert b {}) u v" "vol v = vol u"
        have iv: "icache v = icache s" using keeps_icache [OF v(2)] keeps_icache [OF su] by simp
        have c: "checksum_of (vol u) (icache u ip) = icheck ?c" unfolding iu vu by (simp add: apart_same(1) [OF i(7)] checked_def)
        let ?v = "v\<lparr>icache := (icache s)(ip := ?c)\<rparr>"
        have bs: "bsector (bufs ?v b) = ?B" using keepsD(9) [OF v(2), of b] u(4) t(5) by simp
        have "wp (seqk (bmod b (put_data (ioff ?n) ?c)) (seqk (log_write b) (seqk (brelse b)
            (whenk (\<not> skip) (seqk (cupdate_child dv ip child1) (cupdate_child dv ip child2)))))) Q ?v"
        proof (rule held_update_fs [where H = "insert b {}"])
          show "fs (insert b {}) W ?v" "b \<in> insert b {}" "bsector (bufs ?v b) = ?B" "?B \<in> W" using v(1) bs i(4) by simp_all
          have pv: "put_data (ioff ?n) ?c (vol ?v ?B) = splice (ioff ?n) (en_dinode (to_dinode ?c)) (vol s ?B)"
            using put_dinode [of ?c "ioff ?n" "vol s ?B"] i(5) lb ioff_bound [of ?n]
            by (simp add: v(3) vu put_data_meta_check checked_def)
          show "length (put_data (ioff ?n) ?c (vol ?v ?B)) = BSIZE"
            unfolding pv using lb i(5) ioff_bound [of ?n] length_en_dinode [of "to_dinode ?c"] by (simp add: to_dinode_def checked_def)
          fix x assume x: "fs (insert b {} - {b}) W x" "keeps (insert b {} - {b}) ?v x"
            "vol x = (vol ?v)(?B := put_data (ioff ?n) ?c (vol ?v ?B))"
          have k: "keeps {} ?v x" using x(2) by (simp add: insert_Diff_if)
          have "moves {} s x"
            using moves_trans [OF moves_trans [OF keeps_moves [OF keeps_trans [OF su keeps_mono [OF v(2)]]] moves_iset] keeps_moves [OF k]] by simp
          moreover have "vol x = put_inode ?c (vol s)"
            unfolding x(3) pv by (simp add: v(3) vu put_inode_def checked_def)
          ultimately show "wp (whenk (\<not> skip) (seqk (cupdate_child dv ip child1) (cupdate_child dv ip child2))) Q x"
            using fin [of x] x(1) keeps_icache [OF k] by (simp add: insert_Diff_if)
        qed
        then show "wp (seqk (iset ip (\<lambda>i. i\<lparr>icheck := checksum_of (vol u) (icache u ip)\<rparr>)) (?tail b)) Q v"
          by (simp add: c iv i(1) [symmetric] checked_def del: wp_whenk)
      qed simp
    qed
    then show "wp (seqk (bind (gets (\<lambda>s. icache s ip)) (\<lambda>i. bmod b (put_meta (ioff ?n) i)))
      (bind (ichecksum dv ip) (\<lambda>c. seqk (iset ip (\<lambda>i. i\<lparr>icheck := c\<rparr>)) (?tail b)))) Q t"
      by (simp only: wp_fun it i(1) [symmetric])
  qed simp
  then show ?thesis
    using i(1,2) by (simp add: iupdate_ext_def wp_fun del: wp_whenk)
qed

section \<open>Properties\<close>

text \<open>C7: \<open>readi\<close> on a file returns the bytes of the file from the offset on, up to the end of the file, and
changes neither the disk nor the inode; an offset past the end gives -1.\<close>

theorem readi_reads:
  fixes s :: "'z fstate_scheme"
  assumes "fs {} W s" "i = icache s ip" "whole {} s i" "itype i \<noteq> T_DEV" "unat off + unat n < 2 ^ 32"
  shows "(off \<le> isize i \<longrightarrow> (\<exists>t. readi dv ip off n s =
      Done (int (min (unat n) (unat (isize i) - unat off)), take (unat n) (drop (unat off) (fcontent (vol s) i))) t \<and>
      fs {} W t \<and> vol t = vol s \<and> icache t = icache s)) \<and>
    (isize i < off \<longrightarrow> readi dv ip off n s = Done (- 1, []) s)"
proof (intro conjI impI)
  let ?m = "min (unat n) (unat (isize i) - unat off)"
  have so: "solid {} s i ((unat (isize i) + BSIZE - 1) div BSIZE)" using assms(3,4) by (simp add: whole_def)
  show "readi dv ip off n s = Done (- 1, []) s" if "isize i < off"
    using that assms(2,4) by (simp add: readi_def bind_igets)
  assume o: "off \<le> isize i"
  have f: "fbytes (vol s) i (unat off) ?m = take (unat n) (drop (unat off) (fcontent (vol s) i))"
    using o by (intro nth_equalityI) (auto simp: fcontent_def fbytes_def word_le_nat_alt)
  have "wp (readi dv ip off n) (\<lambda>r t. r = (int ?m, fbytes (vol s) i (unat off) ?m) \<and> fs {} W t \<and> vol t = vol s \<and> icache t = icache s) s"
    by (rule readi_fs [OF assms(1) _ so whole_bytes assms(4,2) o assms(5) refl]) (simp_all add: keeps_icache)
  then show "\<exists>t. readi dv ip off n s = Done (int ?m, take (unat n) (drop (unat off) (fcontent (vol s) i))) t \<and>
      fs {} W t \<and> vol t = vol s \<and> icache t = icache s"
    unfolding f by (auto simp: wp_def)
qed




section \<open>A small file system\<close>

text \<open>
  The file 2 with the five bytes \<open>x\<close> in block 20 and a replica, the inode 3, with its contents in block 21; both
  have the checksum of \<open>y\<close>, the contents of the replica.
\<close>

definition demo_din :: "u16 \<Rightarrow> u32 \<Rightarrow> u16 \<Rightarrow> bytes \<Rightarrow> dinode" where
  "demo_din ty a c y = \<lparr>dtype = ty, dmajor = 0, dminor = 0, dnlink = 1, dsize = 5, daddrs = a # replicate NDIRECT 0,
     dchild1 = c, dchild2 = 0, dchecksum = cksum y\<rparr>"

definition demo_blocks :: "u16 \<Rightarrow> bytes \<Rightarrow> bytes \<Rightarrow> u32 \<Rightarrow> bytes" where
  "demo_blocks c x y n =
     (if n = 2 then replicate 128 0 @ en_dinode (demo_din T_FILE 20 c y) @ en_dinode (demo_din T_DITTO 21 0 y) @ replicate 256 0
      else if n = 20 then x @ replicate 507 0
      else if n = 21 then y @ replicate 507 0
      else replicate BSIZE 0)"

definition inode0 :: inode where
  "inode0 = \<lparr>idev = 0, inum = 0, iref = 0, iflags = 0, itype = 0, major = 0, minor = 0, nlink = 0, isize = 0,
     addrs = replicate (NDIRECT + 1) 0, child1 = 0, child2 = 0, icheck = 0\<rparr>"

definition demo_icache :: "nat \<Rightarrow> inode" where
  "demo_icache = (\<lambda>_. inode0)(0 := inode0\<lparr>idev := 1, inum := 2, iref := 1\<rparr>)"

lemma length_demo: "length x = 5 \<Longrightarrow> length y = 5 \<Longrightarrow> length (demo_blocks c x y n) = BSIZE"
  by (simp add: demo_blocks_def BSIZE_def length_en_dinode demo_din_def NDIRECT_def)

lemma demo_block2:
  "slice (ioff 2) 64 (demo_blocks c x y 2) = en_dinode (demo_din T_FILE 20 c y)"
  "slice (ioff 3) 64 (demo_blocks c x y 2) = en_dinode (demo_din T_DITTO 21 0 y)"
proof -
  have "length (en_dinode (demo_din t a d z)) = 64" for t a d z by (simp add: length_en_dinode demo_din_def)
  then show "slice (ioff 2) 64 (demo_blocks c x y 2) = en_dinode (demo_din T_FILE 20 c y)"
    "slice (ioff 3) 64 (demo_blocks c x y 2) = en_dinode (demo_din T_DITTO 21 0 y)"
    by (simp_all add: slice_def demo_blocks_def ioff_def IPB_def BSIZE_def)
qed

lemma locks_same:
  fixes s :: "'z fstate_scheme"
  assumes "k Lk_bcache = locks s Lk_bcache" "k Lk_log = locks s Lk_log" "k Lk_ptable = locks s Lk_ptable"
  shows "fs H W (s\<lparr>locks := k\<rparr>) = fs H W s" "vol (s\<lparr>locks := k\<rparr>) = vol s" "open_sec H (s\<lparr>locks := k\<rparr>) = open_sec H s"
    "log_sectors (s\<lparr>locks := k\<rparr>) = log_sectors s"
proof -
  let ?t = "s\<lparr>locks := k\<rparr>"
  have b: "blk ?t = blk s" by (rule ext, rule blk_cong) simp_all
  have lf: "cli_ok ?t = cli_ok s" "lock_free Lk_bcache ?t = lock_free Lk_bcache s"
    "lock_free Lk_log ?t = lock_free Lk_log s" "lock_free Lk_ptable ?t = lock_free Lk_ptable s"
    using assms by (simp_all add: cli_ok_def lock_free_def)
  show ls: "log_sectors ?t = log_sectors s" by (simp add: log_sectors_def)
  have lg: "logged ?t = logged s" by (simp add: logged_def)
  have l: "linv H ?t = linv H s" by (simp add: linv_def cinv_def b lf ls lg dirties_def)
  show "vol ?t = vol s" by (simp add: vol_def b ls fun_eq_iff)
  show "fs H W ?t = fs H W s" by (simp add: fs_def l ls lg)
  show "open_sec H ?t = open_sec H s" by (simp add: open_sec_def ls fun_eq_iff)
qed

lemma demo_machine:
  assumes c: "\<And>n. length (c n) = BSIZE" and W: "finite W" "card W < 9"
  obtains s :: fstate where "fs {} W s" "bitmap_ok s" "\<And>l. l \<notin> {Lk_bcache, Lk_log, Lk_ptable} \<Longrightarrow> lock_free l s" "icache s = ic"
    "\<And>m. m < 90 \<Longrightarrow> vol s m = demo_fs c m" "\<And>m. m < 90 \<Longrightarrow> open_sec {} s m"
proof -
  obtain s :: fstate where s: "fs {} W s" "bitmap_ok s" "\<And>m. m < 90 \<Longrightarrow> vol s m = demo_fs c m"
    "disksize s = 100" "log_sectors s = {n. 90 \<le> n \<and> n < 100}" "lstate.more s = \<lparr>icache = ic\<rparr>"
    by (rule demo_fs_started [of c W "\<lparr>icache = ic\<rparr>", OF c W]) (rule that)
  let ?k = "\<lambda>l. if l \<in> {Lk_bcache, Lk_log, Lk_ptable} then locks s l else spinlock0"
  let ?t = "s\<lparr>locks := ?k\<rparr>"
  note k = locks_same [of ?k s, simplified]
  have o: "open_sec {} s m" if "m < 90" for m using that s(4,5) by (auto simp: open_sec_def word_less_def word_le_def)
  have ic: "icache ?t = ic" using s(6) by (cases s) simp
  have "bitmap_ok ?t" using s(2) k by (simp add: bitmap_ok_def)
  moreover have "lock_free l ?t" if "l \<notin> {Lk_bcache, Lk_log, Lk_ptable}" for l using that by (auto simp: lock_free_def spinlock0_def)
  ultimately show ?thesis using that [of ?t] s(1,3) k o ic by simp
qed

lemma demo_files:
  assumes xy: "length x = 5" "length y = 5" and W: "finite W" "card W < 9"
  obtains s :: fstate where "fs {} W s" "bitmap_ok s" "lock_free Lk_icache s" "icache s = demo_icache"
    "\<And>m. m < 90 \<Longrightarrow> vol s m = demo_fs (demo_blocks c x y) m" "\<And>m. m < 90 \<Longrightarrow> open_sec {} s m" "lockable s 0"
proof -
  obtain s :: fstate where s: "fs {} W s" "bitmap_ok s" "\<And>l. l \<notin> {Lk_bcache, Lk_log, Lk_ptable} \<Longrightarrow> lock_free l s" "icache s = demo_icache"
    "\<And>m. m < 90 \<Longrightarrow> vol s m = demo_fs (demo_blocks c x y) m" "\<And>m. m < 90 \<Longrightarrow> open_sec {} s m"
    by (rule demo_machine [OF length_demo [OF xy] W]) (rule that)
  have "lockable s 0"
    using s(6) [of 2] s(4) by (simp add: lockable_def demo_icache_def inode0_def iflag_def IBLOCK_def IPB_def BSIZE_def)
  then show ?thesis using that [of s] s by simp
qed

lemma demo_loaded:
  assumes "vol s 2 = demo_fs (demo_blocks c x y) 2" "icache s = demo_icache"
  shows "loaded s 0 = load_inode (demo_din T_FILE 20 c y) (demo_icache 0)"
    "reploaded s 3 1 = load_inode (demo_din T_DITTO 21 0 y) (fresh_inode 1 3 (demo_icache 1))"
proof -
  have "demo_fs (demo_blocks c x y) 2 = demo_blocks c x y 2" by (simp add: demo_fs_def)
  then have "dinode_at (vol s) 2 = demo_din T_FILE 20 c y" "dinode_at (vol s) 3 = demo_din T_DITTO 21 0 y"
    using assms(1) demo_block2 [of c x y] de_en_dinode
    by (simp_all add: dinode_at_def IBLOCK_def IPB_def BSIZE_def word_arith_nat_div de_en_dinode demo_din_def)
  moreover have "inum (demo_icache 0) = 2" by (simp add: demo_icache_def)
  ultimately show "loaded s 0 = load_inode (demo_din T_FILE 20 c y) (demo_icache 0)"
    "reploaded s 3 1 = load_inode (demo_din T_DITTO 21 0 y) (fresh_inode 1 3 (demo_icache 1))"
    using assms(2) by (simp_all add: loaded_def reploaded_def)
qed

lemma demo_content:
  assumes "vol (s :: 'z fstate_scheme) a = z @ replicate 507 0" "length z = 5" "open_sec {} s a" "a \<noteq> 0" "ty \<noteq> T_DEV" "idev i = 1"
  shows "whole {} s (load_inode (demo_din ty a c y) i)" "fcontent (vol s) (load_inode (demo_din ty a c y) i) = z"
    "checksum_of (vol s) (load_inode (demo_din ty a c y) i) = cksum z"
proof -
  let ?i = "load_inode (demo_din ty a c y) i"
  have f: "faddr (vol s) ?i 0 = a" "itype ?i = ty" "isize ?i = 5" "idev ?i = 1"
    using assms(6) by (simp_all add: faddr_def load_inode_def demo_din_def NDIRECT_def)
  have d: "(5 + BSIZE - 1) div BSIZE = 1" by (simp add: BSIZE_def)
  show "whole {} s ?i" using f assms by (auto simp: whole_def solid_def d MAXFILE_def NDIRECT_def NINDIRECT_def BSIZE_def)
  have "k < 5 \<Longrightarrow> k div BSIZE = 0 \<and> k mod BSIZE = k" for k by (simp add: BSIZE_def)
  then show c: "fcontent (vol s) ?i = z"
    using f assms(1,2) by (intro nth_equalityI) (auto simp: fcontent_def fbytes_def nth_append)
  show "checksum_of (vol s) ?i = cksum z" using f assms(5) by (simp add: checksum_of_def c)
qed

definition hello :: bytes where "hello = [104, 101, 108, 108, 111]"
definition jello :: bytes where "jello = [106, 101, 108, 108, 111]"

lemma hello_cksum: "cksum hello = 0x6C6C6507" "cksum jello = 0x6C6C6505" "length hello = 5" "length jello = 5"
  by (simp_all add: hello_def jello_def cksum.simps de32_def)

definition no_dev :: "nat \<Rightarrow> 's devsw" where
  "no_dev m = \<lparr>devread = None, devwrite = None\<rparr>"

lemma demo_small: "(20 :: u32) < 90" "(21 :: u32) < 90" "(2 :: u32) < 90" "(20 :: u32) \<noteq> 0" "(21 :: u32) \<noteq> 0" "T_FILE \<noteq> T_DEV" "T_DITTO \<noteq> T_DEV"
  by (simp_all add: T_FILE_def T_DEV_def T_DITTO_def)

lemma demo_data:
  "demo_fs (demo_blocks c x y) 20 = x @ replicate 507 0" "demo_fs (demo_blocks c x y) 21 = y @ replicate 507 0"
  by (simp_all add: demo_fs_def demo_blocks_def)

theorem readi_reads_witness:
  "\<exists>(s :: fstate) t. readi no_dev 0 1 10 s = Done (4, [101, 108, 108, 111]) t \<and> readi no_dev 0 6 10 s = Done (- 1, []) s"
proof -
  obtain s :: fstate where s: "fs {} {} s" "icache s = demo_icache" "\<And>m. m < 90 \<Longrightarrow> vol s m = demo_fs (demo_blocks 0 hello hello) m"
    "\<And>m. m < 90 \<Longrightarrow> open_sec {} s m"
    by (rule demo_files [OF hello_cksum(3,3), of "{}" 0]) (rule that | simp)+
  let ?i = "load_inode (demo_din T_FILE 20 0 hello) (demo_icache 0)"
  let ?s = "s\<lparr>icache := demo_icache(0 := ?i)\<rparr>"
  note d = demo_content [of s 20 hello, OF s(3) [OF demo_small(1), unfolded demo_data] hello_cksum(3) s(4) [OF demo_small(1)] demo_small(4,6)]
  have i: "idev (demo_icache 0) = 1" "isize ?i = 5" "itype ?i = T_FILE" by (simp_all add: demo_icache_def load_inode_def demo_din_def)
  have w: "whole {} ?s ?i" using d(1) [OF i(1)] by (simp add: whole_def solid_def)
  have "\<exists>t. readi no_dev 0 1 10 ?s = Done (int (min (unat (10 :: u32)) (unat (isize ?i) - unat (1 :: u32))),
      take (unat (10 :: u32)) (drop (unat (1 :: u32)) (fcontent (vol ?s) ?i))) t \<and> fs {} {} t \<and> vol t = vol ?s \<and> icache t = icache ?s"
    by (rule readi_reads [OF _ _ w, THEN conjunct1, THEN mp]) (use s(1) i demo_small in simp_all)
  moreover have "readi no_dev 0 6 10 ?s = Done (- 1, []) ?s"
    by (rule readi_reads [OF _ _ w, THEN conjunct2, THEN mp]) (use s(1) i demo_small in simp_all)
  ultimately show ?thesis using d(2) [OF i(1)] i(2) by (auto simp: hello_def)
qed




end
