(* ===== verification/Writing.thy ===== *)
theory Writing
  imports Inode
begin

text \<open>
  Writing to files: what \<open>writei\<close> of \<open>fs.c\<close> does to the contents of a file whose blocks are allocated, to its size, its
  checksum and the rest of the disk.
\<close>

section \<open>Changing one block of a file\<close>

definition distinct_blocks :: "(u32 \<Rightarrow> bytes) \<Rightarrow> inode \<Rightarrow> nat \<Rightarrow> bool" where
  "distinct_blocks v i nb \<longleftrightarrow> inj_on (faddr v i) {..<nb} \<and> (NDIRECT < nb \<longrightarrow> addrs i ! NDIRECT \<notin> faddr v i ` {..<nb})"

lemma faddr_upd:
  assumes "distinct_blocks v i nb" "bn < nb" "k < nb"
  shows "faddr (v(faddr v i bn := x)) i k = faddr v i k"
  by (rule faddr_other) (use assms in \<open>auto simp: distinct_blocks_def\<close>)

lemma distinct_blocks_upd:
  assumes "distinct_blocks v i nb" "bn < nb"
  shows "distinct_blocks (v(faddr v i bn := x)) i nb"
proof -
  have "faddr (v(faddr v i bn := x)) i ` {..<nb} = faddr v i ` {..<nb}"
    using faddr_upd [OF assms] by (auto simp: image_iff)
  moreover have "inj_on (faddr (v(faddr v i bn := x)) i) {..<nb}"
    using assms faddr_upd [OF assms] by (simp add: distinct_blocks_def inj_on_def)
  ultimately show ?thesis using assms(1) by (simp add: distinct_blocks_def)
qed

lemma fbytes_nth: "k < n \<Longrightarrow> fbytes v i 0 n ! k = v (faddr v i (k div BSIZE)) ! (k mod BSIZE)"
  by (simp add: fbytes_def)

lemma BSIZE_pos [simp]: "0 < BSIZE"
  by (simp add: BSIZE_def)

lemma fbytes_splice_block:
  assumes d: "distinct_blocks v i nb" and bn: "off div BSIZE < nb" and xs: "off mod BSIZE + length xs \<le> BSIZE"
    and l: "length (v (faddr v i (off div BSIZE))) = BSIZE"
  shows "fbytes (v(faddr v i (off div BSIZE) := splice (off mod BSIZE) xs (v (faddr v i (off div BSIZE))))) i 0 (nb * BSIZE) =
    splice off xs (fbytes v i 0 (nb * BSIZE))"
proof (rule nth_equalityI)
  let ?a = "faddr v i (off div BSIZE)"
  let ?w = "v(?a := splice (off mod BSIZE) xs (v ?a))"
  have off: "off = off div BSIZE * BSIZE + off mod BSIZE" by simp
  have "(off div BSIZE + 1) * BSIZE \<le> nb * BSIZE" using bn by (intro mult_le_mono1) simp
  then have bnd: "off + length xs \<le> nb * BSIZE" using off xs unfolding add_mult_distrib by linarith
  then show "length (fbytes ?w i 0 (nb * BSIZE)) = length (splice off xs (fbytes v i 0 (nb * BSIZE)))" by simp
  fix k assume "k < length (fbytes ?w i 0 (nb * BSIZE))"
  then have k: "k < nb * BSIZE" "k div BSIZE < nb" by (simp_all add: less_mult_imp_div_less)
  have f: "faddr ?w i (k div BSIZE) = faddr v i (k div BSIZE)" by (rule faddr_upd [OF d bn k(2)])
  show "fbytes ?w i 0 (nb * BSIZE) ! k = splice off xs (fbytes v i 0 (nb * BSIZE)) ! k"
  proof (cases "k div BSIZE = off div BSIZE")
    case True
    have "k = off div BSIZE * BSIZE + k mod BSIZE" using True by (metis div_mult_mod_eq)
    then have r: "off \<le> k \<longleftrightarrow> off mod BSIZE \<le> k mod BSIZE" "k < off + length xs \<longleftrightarrow> k mod BSIZE < off mod BSIZE + length xs"
      "k - off = k mod BSIZE - off mod BSIZE" using off by linarith+
    show ?thesis using k(1) bnd xs l r by (simp add: nth_splice fbytes_nth True f [unfolded True])
  next
    case False
    then have "faddr v i (k div BSIZE) \<noteq> ?a" using d k(2) bn by (auto simp: distinct_blocks_def inj_on_def)
    moreover have "\<not> (off \<le> k \<and> k < off + length xs)"
    proof
      assume "off \<le> k \<and> k < off + length xs"
      then have "off mod BSIZE + (k - off) < BSIZE" "k = off + (k - off)" using xs by linarith+
      then show False using False block_index(1) [of off BSIZE "k - off"] by simp
    qed
    ultimately show ?thesis using k(1) bnd by (auto simp: nth_splice fbytes_nth f)
  qed
qed

lemma splice_splice:
  "off + length xs \<le> length zs \<Longrightarrow> splice (off + length xs) ys (splice off xs zs) = splice off (xs @ ys) zs"
  by (simp add: splice_def ac_simps)

section \<open>The loop\<close>

text \<open>What a write leaves of the other blocks.\<close>

definition only_file :: "inode \<Rightarrow> nat \<Rightarrow> (u32 \<Rightarrow> bytes) \<Rightarrow> (u32 \<Rightarrow> bytes) \<Rightarrow> bool" where
  "only_file i nb v w \<longleftrightarrow> (\<forall>m. m \<notin> faddr v i ` {..<nb} \<longrightarrow> w m = v m) \<and> (\<forall>k < nb. faddr w i k = faddr v i k)"

lemma only_file_refl: "only_file i nb v v"
  by (simp add: only_file_def)

lemma only_file_trans:
  assumes "only_file i nb v w" "only_file i nb w x"
  shows "only_file i nb v x"
proof -
  have "faddr w i ` {..<nb} = faddr v i ` {..<nb}" using assms(1) by (auto simp: only_file_def image_iff)
  then show ?thesis using assms by (auto simp: only_file_def)
qed

lemma only_file_upd: "distinct_blocks v i nb \<Longrightarrow> bn < nb \<Longrightarrow> only_file i nb v (v(faddr v i bn := x))"
  using faddr_upd [of v i nb bn] by (auto simp: only_file_def)

lemma solid_upd:
  assumes "solid H s i nb" "keeps H s t" "only_file i nb (vol s) (vol t)"
  shows "solid H t i nb"
  using assms open_sec_keeps [OF assms(2)] by (simp add: solid_def only_file_def)

lemma writei_loop_fs:
  fixes s :: "'z fstate_scheme"
  assumes "fs H W s" "card H \<le> 1" "solid H s (icache s ip) nb" "distinct_blocks (vol s) (icache s ip) nb"
    "off + n \<le> nb * BSIZE" "length src = n" "faddr (vol s) (icache s ip) ` {..<nb} \<subseteq> W"
    and "\<And>t. \<lbrakk>fs H W t; keeps H s t; only_file (icache s ip) nb (vol s) (vol t);
      fbytes (vol t) (icache s ip) 0 (nb * BSIZE) = splice off src (fbytes (vol s) (icache s ip) 0 (nb * BSIZE))\<rbrakk> \<Longrightarrow> Q () t"
  shows "wp (writei_loop ip src off n) Q s"
  using assms
proof (induction ip src off n arbitrary: s rule: writei_loop.induct)
  case (1 ip src off n)
  note F = "1.prems"(1,2) and so = "1.prems"(3) and di = "1.prems"(4) and Q = "1.prems"(8)
  let ?i = "icache s ip" and ?m = "min n (BSIZE - off mod BSIZE)"
  show ?case
  proof (cases "n = 0")
    case True
    then show ?thesis using Q [OF F(1)] "1.prems"(6) by (simp add: writei_loop.simps only_file_refl splice_def)
  next
    case False
    have bn: "off div BSIZE < nb" using "1.prems"(5) False by (simp add: less_mult_imp_div_less)
    let ?a = "faddr (vol s) ?i (off div BSIZE)" and ?xs = "take ?m src"
    have dev: "idev ?i = 1" and op: "open_sec H s ?a" using so bn by (auto simp: solid_def)
    have "off mod BSIZE + ?m \<le> BSIZE" using mod_less_divisor [OF BSIZE_pos, of off] by linarith
    then have xs: "length ?xs = ?m" "off mod BSIZE + ?m \<le> BSIZE" using "1.prems"(6) by simp_all
    have la: "length (vol s ?a) = BSIZE" using op length_vol [OF F(1)] by (simp add: open_sec_def)
    let ?v = "(vol s)(?a := splice (off mod BSIZE) ?xs (vol s ?a))"
    have fb: "fbytes ?v ?i 0 (nb * BSIZE) = splice off ?xs (fbytes (vol s) ?i 0 (nb * BSIZE))"
      by (rule fbytes_splice_block [OF di bn _ la]) (use xs in simp)
    show ?thesis
      unfolding writei_loop.simps [of ip src off n] if_not_P [OF False] wp_bind wp_igets
    proof (rule bmap_fs [OF F so bn])
      fix t assume t: "fs H W t" "keeps H s t" "vol t = vol s"
      have it: "icache t = icache s" by (rule keeps_icache [OF t(2)])
      have op': "open_sec H t ?a" using op open_sec_keeps [OF t(2)] by simp
      let ?rest = "writei_loop ip (drop ?m src) (off + ?m) (n - ?m)"
      have "wp (bind (bread 1 ?a) (\<lambda>b. seqk (bmod b (splice (off mod BSIZE) ?xs)) (seqk (log_write b) (seqk (brelse b) ?rest)))) Q t"
      proof (rule update_fs [OF t(1) F(2) op'])
        show "?a \<in> W" using "1.prems"(7) bn by auto
        show "length (splice (off mod BSIZE) ?xs (vol t ?a)) = BSIZE" using t(3) la xs by simp
        fix u assume u: "fs H W u" "keeps H t u" "vol u = (vol t)(?a := splice (off mod BSIZE) ?xs (vol t ?a))"
        note su = keeps_trans [OF t(2) u(2)]
        have vu: "vol u = ?v" using u(3) t(3) by simp
        have iu: "icache u = icache s" using keeps_icache [OF su] by simp
        have onl: "only_file ?i nb (vol s) (vol u)" unfolding vu by (rule only_file_upd [OF di bn])
        have fa: "faddr (vol u) ?i ` {..<nb} = faddr (vol s) ?i ` {..<nb}" using onl by (auto simp: only_file_def image_iff)
        show "wp ?rest Q u"
        proof (rule "1.IH" [OF False])
          show "fs H W u" "card H \<le> 1" "solid H u (icache u ip) nb" "distinct_blocks (vol u) (icache u ip) nb"
            "off + ?m + (n - ?m) \<le> nb * BSIZE" "length (drop ?m src) = n - ?m" "faddr (vol u) (icache u ip) ` {..<nb} \<subseteq> W"
            using u(1) F(2) solid_upd [OF so su onl] distinct_blocks_upd [OF di bn] vu iu "1.prems"(5-7) fa by simp_all
          fix w assume w: "fs H W w" "keeps H u w" "only_file (icache u ip) nb (vol u) (vol w)"
            "fbytes (vol w) (icache u ip) 0 (nb * BSIZE) =
              splice (off + ?m) (drop ?m src) (fbytes (vol u) (icache u ip) 0 (nb * BSIZE))"
          have "splice (off + ?m) (drop ?m src) (splice off ?xs (fbytes (vol s) ?i 0 (nb * BSIZE))) =
              splice off src (fbytes (vol s) ?i 0 (nb * BSIZE))"
            using splice_splice [of off ?xs "fbytes (vol s) ?i 0 (nb * BSIZE)" "drop ?m src"] xs(1) "1.prems"(5) by simp
          then show "Q () w"
            using Q [OF w(1) keeps_trans [OF su w(2)]] only_file_trans [OF onl] w(3,4) iu fb vu by simp
        qed
      qed
      then show "wp (bread (idev (icache t ip)) ?a) (\<lambda>b. wp (seqk (bmod b (splice (off mod BSIZE) ?xs))
         (seqk (log_write b) (seqk (brelse b) ?rest))) Q) t"
        by (simp only: it dev wp_bind)
    qed
  qed
qed

section \<open>A whole write\<close>

lemma unat_of_nat32: "m < 2 ^ 32 \<Longrightarrow> unat (of_nat m :: u32) = m"
  by (simp add: unsigned_of_nat take_bit_nat_eq_self)

lemma take_splice:
  assumes "off \<le> z" "z \<le> length F" "off + length ys \<le> length F"
  shows "take (max z (off + length ys)) (splice off ys F) = splice off ys (take z F)"
  using assms by (auto simp: splice_def max_def min_def take_drop)

lemma fbytes_take: "n \<le> m \<Longrightarrow> fbytes v i 0 n = take n (fbytes v i 0 m)"
  by (simp add: fbytes_def take_map)

lemma solid_mono: "solid H s i nb \<Longrightarrow> k \<le> nb \<Longrightarrow> solid H s i k"
  by (auto simp: solid_def)

lemma blocks_le: "z \<le> nb * BSIZE \<Longrightarrow> (z + BSIZE - 1) div BSIZE \<le> nb"
  using div_le_mono [of "z + BSIZE - 1" "nb * BSIZE + (BSIZE - 1)" BSIZE] by simp

definition grown :: "nat \<Rightarrow> inode \<Rightarrow> inode" where
  "grown z i = i\<lparr>isize := of_nat (max (unat (isize i)) z)\<rparr>"

text \<open>The file may be written up to the end of its first \<open>nb\<close> blocks in the transaction.\<close>

definition writable :: "u32 set \<Rightarrow> 'z fstate_scheme \<Rightarrow> inode \<Rightarrow> nat \<Rightarrow> bool" where
  "writable W s i nb \<longleftrightarrow> fs {} W s \<and> solid {} s i nb \<and> distinct_blocks (vol s) i nb \<and> faddr (vol s) i ` {..<nb} \<subseteq> W \<and>
     unat (isize i) \<le> nb * BSIZE \<and> itype i \<noteq> T_DEV \<and> itype i \<noteq> T_DITTO \<and> length (addrs i) = NDIRECT + 1 \<and>
     open_sec {} s (IBLOCK (inum i)) \<and> IBLOCK (inum i) \<in> W \<and> IBLOCK (inum i) \<notin> faddr (vol s) i ` {..<nb} \<and>
     (NDIRECT < nb \<longrightarrow> addrs i ! NDIRECT \<noteq> IBLOCK (inum i))"

lemma writei_fs:
  fixes s :: "'z fstate_scheme"
  assumes w: "writable W s i nb" and i: "i = icache s ip" "skip \<or> child1 i = 0 \<and> child2 i = 0"
    and o: "off \<le> isize i" "unat off + unat n \<le> nb * BSIZE" "length src = unat n" "0 < n"
    and Q: "\<And>t j. \<lbrakk>fs {} W t; moves {} s t; j = grown (unat off + unat n) i; icache t = (icache s)(ip := checked (vol t) j);
      fbytes (vol t) i 0 (nb * BSIZE) = splice (unat off) src (fbytes (vol s) i 0 (nb * BSIZE));
      dinode_at (vol t) (inum i) = to_dinode (checked (vol t) j); solid {} t i nb;
      \<forall>m. m \<noteq> inum i \<longrightarrow> dinode_at (vol t) m = dinode_at (vol s) m \<or> IBLOCK m \<in> faddr (vol s) i ` {..<nb};
      \<forall>m. m \<notin> faddr (vol s) i ` {..<nb} \<longrightarrow> m \<noteq> IBLOCK (inum i) \<longrightarrow> vol t m = vol s m\<rbrakk> \<Longrightarrow> Q (int (unat n)) t"
  shows "wp (writei_rec (Suc fuel) dv ip src off n skip) Q s"
proof -
  note w' = w [unfolded writable_def]
  have le: "unat off \<le> unat (isize i)" using o(1) by (simp add: word_le_nat_alt)
  have small: "unat off + unat n \<le> 70656" using solid_bytes [of "{}" s i nb] w' o(2) by simp
  then have sum: "unat (off + n) = unat off + unat n" by (simp add: unat_word_ariths)
  have g1: "\<not> (off > isize i \<or> off + n < off)" using le sum by (auto simp: word_less_nat_alt)
  have g2: "\<not> off + n > of_nat (MAXFILE * BSIZE)" using small sum by (simp add: MAXFILE_bytes word_less_nat_alt)
  have sn: "sint n = int (unat n)" using small by (intro sint_small) simp
  let ?z = "unat off + unat n" and ?A = "faddr (vol s) i ` {..<nb}" and ?B = "IBLOCK (inum i)"
  define j where "j = grown ?z i"
  have jz: "unat (isize j) = max (unat (isize i)) ?z"
    using small unat_u32_less [of "isize i"] unat_of_nat32 [of "max (unat (isize i)) ?z"] by (simp add: j_def grown_def)
  have upd: "(if n > 0 \<and> off + n > isize i then i\<lparr>isize := off + n\<rparr> else i) = j"
  proof (cases "off + n > isize i")
    case True
    then have "max (unat (isize i)) ?z = ?z" using sum by (simp add: word_less_nat_alt)
    moreover have "of_nat ?z = off + n" by simp
    ultimately show ?thesis using True o(4) by (simp add: j_def grown_def)
  next
    case False
    then have "max (unat (isize i)) ?z = unat (isize i)" using sum by (auto simp: word_less_nat_alt)
    then show ?thesis using False by (cases i) (simp add: j_def grown_def)
  qed
  have ji: "addrs j = addrs i" "inum j = inum i" "idev j = idev i" "itype j = itype i" "child1 j = child1 i" "child2 j = child2 i"
    by (simp_all add: j_def grown_def)
  note fj = faddr_cong [OF ji(1)]
  let ?nz = "(unat (isize j) + BSIZE - 1) div BSIZE"
  have nz: "?nz \<le> nb" using blocks_le [of "unat (isize j)" nb] jz w' o(2) by simp
  have nB: "faddr (vol s) i k \<noteq> ?B" if "k < nb" for k using w' that by (metis imageI lessThan_iff)
  let ?tail = "bind (igets ip itype) (\<lambda>ty. if ty = T_DITTO then ret (sint n) else
      seqk (iset ip (\<lambda>i. if n > 0 \<and> off + n > isize i then i\<lparr>isize := off + n\<rparr> else i))
        (seqk (whenk (ty \<noteq> T_DEV) (iupdate_ext dv ip skip)) (ret (sint n))))"
  have fin: "wp ?tail Q t"
    if t: "fs {} W t" "keeps {} s t" "only_file i nb (vol s) (vol t)"
      "fbytes (vol t) i 0 (nb * BSIZE) = splice (unat off) src (fbytes (vol s) i 0 (nb * BSIZE))" for t
  proof -
    have it: "icache t = icache s" by (rule keeps_icache [OF t(2)])
    let ?t = "t\<lparr>icache := (icache s)(ip := j)\<rparr>"
    have fa: "faddr (vol t) i k = faddr (vol s) i k" if "k < nb" for k using t(3) that by (simp add: only_file_def)
    have so: "solid {} ?t j nb" using solid_upd [OF _ t(2,3)] w' by (simp add: solid_def fj ji)
    have wh: "whole {} ?t j" using solid_mono [OF so nz] solid_bytes [OF so] jz w' o(2) MAXFILE_bytes by (simp add: whole_def)
    have ap: "apart ?B (vol ?t) j"
    proof -
      have "faddr (vol t) i bn \<noteq> ?B" if "bn < ?nz" for bn
        using fa [of bn] nB [of bn] that nz by simp
      then show ?thesis using w' nz by (simp add: apart_def fj ji)
    qed
    have "wp (iupdate_ext dv ip skip) (\<lambda>_. Q (int (unat n))) ?t"
    proof (rule iupdate_fs [where i = j])
      show "fs {} W ?t" "j = icache ?t ip" "idev j = 1" "open_sec {} ?t (IBLOCK (inum j))" "IBLOCK (inum j) \<in> W"
        "length (addrs j) = NDIRECT + 1" "whole {} ?t j" "apart (IBLOCK (inum j)) (vol ?t) j" "skip \<or> child1 j = 0 \<and> child2 j = 0"
        using t(1) w' wh ap i(2) open_sec_keeps [OF t(2)] ji by (simp_all add: solid_def)
      fix u assume u: "fs {} W u" "moves {} ?t u" "vol u = put_inode (checked (vol ?t) j) (vol ?t)"
        "icache u = (icache ?t)(ip := checked (vol ?t) j)"
      let ?c = "checked (vol ?t) j"
      have v: "vol u = (vol t)(?B := splice (ioff (inum i)) (en_dinode (to_dinode ?c)) (vol t ?B))"
        using u(3) ji by (simp add: put_inode_def checked_def)
      have cc: "checked (vol u) j = ?c" using apart_same(1) [OF ap] v by (simp add: checked_def)
      have fb: "fbytes (vol u) i 0 (nb * BSIZE) = fbytes (vol t) i 0 (nb * BSIZE)"
        unfolding v by (rule fbytes_other [where nb = nb]) (use w' fa nB in simp_all)
      have lb: "length (vol t ?B) = BSIZE" using length_vol [OF t(1)] w' keepsD(2) [OF t(2)] by (simp add: open_sec_def)
      have lc: "length (en_dinode (to_dinode ?c)) = 64" using w' ji by (simp add: length_en_dinode to_dinode_def checked_def)
      have d1: "dinode_at (vol u) (inum i) = to_dinode ?c"
        using v lb lc ioff_bound [of "inum i"] de_en_dinode [of "to_dinode ?c"] w' ji by (simp add: dinode_at_def to_dinode_def checked_def)
      have d2: "dinode_at (vol u) m = dinode_at (vol s) m \<or> IBLOCK m \<in> ?A" if "m \<noteq> inum i" for m
      proof -
        have "dinode_at (vol u) m = dinode_at (vol t) m"
          using v lb lc ioff_disjoint [of m "inum i"] that ioff_bound [of m] ioff_bound [of "inum i"]
          by (auto simp: dinode_at_def slice_splice_other)
        then show ?thesis using t(3) by (auto simp: dinode_at_def only_file_def)
      qed
      have fu: "faddr (vol u) i k = faddr (vol s) i k" if "k < nb" for k
        unfolding v fa [OF that, symmetric] by (rule faddr_other) (use w' that in auto)
      have su: "solid {} u i nb"
        using w' fu movesD(1) [OF moves_trans [OF moves_trans [OF keeps_moves [OF t(2)] moves_iset] u(2)]] by (simp add: solid_def)
      show "Q (int (unat n)) u"
        by (rule Q [OF u(1) moves_trans [OF moves_trans [OF keeps_moves [OF t(2)] moves_iset] u(2)] j_def])
          (use u(4) cc fb t(3,4) v d1 d2 su in \<open>auto simp: only_file_def\<close>)
    qed
    then show ?thesis
      using w' it i(1) upd by (simp add: sn wp_fun cong: if_cong)
  qed
  let ?kids = "whenk (\<not> skip) (foreach [child1, child2] (\<lambda>ch. bind (igets ip (\<lambda>i. (idev i, ch i))) (\<lambda>(dev, c).
      whenk (c \<noteq> 0) (bind (iget dev (scast c)) (\<lambda>ci.
        seqk (ilock_ext dv (Some ci) False) (seqk (writei_rec fuel dv ci src off n False) (iunlock (Some ci))))))))"
  have ch: "wp ?kids (\<lambda>_. wp ?tail Q) t" if "wp ?tail Q t" "icache t ip = i" for t
    using that i(2) by auto
  have "wp (writei_loop ip src (unat off) (unat n)) (\<lambda>_ t. wp ?tail Q t \<and> icache t ip = i) s"
  proof (rule writei_loop_fs [where H = "{}" and nb = nb and W = W], goal_cases)
    case (8 t)
    then show ?case using fin [of t] i(1) keeps_icache [of "{}" s t] by simp
  qed (use w' i(1) o(2,3) in simp_all)
  then have "wp (seqk (writei_loop ip src (unat off) (unat n)) (seqk ?kids ?tail)) Q s"
    unfolding wp_seqk by (rule wp_mono) (use ch in blast)
  then show ?thesis
    using g1 g2 w' i(1) by (simp add: bind_igets wp_def del: foreach.simps)
qed


lemma grown_content:
  assumes "unat (isize i) \<le> nb * BSIZE" "unat off \<le> unat (isize i)" "z = unat off + length src" "z \<le> nb * BSIZE" "nb * BSIZE \<le> 70656"
    and "fbytes w i 0 (nb * BSIZE) = splice (unat off) src (fbytes v i 0 (nb * BSIZE))"
  shows "fcontent w (checked w (grown z i)) = splice (unat off) src (fcontent v i)"
    "unat (isize (grown z i)) = max (unat (isize i)) z"
proof -
  show z: "unat (isize (grown z i)) = max (unat (isize i)) z"
    using unat_of_nat32 [of "max (unat (isize i)) z"] assms by (simp add: grown_def)
  have "fbytes w (checked w (grown z i)) = fbytes w i" by (rule fbytes_cong) (simp add: checked_def grown_def)
  then have "fcontent w (checked w (grown z i)) = take (max (unat (isize i)) z) (fbytes w i 0 (nb * BSIZE))"
    using assms(1,4) z by (simp add: fcontent_def checked_def fbytes_take [of "max (unat (isize i)) z" "nb * BSIZE"])
  then show "fcontent w (checked w (grown z i)) = splice (unat off) src (fcontent v i)"
    using take_splice [of "unat off" "unat (isize i)" "fbytes v i 0 (nb * BSIZE)" src] assms
    by (simp add: fcontent_def fbytes_take [of "unat (isize i)" "nb * BSIZE"])
qed

section \<open>Properties\<close>



end
