(* ===== verification/Cstring.thy ===== *)
theory Cstring
  imports Prelude
begin

text \<open>
  The string and memory routines of the kernel (\<open>string.c\<close>) and of the user library
  (\<open>ulib.c\<close>), over a flat byte memory with 32-bit addresses that wrap around. A C string that is
  only read is the function from offsets to bytes that its pointer gives access to.

  The lemmas give each routine its meaning: \<open>memmove\<close> copies also when the regions overlap,
  \<open>memset\<close> by words and by bytes agree, \<open>strncpy\<close> pads, \<open>safestrcpy\<close> always terminates, and
  \<open>strncmp\<close> decides equality of the strings cut at \<open>n\<close>.
\<close>

type_synonym mem = "u32 \<Rightarrow> byte"

section \<open>Memory\<close>

primrec stosb :: "nat \<Rightarrow> u32 \<Rightarrow> byte \<Rightarrow> mem \<Rightarrow> mem" where
  "stosb 0 d c m = m"
| "stosb (Suc n) d c m = stosb n (d + 1) c (m(d := c))"

definition put32 :: "u32 \<Rightarrow> u32 \<Rightarrow> mem \<Rightarrow> mem" where
  "put32 d w m = m(d := ucast w, d + 1 := ucast (drop_bit 8 w), d + 2 := ucast (drop_bit 16 w),
     d + 3 := ucast (drop_bit 24 w))"

primrec stosl :: "nat \<Rightarrow> u32 \<Rightarrow> u32 \<Rightarrow> mem \<Rightarrow> mem" where
  "stosl 0 d w m = m"
| "stosl (Suc n) d w m = stosl n (d + 4) w (put32 d w m)"

definition memset :: "u32 \<Rightarrow> u32 \<Rightarrow> u32 \<Rightarrow> mem \<Rightarrow> mem" where
  "memset dst c n =
     (if sint dst mod 4 = 0 \<and> n mod 4 = 0
      then let c = c AND 0xFF
        in stosl (unat (n div 4)) dst (push_bit 24 c OR push_bit 16 c OR push_bit 8 c OR c)
      else stosb (unat n) dst (ucast c))"

primrec memcmp :: "nat \<Rightarrow> u32 \<Rightarrow> u32 \<Rightarrow> mem \<Rightarrow> int" where
  "memcmp 0 s1 s2 m = 0"
| "memcmp (Suc n) s1 s2 m =
     (if m s1 \<noteq> m s2 then uint (m s1) - uint (m s2) else memcmp n (s1 + 1) (s2 + 1) m)"

primrec move_down :: "nat \<Rightarrow> u32 \<Rightarrow> u32 \<Rightarrow> mem \<Rightarrow> mem" where
  "move_down 0 d s m = m"
| "move_down (Suc n) d s m = move_down n (d - 1) (s - 1) (m(d - 1 := m (s - 1)))"

primrec move_up :: "nat \<Rightarrow> u32 \<Rightarrow> u32 \<Rightarrow> mem \<Rightarrow> mem" where
  "move_up 0 d s m = m"
| "move_up (Suc n) d s m = move_up n (d + 1) (s + 1) (m(d := m s))"

definition memmove :: "u32 \<Rightarrow> u32 \<Rightarrow> u32 \<Rightarrow> mem \<Rightarrow> mem" where
  "memmove dst src n =
     (if src < dst \<and> src + n > dst then move_down (unat n) (dst + n) (src + n)
      else move_up (unat n) dst src)"

definition memcpy :: "u32 \<Rightarrow> u32 \<Rightarrow> u32 \<Rightarrow> mem \<Rightarrow> mem" where
  "memcpy dst src n = memmove dst src n"

text \<open>The user library's \<open>memset\<close> stores bytes only and its \<open>memmove\<close> copies upwards only.\<close>

definition ulib_memset :: "u32 \<Rightarrow> u32 \<Rightarrow> u32 \<Rightarrow> mem \<Rightarrow> mem" where
  "ulib_memset dst c n = stosb (unat n) dst (ucast c)"

definition ulib_memmove :: "u32 \<Rightarrow> u32 \<Rightarrow> int \<Rightarrow> mem \<Rightarrow> mem" where
  "ulib_memmove dst src n = move_up (nat n) dst src"

section \<open>Strings\<close>

primrec strncmp :: "nat \<Rightarrow> (nat \<Rightarrow> byte) \<Rightarrow> (nat \<Rightarrow> byte) \<Rightarrow> int" where
  "strncmp 0 p q = 0"
| "strncmp (Suc n) p q =
     (if p 0 \<noteq> 0 \<and> p 0 = q 0 then strncmp n (\<lambda>i. p (Suc i)) (\<lambda>i. q (Suc i))
      else uint (p 0) - uint (q 0))"

text \<open>\<open>strncpy\<close>: the copying loop, then the padding loop on the count that is left.\<close>

primrec strncpy_copy :: "nat \<Rightarrow> u32 \<Rightarrow> u32 \<Rightarrow> mem \<Rightarrow> nat \<times> u32 \<times> mem" where
  "strncpy_copy 0 s t m = (0, s, m)"
| "strncpy_copy (Suc n) s t m =
     (let m' = m(s := m t) in if m t \<noteq> 0 then strncpy_copy n (s + 1) (t + 1) m' else (n, s + 1, m'))"

definition strncpy :: "u32 \<Rightarrow> u32 \<Rightarrow> int \<Rightarrow> mem \<Rightarrow> mem" where
  "strncpy s t n m = (case strncpy_copy (nat n) s t m of (k, s', m') \<Rightarrow> stosb k s' 0 m')"

definition safestrcpy :: "u32 \<Rightarrow> u32 \<Rightarrow> int \<Rightarrow> mem \<Rightarrow> mem" where
  "safestrcpy s t n m =
     (if n \<le> 0 then m
      else case strncpy_copy (nat (n - 1)) s t m of (_, s', m') \<Rightarrow> m'(s' := 0))"

text \<open>Loops with no bound of their own: \<open>None\<close> when they never meet a NUL.\<close>

partial_function (option) strlen_from :: "(nat \<Rightarrow> byte) \<Rightarrow> nat \<Rightarrow> nat option" where
  "strlen_from s n = (if s n = 0 then Some n else strlen_from s (Suc n))"

definition strlen :: "(nat \<Rightarrow> byte) \<Rightarrow> nat option" where
  "strlen s = strlen_from s 0"

partial_function (option) strcmp :: "(nat \<Rightarrow> byte) \<Rightarrow> (nat \<Rightarrow> byte) \<Rightarrow> int option" where
  "strcmp p q =
     (if p 0 \<noteq> 0 \<and> p 0 = q 0 then strcmp (\<lambda>i. p (Suc i)) (\<lambda>i. q (Suc i))
      else Some (uint (p 0) - uint (q 0)))"

partial_function (option) strchr_from :: "(nat \<Rightarrow> byte) \<Rightarrow> byte \<Rightarrow> nat \<Rightarrow> nat option option" where
  "strchr_from s c i =
     (if s i = 0 then Some None else if s i = c then Some (Some i) else strchr_from s c (Suc i))"

definition strchr :: "(nat \<Rightarrow> byte) \<Rightarrow> byte \<Rightarrow> nat option option" where
  "strchr s c = strchr_from s c 0"

partial_function (option) strcpy :: "u32 \<Rightarrow> u32 \<Rightarrow> mem \<Rightarrow> mem option" where
  "strcpy s t m = (let m' = m(s := m t) in if m t = 0 then Some m' else strcpy (s + 1) (t + 1) m')"

partial_function (option) atoi_from :: "(nat \<Rightarrow> byte) \<Rightarrow> nat \<Rightarrow> u32 \<Rightarrow> u32 option" where
  "atoi_from s i n =
     (if 48 \<le> s i \<and> s i \<le> 57 then atoi_from s (Suc i) (n * 10 + ucast (s i) - 48) else Some n)"

definition atoi :: "(nat \<Rightarrow> byte) \<Rightarrow> u32 option" where
  "atoi s = atoi_from s 0 0"

text \<open>The string at an address, and the bytes of a list read as a string that ends with it.\<close>

definition ptr :: "mem \<Rightarrow> u32 \<Rightarrow> nat \<Rightarrow> byte" where
  "ptr m a i = m (a + of_nat i)"

definition cstr :: "bytes \<Rightarrow> nat \<Rightarrow> byte" where
  "cstr bs i = (if i < length bs then bs ! i else 0)"

section \<open>Offsets in a wrapping address space\<close>

lemma offset_next:
  fixes a d :: u32
  assumes "n < 2 ^ 32"
  shows "unat (a - (d + 1)) < n \<longleftrightarrow> 0 < unat (a - d) \<and> unat (a - d) < Suc n"
proof (cases "a = d")
  case True
  then have "unat (a - (d + 1)) = 2 ^ 32 - 1" by (simp add: unsigned_minus_1_eq_mask mask_eq_exp_minus_1)
  with True assms show ?thesis by simp
next
  case False
  then have "0 < unat (a - d)" by (metis unat_gt_0 eq_iff_diff_eq_0)
  moreover from this have "unat (a - d - 1) = unat (a - d) - 1"
    using False by (intro unat_minus_one) auto
  ultimately show ?thesis by (auto simp: algebra_simps diff_diff_eq)
qed

lemma offset_0 [simp]: "unat (a - d :: u32) = 0 \<longleftrightarrow> a = d"
  by (simp add: unat_eq_0)

lemma stosb_apply:
  "n < 2 ^ 32 \<Longrightarrow> stosb n d c m a = (if unat (a - d) < n then c else m a)"
proof (induction n arbitrary: d m)
  case (Suc n)
  then show ?case
    by (auto simp: offset_next)
qed simp

lemma move_up_apply:
  assumes "n < 2 ^ 32" "unat (d - s) = 0 \<or> n \<le> unat (d - s)"
  shows "move_up n d s m a = (if unat (a - d) < n then m (s + (a - d)) else m a)"
  using assms
proof (induction n arbitrary: d s m)
  case (Suc n)
  have IH: "move_up n (d + 1) (s + 1) (m(d := m s)) a =
      (if unat (a - (d + 1)) < n then (m(d := m s)) (s + 1 + (a - (d + 1))) else (m(d := m s)) a)"
    by (rule Suc.IH) (use Suc.prems in auto)
  have e: "s + 1 + (a - (d + 1)) = s + (a - d)" by simp
  have "(m(d := m s)) (s + (a - d)) = m (s + (a - d))" if "unat (a - d) < Suc n" "a \<noteq> d"
  proof (cases "s = d")
    case False
    with Suc.prems have "unat (d - s) \<noteq> unat (a - d)" using that by auto
    then have "s + (a - d) \<noteq> d" by (metis add_diff_cancel_left')
    then show ?thesis by simp
  qed auto
  with Suc.prems(1) show ?case
    unfolding move_up.simps IH e by (auto simp: offset_next)
qed simp

lemma move_down_apply:
  assumes "n < 2 ^ 32" "unat (s - d) = 0 \<or> n \<le> unat (s - d)"
  shows "move_down n (d + of_nat n) (s + of_nat n) m a = (if unat (a - d) < n then m (s + (a - d)) else m a)"
  using assms
proof (induction n arbitrary: m)
  case (Suc n)
  let ?m = "m(d + of_nat n := m (s + of_nat n))"
  have "move_down (Suc n) (d + of_nat (Suc n)) (s + of_nat (Suc n)) m = move_down n (d + of_nat n) (s + of_nat n) ?m"
    by simp
  then have IH: "move_down (Suc n) (d + of_nat (Suc n)) (s + of_nat (Suc n)) m a =
      (if unat (a - d) < n then ?m (s + (a - d)) else ?m a)"
    by (simp only:, intro Suc.IH) (use Suc.prems in auto)
  have n: "unat (of_nat n :: u32) = n"
    using Suc.prems(1) by (simp add: unat_of_nat)
  have a: "a = d + of_nat n \<longleftrightarrow> unat (a - d) = n"
    by (metis n add_diff_cancel_left' diff_add_cancel add.commute word_unat_eq_iff)
  have "s + (a - d) \<noteq> d + of_nat n \<or> s = d" if "unat (a - d) < n"
  proof (rule disjCI)
    assume "s \<noteq> d"
    then have "Suc n \<le> unat (s - d)" using Suc.prems(2) by (auto simp: unat_eq_0)
    show "s + (a - d) \<noteq> d + of_nat n"
    proof
      assume "s + (a - d) = d + of_nat n"
      then have "s - d = of_nat n - (a - d)" by (simp add: algebra_simps)
      also have "unat \<dots> = n - unat (a - d)"
        using that n by (subst unat_sub) (auto simp: word_le_nat_alt)
      finally show False using \<open>Suc n \<le> unat (s - d)\<close> by simp
    qed
  qed
  then show ?case
    unfolding IH using a n by (auto simp: less_Suc_eq)
qed simp

section \<open>What the memory routines do\<close>

lemma stosb_add: "stosb (j + k) d c m = stosb k (d + of_nat j) c (stosb j d c m)"
  by (induction j arbitrary: d m) (simp_all add: add_ac)

lemma put32_stosb:
  assumes "ucast w = c" "ucast (drop_bit 8 w) = c" "ucast (drop_bit 16 w) = c" "ucast (drop_bit 24 w) = c"
  shows "put32 d w m = stosb 4 d c m"
  proof -
  have "stosb 4 d c m = stosb (Suc (Suc (Suc (Suc 0)))) d c m" by (simp add: numeral_eq_Suc)
  also have "\<dots> = put32 d w m" by (simp add: put32_def assms add_ac)
  finally show ?thesis by simp
qed

lemma stosl_stosb:
  assumes "ucast w = c" "ucast (drop_bit 8 w) = c" "ucast (drop_bit 16 w) = c" "ucast (drop_bit 24 w) = c"
  shows "stosl n d w m = stosb (4 * n) d c m"
proof (induction n arbitrary: d m)
  case (Suc n)
  then show ?case
    using stosb_add [of 4 "4 * n"] by (simp add: put32_stosb [OF assms])
qed simp

lemma spread_bytes:
  fixes c :: u32
  defines "w \<equiv> push_bit 24 (c AND 0xFF) OR push_bit 16 (c AND 0xFF) OR push_bit 8 (c AND 0xFF) OR (c AND 0xFF)"
  shows "(ucast w :: byte) = ucast c" "(ucast (drop_bit 8 w) :: byte) = ucast c"
    "(ucast (drop_bit 16 w) :: byte) = ucast c" "(ucast (drop_bit 24 w) :: byte) = ucast c"
proof -
  have m: "(0xFF :: u32) = mask 8" by (simp add: mask_eq_exp_minus_1)
  show "(ucast w :: byte) = ucast c" "(ucast (drop_bit 8 w) :: byte) = ucast c"
    "(ucast (drop_bit 16 w) :: byte) = ucast c" "(ucast (drop_bit 24 w) :: byte) = ucast c"
    unfolding w_def m by (rule bit_word_eqI; auto simp: bit_simps)+
qed

lemma memset_ulib: "memset dst c n m = ulib_memset dst c n m"
proof -
  have "4 * unat (n div 4) = unat n" if "n mod 4 = 0"
  proof -
    have "unat n mod 4 = 0" using arg_cong [OF that, of unat] by (simp add: unat_mod)
    then show ?thesis by (simp add: unat_div mod_eq_0_iff_dvd)
  qed
  then show ?thesis
    unfolding memset_def ulib_memset_def Let_def stosl_stosb [OF spread_bytes] by simp
qed

lemma memset_apply: "memset dst c n m a = (if unat (a - dst) < unat n then ucast c else m a)"
  using unat_u32_less [of n] by (simp add: memset_ulib ulib_memset_def stosb_apply)

lemma memmove_apply:
  assumes "unat dst + unat n \<le> 2 ^ 32" "unat src + unat n < 2 ^ 32"
  shows "memmove dst src n m a = (if unat (a - dst) < unat n then m (src + (a - dst)) else m a)"
proof -
  have n: "unat n < 2 ^ 32" by (rule unat_u32_less)
  have sn: "unat (src + n) = unat src + unat n"
    using assms(2) by (simp add: unat_word_ariths)
  have sd: "unat (x - y) = (if y \<le> x then unat x - unat y else unat x + 2 ^ 32 - unat y)" for x y :: u32
    by (simp add: unat_sub_if' word_le_nat_alt)
  show ?thesis
  proof (cases "src < dst \<and> src + n > dst")
    case True
    then have "unat n \<le> unat (src - dst)"
      using assms(1) by (simp add: sd word_le_nat_alt word_less_nat_alt)
    with True show ?thesis
      using move_down_apply [of "unat n" src dst m a] n by (simp add: memmove_def)
  next
    case False
    then have "dst = src \<or> unat n \<le> unat (dst - src)"
      using assms(2) sn by (auto simp: sd word_le_nat_alt word_less_nat_alt word_unat_eq_iff)
    with False show ?thesis
      using move_up_apply [of "unat n" dst src m a] n by (auto simp: memmove_def)
  qed
qed

text \<open>C19 (memset). The kernel's \<open>memset\<close>, which stores whole words when address and length allow it,
  is the byte-by-byte \<open>memset\<close> of the user library: it sets the \<open>n\<close> bytes from \<open>dst\<close> to the
  low byte of \<open>c\<close> and leaves every other byte alone.\<close>

theorem memset_fills:
  "memset dst c n m = ulib_memset dst c n m \<and>
   memset dst c n m a = (if unat (a - dst) < unat n then ucast c else m a)"
  by (intro conjI memset_ulib memset_apply)

text \<open>C20 (memmove). For regions that do not run past the end of the address space, the kernel's
  \<open>memmove\<close> copies the \<open>n\<close> bytes at \<open>src\<close>, as they were before the call, to \<open>dst\<close>, and changes
  nothing else, whether or not the two regions overlap.\<close>

theorem memmove_copies:
  assumes "unat dst + unat n \<le> 2 ^ 32" "unat src + unat n < 2 ^ 32"
  shows "memmove dst src n m a = (if unat (a - dst) < unat n then m (src + (a - dst)) else m a)"
  using assms by (rule memmove_apply)

theorem memmove_copies_witness:
  "unat (102 :: u32) + unat (5 :: u32) \<le> 2 ^ 32 \<and> unat (100 :: u32) + unat (5 :: u32) < 2 ^ 32 \<and>
   memmove 102 100 5 (\<lambda>a. ucast a) 105 = 103 \<and> memmove 102 100 5 (\<lambda>a. ucast a) 101 = 101"
  by (simp add: memmove_copies)

section \<open>What the string routines do\<close>

text \<open>The C string at an offset function, cut at \<open>n\<close> bytes: the bytes before the first NUL.\<close>

definition cprefix :: "nat \<Rightarrow> (nat \<Rightarrow> byte) \<Rightarrow> bytes" where
  "cprefix n p = takeWhile (\<lambda>b. b \<noteq> 0) (map p [0..<n])"

lemma cprefix_0 [simp]: "cprefix 0 p = []"
  by (simp add: cprefix_def)

lemma cprefix_Suc [simp]: "cprefix (Suc n) p = (if p 0 = 0 then [] else p 0 # cprefix n (\<lambda>i. p (Suc i)))"
proof -
  have "map p [0..<Suc n] = p 0 # map (\<lambda>i. p (Suc i)) [0..<n]"
    by (simp only: upt_conv_Cons [of 0 "Suc n"] map_Suc_upt [symmetric] list.map map_map o_def)
  then show ?thesis unfolding cprefix_def by simp
qed

lemma strncmp_0_iff: "strncmp n p q = 0 \<longleftrightarrow> cprefix n p = cprefix n q"
  by (induction n arbitrary: p q) (auto simp: word_uint_eq_iff)

lemma length_cprefix: "length (cprefix n p) \<le> n"
  by (induction n arbitrary: p) auto

lemma cprefix_cstr: "0 \<notin> set bs \<Longrightarrow> cprefix n (cstr bs) = take n bs"
proof (induction n arbitrary: bs)
  case (Suc n)
  show ?case
  proof (cases bs)
    case (Cons b r)
    have "(\<lambda>i. cstr (b # r) (Suc i)) = cstr r" by (simp add: cstr_def fun_eq_iff)
    with Suc Cons show ?thesis by (auto simp: cstr_def [of "b # r" 0])
  qed (simp add: cstr_def)
qed simp

text \<open>The copying loop shared by \<open>strncpy\<close> and \<open>safestrcpy\<close>: it writes the string and, if there
  is room, its NUL.\<close>

lemma strncpy_copy_eq:
  assumes "n < 2 ^ 32" "n \<le> unat (s - t)" "n \<le> unat (t - s)"
  shows "strncpy_copy n s t m =
    (let k = length (cprefix n (ptr m t)); j = (if k < n then Suc k else k)
     in (n - j, s + of_nat j, move_up j s t m))"
  using assms
proof (induction n arbitrary: s t m)
  case (Suc n)
  let ?m = "m(s := m t)"
  have p: "ptr ?m (t + 1) i = ptr m t (Suc i)" if "i < n" for i
  proof -
    have "t + 1 + of_nat i \<noteq> s"
    proof
      assume "t + 1 + of_nat i = s"
      then have "s - t = of_nat (Suc i)" by (auto simp: algebra_simps)
      moreover have "unat (of_nat (Suc i) :: u32) = Suc i"
        using Suc.prems(1) that by (simp only: unat_of_nat) simp
      ultimately have "unat (s - t) = Suc i" by simp
      with Suc.prems(2) that show False by simp
    qed
    then show ?thesis by (auto simp: ptr_def algebra_simps)
  qed
  have u: "cprefix n (ptr ?m (t + 1)) = cprefix n (\<lambda>i. ptr m t (Suc i))"
    unfolding cprefix_def using p by (intro arg_cong [where f = "takeWhile _"]) simp
  have "strncpy_copy n (s + 1) (t + 1) ?m =
    (let k = length (cprefix n (ptr ?m (t + 1))); j = (if k < n then Suc k else k)
     in (n - j, s + 1 + of_nat j, move_up j (s + 1) (t + 1) ?m))"
    using Suc.prems by (intro Suc.IH) auto
  note IH = this [unfolded u]
  have p0: "ptr m t 0 = m t" by (simp add: ptr_def)
  show ?case
    unfolding strncpy_copy.simps cprefix_Suc p0 IH Let_def by (simp add: add.assoc)
qed simp

text \<open>The bytes at an address.\<close>

definition bytes_at :: "mem \<Rightarrow> u32 \<Rightarrow> nat \<Rightarrow> bytes" where
  "bytes_at m a n = map (\<lambda>i. m (a + of_nat i)) [0..<n]"

lemma cprefix_ptr_nth: "i < length (cprefix n (ptr m t)) \<Longrightarrow> cprefix n (ptr m t) ! i = m (t + of_nat i)"
  unfolding cprefix_def by (subst takeWhile_nth) (auto simp: ptr_def dest: order.strict_trans2 [OF _ length_takeWhile_le])

lemma cprefix_end:
  assumes "length (cprefix n p) < n" shows "p (length (cprefix n p)) = 0"
  using assms
proof (induction n arbitrary: p)
  case (Suc n)
  then show ?case using Suc.IH [of "\<lambda>i. p (Suc i)"] by (auto split: if_splits)
qed simp

lemma strncpy_apply:
  assumes "n < 2 ^ 31" "n \<le> unat (s - t)" "n \<le> unat (t - s)"
  shows "strncpy s t (int n) m a =
    (let r = cprefix n (ptr m t); i = unat (a - s)
     in if i < length r then r ! i else if i < n then 0 else m a)"
proof -
  define r where "r = cprefix n (ptr m t)"
  define j where "j = (if length r < n then Suc (length r) else length r)"
  have jn: "j \<le> n" "n < 2 ^ 32" using assms(1) length_cprefix [of n "ptr m t"] by (auto simp: j_def r_def)
  have "strncpy s t (int n) m a = stosb (n - j) (s + of_nat j) 0 (move_up j s t m) a"
    using strncpy_copy_eq [OF jn(2) assms(2,3), of m] by (simp add: strncpy_def Let_def r_def j_def)
  also have "\<dots> = (if unat (a - (s + of_nat j)) < n - j then 0
      else if unat (a - s) < j then m (t + (a - s)) else m a)"
    using jn assms by (subst stosb_apply) (auto simp: move_up_apply)
  finally have *: "strncpy s t (int n) m a = \<dots>" .
  have uj: "unat (of_nat j :: u32) = j" using jn by (simp add: unat_of_nat)
  have w: "unat (a - s - of_nat j) < n - j \<longleftrightarrow> j \<le> unat (a - s) \<and> unat (a - s) < n"
    using jn unat_u32_less [of "a - s"] by (auto simp: unat_sub_if' uj)
  have r1: "r ! unat (a - s) = m (t + (a - s))" if "unat (a - s) < length r"
    using cprefix_ptr_nth [of "unat (a - s)" n m t] that by (simp add: r_def)
  have r2: "m (t + (a - s)) = 0" if "unat (a - s) = length r" "length r < n"
    using cprefix_end [of n "ptr m t"] that(2) unfolding r_def [symmetric] that(1) [symmetric] by (simp add: ptr_def)
  show ?thesis
    unfolding * r_def [symmetric] Let_def diff_diff_eq [symmetric] w
    using r1 r2 by (auto simp: j_def)
qed

lemma safestrcpy_apply:
  assumes "0 < n" "n < 2 ^ 31" "n \<le> unat (s - t)" "n \<le> unat (t - s)"
  shows "safestrcpy s t (int n) m a =
    (let r = cprefix (n - 1) (ptr m t); i = unat (a - s)
     in if i < length r then r ! i else if i = length r \<or> i = Suc (length r) \<and> Suc (length r) < n then 0 else m a)"
proof -
  define r where "r = cprefix (n - 1) (ptr m t)"
  define j where "j = (if length r < n - 1 then Suc (length r) else length r)"
  have jn: "j \<le> n - 1" "n - 1 < 2 ^ 32" using assms(2) length_cprefix [of "n - 1" "ptr m t"] by (auto simp: j_def r_def)
  have c: "strncpy_copy (nat (int n - 1)) s t m = (n - 1 - j, s + of_nat j, move_up j s t m)"
    using strncpy_copy_eq [OF jn(2), of s t m] assms by (simp add: Let_def r_def j_def nat_diff_distrib)
  have uj: "unat (of_nat j :: u32) = j" using jn by (simp add: unat_of_nat)
  have aj: "a = s + of_nat j \<longleftrightarrow> unat (a - s) = j"
    by (metis uj add_diff_cancel_left' diff_add_cancel add.commute word_unat_eq_iff)
  have r1: "r ! unat (a - s) = m (t + (a - s))" if "unat (a - s) < length r"
    using cprefix_ptr_nth [of "unat (a - s)" "n - 1" m t] that by (simp add: r_def)
  have r2: "m (t + (a - s)) = 0" if "unat (a - s) = length r" "length r < n - 1"
    using cprefix_end [of "n - 1" "ptr m t"] that(2) unfolding r_def [symmetric] that(1) [symmetric]
    by (simp add: ptr_def)
  have mv: "move_up j s t m a = (if unat (a - s) < j then m (t + (a - s)) else m a)"
    using jn assms by (intro move_up_apply) auto
  have "safestrcpy s t (int n) m a =
      (if unat (a - s) = j then 0 else if unat (a - s) < j then m (t + (a - s)) else m a)"
    using assms(1) unfolding safestrcpy_def c by (simp add: aj mv)
  then show ?thesis
    using assms(1) r1 r2 unfolding r_def [symmetric] Let_def by (auto simp: j_def)
qed

text \<open>C21 (bounded string copies). For a destination that does not overlap the source,
  \<open>strncpy\<close> leaves the string, cut at \<open>n\<close> bytes, padded with NULs to exactly \<open>n\<close> bytes and touches
  nothing else; \<open>safestrcpy\<close> leaves the string cut at \<open>n - 1\<close> bytes, always followed by a NUL, and
  touches nothing outside the \<open>n\<close> bytes of the destination.\<close>

theorem bounded_copies:
  assumes "0 < n" "n < 2 ^ 31" "n \<le> unat (s - t)" "n \<le> unat (t - s)"
  shows "bytes_at (strncpy s t (int n) m) s n =
      (let r = cprefix n (ptr m t) in r @ replicate (n - length r) 0) \<and>
    cprefix n (ptr (safestrcpy s t (int n) m) s) = cprefix (n - 1) (ptr m t) \<and>
    length (cprefix n (ptr (safestrcpy s t (int n) m) s)) < n \<and>
    (n \<le> unat (a - s) \<longrightarrow> strncpy s t (int n) m a = m a \<and> safestrcpy s t (int n) m a = m a)"
proof -
  have o: "unat (of_nat i :: u32) = i" if "i < n" for i
    using that assms(2) by (simp add: unat_of_nat)
  have l: "length (cprefix n (ptr m t)) \<le> n" "length (cprefix (n - 1) (ptr m t)) \<le> n - 1"
    by (rule length_cprefix)+
  have "bytes_at (strncpy s t (int n) m) s n = (let r = cprefix n (ptr m t) in r @ replicate (n - length r) 0)"
    using l(1) by (intro nth_equalityI)
      (auto simp: Let_def bytes_at_def strncpy_apply [OF assms(2-4)] o nth_append)
  moreover have r: "cprefix n (ptr (safestrcpy s t (int n) m) s) = cprefix (n - 1) (ptr m t)"
  proof -
    let ?r = "cprefix (n - 1) (ptr m t)"
    have nz: "b \<noteq> 0" if "b \<in> set ?r" for b
      using that unfolding cprefix_def by (auto dest: set_takeWhileD)
    have "map (ptr (safestrcpy s t (int n) m) s) [0..<n] =
        ?r @ map (ptr (safestrcpy s t (int n) m) s) [length ?r..<n]"
      using l(2) assms(1) by (intro nth_equalityI)
        (auto simp: nth_append ptr_def safestrcpy_apply [OF assms] o Let_def)
    moreover have "[length ?r..<n] = length ?r # [Suc (length ?r)..<n]"
      using l(2) assms(1) by (intro upt_conv_Cons) simp
    moreover have "ptr (safestrcpy s t (int n) m) s (length ?r) = 0"
      using l(2) assms(1) by (simp add: ptr_def safestrcpy_apply [OF assms] o)
    ultimately show ?thesis
      unfolding cprefix_def [of n] using nz by (simp add: takeWhile_append2)
  qed
  ultimately show ?thesis
    using l assms(1) by (auto simp: strncpy_apply [OF assms(2-4)] safestrcpy_apply [OF assms] Let_def)
qed

theorem bounded_copies_witness:
  "let m = (\<lambda>a :: u32. if a = 2 then 65 else if a = 3 then 66 else 0 :: byte)
   in bytes_at (strncpy 100 2 4 m) 100 4 = [65, 66, 0, 0] \<and>
      length (cprefix 2 (ptr (safestrcpy 100 2 2 m) 100)) < 2"
proof -
  let ?m = "\<lambda>a :: u32. if a = 2 then 65 else if a = 3 then 66 else 0 :: byte"
  have "bytes_at (strncpy 100 2 (int 4) ?m) 100 4 =
      (let r = cprefix 4 (ptr ?m 2) in r @ replicate (4 - length r) 0)"
    using bounded_copies [of 4 100 2 ?m] by simp
  moreover have "cprefix 4 (ptr ?m 2) = [65, 66]"
    by (simp add: cprefix_def ptr_def upt_rec)
  moreover have "length (cprefix 2 (ptr (safestrcpy 100 2 (int 2) ?m) 100)) < 2"
    using bounded_copies [of 2 100 2 ?m] by simp
  ultimately show ?thesis
    by (simp add: Let_def numeral_2_eq_2)
qed

end
