(* ===== verification/Dir.thy ===== *)
theory Dir
  imports Writing Cstring
begin

text \<open>
  Directories and path names (\<open>fs.c\<close> from \<open>namecmp\<close> to \<open>distance_to_root\<close>).

  A C string in the path functions is the list of its characters before the final zero byte; the name of a
  directory entry is the array of its \<open>DIRSIZ\<close> bytes.  A null inode pointer is \<open>None\<close>;
  the kernel traps when it follows one.
\<close>

section \<open>Operations\<close>

definition DIRSIZ :: nat where "DIRSIZ = 14"
definition ROOTINO :: u32 where "ROOTINO = 1"

record dirent =
  de_inum :: u16
  de_name :: bytes

definition de_dirent :: "bytes \<Rightarrow> dirent" where
  "de_dirent bs = \<lparr>de_inum = de16 (slice 0 2 bs), de_name = slice 2 DIRSIZ bs\<rparr>"

definition en_dirent :: "dirent \<Rightarrow> bytes" where
  "en_dirent d = le16 (de_inum d) @ de_name d"

definition namecmp :: "bytes \<Rightarrow> bytes \<Rightarrow> int" where
  "namecmp s t = strncmp DIRSIZ (cstr s) (cstr t)"

text \<open>The offsets of the entries of a directory of the given size.\<close>

definition dir_offs :: "u32 \<Rightarrow> nat list" where
  "dir_offs len = map (\<lambda>k. 16 * k) [0..<(unat len + 15) div 16]"

definition read_dirent :: "(nat \<Rightarrow> 'z fstate_scheme devsw) \<Rightarrow> nat \<Rightarrow> nat \<Rightarrow> (dirent, 'z fstate_scheme) kop" where
  "read_dirent dv dp off =
     bind (readi dv dp (of_nat off) 16) (\<lambda>(r, xs).
     if r \<noteq> 16 then panic ''dirlink read'' else ret (de_dirent xs))"

primrec dirlookup_loop ::
  "(nat \<Rightarrow> 'z fstate_scheme devsw) \<Rightarrow> nat \<Rightarrow> bytes \<Rightarrow> nat list \<Rightarrow> ((nat \<times> nat) option, 'z fstate_scheme) kop" where
  "dirlookup_loop dv dp name [] = ret None"
| "dirlookup_loop dv dp name (off # offs) =
     bind (read_dirent dv dp off) (\<lambda>de.
     if de_inum de = 0 then dirlookup_loop dv dp name offs
     else if namecmp name (de_name de) = 0 then
       bind (igets dp idev) (\<lambda>dev.
       bind (iget dev (ucast (de_inum de))) (\<lambda>ip.
       ret (Some (ip, off))))
     else dirlookup_loop dv dp name offs)"

definition dirlookup ::
  "(nat \<Rightarrow> 'z fstate_scheme devsw) \<Rightarrow> nat \<Rightarrow> bytes \<Rightarrow> ((nat \<times> nat) option, 'z fstate_scheme) kop" where
  "dirlookup dv dp name =
     bind (igets dp (\<lambda>i. (itype i, isize i))) (\<lambda>(ty, len).
     if ty \<noteq> T_DIR then panic ''dirlookup not DIR''
     else dirlookup_loop dv dp name (dir_offs len))"

primrec find_empty ::
  "(nat \<Rightarrow> 'z fstate_scheme devsw) \<Rightarrow> nat \<Rightarrow> nat \<Rightarrow> nat list \<Rightarrow> (nat, 'z fstate_scheme) kop" where
  "find_empty dv dp end [] = ret end"
| "find_empty dv dp end (off # offs) =
     bind (read_dirent dv dp off) (\<lambda>de.
     if de_inum de = 0 then ret off else find_empty dv dp end offs)"

definition strncpy_name :: "bytes \<Rightarrow> bytes" where
  "strncpy_name name = take DIRSIZ (takeWhile (\<lambda>b. b \<noteq> 0) name @ replicate DIRSIZ 0)"

definition dirlink ::
  "(nat \<Rightarrow> 'z fstate_scheme devsw) \<Rightarrow> nat \<Rightarrow> bytes \<Rightarrow> u32 \<Rightarrow> (int, 'z fstate_scheme) kop" where
  "dirlink dv dp name n =
     bind (dirlookup dv dp name) (\<lambda>r. case r of
       Some (ip, _) \<Rightarrow> seqk (iput dv ip) (ret (- 1))
     | None \<Rightarrow>
         bind (igets dp isize) (\<lambda>len.
         bind (find_empty dv dp (16 * ((unat len + 15) div 16)) (dir_offs len)) (\<lambda>off.
         bind (writei dv dp (en_dirent \<lparr>de_inum = ucast n, de_name = strncpy_name name\<rparr>) (of_nat off) 16) (\<lambda>r.
         if r \<noteq> 16 then panic ''dirlink'' else ret 0))))"

section \<open>Paths\<close>

definition slash :: byte where "slash = 47"

definition skipelem :: "bytes \<Rightarrow> bytes \<Rightarrow> (bytes \<times> bytes) option" where
  "skipelem path name =
     (let path = dropWhile (\<lambda>b. b = slash) path in
      if path = [] then None
      else
        let s = takeWhile (\<lambda>b. b \<noteq> slash) path;
            path = dropWhile (\<lambda>b. b \<noteq> slash) path;
            name = (if length s \<ge> DIRSIZ then splice 0 (take DIRSIZ s) name else splice 0 (s @ [0]) name)
        in Some (dropWhile (\<lambda>b. b = slash) path, name))"

lemma skipelem_shorter [termination_simp]:
  assumes "skipelem path name = Some (rest, name')"
  shows "length rest < length path"
proof -
  define p where "p = dropWhile (\<lambda>b. b = slash) path"
  have p: "p \<noteq> []" "rest = dropWhile (\<lambda>b. b = slash) (dropWhile (\<lambda>b. b \<noteq> slash) p)"
    using assms by (auto simp: skipelem_def p_def [symmetric] Let_def split: if_splits)
  have "hd p \<noteq> slash" using p(1) hd_dropWhile [of "\<lambda>b. b = slash" path] by (simp add: p_def)
  then have "dropWhile (\<lambda>b. b \<noteq> slash) p = dropWhile (\<lambda>b. b \<noteq> slash) (tl p)" using p(1) by (cases p) auto
  then have "length rest \<le> length (tl p)"
    using p(2) length_dropWhile_le [of "\<lambda>b. b \<noteq> slash" "tl p"] length_dropWhile_le [of "\<lambda>b. b = slash" "dropWhile (\<lambda>b. b \<noteq> slash) (tl p)"]
    by simp
  also have "\<dots> < length p" using p(1) by (cases p) auto
  also have "\<dots> \<le> length path" unfolding p_def by (rule length_dropWhile_le)
  finally show ?thesis .
qed

definition lock_dir :: "(nat \<Rightarrow> 'z fstate_scheme devsw) \<Rightarrow> bool \<Rightarrow> nat \<Rightarrow> (int, 'z fstate_scheme) kop" where
  "lock_dir dv tr ip = (if tr then ilock_trans dv (Some ip) else ilock dv (Some ip))"

function namex_loop ::
  "(nat \<Rightarrow> 'z fstate_scheme devsw) \<Rightarrow> nat \<Rightarrow> bytes \<Rightarrow> bool \<Rightarrow> bytes \<Rightarrow> bool \<Rightarrow> (nat option \<times> bytes, 'z fstate_scheme) kop" where
  "namex_loop dv ip path par name tr =
     (case skipelem path name of
        None \<Rightarrow> if par then seqk (iput dv ip) (ret (None, name)) else ret (Some ip, name)
      | Some (path', name') \<Rightarrow>
          bind (lock_dir dv tr ip) (\<lambda>r.
          if r \<noteq> 0 then ret (None, name')
          else
            bind (igets ip itype) (\<lambda>ty.
            if ty \<noteq> T_DIR then seqk (iunlockput dv ip) (ret (None, name'))
            else if par \<and> path' = [] then seqk (iunlock (Some ip)) (ret (Some ip, name'))
            else
              bind (dirlookup dv ip name') (\<lambda>e. case e of
                None \<Rightarrow> seqk (iunlockput dv ip) (ret (None, name'))
              | Some (next, _) \<Rightarrow> seqk (iunlockput dv ip) (namex_loop dv next path' par name' tr)))))"
  by pat_completeness auto
termination
  by (relation "measure (\<lambda>(dv, ip, path, par, name, tr). length path)") (auto simp: skipelem_shorter)

definition deref :: "nat option \<Rightarrow> (nat \<Rightarrow> ('a, 's) kop) \<Rightarrow> ('a, 's) kop" where
  "deref p f = (case p of None \<Rightarrow> panic ''trap'' | Some i \<Rightarrow> f i)"

definition namex ::
  "(nat \<Rightarrow> 'z fstate_scheme devsw) \<Rightarrow> bytes \<Rightarrow> bool \<Rightarrow> bytes \<Rightarrow> bool \<Rightarrow> (nat option \<times> bytes, 'z fstate_scheme) kop" where
  "namex dv path par name tr =
     bind (if path \<noteq> [] \<and> hd path = slash then iget ROOTDEV ROOTINO
           else with_proc (\<lambda>p. bind (gets (\<lambda>s. cwd (ptable s p))) (\<lambda>c. deref c idup))) (\<lambda>ip.
     namex_loop dv ip path par name tr)"

definition name0 :: bytes where
  "name0 = replicate DIRSIZ 0"

definition namei_ext :: "(nat \<Rightarrow> 'z fstate_scheme devsw) \<Rightarrow> bytes \<Rightarrow> bool \<Rightarrow> (nat option, 'z fstate_scheme) kop" where
  "namei_ext dv path tr = bind (namex dv path False name0 tr) (\<lambda>(ip, _). ret ip)"

definition nameiparent_ext ::
  "(nat \<Rightarrow> 'z fstate_scheme devsw) \<Rightarrow> bytes \<Rightarrow> bool \<Rightarrow> (nat option \<times> bytes, 'z fstate_scheme) kop" where
  "nameiparent_ext dv path tr = namex dv path True name0 tr"

definition namei :: "(nat \<Rightarrow> 'z fstate_scheme devsw) \<Rightarrow> bytes \<Rightarrow> (nat option, 'z fstate_scheme) kop" where
  "namei dv path = namei_ext dv path False"

definition nameiparent :: "(nat \<Rightarrow> 'z fstate_scheme devsw) \<Rightarrow> bytes \<Rightarrow> (nat option \<times> bytes, 'z fstate_scheme) kop" where
  "nameiparent dv path = nameiparent_ext dv path False"

definition namei_trans :: "(nat \<Rightarrow> 'z fstate_scheme devsw) \<Rightarrow> bytes \<Rightarrow> (nat option, 'z fstate_scheme) kop" where
  "namei_trans dv path = namei_ext dv path True"

definition nameiparent_trans :: "(nat \<Rightarrow> 'z fstate_scheme devsw) \<Rightarrow> bytes \<Rightarrow> (nat option \<times> bytes, 'z fstate_scheme) kop" where
  "nameiparent_trans dv path = nameiparent_ext dv path True"

text \<open>
  The walk of \<open>distance_to_root\<close> along the \<open>..\<close> entries, for at most as many steps as there are inode
  numbers in directory entries; on a tree of directories it ends at the root before.
\<close>

primrec distance_loop ::
  "nat \<Rightarrow> (nat \<Rightarrow> 'z fstate_scheme devsw) \<Rightarrow> nat \<Rightarrow> int \<Rightarrow> (int, 'z fstate_scheme) kop" where
  "distance_loop 0 dv dp counter = (\<lambda>s. Diverge)"
| "distance_loop (Suc k) dv dp counter =
     bind (dirlookup dv dp [46, 46]) (\<lambda>e. case e of
       None \<Rightarrow> ret counter
     | Some (ip, _) \<Rightarrow>
         bind (igets dp inum) (\<lambda>inum1.
         seqk (iunlockput dv dp)
        (seqk (ilock_trans dv (Some ip))
        (bind (igets ip inum) (\<lambda>inum2.
         if inum1 = inum2 then seqk (iunlockput dv ip) (ret counter)
         else distance_loop k dv ip (counter + 1))))))"

definition distance_to_root :: "(nat \<Rightarrow> 'z fstate_scheme devsw) \<Rightarrow> bytes \<Rightarrow> (int, 'z fstate_scheme) kop" where
  "distance_to_root dv path =
     bind (nameiparent_ext dv path True) (\<lambda>(dp, _).
     seqk (ilock_trans dv dp)
     (deref dp (\<lambda>dp. distance_loop 65536 dv dp 1)))"

section \<open>Path elements\<close>

text \<open>The non-empty parts of a path between slashes.\<close>

fun comps :: "bytes \<Rightarrow> bytes \<Rightarrow> bytes list" where
  "comps acc [] = (if acc = [] then [] else [acc])"
| "comps acc (c # cs) =
     (if c = slash then (if acc = [] then comps [] cs else acc # comps [] cs) else comps (acc @ [c]) cs)"

text \<open>
  The names that \<open>namex\<close> looks up, one after the other.  It has one buffer for them, which every call of \<open>skipelem\<close> overwrites.
\<close>

function path_elems :: "bytes \<Rightarrow> bytes \<Rightarrow> bytes list" where
  "path_elems path name = (case skipelem path name of
      None \<Rightarrow> []
    | Some (rest, name) \<Rightarrow> cprefix DIRSIZ (cstr name) # path_elems rest name)"
  by pat_completeness auto
termination
  by (relation "measure (\<lambda>(path, name). length path)") (auto simp: skipelem_shorter)

declare path_elems.simps [simp del]

lemma comps_slashes: "comps [] (dropWhile (\<lambda>b. b = slash) p) = comps [] p"
  by (induction p) auto

lemma comps_elem: "comps acc p = (if acc @ takeWhile (\<lambda>b. b \<noteq> slash) p = [] then comps [] (dropWhile (\<lambda>b. b \<noteq> slash) p)
    else (acc @ takeWhile (\<lambda>b. b \<noteq> slash) p) # comps [] (dropWhile (\<lambda>b. b \<noteq> slash) p))"
  by (induction p arbitrary: acc) auto

lemma length_name0 [simp]: "length name0 = DIRSIZ"
  by (simp add: name0_def)

lemma cprefix_terminated: "0 \<notin> set s \<Longrightarrow> length s < n \<Longrightarrow> cprefix n (cstr (s @ 0 # r)) = s"
proof (induction s arbitrary: n)
  case Nil
  then show ?case by (cases n) (simp_all add: cstr_def)
next
  case (Cons c s)
  then obtain m where m: "n = Suc m" by (cases n) simp_all
  have "(\<lambda>i. cstr ((c # s) @ 0 # r) (Suc i)) = cstr (s @ 0 # r)" by (simp add: cstr_def fun_eq_iff)
  then show ?case using Cons m by (simp add: cstr_def [of _ 0])
qed

text \<open>What is left in the buffer from the name before does not matter.\<close>

lemma elem_name:
  assumes "0 \<notin> set s" "length old = DIRSIZ" "name = (if length s \<ge> DIRSIZ then splice 0 (take DIRSIZ s) old else splice 0 (s @ [0]) old)"
  shows "cprefix DIRSIZ (cstr name) = take DIRSIZ s" "length name = DIRSIZ"
proof -
  show "length name = DIRSIZ" using assms(2,3) by (auto simp: min_def)
  show "cprefix DIRSIZ (cstr name) = take DIRSIZ s"
  proof (cases "length s \<ge> DIRSIZ")
    case True
    have "name = take DIRSIZ s" using True assms(2,3) by simp
    then show ?thesis using True cprefix_cstr [of "take DIRSIZ s" DIRSIZ] assms(1) by (auto dest: in_set_takeD)
  next
    case False
    then have "name = s @ 0 # drop (Suc (length s)) old" using assms(3) by (simp add: splice_def)
    then show ?thesis using False cprefix_terminated [OF assms(1)] by simp
  qed
qed

text \<open>C11: Splitting a path with \<open>skipelem\<close> until nothing is left, with one buffer for the names and whatever that buffer holds at
the start, gives exactly the non-empty parts of the path between slashes, each cut to \<open>DIRSIZ\<close> characters.\<close>

theorem path_elems_comps:
  assumes "0 \<notin> set path" "length name = DIRSIZ"
  shows "path_elems path name = map (take DIRSIZ) (comps [] path)"
  using assms
proof (induction path name rule: path_elems.induct)
  case (1 path name)
  define p where "p = dropWhile (\<lambda>b. b = slash) path"
  define s where "s = takeWhile (\<lambda>b. b \<noteq> slash) p"
  define rest where "rest = dropWhile (\<lambda>b. b = slash) (dropWhile (\<lambda>b. b \<noteq> slash) p)"
  define name' where "name' = (if length s \<ge> DIRSIZ then splice 0 (take DIRSIZ s) name else splice 0 (s @ [0]) name)"
  have sk: "skipelem path name = (if p = [] then None else Some (rest, name'))"
    by (simp add: skipelem_def Let_def p_def s_def rest_def name'_def)
  have c: "comps [] path = comps [] p" unfolding p_def by (rule comps_slashes [symmetric])
  show ?case
  proof (cases "p = []")
    case True
    then show ?thesis using sk c by (simp add: path_elems.simps)
  next
    case False
    have "hd p \<noteq> slash" using False hd_dropWhile [of "\<lambda>b. b = slash" path] by (simp add: p_def)
    then have s: "s \<noteq> []" using False by (cases p) (auto simp: s_def)
    have z: "0 \<notin> set s" "0 \<notin> set rest"
      using "1.prems"(1) by (auto simp: s_def rest_def p_def dest!: set_takeWhileD set_dropWhileD)
    note n = elem_name [OF z(1) "1.prems"(2) name'_def]
    have "comps [] p = s # comps [] rest"
      using comps_elem [of "[]" p] s comps_slashes [of "dropWhile (\<lambda>b. b \<noteq> slash) p"] by (simp add: s_def rest_def)
    moreover have "path_elems rest name' = map (take DIRSIZ) (comps [] rest)"
      using "1.IH" [of "(rest, name')" rest name'] sk False z(2) n(2) by simp
    ultimately show ?thesis using sk False c n(1) by (simp add: path_elems.simps)
  qed
qed

section \<open>Directory contents\<close>

definition dirents :: "(u32 \<Rightarrow> bytes) \<Rightarrow> inode \<Rightarrow> dirent list" where
  "dirents v i = map (\<lambda>k. de_dirent (fbytes v i (16 * k) 16)) [0..<unat (isize i) div 16]"

definition dir_ok :: "'z fstate_scheme \<Rightarrow> inode \<Rightarrow> bool" where
  "dir_ok s i \<longleftrightarrow> itype i = T_DIR \<and> whole {} s i \<and> unat (isize i) mod 16 = 0"

definition named :: "bytes \<Rightarrow> dirent \<Rightarrow> bool" where
  "named name d \<longleftrightarrow> de_inum d \<noteq> 0 \<and> cprefix DIRSIZ (cstr name) = cprefix DIRSIZ (cstr (de_name d))"

lemma named_namecmp: "named name d \<longleftrightarrow> de_inum d \<noteq> 0 \<and> namecmp name (de_name d) = 0"
  by (simp add: named_def namecmp_def strncmp_0_iff)

lemma dir_types: "T_DIR \<noteq> T_DEV" "T_DIR \<noteq> T_DITTO"
  by (simp_all add: T_DIR_def T_DEV_def T_DITTO_def)

lemma dir_offs_eq: "unat z mod 16 = 0 \<Longrightarrow> dir_offs z = map (\<lambda>k. 16 * k) [0..<unat z div 16]"
  unfolding dir_offs_def by (auto simp: dvd_eq_mod_eq_0 [symmetric] dvd_def)

lemma read_dirent_fs:
  fixes s :: "'z fstate_scheme"
  assumes F: "fs {} W s" and d: "dir_ok s i" "i = icache s dp" and k: "k < unat (isize i) div 16"
    and Q: "\<And>t. \<lbrakk>fs {} W t; keeps {} s t; vol t = vol s\<rbrakk> \<Longrightarrow> Q (dirents (vol s) i ! k) t"
  shows "wp (read_dirent dv dp (16 * k)) Q s"
proof -
  have so: "solid {} s i ((unat (isize i) + BSIZE - 1) div BSIZE)" "unat (isize i) \<le> 70656" "itype i \<noteq> T_DEV"
    using d(1) dir_types MAXFILE_bytes by (auto simp: dir_ok_def whole_def)
  have le: "16 * k + 16 \<le> unat (isize i)" using k by (simp add: less_eq_div_iff_mult_less_eq Suc_le_eq [symmetric] mult.commute)
  then have u: "unat (of_nat (16 * k) :: u32) = 16 * k" using so(2) by (intro unat_of_nat32) simp
  have m: "16 = min (unat (16 :: u32)) (unat (isize i) - unat (of_nat (16 * k) :: u32))" using le u by simp
  have "wp (readi dv dp (of_nat (16 * k)) 16) (\<lambda>(r, xs). wp (if r \<noteq> 16 then panic ''dirlink read'' else ret (de_dirent xs)) Q) s"
    by (rule readi_fs [OF F _ so(1) whole_bytes so(3) d(2) _ _ m])
      (use le u so(2) Q k in \<open>auto simp: word_le_nat_alt dirents_def simp del: of_nat_mult\<close>)
  then show ?thesis unfolding read_dirent_def wp_bind by (simp add: case_prod_unfold)
qed

lemma iget_fs:
  fixes s :: "'z fstate_scheme"
  assumes F: "fs H W s" "lock_free Lk_icache s" and room: "\<exists>j < NINODE. iref (icache s j) = 0" and pos: "\<forall>j. 0 \<le> iref (icache s j)"
    and Q: "\<And>ip c. \<lbrakk>ip < NINODE; idev c = dev; inum c = n; 1 \<le> iref c;
      iref (icache s ip) = 0 \<and> c = fresh_inode dev n (icache s ip) \<or>
      1 \<le> iref (icache s ip) \<and> idev (icache s ip) = dev \<and> inum (icache s ip) = n \<and> c = (icache s ip)\<lparr>iref := iref (icache s ip) + 1\<rparr>\<rbrakk> \<Longrightarrow>
      Q ip (s\<lparr>icache := (icache s)(ip := c)\<rparr>)"
  shows "wp (iget dev n) Q s"
proof -
  let ?P = "\<lambda>i. iref (icache s i) > 0 \<and> idev (icache s i) = dev \<and> inum (icache s i) = n"
  note lk = fs_free(1) [OF F(1)] F(2)
  show ?thesis
  proof (cases "List.find ?P [0..<NINODE]")
    case (Some ip)
    then have p: "?P ip" "ip < NINODE" by (auto simp: find_Some_iff)
    show ?thesis using Q [of ip "(icache s ip)\<lparr>iref := iref (icache s ip) + 1\<rparr>"] p iget_cached [OF lk Some] by (auto simp: wp_def)
  next
    case None
    obtain ip where ip: "List.find (\<lambda>i. iref (icache s i) = 0) [0..<NINODE] = Some ip"
      using room by (cases "List.find (\<lambda>i. iref (icache s i) = 0) [0..<NINODE]") (auto simp: find_None_iff)
    then have "ip < NINODE" "iref (icache s ip) = 0" by (auto simp: find_Some_iff)
    then show ?thesis
      using Q [of ip "fresh_inode dev n (icache s ip)"] iget_fresh [OF lk None ip] by (auto simp: wp_def fresh_inode_def)
  qed
qed

text \<open>The index of the entry with a name.\<close>

definition dir_find :: "(u32 \<Rightarrow> bytes) \<Rightarrow> inode \<Rightarrow> bytes \<Rightarrow> nat option" where
  "dir_find v i name = List.find (\<lambda>k. named name (dirents v i ! k)) [0..<unat (isize i) div 16]"

text \<open>What \<open>iget\<close> makes of the cache when it returns entry \<open>ip\<close>.\<close>

definition igot :: "u32 \<Rightarrow> u32 \<Rightarrow> nat \<Rightarrow> (nat \<Rightarrow> inode) \<Rightarrow> (nat \<Rightarrow> inode) \<Rightarrow> bool" where
  "igot dev n ip c d \<longleftrightarrow> ip < NINODE \<and> idev (d ip) = dev \<and> inum (d ip) = n \<and> 1 \<le> iref (d ip) \<and> d = c(ip := d ip) \<and>
     (iref (c ip) = 0 \<and> d ip = fresh_inode dev n (c ip) \<or>
      1 \<le> iref (c ip) \<and> idev (c ip) = dev \<and> inum (c ip) = n \<and> d ip = (c ip)\<lparr>iref := iref (c ip) + 1\<rparr>)"

definition icache_room :: "(nat \<Rightarrow> inode) \<Rightarrow> bool" where
  "icache_room c \<longleftrightarrow> (\<exists>j < NINODE. iref (c j) = 0) \<and> (\<forall>j. 0 \<le> iref (c j))"

lemma dirlookup_loop_fs:
  fixes s :: "'z fstate_scheme"
  assumes "fs {} W s" "lock_free Lk_icache s" "dir_ok s i" "i = icache s dp" "icache_room (icache s)"
    and None: "\<And>t. \<lbrakk>List.find (\<lambda>k. named name (dirents (vol s) i ! k)) [a..<unat (isize i) div 16] = None;
        fs {} W t; moves {} s t; vol t = vol s; icache t = icache s\<rbrakk> \<Longrightarrow> Q None t"
    and Some: "\<And>k ip t. \<lbrakk>List.find (\<lambda>k. named name (dirents (vol s) i ! k)) [a..<unat (isize i) div 16] = Some k;
        fs {} W t; moves {} s t; vol t = vol s; igot (idev i) (ucast (de_inum (dirents (vol s) i ! k))) ip (icache s) (icache t)\<rbrakk> \<Longrightarrow>
        Q (Some (ip, 16 * k)) t"
  shows "wp (dirlookup_loop dv dp name (map (\<lambda>k. 16 * k) [a..<unat (isize i) div 16])) Q s"
  using assms
proof (induction "unat (isize i) div 16 - a" arbitrary: a s)
  case 0
  then show ?case by simp
next
  case (Suc m)
  let ?N = "unat (isize i) div 16"
  have a: "a < ?N" using Suc.hyps(2) by simp
  let ?d = "dirents (vol s) i ! a"
  have up: "[a..<?N] = a # [Suc a..<?N]" using a by (simp add: upt_conv_Cons)
  show ?case
    unfolding up list.map dirlookup_loop.simps wp_bind
  proof (rule read_dirent_fs [OF Suc.prems(1,3,4) a])
    fix t assume t: "fs {} W t" "keeps {} s t" "vol t = vol s"
    note mt = keeps_moves [OF t(2)] and it = keeps_icache [OF t(2)]
    have lt: "lock_free Lk_icache t" using Suc.prems(2) movesD(5) [OF mt] by simp
    let ?rest = "dirlookup_loop dv dp name (map (\<lambda>k. 16 * k) [Suc a..<?N])"
    have rest: "wp ?rest Q t" if n: "\<not> named name ?d"
    proof (rule Suc.hyps(1) [of "Suc a" t])
      show "m = ?N - Suc a" using Suc.hyps(2) by simp
      show "fs {} W t" "lock_free Lk_icache t" "dir_ok t i" "i = icache t dp" "icache_room (icache t)"
        using t lt it Suc.prems(3-5) whole_moves [OF mt t(3)] by (simp_all add: dir_ok_def)
    next
      fix u assume "List.find (\<lambda>k. named name (dirents (vol t) i ! k)) [Suc a..<?N] = None"
        "fs {} W u" "moves {} t u" "vol u = vol t" "icache u = icache t"
      then show "Q None u" using n up t(3) it moves_trans [OF mt] by (intro Suc.prems(6)) simp_all
    next
      fix k ip u assume "List.find (\<lambda>k. named name (dirents (vol t) i ! k)) [Suc a..<?N] = Some k"
        "fs {} W u" "moves {} t u" "vol u = vol t" "igot (idev i) (ucast (de_inum (dirents (vol t) i ! k))) ip (icache t) (icache u)"
      then show "Q (Some (ip, 16 * k)) u" using n up t(3) it moves_trans [OF mt] by (intro Suc.prems(7)) simp_all
    qed
    have found: "wp (iget (idev i) (ucast (de_inum ?d))) (\<lambda>ip. Q (Some (ip, 16 * a))) t" if n: "named name ?d"
    proof (rule iget_fs [OF t(1) lt])
      show "\<exists>j < NINODE. iref (icache t j) = 0" "\<forall>j. 0 \<le> iref (icache t j)" using Suc.prems(5) it by (simp_all add: icache_room_def)
      fix ip c assume c: "ip < NINODE" "idev c = idev i" "inum c = ucast (de_inum ?d)" "1 \<le> iref c"
        "iref (icache t ip) = 0 \<and> c = fresh_inode (idev i) (ucast (de_inum ?d)) (icache t ip) \<or>
         1 \<le> iref (icache t ip) \<and> idev (icache t ip) = idev i \<and> inum (icache t ip) = ucast (de_inum ?d) \<and>
         c = (icache t ip)\<lparr>iref := iref (icache t ip) + 1\<rparr>"
      have "igot (idev i) (ucast (de_inum ?d)) ip (icache s) ((icache t)(ip := c))" using c it by (simp add: igot_def)
      then show "Q (Some (ip, 16 * a)) (t\<lparr>icache := (icache t)(ip := c)\<rparr>)"
        using t n up moves_trans [OF mt moves_iset] by (intro Suc.prems(7)) simp_all
    qed
    show "wp (if de_inum ?d = 0 then ?rest else if namecmp name (de_name ?d) = 0 then
       bind (igets dp idev) (\<lambda>dev. bind (iget dev (ucast (de_inum ?d))) (\<lambda>ip. ret (Some (ip, 16 * a)))) else ?rest) Q t"
      using rest found it Suc.prems(4) by (auto simp: named_namecmp wp_ret_fun)
  qed
qed

lemma dirlookup_fs:
  fixes s :: "'z fstate_scheme"
  assumes "fs {} W s" "lock_free Lk_icache s" "dir_ok s i" "i = icache s dp" "icache_room (icache s)"
    and "\<And>t. \<lbrakk>dir_find (vol s) i name = None; fs {} W t; moves {} s t; vol t = vol s; icache t = icache s\<rbrakk> \<Longrightarrow> Q None t"
    and "\<And>k ip t. \<lbrakk>dir_find (vol s) i name = Some k; fs {} W t; moves {} s t; vol t = vol s;
        igot (idev i) (ucast (de_inum (dirents (vol s) i ! k))) ip (icache s) (icache t)\<rbrakk> \<Longrightarrow> Q (Some (ip, 16 * k)) t"
  shows "wp (dirlookup dv dp name) Q s"
proof -
  have "wp (dirlookup_loop dv dp name (map (\<lambda>k. 16 * k) [0..<unat (isize i) div 16])) Q s"
    by (rule dirlookup_loop_fs [OF assms(1-5)]) (use assms(6,7) in \<open>simp_all add: dir_find_def\<close>)
  then show ?thesis using assms(3,4) dir_offs_eq [of "isize i"] by (simp add: dirlookup_def dir_ok_def)
qed

section \<open>Adding entries\<close>

definition dir_free :: "(u32 \<Rightarrow> bytes) \<Rightarrow> inode \<Rightarrow> nat" where
  "dir_free v i = (case List.find (\<lambda>k. de_inum (dirents v i ! k) = 0) [0..<unat (isize i) div 16] of
     Some k \<Rightarrow> k | None \<Rightarrow> unat (isize i) div 16)"

lemma find_empty_fs:
  fixes s :: "'z fstate_scheme"
  assumes "fs {} W s" "dir_ok s i" "i = icache s dp"
    and "\<And>t k. \<lbrakk>k = (case List.find (\<lambda>k. de_inum (dirents (vol s) i ! k) = 0) [a..<unat (isize i) div 16] of
        Some k \<Rightarrow> k | None \<Rightarrow> unat (isize i) div 16); fs {} W t; keeps {} s t; vol t = vol s\<rbrakk> \<Longrightarrow> Q (16 * k) t"
  shows "wp (find_empty dv dp (16 * (unat (isize i) div 16)) (map (\<lambda>k. 16 * k) [a..<unat (isize i) div 16])) Q s"
  using assms
proof (induction "unat (isize i) div 16 - a" arbitrary: a s)
  case 0
  then show ?case by simp
next
  case (Suc m)
  let ?N = "unat (isize i) div 16"
  have a: "a < ?N" using Suc.hyps(2) by simp
  let ?d = "dirents (vol s) i ! a"
  have up: "[a..<?N] = a # [Suc a..<?N]" using a by (simp add: upt_conv_Cons)
  show ?case
    unfolding up list.map find_empty.simps wp_bind
  proof (rule read_dirent_fs [OF Suc.prems(1-3) a])
    fix t assume t: "fs {} W t" "keeps {} s t" "vol t = vol s"
    note mt = keeps_moves [OF t(2)] and it = keeps_icache [OF t(2)]
    have "wp (find_empty dv dp (16 * ?N) (map (\<lambda>k. 16 * k) [Suc a..<?N])) Q t" if n: "de_inum ?d \<noteq> 0"
    proof (rule Suc.hyps(1) [of "Suc a" t])
      show "m = ?N - Suc a" using Suc.hyps(2) by simp
      show "fs {} W t" "dir_ok t i" "i = icache t dp"
        using t it Suc.prems(2,3) whole_moves [OF mt t(3)] by (simp_all add: dir_ok_def)
      fix u k assume "k = (case List.find (\<lambda>k. de_inum (dirents (vol t) i ! k) = 0) [Suc a..<?N] of Some k \<Rightarrow> k | None \<Rightarrow> ?N)"
        "fs {} W u" "keeps {} t u" "vol u = vol t"
      then show "Q (16 * k) u" using n up t(3) keeps_trans [OF t(2)] by (intro Suc.prems(4)) simp_all
    qed
    then show "wp (if de_inum ?d = 0 then ret (16 * a) else find_empty dv dp (16 * ?N) (map (\<lambda>k. 16 * k) [Suc a..<?N])) Q t"
      using Suc.prems(4) [of a t] up t by auto
  qed
qed

lemma de_en_dirent: "length (de_name d) = DIRSIZ \<Longrightarrow> de_dirent (en_dirent d) = d"
  by (simp add: de_dirent_def en_dirent_def slice_def)

lemma dirents_content: "dirents v i = map (\<lambda>k. de_dirent (slice (16 * k) 16 (fcontent v i))) [0..<unat (isize i) div 16]"
proof -
  have "fbytes v i (16 * k) 16 = slice (16 * k) 16 (fcontent v i)" if "k < unat (isize i) div 16" for k
  proof -
    have "16 * k + 16 \<le> unat (isize i)" using that by (simp add: less_eq_div_iff_mult_less_eq Suc_le_eq [symmetric] mult.commute)
    then show ?thesis by (intro nth_equalityI) (simp_all add: fcontent_def fbytes_def nth_slice add.commute)
  qed
  then show ?thesis by (simp add: dirents_def)
qed

lemma slice_splice_before:
  assumes "off + n \<le> k" "k \<le> length xs"
  shows "slice off n (splice k ys xs) = slice off n xs"
proof -
  have "slice off n (take k xs @ zs) = slice off n xs" for zs
    using assms by (intro nth_equalityI) (simp_all add: slice_def nth_append)
  then show ?thesis by (simp add: splice_def)
qed

lemma dirents_splice:
  assumes c: "fcontent w j = splice (16 * k) (en_dirent d) (fcontent v i)" and d: "length (de_name d) = DIRSIZ"
    and k: "k \<le> N" "unat (isize i) = 16 * N" "unat (isize j) = max (16 * N) (16 * k + 16)"
  shows "dirents w j = (if k < N then (dirents v i)[k := d] else dirents v i @ [d])"
proof (rule nth_equalityI)
  have N: "unat (isize i) div 16 = N" "unat (isize j) div 16 = max N (Suc k)" using k by (auto simp: max_def)
  show l: "length (dirents w j) = length (if k < N then (dirents v i)[k := d] else dirents v i @ [d])"
    using N k(1) by (auto simp: dirents_content max_def)
  have le: "length (en_dirent d) = 16" "length (fcontent v i) = 16 * N" using d k(2) by (simp_all add: en_dirent_def DIRSIZ_def fcontent_def)
  fix m assume "m < length (dirents w j)"
  then have m: "m < max N (Suc k)" using N by (simp add: dirents_content)
  have s: "slice (16 * m) 16 (splice (16 * k) (en_dirent d) (fcontent v i)) = (if m = k then en_dirent d else slice (16 * m) 16 (fcontent v i))"
  proof (cases "m = k")
    case True
    then show ?thesis using le k(1) by (simp add: splice_def slice_def)
  next
    case False
    then have "m < N" using m k(1) by auto
    consider "m < k" | "k < m" using False by linarith
    then show ?thesis
    proof cases
      case 1
      then show ?thesis using le k(1) False slice_splice_before [of "16 * m" 16 "16 * k" "fcontent v i" "en_dirent d"] by simp
    next
      case 2
      then show ?thesis using le \<open>m < N\<close> False by (simp add: slice_splice_other)
    qed
  qed
  have "dirents w j ! m = de_dirent (slice (16 * m) 16 (splice (16 * k) (en_dirent d) (fcontent v i)))"
    using m N c by (simp add: dirents_content)
  then show "dirents w j ! m = (if k < N then (dirents v i)[k := d] else dirents v i @ [d]) ! m"
    unfolding s using m N k(1) de_en_dirent [OF d] by (auto simp: dirents_content nth_append)
qed

lemma strncpy_name_ok:
  assumes "0 \<notin> set name"
  shows "length (strncpy_name name) = DIRSIZ" "cprefix DIRSIZ (cstr (strncpy_name name)) = take DIRSIZ name"
proof -
  have t: "takeWhile (\<lambda>b. b \<noteq> 0) name = name" using assms by (metis (mono_tags, lifting) takeWhile_eq_all_conv)
  show "length (strncpy_name name) = DIRSIZ" by (simp add: strncpy_name_def)
  have e: "strncpy_name name = take DIRSIZ name @ replicate (DIRSIZ - length name) 0"
    by (simp add: strncpy_name_def t)
  have "cstr (strncpy_name name) = cstr (take DIRSIZ name)" unfolding e by (auto simp: cstr_def fun_eq_iff nth_append)
  then show "cprefix DIRSIZ (cstr (strncpy_name name)) = take DIRSIZ name"
    using cprefix_cstr [of "take DIRSIZ name" DIRSIZ] assms by (auto dest: in_set_takeD)
qed

section \<open>Properties\<close>

text \<open>C10: \<open>dirlookup\<close> scans the entries of a directory in order: it returns a reference to the inode of the first
used entry with the name (compared up to \<open>DIRSIZ\<close> characters) and the offset of the entry, or the null
pointer when there is none; the disk does not change.\<close>

theorem dirlookup_first:
  fixes s :: "'z fstate_scheme"
  assumes "fs {} W s" "lock_free Lk_icache s" "dir_ok s i" "i = icache s dp" "icache_room (icache s)"
  shows "\<exists>r t. dirlookup dv dp name s = Done r t \<and> fs {} W t \<and> vol t = vol s \<and>
    (case dir_find (vol s) i name of
       None \<Rightarrow> r = None \<and> icache t = icache s
     | Some k \<Rightarrow> \<exists>ip. r = Some (ip, 16 * k) \<and> igot (idev i) (ucast (de_inum (dirents (vol s) i ! k))) ip (icache s) (icache t))"
proof -
  have "wp (dirlookup dv dp name) (\<lambda>r t. fs {} W t \<and> vol t = vol s \<and> (case dir_find (vol s) i name of
       None \<Rightarrow> r = None \<and> icache t = icache s
     | Some k \<Rightarrow> \<exists>ip. r = Some (ip, 16 * k) \<and> igot (idev i) (ucast (de_inum (dirents (vol s) i ! k))) ip (icache s) (icache t))) s"
    by (rule dirlookup_fs [OF assms]) auto
  then show ?thesis by (auto simp: wp_def)
qed

lemma dirlink_fs:
  fixes s :: "'z fstate_scheme"
  assumes w: "writable W s i nb" and i: "i = icache s dp" "dir_ok s i" "child1 i = 0" "child2 i = 0"
    and l: "lock_free Lk_icache s" "icache_room (icache s)" and n: "dir_find (vol s) i name = None" "0 \<notin> set name"
    and k: "k = dir_free (vol s) i" "16 * k + 16 \<le> nb * BSIZE" and d: "d = \<lparr>de_inum = ucast n, de_name = strncpy_name name\<rparr>"
    and Q: "\<And>t j. \<lbrakk>fs {} W t; moves {} s t; icache t = (icache s)(dp := j); iref j = iref i; idev j = idev i; dir_ok t j;
      dirents (vol t) j = (if k < length (dirents (vol s) i) then (dirents (vol s) i)[k := d] else dirents (vol s) i @ [d]);
      dinode_at (vol t) (inum i) = to_dinode j\<rbrakk> \<Longrightarrow> Q 0 t"
  shows "wp (dirlink dv dp name n) Q s"
proof -
  note w' = w [unfolded writable_def]
  let ?N = "unat (isize i) div 16" and ?off = "of_nat (16 * k) :: u32"
  have N: "unat (isize i) = 16 * ?N" using i(2) by (auto simp: dir_ok_def dvd_eq_mod_eq_0 [symmetric])
  have nb: "nb * BSIZE \<le> 70656" using w' solid_bytes by blast
  have kN: "k \<le> ?N" using k(1) by (auto simp: dir_free_def find_Some_iff split: option.splits)
  have u: "unat ?off = 16 * k" using k(2) nb by (intro unat_of_nat32) simp
  have ld: "length (en_dirent d) = unat (16 :: u32)" using strncpy_name_ok(1) [OF n(2)] d by (simp add: en_dirent_def DIRSIZ_def)
  let ?wr = "bind (writei dv dp (en_dirent d) ?off 16) (\<lambda>r. if r \<noteq> 16 then panic ''dirlink'' else ret (0 :: int))"
  have wr: "wp ?wr Q t" if t: "fs {} W t" "moves {} s t" "vol t = vol s" "icache t = icache s" for t
  proof -
    have wt: "writable W t i nb" using w' t movesD(1) [OF t(2)] by (simp add: writable_def solid_def)
    have "wp (writei dv dp (en_dirent d) ?off 16) (\<lambda>r. wp (if r \<noteq> 16 then panic ''dirlink'' else ret (0 :: int)) Q) t"
      unfolding writei_def writei_ext_def Suc_eq_plus1 [symmetric]
    proof (rule writei_fs [OF wt])
      show "i = icache t dp" "False \<or> child1 i = 0 \<and> child2 i = 0" "?off \<le> isize i" "unat ?off + unat (16 :: u32) \<le> nb * BSIZE"
        "length (en_dirent d) = unat (16 :: u32)" "(0 :: u32) < 16"
        using i t(4) u kN N k(2) ld by (simp_all add: word_le_nat_alt del: of_nat_mult)
      fix x j assume x: "fs {} W x" "moves {} t x" "j = grown (unat ?off + unat (16 :: u32)) i"
        "icache x = (icache t)(dp := checked (vol x) j)"
        "fbytes (vol x) i 0 (nb * BSIZE) = splice (unat ?off) (en_dirent d) (fbytes (vol t) i 0 (nb * BSIZE))"
        "dinode_at (vol x) (inum i) = to_dinode (checked (vol x) j)" "solid {} x i nb"
      let ?j = "checked (vol x) j"
      have c: "fcontent (vol x) ?j = splice (unat ?off) (en_dirent d) (fcontent (vol s) i)"
        "unat (isize j) = max (unat (isize i)) (unat ?off + unat (16 :: u32))"
        using grown_content [of i nb ?off "unat ?off + unat (16 :: u32)" "en_dirent d" "vol x" "vol s"] w' u kN N k(2) nb ld x(3,5) t(3)
        by (simp_all del: of_nat_mult)
      have jz: "unat (isize ?j) = max (16 * ?N) (16 * k + 16)" using c(2) N u by (simp add: checked_def del: of_nat_mult)
      have ds: "dirents (vol x) ?j = (if k < ?N then (dirents (vol s) i)[k := d] else dirents (vol s) i @ [d])"
        by (rule dirents_splice [OF c(1) [unfolded u] _ kN N jz]) (use strncpy_name_ok(1) [OF n(2)] d in simp)
      have jnb: "unat (isize ?j) \<le> nb * BSIZE" using jz w' k(2) N by simp
      have sj: "solid {} x ?j ((unat (isize ?j) + BSIZE - 1) div BSIZE)"
        using solid_mono [OF x(7) blocks_le [OF jnb]] faddr_cong [of ?j i] x(3) by (simp add: solid_def checked_def grown_def)
      have "dir_ok x ?j" using sj jnb nb MAXFILE_bytes jz i(2) x(3)
        by (auto simp: dir_ok_def whole_def checked_def grown_def max_def)
      then have "Q 0 x"
        by (intro Q [OF x(1) moves_trans [OF t(2) x(2)]])
          (use x(3,4,6) ds t(4) in \<open>simp_all add: checked_def grown_def dirents_def\<close>)
      then show "wp (if int (unat (16 :: u32)) \<noteq> 16 then panic ''dirlink'' else ret 0) Q x" by simp
    qed
    then show ?thesis by simp
  qed
  have o: "dir_offs (isize i) = map (\<lambda>k. 16 * k) [0..<?N]" "16 * ((unat (isize i) + 15) div 16) = 16 * ?N"
    using dir_offs_eq [of "isize i"] i(2) N by (auto simp: dir_ok_def)
  have fe: "wp (find_empty dv dp (16 * ?N) (map (\<lambda>k. 16 * k) [0..<?N])) (\<lambda>off. wp (bind (writei dv dp (en_dirent d) (of_nat off) 16)
      (\<lambda>r. if r \<noteq> 16 then panic ''dirlink'' else ret (0 :: int))) Q) t"
    if t: "fs {} W t" "moves {} s t" "vol t = vol s" "icache t = icache s" for t
  proof (rule find_empty_fs [OF t(1)])
    show "dir_ok t i" "i = icache t dp" using i(1,2) t(4) whole_moves [OF t(2,3)] by (simp_all add: dir_ok_def)
    fix x m assume x: "m = (case List.find (\<lambda>k. de_inum (dirents (vol t) i ! k) = 0) [0..<?N] of Some k \<Rightarrow> k | None \<Rightarrow> ?N)"
      "fs {} W x" "keeps {} t x" "vol x = vol t"
    have "m = k" using x(1) t(3) k(1) by (simp add: dir_free_def)
    then show "wp (bind (writei dv dp (en_dirent d) (of_nat (16 * m)) 16) (\<lambda>r. if r \<noteq> 16 then panic ''dirlink'' else ret (0 :: int))) Q x"
      using wr [OF x(2) moves_trans [OF t(2) keeps_moves [OF x(3)]]] x(4) t(3,4) keeps_icache [OF x(3)] by simp
  qed
  have "wp (dirlookup dv dp name) (\<lambda>r t. r = None \<and> fs {} W t \<and> moves {} s t \<and> vol t = vol s \<and> icache t = icache s) s"
    by (rule dirlookup_fs [OF _ l(1) i(2,1) l(2)]) (use w' n in simp_all)
  then show ?thesis
    unfolding dirlink_def wp_bind
    by (rule wp_mono) (use fe i(1) o d in \<open>auto simp: wp_bind_fun\<close>)
qed


section \<open>A small directory\<close>

theorem path_elems_comps_witness:
  "path_elems [47, 97, 97, 97, 47, 47, 98] (replicate 14 120) = [[97, 97, 97], [98]]"
  using path_elems_comps [of "[47, 97, 97, 97, 47, 47, 98]" "replicate 14 120"] by (simp add: slash_def DIRSIZ_def)

definition demo_entry :: "u16 \<Rightarrow> bytes \<Rightarrow> dirent" where
  "demo_entry n nm = \<lparr>de_inum = n, de_name = strncpy_name nm\<rparr>"

definition demo_dirblock :: "u32 \<Rightarrow> bytes" where
  "demo_dirblock n = (if n = 22 then en_dirent (demo_entry 1 [46]) @ en_dirent (demo_entry 2 [97]) @ replicate 480 0
     else replicate BSIZE 0)"

definition demo_dir :: inode where
  "demo_dir = inode0\<lparr>idev := 1, inum := 1, iref := 1, iflags := 3, itype := T_DIR, isize := 32, addrs := 22 # replicate NDIRECT 0\<rparr>"

lemma length_en_dirent: "length (de_name d) = DIRSIZ \<Longrightarrow> length (en_dirent d) = 16"
  by (simp add: en_dirent_def DIRSIZ_def)

lemma demo_names: "length (de_name (demo_entry n nm)) = DIRSIZ"
  by (simp add: demo_entry_def strncpy_name_def)

lemma demo_directory:
  obtains s :: fstate where "fs {} {2, 22} s" "\<And>l. l \<notin> {Lk_bcache, Lk_log, Lk_ptable} \<Longrightarrow> lock_free l s"
    "icache s = (\<lambda>_. inode0)(0 := demo_dir)" "dirents (vol s) demo_dir = [demo_entry 1 [46], demo_entry 2 [97]]"
    "dir_ok s demo_dir" "writable {2, 22} s demo_dir 1" "icache_room (icache s)"
proof -
  have len: "length (demo_dirblock n) = BSIZE" for n
    using demo_names length_en_dirent by (simp add: demo_dirblock_def BSIZE_def)
  obtain s :: fstate where s: "fs {} {2, 22} s" "\<And>l. l \<notin> {Lk_bcache, Lk_log, Lk_ptable} \<Longrightarrow> lock_free l s"
    "icache s = (\<lambda>_. inode0)(0 := demo_dir)" "\<And>m. m < 90 \<Longrightarrow> vol s m = demo_fs demo_dirblock m" "\<And>m. m < 90 \<Longrightarrow> open_sec {} s m"
    by (rule demo_machine [of demo_dirblock "{2, 22}" "(\<lambda>_. inode0)(0 := demo_dir)", OF len]) (rule that | simp)+
  have f: "faddr v demo_dir 0 = 22" for v by (simp add: faddr_def demo_dir_def NDIRECT_def)
  have i: "idev demo_dir = 1" "isize demo_dir = 32" "itype demo_dir = T_DIR" "inum demo_dir = 1" "length (addrs demo_dir) = NDIRECT + 1"
    by (simp_all add: demo_dir_def)
  have b: "IBLOCK (inum demo_dir) = 2" using i by (simp add: IBLOCK_def IPB_def BSIZE_def)
  have v: "vol s 22 = en_dirent (demo_entry 1 [46]) @ en_dirent (demo_entry 2 [97]) @ replicate 480 0"
    using s(4) [of 22] by (simp add: demo_fs_def demo_dirblock_def)
  have le: "length (en_dirent (demo_entry a nm)) = 16" for a nm using demo_names length_en_dirent by simp
  have c: "fcontent (vol s) demo_dir = en_dirent (demo_entry 1 [46]) @ en_dirent (demo_entry 2 [97])"
    using le by (intro nth_equalityI) (auto simp: fcontent_def fbytes_def i f v nth_append BSIZE_def)
  have ds: "dirents (vol s) demo_dir = [demo_entry 1 [46], demo_entry 2 [97]]"
    unfolding dirents_content c using le de_en_dirent demo_names by (simp add: i slice_def upt_rec)
  have w: "writable {2, 22} s demo_dir 1"
    using s(1) i f s(5) [of 2] s(5) [of 22] unfolding writable_def b
    by (simp add: solid_def distinct_blocks_def lessThan_Suc MAXFILE_def NDIRECT_def NINDIRECT_def BSIZE_def dir_types)
  have "dir_ok s demo_dir"
    using w i by (simp add: dir_ok_def whole_def writable_def MAXFILE_def NDIRECT_def NINDIRECT_def BSIZE_def)
  moreover have "icache_room (icache s)"
    unfolding s(3) icache_room_def by (auto simp: NINODE_def inode0_def demo_dir_def intro!: exI [of _ 1])
  ultimately show ?thesis using that [OF s(1-3) ds _ w] by blast
qed

lemma demo_named: "named [97] (demo_entry 2 [97])" "\<not> named [97] (demo_entry 1 [46])"
  "\<not> named [98] (demo_entry 2 [97])" "\<not> named [98] (demo_entry 1 [46])"
  using strncpy_name_ok(2) [of "[97]"] strncpy_name_ok(2) [of "[46]"] cprefix_cstr [of "[97]" DIRSIZ] cprefix_cstr [of "[98]" DIRSIZ]
  by (simp_all add: named_def demo_entry_def DIRSIZ_def)

theorem dirlookup_first_witness:
  "\<exists>(s :: fstate) t ip. dirlookup no_dev 0 [97] s = Done (Some (ip, 16)) t \<and> inum (icache t ip) = 2"
proof -
  obtain s :: fstate where s: "fs {} {2, 22} s" "\<And>l. l \<notin> {Lk_bcache, Lk_log, Lk_ptable} \<Longrightarrow> lock_free l s"
    "icache s = (\<lambda>_. inode0)(0 := demo_dir)" "dirents (vol s) demo_dir = [demo_entry 1 [46], demo_entry 2 [97]]"
    "dir_ok s demo_dir" "icache_room (icache s)"
    by (rule demo_directory) (rule that)
  have f: "dir_find (vol s) demo_dir [97] = Some 1"
    unfolding dir_find_def s(4) using demo_named by (simp add: demo_dir_def upt_rec)
  have lk: "lock_free Lk_icache s" and di: "demo_dir = icache s 0" using s(2,3) by simp_all
  from dirlookup_first [OF s(1) lk s(5) di s(6), of no_dev "[97]"] f s(4)
  obtain t ip where "dirlookup no_dev 0 [97] s = Done (Some (ip, 16)) t" "igot 1 2 ip (icache s) (icache t)"
    by (auto simp: demo_entry_def demo_dir_def)
  then show ?thesis by (auto simp: igot_def)
qed


end
