(* ===== verification/Kalloc.thy ===== *)
theory Kalloc
  imports Dir
begin

text \<open>
  The physical page allocator (\<open>kalloc.c\<close>, with the address constants of \<open>memlayout.h\<close> and \<open>mmu.h\<close>).

  Memory is a function from kernel virtual addresses to bytes.  The free list is threaded through the free pages
  themselves, as in the code: the first word of a free page is the address of the next one.  The addresses that
  the linker chooses, the end of the kernel image and the start of its data, are fields of the state.

  The contract of an allocator is the locale \<open>pool\<close>; the allocator of pages is an instance of it.
\<close>

section \<open>Operations\<close>

definition PGSIZE :: u32 where "PGSIZE = 4096"
definition EXTMEM :: u32 where "EXTMEM = 0x100000"
definition PHYSTOP :: u32 where "PHYSTOP = 0xE000000"
definition DEVSPACE :: u32 where "DEVSPACE = 0xFE000000"
definition KERNLINK :: u32 where "KERNLINK = KERNBASE + EXTMEM"

definition PGROUNDUP :: "u32 \<Rightarrow> u32" where "PGROUNDUP a = (a + PGSIZE - 1) AND NOT (PGSIZE - 1)"
definition PGROUNDDOWN :: "u32 \<Rightarrow> u32" where "PGROUNDDOWN a = a AND NOT (PGSIZE - 1)"

record mstate = fstate +
  ram :: "u32 \<Rightarrow> byte"
  use_lock :: bool
  freelist :: u32
  kend :: u32
  kdata :: u32

definition rd32 :: "(u32 \<Rightarrow> byte) \<Rightarrow> u32 \<Rightarrow> u32" where
  "rd32 m a = de32 [m a, m (a + 1), m (a + 2), m (a + 3)]"

definition kfree :: "u32 \<Rightarrow> (unit, 'z mstate_scheme) kop" where
  "kfree v =
     bind (gets kend) (\<lambda>ke.
     if v mod PGSIZE \<noteq> 0 \<or> v < ke \<or> v2p v \<ge> PHYSTOP then panic ''kfree''
     else
       seqk (modify (\<lambda>s. s\<lparr>ram := memset v 1 PGSIZE (ram s)\<rparr>))
      (bind (gets use_lock) (\<lambda>l.
       seqk (whenk l (acquire Lk_kmem))
      (seqk (modify (\<lambda>s. s\<lparr>ram := put32 v (freelist s) (ram s), freelist := v\<rparr>))
       (whenk l (release Lk_kmem))))))"

definition kalloc :: "(u32, 'z mstate_scheme) kop" where
  "kalloc =
     bind (gets use_lock) (\<lambda>l.
     seqk (whenk l (acquire Lk_kmem))
    (bind (gets freelist) (\<lambda>r.
     seqk (whenk (r \<noteq> 0) (modify (\<lambda>s. s\<lparr>freelist := rd32 (ram s) r\<rparr>)))
    (seqk (whenk l (release Lk_kmem))
     (ret r)))))"

text \<open>The loop of \<open>freerange\<close>: the pages that it frees, from the address \<open>p\<close> on.\<close>

function page_list :: "nat \<Rightarrow> nat \<Rightarrow> u32 list" where
  "page_list p vend = (if p + unat PGSIZE \<le> vend then of_nat p # page_list (p + unat PGSIZE) vend else [])"
  by pat_completeness auto
termination
  by (relation "measure (\<lambda>(p, vend). vend - p)") (auto simp: PGSIZE_def)

declare page_list.simps [simp del]

definition range_pages :: "u32 \<Rightarrow> u32 \<Rightarrow> u32 list" where
  "range_pages vstart vend = page_list (unat (PGROUNDUP vstart)) (unat vend)"

definition freerange :: "u32 \<Rightarrow> u32 \<Rightarrow> (unit, 'z mstate_scheme) kop" where
  "freerange vstart vend = foreach (range_pages vstart vend) kfree"

definition kinit1 :: "u32 \<Rightarrow> u32 \<Rightarrow> (unit, 'z mstate_scheme) kop" where
  "kinit1 vstart vend =
     seqk (initlock Lk_kmem ''kmem'')
    (seqk (modify (\<lambda>s. s\<lparr>use_lock := False\<rparr>))
     (freerange vstart vend))"

definition kinit2 :: "u32 \<Rightarrow> u32 \<Rightarrow> (unit, 'z mstate_scheme) kop" where
  "kinit2 vstart vend =
     seqk (freerange vstart vend)
     (modify (\<lambda>s. s\<lparr>use_lock := True\<rparr>))"

section \<open>The contract of an allocator\<close>

text \<open>Allocating a number of objects, one after the other.\<close>

primrec alloc_many :: "('p option, 's) kop \<Rightarrow> nat \<Rightarrow> ('p list, 's) kop" where
  "alloc_many al 0 = ret []"
| "alloc_many al (Suc n) =
     bind al (\<lambda>r. case r of
       None \<Rightarrow> ret []
     | Some p \<Rightarrow> bind (alloc_many al n) (\<lambda>ps. ret (p # ps)))"

text \<open>
  An allocator: its invariant, the objects it can still hand out, and the two operations.  \<open>ours p\<close> says that an
  object is one of those the allocator manages.
\<close>

locale pool =
  fixes inv :: "'s \<Rightarrow> bool" and avail :: "'s \<Rightarrow> 'p set" and ours :: "'s \<Rightarrow> 'p \<Rightarrow> bool"
    and al :: "('p option, 's) kop" and fr :: "'p \<Rightarrow> (unit, 's) kop"
  assumes finite_avail: "inv s \<Longrightarrow> finite (avail s)"
    and alloc_none: "inv s \<Longrightarrow> avail s = {} \<Longrightarrow> al s = Done None s"
    and alloc_some: "inv s \<Longrightarrow> avail s \<noteq> {} \<Longrightarrow>
      \<exists>p t. al s = Done (Some p) t \<and> inv t \<and> p \<in> avail s \<and> avail t = avail s - {p} \<and> ours t = ours s"
    and free_ok: "inv s \<Longrightarrow> ours s p \<Longrightarrow> p \<notin> avail s \<Longrightarrow>
      \<exists>t. fr p s = Done () t \<and> inv t \<and> avail t = insert p (avail s) \<and> ours t = ours s"
    and avail_ours: "inv s \<Longrightarrow> p \<in> avail s \<Longrightarrow> ours s p"
begin

text \<open>As many allocations as there are free objects succeed, and all the objects are different.\<close>

lemma many_distinct:
  assumes "inv s" "n \<le> card (avail s)"
  shows "\<exists>ps t. alloc_many al n s = Done ps t \<and> inv t \<and> length ps = n \<and> distinct ps \<and> set ps \<subseteq> avail s \<and>
    avail t = avail s - set ps \<and> ours t = ours s"
  using assms
proof (induction n arbitrary: s)
  case 0
  then show ?case by simp
next
  case (Suc n)
  have "avail s \<noteq> {}" using Suc.prems by auto
  then obtain p t where t: "al s = Done (Some p) t" "inv t" "p \<in> avail s" "avail t = avail s - {p}" "ours t = ours s"
    using alloc_some Suc.prems(1) by blast
  have "n \<le> card (avail t)" using Suc.prems t(3,4) finite_avail by (simp add: card_Diff_singleton)
  from Suc.IH [OF t(2) this] obtain ps u where u: "alloc_many al n t = Done ps u" "inv u" "length ps = n" "distinct ps"
    "set ps \<subseteq> avail t" "avail u = avail t - set ps" "ours u = ours t" by blast
  have "alloc_many al (Suc n) s = Done (p # ps) u" using t(1) u(1) by (simp add: bind_def)
  then show ?case using u t by (intro exI [of _ "p # ps"] exI [of _ u]) auto
qed

text \<open>Giving back the objects that were taken restores the free objects.\<close>

lemma free_many:
  assumes "inv s" "distinct ps" "\<forall>p \<in> set ps. ours s p" "set ps \<inter> avail s = {}"
  shows "\<exists>t. foreach ps fr s = Done () t \<and> inv t \<and> avail t = avail s \<union> set ps"
  using assms
proof (induction ps arbitrary: s)
  case Nil
  then show ?case by simp
next
  case (Cons p ps)
  have "ours s p" "p \<notin> avail s" using Cons.prems by auto
  then obtain t where t: "fr p s = Done () t" "inv t" "avail t = insert p (avail s)" "ours t = ours s"
    using free_ok Cons.prems(1) by blast
  have "\<exists>u. foreach ps fr t = Done () u \<and> inv u \<and> avail u = avail t \<union> set ps"
    by (rule Cons.IH) (use Cons.prems t in auto)
  then obtain u where u: "foreach ps fr t = Done () u" "inv u" "avail u = avail t \<union> set ps" by blast
  have "foreach (p # ps) fr s = Done () u" using t(1) u(1) by (simp add: seqk_def bind_def)
  then show ?case using u(2,3) t(3) by (intro exI [of _ u]) auto
qed

lemma many_then_free:
  assumes "inv s" "n \<le> card (avail s)"
  shows "\<exists>ps t u. alloc_many al n s = Done ps t \<and> length ps = n \<and> distinct ps \<and> foreach ps fr t = Done () u \<and> avail u = avail s"
proof -
  obtain ps t where t: "alloc_many al n s = Done ps t" "inv t" "length ps = n" "distinct ps" "set ps \<subseteq> avail s"
    "avail t = avail s - set ps" "ours t = ours s" using many_distinct [OF assms] by blast
  have "\<exists>u. foreach ps fr t = Done () u \<and> inv u \<and> avail u = avail t \<union> set ps"
    by (rule free_many) (use t avail_ours [OF assms(1)] in auto)
  then obtain u where "foreach ps fr t = Done () u" "avail u = avail t \<union> set ps" by blast
  then show ?thesis using t by (intro exI [of _ ps] exI [of _ t] exI [of _ u]) auto
qed

end

section \<open>Words and pages in memory\<close>

lemma rd32_cong: "(\<And>x. unat (x - a) < 4 \<Longrightarrow> m x = m' x) \<Longrightarrow> rd32 m a = rd32 m' a"
  by (simp add: rd32_def)

lemma rd32_put32 [simp]: "rd32 (put32 a w m) a = w"
proof -
  have "[put32 a w m a, put32 a w m (a + 1), put32 a w m (a + 2), put32 a w m (a + 3)] = le32 w"
    by (simp add: put32_def le32_def)
  then show ?thesis by (simp add: rd32_def)
qed

lemma put32_other: "\<not> unat (x - a) < 4 \<Longrightarrow> put32 a w m x = m x"
  by (auto simp: put32_def)

lemma page_unat: "p mod PGSIZE = 0 \<Longrightarrow> unat p mod 4096 = 0"
  by (drule arg_cong [where f = unat]) (simp add: unat_mod PGSIZE_def)

lemma in_page:
  assumes "p mod PGSIZE = 0"
  shows "unat (x - p) < 4096 \<longleftrightarrow> unat x div 4096 = unat p div 4096"
proof -
  obtain k where p: "unat p = 4096 * k" using page_unat [OF assms] by auto
  have bounds: "4096 * k < 4294967296" "unat x < 4294967296" using unat_u32_less [of p] unat_u32_less [of x] p by simp_all
  have k: "unat x div 4096 = k \<longleftrightarrow> 4096 * k \<le> unat x \<and> unat x < 4096 * k + 4096"
    by (auto simp: div_nat_eqI)
  show ?thesis
  proof (cases "p \<le> x")
    case True
    then have "unat (x - p) = unat x - unat p" "unat p \<le> unat x" by (simp_all add: unat_sub word_le_nat_alt)
    then show ?thesis using p k by auto
  next
    case False
    then have "unat (x - p) = unat x + 4294967296 - unat p" "unat x < unat p"
      by (simp_all add: unat_sub_if' word_le_nat_alt)
    moreover have "4096 * k + 4096 \<le> 4294967296" using bounds(1) by simp
    ultimately show ?thesis using p k by auto
  qed
qed

lemma other_page:
  assumes "p mod PGSIZE = 0" "q mod PGSIZE = 0" "p \<noteq> q" "unat (x - p) < 4096"
  shows "\<not> unat (x - q) < 4096"
proof
  assume "unat (x - q) < 4096"
  then have "unat p div 4096 = unat q div 4096" using assms by (simp add: in_page)
  then have "unat p = unat q" using page_unat assms by (metis div_mult_mod_eq)
  then show False using assms(3) by (simp add: word_unat_eq_iff)
qed

text \<open>A write inside one page leaves the words at the start of the other pages alone.\<close>

lemma rd32_other_page:
  assumes "p mod PGSIZE = 0" "q mod PGSIZE = 0" "p \<noteq> q" "\<And>x. \<not> unat (x - q) < 4096 \<Longrightarrow> m x = m' x"
  shows "rd32 m p = rd32 m' p"
  by (rule rd32_cong, rule assms(4), rule other_page [OF assms(1-3)]) simp

section \<open>The free list\<close>

text \<open>The pages on the list that starts at an address.\<close>

primrec chain :: "(u32 \<Rightarrow> byte) \<Rightarrow> u32 \<Rightarrow> u32 list \<Rightarrow> bool" where
  "chain m r [] \<longleftrightarrow> r = 0"
| "chain m r (p # ps) \<longleftrightarrow> r = p \<and> p \<noteq> 0 \<and> chain m (rd32 m p) ps"

definition page :: "'z mstate_scheme \<Rightarrow> u32 \<Rightarrow> bool" where
  "page s p \<longleftrightarrow> p mod PGSIZE = 0 \<and> kend s \<le> p \<and> v2p p < PHYSTOP"

definition freepages :: "'z mstate_scheme \<Rightarrow> u32 set" where
  "freepages s = {p. \<exists>ps. chain (ram s) (freelist s) ps \<and> p \<in> set ps}"

definition kmem_ready :: "'z mstate_scheme \<Rightarrow> bool" where
  "kmem_ready s \<longleftrightarrow> use_lock s \<longrightarrow> cli_ok s \<and> lock_free Lk_kmem s"

definition kmem_ok :: "'z mstate_scheme \<Rightarrow> bool" where
  "kmem_ok s \<longleftrightarrow> kmem_ready s \<and>
     (\<exists>ps. chain (ram s) (freelist s) ps \<and> distinct ps \<and> (\<forall>p \<in> set ps. page s p))"

lemma chain_unique: "chain m r ps \<Longrightarrow> chain m r qs \<Longrightarrow> ps = qs"
proof (induction ps arbitrary: r qs)
  case Nil
  then show ?case by (cases qs) auto
next
  case (Cons p ps)
  then obtain qs' where "qs = p # qs'" "chain m (rd32 m p) qs'" by (cases qs) auto
  moreover have "ps = qs'" by (rule Cons.IH [OF _ calculation(2)]) (use Cons.prems in simp)
  ultimately show ?case by simp
qed

lemma freepages_chain: "chain (ram s) (freelist s) ps \<Longrightarrow> freepages s = set ps"
  unfolding freepages_def by (auto dest: chain_unique)

lemma page_nonzero: "page s p \<Longrightarrow> p \<noteq> 0"
  by (auto simp: page_def v2p_def KERNBASE_def PHYSTOP_def word_less_nat_alt)

lemma chain_frame:
  assumes "chain m r ps" "\<And>p. p \<in> set ps \<Longrightarrow> rd32 m' p = rd32 m p"
  shows "chain m' r ps"
  using assms by (induction ps arbitrary: r) auto

lemma held_mstate [simp]:
  "ram (held l s) = ram s" "freelist (held l s) = freelist s" "use_lock (held l s) = use_lock s" "kend (held l s) = kend s"
  "(held l s)\<lparr>freelist := f\<rparr> = held l (s\<lparr>freelist := f\<rparr>)"
  "(held l s)\<lparr>ram := m\<rparr> = held l (s\<lparr>ram := m\<rparr>)"
  "cli_ok (s\<lparr>freelist := f\<rparr>) = cli_ok s" "lock_free k (s\<lparr>freelist := f\<rparr>) = lock_free k s"
  "cli_ok (s\<lparr>ram := m\<rparr>) = cli_ok s" "lock_free k (s\<lparr>ram := m\<rparr>) = lock_free k s"
  by (simp_all add: held_def upd_lock_def upd_mycpu_def cli_ok_def lock_free_def)

lemma kfree_eq:
  assumes "kmem_ready s" "page s v"
  shows "kfree v s = Done () (s\<lparr>ram := put32 v (freelist s) (memset v 1 PGSIZE (ram s)), freelist := v\<rparr>)"
proof -
  have "\<not> (v mod PGSIZE \<noteq> 0 \<or> v < kend s \<or> v2p v \<ge> PHYSTOP)" using assms(2) by (auto simp: page_def)
  then show ?thesis using assms(1)
    by (cases "use_lock s") (simp_all add: kfree_def bind_def seqk_def kmem_ready_def acquire_free)
qed

lemma kalloc_eq:
  assumes "kmem_ready s"
  shows "kalloc s = Done (freelist s) (if freelist s = 0 then s else s\<lparr>freelist := rd32 (ram s) (freelist s)\<rparr>)"
  using assms by (cases "use_lock s"; cases "freelist s = 0") (simp_all add: kalloc_def bind_def seqk_def kmem_ready_def acquire_free)

lemma kfree_panics:
  assumes "\<not> page s v"
  shows "kfree v s = Panic ''kfree''"
proof -
  have "v mod PGSIZE \<noteq> 0 \<or> v < kend s \<or> v2p v \<ge> PHYSTOP"
    using assms unfolding page_def by (metis not_le)
  then show ?thesis unfolding kfree_def bind_def gets_apply outcome.case by (simp only: if_True panic_apply)
qed

section \<open>The allocator of pages\<close>

text \<open>The null pointer as the absence of a page.\<close>

definition kalloc_opt :: "(u32 option, 'z mstate_scheme) kop" where
  "kalloc_opt = bind kalloc (\<lambda>r. ret (if r = 0 then None else Some r))"

lemma kmem_okE:
  assumes "kmem_ok s"
  obtains ps where "kmem_ready s" "chain (ram s) (freelist s) ps" "distinct ps" "\<forall>p \<in> set ps. page s p" "freepages s = set ps"
  using assms by (auto simp: kmem_ok_def freepages_chain)

lemma page_upd [simp]: "page (s\<lparr>ram := m\<rparr>) = page s" "page (s\<lparr>freelist := f\<rparr>) = page s"
  by (auto simp: page_def)

lemma kmem_ready_upd [simp]: "kmem_ready (s\<lparr>ram := m\<rparr>) = kmem_ready s" "kmem_ready (s\<lparr>freelist := f\<rparr>) = kmem_ready s"
  by (simp_all add: kmem_ready_def)

lemma kalloc_step:
  assumes "kmem_ok s" "freepages s \<noteq> {}"
  shows "\<exists>p t. kalloc_opt s = Done (Some p) t \<and> kmem_ok t \<and> p \<in> freepages s \<and> freepages t = freepages s - {p} \<and> page t = page s"
proof -
  obtain ps where ps: "kmem_ready s" "chain (ram s) (freelist s) ps" "distinct ps" "\<forall>p \<in> set ps. page s p" "freepages s = set ps"
    using assms(1) by (rule kmem_okE)
  then obtain p qs where c: "ps = p # qs" using assms(2) by (cases ps) auto
  let ?t = "s\<lparr>freelist := rd32 (ram s) p\<rparr>"
  have f: "freelist s = p" "p \<noteq> 0" using ps(2) c by auto
  have t: "chain (ram ?t) (freelist ?t) qs" using ps(2) c by simp
  then have "kmem_ok ?t" using ps c by (auto simp: kmem_ok_def)
  moreover have "kalloc_opt s = Done (Some p) ?t" using f ps(1) by (simp add: kalloc_opt_def bind_def kalloc_eq)
  ultimately show ?thesis using ps c freepages_chain [OF t] by (intro exI [of _ p] exI [of _ ?t]) auto
qed

lemma kfree_step:
  assumes "kmem_ok s" "page s p" "p \<notin> freepages s"
  shows "\<exists>t. kfree p s = Done () t \<and> kmem_ok t \<and> freepages t = insert p (freepages s) \<and> page t = page s"
proof -
  obtain ps where ps: "kmem_ready s" "chain (ram s) (freelist s) ps" "distinct ps" "\<forall>p \<in> set ps. page s p" "freepages s = set ps"
    using assms(1) by (rule kmem_okE)
  let ?m = "put32 p (freelist s) (memset p 1 PGSIZE (ram s))"
  let ?t = "s\<lparr>ram := ?m, freelist := p\<rparr>"
  have "rd32 ?m q = rd32 (ram s) q" if "q \<in> set ps" for q
  proof (rule rd32_other_page)
    show "q mod PGSIZE = 0" "p mod PGSIZE = 0" "q \<noteq> p" using that ps(4,5) assms(2,3) by (auto simp: page_def)
    show "?m x = ram s x" if "\<not> unat (x - p) < 4096" for x
      using that by (subst put32_other) (simp_all add: memset_apply PGSIZE_def)
  qed
  then have c: "chain (ram ?t) (freelist ?t) (p # ps)"
    using ps(2) page_nonzero [OF assms(2)] by (simp add: chain_frame)
  moreover have "kmem_ready ?t" using ps(1) by (simp add: kmem_ready_def)
  ultimately have "kmem_ok ?t" unfolding kmem_ok_def using ps assms(2,3) by (intro conjI exI [of _ "p # ps"]) auto
  then show ?thesis using kfree_eq [OF ps(1) assms(2)] freepages_chain [OF c] ps(5) by (intro exI [of _ ?t]) auto
qed

interpretation kpages: pool kmem_ok freepages page kalloc_opt kfree
proof
  fix s :: "'a mstate_scheme" and p
  show "kmem_ok s \<Longrightarrow> finite (freepages s)" by (auto elim: kmem_okE)
  show "kmem_ok s \<Longrightarrow> p \<in> freepages s \<Longrightarrow> page s p" by (auto elim: kmem_okE)
  show "kalloc_opt s = Done None s" if "kmem_ok s" "freepages s = {}"
    using that by (auto elim!: kmem_okE simp: kalloc_opt_def bind_def kalloc_eq)
  show "\<exists>p t. kalloc_opt s = Done (Some p) t \<and> kmem_ok t \<and> p \<in> freepages s \<and> freepages t = freepages s - {p} \<and> page t = page s"
    if "kmem_ok s" "freepages s \<noteq> {}" using that by (rule kalloc_step)
  show "\<exists>t. kfree p s = Done () t \<and> kmem_ok t \<and> freepages t = insert p (freepages s) \<and> page t = page s"
    if "kmem_ok s" "page s p" "p \<notin> freepages s" using that by (rule kfree_step)
qed

lemma kinit1_step:
  assumes "freelist s = 0" "\<forall>p \<in> set (range_pages a b). page s p" "distinct (range_pages a b)"
  shows "\<exists>t. kinit1 a b s = Done () t \<and> kmem_ok t \<and> freepages t = set (range_pages a b)"
proof -
  let ?s = "upd_lock Lk_kmem (\<lambda>_. \<lparr>locked = 0, lkname = ''kmem'', lkcpu = None\<rparr>) s\<lparr>use_lock := False\<rparr>"
  have c: "chain (ram ?s) (freelist ?s) []" using assms(1) by (simp add: upd_lock_def)
  have ok: "kmem_ok ?s" unfolding kmem_ok_def using c by (intro conjI exI [of _ "[]"]) (auto simp: kmem_ready_def)
  have "\<exists>t. foreach (range_pages a b) kfree ?s = Done () t \<and> kmem_ok t \<and> freepages t = freepages ?s \<union> set (range_pages a b)"
    by (rule kpages.free_many) (use ok assms freepages_chain [OF c] in \<open>auto simp: page_def upd_lock_def\<close>)
  moreover have "kinit1 a b s = foreach (range_pages a b) kfree ?s"
    by (simp add: kinit1_def initlock_def freerange_def seqk_def bind_def)
  ultimately show ?thesis using freepages_chain [OF c] by simp
qed

text \<open>The whole pages between two addresses.\<close>

definition whole_pages :: "u32 \<Rightarrow> u32 \<Rightarrow> u32 set" where
  "whole_pages a b = {p. unat p mod 4096 = 0 \<and> unat a \<le> unat p \<and> unat p + 4096 \<le> unat b}"

lemma page_list_set:
  assumes "p mod 4096 = 0" "e < 2 ^ 32"
  shows "set (page_list p e) = {q. unat q mod 4096 = 0 \<and> p \<le> unat q \<and> unat q + 4096 \<le> e} \<and> distinct (page_list p e)"
  using assms
proof (induction p e rule: page_list.induct)
  case (1 p e)
  show ?case
  proof (cases "p + 4096 \<le> e")
    case True
    have u: "unat (of_nat p :: u32) = p" using True "1.prems"(2) by (intro unat_of_nat32) simp
    have IH: "set (page_list (p + 4096) e) = {q. unat q mod 4096 = 0 \<and> p + 4096 \<le> unat q \<and> unat q + 4096 \<le> e}" "distinct (page_list (p + 4096) e)"
      using "1.IH" True "1.prems" by (simp_all add: PGSIZE_def)
    have l: "page_list p e = of_nat p # page_list (p + 4096) e" using True by (subst page_list.simps) (simp add: PGSIZE_def)
    have "q = of_nat p \<or> p + 4096 \<le> unat q" if "unat q mod 4096 = 0" "p \<le> unat q" for q :: u32
    proof (rule disjCI)
      assume "\<not> p + 4096 \<le> unat q"
      moreover have "4096 dvd p" "4096 dvd unat q" using that(1) "1.prems"(1) by (simp_all add: dvd_eq_mod_eq_0)
      moreover obtain i where "p = 4096 * i" using \<open>4096 dvd p\<close> by (rule dvdE)
      moreover obtain j where "unat q = 4096 * j" using \<open>4096 dvd unat q\<close> by (rule dvdE)
      ultimately have "unat q = p" using that(2) by simp
      then show "q = of_nat p" by auto
    qed
    then have "set (page_list p e) = {q. unat q mod 4096 = 0 \<and> p \<le> unat q \<and> unat q + 4096 \<le> e}"
      unfolding l using True u "1.prems"(1) IH(1) unfolding mod_eq_0_iff_dvd by auto
    moreover have "distinct (page_list p e)" unfolding l using u IH by auto
    ultimately show ?thesis by blast
  next
    case False
    then show ?thesis by (subst (1 2) page_list.simps) (auto simp: PGSIZE_def)
  qed
qed

lemma PGROUNDUP_nat:
  assumes "unat a \<le> 2 ^ 32 - 4096"
  shows "unat (PGROUNDUP a) = (unat a + 4095) div 4096 * 4096"
proof -
  let ?x = "a + 4095"
  have "PGROUNDUP a = push_bit 12 (drop_bit 12 ?x)"
  proof -
    have "a + PGSIZE - 1 = ?x" "PGSIZE - 1 = mask 12" by (simp_all add: PGSIZE_def mask_eq_exp_minus_1)
    then have "PGROUNDUP a = ?x AND NOT (mask 12)" by (simp only: PGROUNDUP_def)
    also have "\<dots> = push_bit 12 (drop_bit 12 ?x)" by (rule bit_word_eqI) (auto simp: bit_simps)
    finally show ?thesis .
  qed
  also have "\<dots> = ?x - take_bit 12 ?x" using bits_ident [of 12 ?x] by (metis add_diff_cancel_right')
  finally have e: "PGROUNDUP a = ?x - take_bit 12 ?x" .
  have t: "unat (take_bit 12 ?x) = unat ?x mod 4096" by (simp add: unsigned_take_bit_eq take_bit_eq_mod unat_mod)
  have "unat (take_bit 12 ?x) \<le> unat ?x" unfolding t by simp
  then have "unat (PGROUNDUP a) = unat ?x - unat ?x mod 4096" unfolding e t [symmetric] by (simp add: unat_sub word_le_nat_alt)
  moreover have "unat ?x = unat a + 4095" using assms by (simp add: unat_word_ariths)
  ultimately show ?thesis by (simp only: minus_mod_eq_div_mult)
qed

lemma whole_page:
  assumes "p \<in> whole_pages a b" "kend s \<le> a" "KERNBASE \<le> a" "unat b \<le> unat KERNBASE + unat PHYSTOP"
  shows "page s p"
proof -
  have p: "unat p mod 4096 = 0" "unat a \<le> unat p" "unat p + 4096 \<le> unat b" using assms(1) by (simp_all add: whole_pages_def)
  have "p mod PGSIZE = 0" using p(1) by (simp add: word_unat_eq_iff unat_mod PGSIZE_def)
  moreover have "kend s \<le> p" "KERNBASE \<le> p" using p(2) assms(2,3) by (simp_all add: word_le_nat_alt)
  moreover have "unat (p - KERNBASE) = unat p - unat KERNBASE" using \<open>KERNBASE \<le> p\<close> by (rule unat_sub)
  moreover have "unat p - unat KERNBASE < unat PHYSTOP" using p(3) assms(4) \<open>KERNBASE \<le> p\<close> unfolding word_le_nat_alt by linarith
  ultimately show ?thesis by (simp add: page_def v2p_def word_less_nat_alt)
qed

lemma range_pages_whole:
  assumes "unat a \<le> 2 ^ 32 - 4096"
  shows "set (range_pages a b) = whole_pages a b" "distinct (range_pages a b)"
proof -
  let ?r = "(unat a + 4095) div 4096 * 4096"
  have "?r \<le> q \<longleftrightarrow> unat a \<le> q" if q: "q mod 4096 = 0" for q
  proof -
    have "q = q div 4096 * 4096" using q by auto
    moreover have "(unat a + 4095) div 4096 \<le> q div 4096 \<longleftrightarrow> unat a \<le> q div 4096 * 4096"
      using less_eq_div_iff_mult_less_eq [of 4096 "Suc (q div 4096)" "unat a + 4095"] by (simp add: not_less_eq_eq [symmetric])
    ultimately show ?thesis by (metis mult_le_cancel2 zero_less_numeral)
  qed
  then show "set (range_pages a b) = whole_pages a b" "distinct (range_pages a b)"
    using page_list_set [of ?r "unat b"] unat_u32_less [of b] PGROUNDUP_nat [OF assms] by (auto simp: range_pages_def whole_pages_def)
qed

section \<open>A machine at boot\<close>

definition mstate0 :: mstate where
  "mstate0 = \<lparr>cpus = (\<lambda>_. cpu0), me = 0, locks = (\<lambda>_. spinlock0), ptable = (\<lambda>_. proc0),
     nextpid = 1, initproc = None, ticks = 0, kpgdir = 0, bufs = (\<lambda>_. buf0), disk = (\<lambda>_. []), disksize = 0, dwrites = [],
     log_start = 0, log_size = 0, log_busy = False, log_dev = 0, lh_n = 0, lh_sector = (\<lambda>_. 0),
     icache = (\<lambda>_. inode0), ram = (\<lambda>_. 0), use_lock = False, freelist = 0, kend = 0x80110000, kdata = 0x80108000\<rparr>"

section \<open>Properties\<close>

text \<open>C33 (pages are handed out once). The allocator never hands out one page twice: as many calls of \<open>kalloc\<close> as there are
  free pages succeed, each with a page of its own, aligned and inside the managed memory; freeing these pages again
  restores the set of free pages.\<close>

theorem kalloc_distinct:
  assumes "kmem_ok s" "n \<le> card (freepages s)"
  shows "\<exists>ps t u. alloc_many kalloc_opt n s = Done ps t \<and> length ps = n \<and> distinct ps \<and> (\<forall>p \<in> set ps. page s p) \<and>
    freepages t = freepages s - set ps \<and> foreach ps kfree t = Done () u \<and> freepages u = freepages s"
proof -
  obtain ps t u where t: "alloc_many kalloc_opt n s = Done ps t" "length ps = n" "distinct ps" "foreach ps kfree t = Done () u"
    "freepages u = freepages s" using kpages.many_then_free [OF assms] by blast
  moreover obtain qs v where "alloc_many kalloc_opt n s = Done qs v" "set qs \<subseteq> freepages s" "freepages v = freepages s - set qs"
    using kpages.many_distinct [OF assms] by blast
  ultimately show ?thesis using kpages.avail_ours [OF assms(1)]
    by (intro exI [of _ ps] exI [of _ t] exI [of _ u]) auto
qed

text \<open>C34 (the first pages). \<open>kinit1\<close>, called on an empty list, leaves exactly the whole pages of the range on the free list, the
  aligned addresses \<open>p\<close> with \<open>a \<le> p\<close> and \<open>p + 4096 \<le> b\<close>, for every range between the end of the kernel and the end of memory.\<close>

theorem kinit1_frees:
  assumes "freelist s = 0" "unat a \<le> 2 ^ 32 - 4096" "kend s \<le> a" "KERNBASE \<le> a" "unat b \<le> unat KERNBASE + unat PHYSTOP"
  shows "\<exists>t. kinit1 a b s = Done () t \<and> kmem_ok t \<and>
    freepages t = {p. unat p mod 4096 = 0 \<and> unat a \<le> unat p \<and> unat p + 4096 \<le> unat b}"
proof -
  note w = range_pages_whole [OF assms(2), of b]
  have "\<forall>p \<in> set (range_pages a b). page s p" unfolding w(1) using whole_page [OF _ assms(3-5)] by blast
  from kinit1_step [OF assms(1) this w(2)] show ?thesis unfolding w(1) whole_pages_def .
qed

lemma boot_pages: "range_pages 0x80110004 0x80113800 = [0x80111000, 0x80112000]"
  by (simp add: range_pages_def PGROUNDUP_def PGSIZE_def page_list.simps)

lemma boot_page: "p \<in> {0x80111000, 0x80112000} \<Longrightarrow> page mstate0 p"
  by (auto simp: page_def mstate0_def PGSIZE_def v2p_def KERNBASE_def PHYSTOP_def)

theorem kinit1_frees_witness:
  "freelist mstate0 = 0 \<and> (\<exists>t. kinit1 0x80110004 0x80113800 mstate0 = Done () t \<and> freepages t = {0x80111000, 0x80112000})"
proof -
  have "{p :: u32. unat p mod 4096 = 0 \<and> unat (0x80110004 :: u32) \<le> unat p \<and> unat p + 4096 \<le> unat (0x80113800 :: u32)} = {0x80111000, 0x80112000}"
    using range_pages_whole(1) [of "0x80110004" "0x80113800"] unfolding boot_pages whole_pages_def by simp
  moreover have "freelist mstate0 = 0" "kend mstate0 \<le> 0x80110004" by (simp_all add: mstate0_def)
  ultimately show ?thesis using kinit1_frees [of mstate0 "0x80110004" "0x80113800"] by (auto simp: KERNBASE_def PHYSTOP_def)
qed

lemma boot_kmem:
  obtains t :: mstate where "kmem_ok t" "freepages t = {0x80111000, 0x80112000}"
  using kinit1_step [of mstate0 "0x80110004" "0x80113800", OF _ _ range_pages_whole(2)] boot_page
  unfolding boot_pages by (auto simp: mstate0_def)

theorem kalloc_distinct_witness:
  "\<exists>s :: mstate. kmem_ok s \<and> 2 \<le> card (freepages s) \<and>
     (\<exists>ps t u. alloc_many kalloc_opt 2 s = Done ps t \<and> distinct ps \<and> foreach ps kfree t = Done () u \<and> freepages u = freepages s)"
proof -
  obtain s :: mstate where s: "kmem_ok s" "freepages s = {0x80111000, 0x80112000}" by (rule boot_kmem)
  then have "2 \<le> card (freepages s)" by simp
  with s kalloc_distinct [of s 2] show ?thesis by blast
qed

end
