(* ===== verification/Queue.thy ===== *)
theory Queue
  imports Prelude
begin

text \<open>
  First-in first-out queues.  The locale \<open>fifo\<close> is the contract of a bounded queue with the tests for full and empty
  that its clients make.  The ring buffers of the kernel (a pipe, the console input) are arrays indexed by two counters
  that run on without bound and are reduced modulo the size of the array at each access; the lemmas on \<open>ring\<close> show that
  such a pair of counters is a queue, also when a 32-bit counter wraps around.
\<close>

section \<open>The contract of a queue\<close>

datatype 'a qop = Put 'a | Get

text \<open>
  A history of operations by any number of writers and readers, one after the other.  An operation that has to wait
  has no effect.  The result is what was put, what was taken and the final state.
\<close>

fun qrun :: "('s \<Rightarrow> bool) \<Rightarrow> ('s \<Rightarrow> bool) \<Rightarrow> ('a \<Rightarrow> 's \<Rightarrow> 's) \<Rightarrow> ('s \<Rightarrow> 'a) \<Rightarrow> ('s \<Rightarrow> 's) \<Rightarrow> 'a qop list \<Rightarrow> 's \<Rightarrow>
    'a list \<times> 'a list \<times> 's" where
  "qrun full vacant put front pop [] s = ([], [], s)"
| "qrun full vacant put front pop (Put x # ops) s =
     (if full s then qrun full vacant put front pop ops s
      else let (sent, got, t) = qrun full vacant put front pop ops (put x s) in (x # sent, got, t))"
| "qrun full vacant put front pop (Get # ops) s =
     (if vacant s then qrun full vacant put front pop ops s
      else let (sent, got, t) = qrun full vacant put front pop ops (pop s) in (sent, front s # got, t))"

locale fifo =
  fixes inv :: "'s \<Rightarrow> bool" and content :: "'s \<Rightarrow> 'a list" and cap :: nat
    and full vacant :: "'s \<Rightarrow> bool" and put :: "'a \<Rightarrow> 's \<Rightarrow> 's" and front :: "'s \<Rightarrow> 'a" and pop :: "'s \<Rightarrow> 's"
  assumes bound: "inv s \<Longrightarrow> length (content s) \<le> cap"
    and full_iff: "inv s \<Longrightarrow> full s \<longleftrightarrow> length (content s) = cap"
    and empty_iff: "inv s \<Longrightarrow> vacant s \<longleftrightarrow> content s = []"
    and put_ok: "inv s \<Longrightarrow> \<not> full s \<Longrightarrow> inv (put x s) \<and> content (put x s) = content s @ [x]"
    and pop_ok: "inv s \<Longrightarrow> \<not> vacant s \<Longrightarrow> inv (pop s) \<and> content s = front s # content (pop s)"
begin

text \<open>Whatever the order of the operations, the bytes come out in the order in which they went in, each once.\<close>

lemma run_fifo:
  assumes "inv s" "qrun full vacant put front pop ops s = (sent, got, t)"
  shows "inv t \<and> content s @ sent = got @ content t"
  using assms
proof (induction ops arbitrary: s sent got)
  case Nil
  then show ?case by simp
next
  case (Cons op ops)
  show ?case
  proof (cases op)
    case (Put x)
    show ?thesis
    proof (cases "full s")
      case True
      then show ?thesis using Cons Put by simp
    next
      case False
      then have "inv (put x s)" "content (put x s) = content s @ [x]" using put_ok Cons.prems by blast+
      then show ?thesis using Cons.IH [of "put x s"] Cons.prems False Put by (auto split: prod.splits)
    qed
  next
    case Get
    show ?thesis
    proof (cases "vacant s")
      case True
      then show ?thesis using Cons Get by simp
    next
      case False
      then have "inv (pop s)" "content s = front s # content (pop s)" using pop_ok Cons.prems by blast+
      then show ?thesis using Cons.IH [of "pop s"] Cons.prems False Get by (auto split: prod.splits)
    qed
  qed
qed

text \<open>As long as there is room, everything is put; as long as there is something, everything is taken.\<close>

lemma put_many:
  assumes "inv s" "length (content s) + length xs \<le> cap"
  shows "inv (fold put xs s) \<and> content (fold put xs s) = content s @ xs"
  using assms
proof (induction xs arbitrary: s)
  case (Cons x xs)
  then have "inv (put x s) \<and> content (put x s) = content s @ [x]" using put_ok full_iff by simp
  then show ?case using Cons.IH [of "put x s"] Cons.prems by simp
qed simp

lemma pop_many:
  assumes "inv s" "n \<le> length (content s)"
  shows "inv ((pop ^^ n) s) \<and> content ((pop ^^ n) s) = drop n (content s)"
  using assms
proof (induction n arbitrary: s)
  case (Suc n)
  then have "content s \<noteq> []" by auto
  then have "inv (pop s) \<and> content s = front s # content (pop s)" using pop_ok empty_iff Suc.prems(1) by blast
  then show ?case using Suc.IH [of "pop s"] Suc.prems by (metis Suc_le_mono drop_Suc_Cons funpow_Suc_right comp_apply length_Cons)
qed simp

end

section \<open>Ring buffers\<close>

text \<open>The entries between two counters of an array of \<open>N\<close> entries; \<open>N\<close> divides the range of the counters.\<close>

definition ring :: "nat \<Rightarrow> (nat \<Rightarrow> 'a) \<Rightarrow> u32 \<Rightarrow> u32 \<Rightarrow> 'a list" where
  "ring N d r w = map (\<lambda>k. d (unat (r + of_nat k) mod N)) [0..<unat (w - r)]"

lemma length_ring [simp]: "length (ring N d r w) = unat (w - r)"
  by (simp add: ring_def)

lemma ring_empty: "ring N d r w = [] \<longleftrightarrow> r = w"
  using unat_eq_0 [of "w - r"] by (auto simp: ring_def)

lemma ring_index_inj:
  assumes "N dvd 2 ^ 32" "k < N" "j < N" "unat (r + of_nat k :: u32) mod N = unat (r + of_nat j :: u32) mod N"
  shows "k = j"
proof -
  have u: "unat (r + of_nat i :: u32) mod N = (unat r + i) mod N" for i
    using assms(1) by (simp add: unat_word_ariths unsigned_of_nat take_bit_eq_mod mod_mod_cancel mod_simps)
  have "k \<le> j" if "j \<le> k"
  proof -
    have "N dvd k - j" using assms(4) that unfolding u by (subst (asm) mod_eq_dvd_iff_nat) simp_all
    then show ?thesis using assms(2) by (cases "k - j = 0") (auto dest: dvd_imp_le)
  qed
  moreover have "j \<le> k" if "k \<le> j"
  proof -
    have "N dvd j - k" using assms(4) [symmetric] that unfolding u by (subst (asm) mod_eq_dvd_iff_nat) simp_all
    then show ?thesis using assms(3) by (cases "j - k = 0") (auto dest: dvd_imp_le)
  qed
  ultimately show ?thesis by linarith
qed

lemma ring_put:
  assumes "N dvd 2 ^ 32" "unat (w - r) < N" and N: "N < 2 ^ 32"
  shows "ring N (d(unat w mod N := x)) r (w + 1) = ring N d r w @ [x]" "unat (w + 1 - r) = unat (w - r) + 1"
proof -
  let ?n = "unat (w - r)"
  have w: "w = r + of_nat ?n" by simp
  have "unat (1 + (w - r)) = 1 + unat (w - r)"
    using assms(2) N by (simp add: unat_word_ariths)
  then show n: "unat (w + 1 - r) = ?n + 1" by (simp add: algebra_simps)
  have "unat (r + of_nat k) mod N \<noteq> unat w mod N" if "k < ?n" for k
    using ring_index_inj [OF assms(1), of k ?n r] that assms(2) w by auto
  then show "ring N (d(unat w mod N := x)) r (w + 1) = ring N d r w @ [x]"
    unfolding ring_def n by (auto simp: w [symmetric])
qed

lemma ring_pop:
  assumes "r \<noteq> w"
  shows "ring N d r w = d (unat r mod N) # ring N d (r + 1) w" "unat (w - (r + 1)) = unat (w - r) - 1"
proof -
  have "0 < unat (w - r)" using assms by (metis unat_gt_0 eq_iff_diff_eq_0)
  moreover have "unat (w - r - 1) = unat (w - r) - 1" by (rule unat_minus_one) (use assms in auto)
  ultimately obtain n where n: "unat (w - r) = Suc n" "unat (w - (r + 1)) = n"
    by (metis Suc_pred' diff_diff_eq)
  then show "unat (w - (r + 1)) = unat (w - r) - 1" by simp
  have "ring N d r w = map (\<lambda>k. d (unat (r + of_nat k) mod N)) (0 # map Suc [0..<n])"
    unfolding ring_def n by (simp add: map_Suc_upt upt_conv_Cons del: upt_Suc)
  then show "ring N d r w = d (unat r mod N) # ring N d (r + 1) w"
    by (simp add: ring_def n add.assoc)
qed

lemma ring_append:
  assumes "unat (e - r) = unat (w - r) + unat (e - w)"
  shows "ring N d r e = ring N d r w @ ring N d w e"
proof -
  let ?a = "unat (w - r)" and ?b = "unat (e - w)"
  have w: "w = r + of_nat ?a" by simp
  have "ring N d r e = map (\<lambda>k. d (unat (r + of_nat k) mod N)) ([0..<?a] @ map (\<lambda>k. k + ?a) [0..<?b])"
    unfolding ring_def assms map_add_upt using upt_add_eq_append [of 0 ?a ?b] by (simp add: add.commute)
  also have "\<dots> = ring N d r w @ map (\<lambda>k. d (unat (r + of_nat ?a + of_nat k) mod N)) [0..<?b]"
    by (simp add: ring_def comp_def add.assoc add.commute [of "of_nat _" "w - r"])
  finally show ?thesis unfolding ring_def w [symmetric] by simp
qed

lemma ring_other:
  assumes "N dvd 2 ^ 32" "unat (w - r) \<le> unat (e - r)" "unat (e - r) < N"
  shows "ring N (d(unat e mod N := x)) r w = ring N d r w"
proof -
  have e: "e = r + of_nat (unat (e - r))" by simp
  have "unat (r + of_nat k) mod N \<noteq> unat e mod N" if "k < unat (w - r)" for k
    using ring_index_inj [OF assms(1), of k "unat (e - r)" r] that assms e by auto
  then show ?thesis by (simp add: ring_def)
qed

lemma ring_unput:
  assumes "w \<noteq> e"
  shows "ring N d w (e - 1) = butlast (ring N d w e)" "unat (e - 1 - w) = unat (e - w) - 1"
    "d (unat (e - 1) mod N) = last (ring N d w e)" "ring N d w e \<noteq> []"
proof -
  have "0 < unat (e - w)" using assms by (metis unat_gt_0 eq_iff_diff_eq_0)
  moreover have "unat (e - w - 1) = unat (e - w) - 1" by (rule unat_minus_one) (use assms in auto)
  ultimately obtain n where n: "unat (e - w) = Suc n" "unat (e - 1 - w) = n"
    by (metis Suc_pred' diff_diff_eq add.commute diff_diff_eq2 diff_right_commute)
  then show "unat (e - 1 - w) = unat (e - w) - 1" by simp
  have "e - 1 = w + of_nat (unat (e - 1 - w))" by simp
  then have l: "e - 1 = w + of_nat n" using n(2) by simp
  have r: "ring N d w e = ring N d w (e - 1) @ [d (unat (e - 1) mod N)]"
    unfolding ring_def n by (simp add: l)
  then show "ring N d w (e - 1) = butlast (ring N d w e)" "d (unat (e - 1) mod N) = last (ring N d w e)" "ring N d w e \<noteq> []"
    by simp_all
qed

end
