(* ===== verification/Pipe.thy ===== *)
theory Pipe
  imports Kalloc Queue
begin

text \<open>
  Open files and pipes: \<open>struct file\<close> (file.h), the table of open files with \<open>filealloc\<close> and \<open>filedup\<close> (file.c), and the
  pipe of \<open>pipe.c\<close>.

  A pipe lives in a page of its own; the model keeps the structure in a store indexed by the address of that page.  The
  buffer that a process reads into or writes from is a list of bytes.  A call of \<open>sleep\<close> leaves the CPU; the process
  goes on with the corresponding \<open>_resume\<close> definition, which tests the loop condition again.
\<close>

section \<open>State\<close>

datatype filetype = FD_NONE | FD_PIPE | FD_INODE

record struct_file =
  ftype :: filetype
  fref :: int
  readable :: bool
  writable :: bool
  fpipe :: u32
  fip :: nat
  foff :: u32

record pipe =
  pdata :: "nat \<Rightarrow> byte"
  nread :: u32
  nwrite :: u32
  readopen :: bool
  writeopen :: bool

record ostate = mstate +
  ftable :: "nat \<Rightarrow> struct_file"
  pipes :: "u32 \<Rightarrow> pipe"

definition NFILE :: nat where "NFILE = 100"
definition PIPESIZE :: u32 where "PIPESIZE = 512"

definition upd_file :: "nat \<Rightarrow> (struct_file \<Rightarrow> struct_file) \<Rightarrow> 'z ostate_scheme \<Rightarrow> 'z ostate_scheme" where
  "upd_file f g s = s\<lparr>ftable := (ftable s)(f := g (ftable s f))\<rparr>"

definition upd_pipe :: "u32 \<Rightarrow> (pipe \<Rightarrow> pipe) \<Rightarrow> 'z ostate_scheme \<Rightarrow> 'z ostate_scheme" where
  "upd_pipe p g s = s\<lparr>pipes := (pipes s)(p := g (pipes s p))\<rparr>"

abbreviation Lk_of :: "u32 \<Rightarrow> lockid" where "Lk_of p \<equiv> Lk_pipe (unat p)"

section \<open>The file table\<close>

definition fileinit :: "(unit, 'z ostate_scheme) kop" where
  "fileinit = initlock Lk_ftable ''ftable''"

definition free_file :: "(nat \<Rightarrow> struct_file) \<Rightarrow> nat option" where
  "free_file tab = List.find (\<lambda>f. fref (tab f) = 0) [0..<NFILE]"

definition filealloc :: "(nat option, 'z ostate_scheme) kop" where
  "filealloc =
     seqk (acquire Lk_ftable)
    (bind (gets (\<lambda>s. free_file (ftable s))) (\<lambda>r. case r of
       Some f \<Rightarrow>
         seqk (modify (upd_file f (\<lambda>x. x\<lparr>fref := 1\<rparr>)))
        (seqk (release Lk_ftable) (ret (Some f)))
     | None \<Rightarrow> seqk (release Lk_ftable) (ret None)))"

definition filedup :: "nat \<Rightarrow> (nat, 'z ostate_scheme) kop" where
  "filedup f =
     seqk (acquire Lk_ftable)
    (bind (gets (\<lambda>s. fref (ftable s f))) (\<lambda>r.
     if r < 1 then panic ''filedup''
     else seqk (modify (upd_file f (\<lambda>x. x\<lparr>fref := fref x + 1\<rparr>)))
         (seqk (release Lk_ftable) (ret f))))"

section \<open>Pipes\<close>

definition pipeclose :: "u32 \<Rightarrow> bool \<Rightarrow> (unit, 'z ostate_scheme) kop" where
  "pipeclose p w =
     seqk (acquire (Lk_of p))
    (seqk (if w then
             seqk (modify (upd_pipe p (\<lambda>q. q\<lparr>writeopen := False\<rparr>)))
             (wakeup (Ch_pipe_read (unat p)))
           else
             seqk (modify (upd_pipe p (\<lambda>q. q\<lparr>readopen := False\<rparr>)))
             (wakeup (Ch_pipe_write (unat p))))
    (bind (gets (\<lambda>s. pipes s p)) (\<lambda>q.
     if \<not> readopen q \<and> \<not> writeopen q then seqk (release (Lk_of p)) (kfree p)
     else release (Lk_of p))))"

text \<open>The tests and the accesses that both loops make.\<close>

definition pipe_full :: "pipe \<Rightarrow> bool" where
  "pipe_full q \<longleftrightarrow> nwrite q = nread q + PIPESIZE"

definition pipe_empty :: "pipe \<Rightarrow> bool" where
  "pipe_empty q \<longleftrightarrow> nread q = nwrite q"

definition pipe_put :: "byte \<Rightarrow> pipe \<Rightarrow> pipe" where
  "pipe_put c q = q\<lparr>pdata := (pdata q)(unat (nwrite q mod PIPESIZE) := c), nwrite := nwrite q + 1\<rparr>"

definition pipe_front :: "pipe \<Rightarrow> byte" where
  "pipe_front q = pdata q (unat (nread q mod PIPESIZE))"

definition pipe_pop :: "pipe \<Rightarrow> pipe" where
  "pipe_pop q = q\<lparr>nread := nread q + 1\<rparr>"

definition killed_now :: "(bool, 'z kstate_scheme) kop" where
  "killed_now = with_proc (\<lambda>p. gets (\<lambda>s. killed (ptable s p)))"

primrec pipewrite_loop :: "u32 \<Rightarrow> int \<Rightarrow> bytes \<Rightarrow> (int, 'z ostate_scheme) kop" where
  "pipewrite_loop p n [] =
     seqk (wakeup (Ch_pipe_read (unat p)))
    (seqk (release (Lk_of p)) (ret n))"
| "pipewrite_loop p n (b # bs) =
     bind (gets (\<lambda>s. pipes s p)) (\<lambda>q.
     if pipe_full q then
       bind (if \<not> readopen q then ret True else killed_now) (\<lambda>gone.
       if gone then seqk (release (Lk_of p)) (ret (- 1))
       else seqk (wakeup (Ch_pipe_read (unat p)))
           (seqk (sleep (Ch_pipe_write (unat p)) (Lk_of p)) (\<lambda>s. Diverge)))
     else
       seqk (modify (upd_pipe p (pipe_put b)))
       (pipewrite_loop p n bs))"

definition pipewrite :: "u32 \<Rightarrow> bytes \<Rightarrow> int \<Rightarrow> (int, 'z ostate_scheme) kop" where
  "pipewrite p bs n = seqk (acquire (Lk_of p)) (pipewrite_loop p n (take (nat n) bs))"

text \<open>The bytes that were not yet written when the process went to sleep are on its kernel stack.\<close>

definition pipewrite_resume :: "bool \<Rightarrow> u32 \<Rightarrow> int \<Rightarrow> bytes \<Rightarrow> (int, 'z ostate_scheme) kop" where
  "pipewrite_resume ie p n bs = seqk (sleep_resume ie (Lk_of p)) (pipewrite_loop p n bs)"

primrec piperead_copy :: "u32 \<Rightarrow> nat \<Rightarrow> (bytes, 'z ostate_scheme) kop" where
  "piperead_copy p 0 = ret []"
| "piperead_copy p (Suc k) =
     bind (gets (\<lambda>s. pipes s p)) (\<lambda>q.
     if pipe_empty q then ret []
     else seqk (modify (upd_pipe p pipe_pop))
         (bind (piperead_copy p k) (\<lambda>bs. ret (pipe_front q # bs))))"

definition piperead_loop :: "u32 \<Rightarrow> int \<Rightarrow> (int \<times> bytes, 'z ostate_scheme) kop" where
  "piperead_loop p n =
     bind (gets (\<lambda>s. pipes s p)) (\<lambda>q.
     if pipe_empty q \<and> writeopen q then
       bind killed_now (\<lambda>gone.
       if gone then seqk (release (Lk_of p)) (ret (- 1, []))
       else seqk (sleep (Ch_pipe_read (unat p)) (Lk_of p)) (\<lambda>s. Diverge))
     else
       bind (piperead_copy p (nat n)) (\<lambda>bs.
       seqk (wakeup (Ch_pipe_write (unat p)))
      (seqk (release (Lk_of p)) (ret (int (length bs), bs)))))"

definition piperead :: "u32 \<Rightarrow> int \<Rightarrow> (int \<times> bytes, 'z ostate_scheme) kop" where
  "piperead p n = seqk (acquire (Lk_of p)) (piperead_loop p n)"

definition piperead_resume :: "bool \<Rightarrow> u32 \<Rightarrow> int \<Rightarrow> (int \<times> bytes, 'z ostate_scheme) kop" where
  "piperead_resume ie p n = seqk (sleep_resume ie (Lk_of p)) (piperead_loop p n)"

section \<open>A pipe is a queue\<close>

definition pipe_ok :: "pipe \<Rightarrow> bool" where
  "pipe_ok q \<longleftrightarrow> unat (nwrite q - nread q) \<le> 512"

definition pipe_content :: "pipe \<Rightarrow> bytes" where
  "pipe_content q = ring 512 (pdata q) (nread q) (nwrite q)"

lemma unat_mod_512: "unat (x mod PIPESIZE) = unat x mod 512"
  by (simp add: unat_mod PIPESIZE_def)

lemma full_512: "pipe_full q \<longleftrightarrow> unat (nwrite q - nread q) = 512"
proof
  assume "unat (nwrite q - nread q) = 512"
  then have "nwrite q - nread q = 512" by (simp add: word_unat_eq_iff)
  then show "pipe_full q" by (simp add: pipe_full_def PIPESIZE_def algebra_simps)
qed (simp add: pipe_full_def PIPESIZE_def)

interpretation pipeq: fifo pipe_ok pipe_content 512 pipe_full pipe_empty pipe_put pipe_front pipe_pop
proof
  fix q x
  assume q: "pipe_ok q"
  show "length (pipe_content q) \<le> 512" using q by (simp add: pipe_content_def pipe_ok_def)
  show "pipe_full q = (length (pipe_content q) = 512)" by (simp add: full_512 pipe_content_def)
  show "pipe_empty q = (pipe_content q = [])" by (simp add: pipe_empty_def pipe_content_def ring_empty)
  show "pipe_ok (pipe_put x q) \<and> pipe_content (pipe_put x q) = pipe_content q @ [x]" if "\<not> pipe_full q"
  proof -
    have "unat (nwrite q - nread q) < 512" using q that by (simp add: full_512 pipe_ok_def)
    then show ?thesis using ring_put(1) [of 512 "nwrite q" "nread q" "pdata q" x] ring_put(2) [of 512 "nwrite q" "nread q"]
      by (simp add: pipe_ok_def pipe_content_def pipe_put_def unat_mod_512)
  qed
  show "pipe_ok (pipe_pop q) \<and> pipe_content q = pipe_front q # pipe_content (pipe_pop q)" if "\<not> pipe_empty q"
    using q that ring_pop(1) [of "nread q" "nwrite q" 512 "pdata q"] ring_pop(2) [of "nread q" "nwrite q"]
    by (simp add: pipe_ok_def pipe_content_def pipe_pop_def pipe_front_def pipe_empty_def unat_mod_512)
qed

section \<open>The operations on a pipe\<close>

lemma upd_pipe_simps [simp]:
  "pipes (upd_pipe p g s) = (pipes s)(p := g (pipes s p))" "ptable (upd_pipe p g s) = ptable s"
  "cpus (upd_pipe p g s) = cpus s" "me (upd_pipe p g s) = me s" "locks (upd_pipe p g s) = locks s"
  "upd_pipe p g (held l s) = held l (upd_pipe p g s)" "pipes (held l s) = pipes s"
  "pipes (woken c s) = pipes s" "pipes (upd_proc i f s) = pipes s"
  "cli_ok (upd_pipe p g s) = cli_ok s" "lock_free l (upd_pipe p g s) = lock_free l s"
  by (simp_all add: upd_pipe_def held_def upd_lock_def upd_mycpu_def cli_ok_def lock_free_def woken_def upd_proc_def)

lemma upd_pipe_twice [simp]: "upd_pipe p f (upd_pipe p g s) = upd_pipe p (\<lambda>q. f (g q)) s"
  by (simp add: upd_pipe_def)

lemma upd_pipe_same [simp]: "upd_pipe p (\<lambda>q. q) s = s"
  by (simp add: upd_pipe_def)

text \<open>A process in the kernel that holds no lock, with the lock of the pipe and that of the process table free.\<close>

definition at_pipe :: "u32 \<Rightarrow> nat \<Rightarrow> 'z ostate_scheme \<Rightarrow> bool" where
  "at_pipe p c s \<longleftrightarrow> cli_ok s \<and> ncli (mycpu s) = 0 \<and> curproc (mycpu s) = Some c \<and> lock_free (Lk_of p) s \<and> lock_free Lk_ptable s"

lemma at_pipe_upd [simp]: "at_pipe p c (upd_pipe r g s) = at_pipe p c s"
  by (simp add: at_pipe_def)

lemma at_pipe_woken [simp]: "at_pipe p c (woken ch s) = at_pipe p c s"
  by (simp add: at_pipe_def)

lemma killed_now_eq: "curproc (mycpu s) = Some c \<Longrightarrow> killed_now s = Done (killed (ptable s c)) s"
  by (simp add: killed_now_def with_proc_def)

lemma pipewrite_loop_fits:
  assumes "at_pipe p c s" "pipe_ok (pipes s p)" "length (pipe_content (pipes s p)) + length bs \<le> 512"
  shows "pipewrite_loop p n (bs @ cs) (held (Lk_of p) s) =
    pipewrite_loop p n cs (held (Lk_of p) (upd_pipe p (fold pipe_put bs) s))"
  using assms
proof (induction bs arbitrary: s)
  case Nil
  have "upd_pipe p (fold pipe_put []) s = s" by (simp add: upd_pipe_def)
  then show ?case by simp
next
  case (Cons b bs)
  let ?q = "pipes s p" and ?t = "upd_pipe p (pipe_put b) s"
  have nf: "\<not> pipe_full ?q" using Cons.prems pipeq.full_iff by simp
  then have "pipe_ok (pipe_put b ?q)" "pipe_content (pipe_put b ?q) = pipe_content ?q @ [b]"
    using pipeq.put_ok [OF Cons.prems(2)] by blast+
  then have "pipewrite_loop p n (bs @ cs) (held (Lk_of p) ?t) =
      pipewrite_loop p n cs (held (Lk_of p) (upd_pipe p (fold pipe_put bs) ?t))"
    using Cons.prems by (intro Cons.IH) simp_all
  then show ?case using nf by (simp add: bind_def seqk_def comp_def)
qed

lemma pipewrite_loop_end:
  assumes "at_pipe p c s"
  shows "pipewrite_loop p n [] (held (Lk_of p) s) = Done n (woken (Some (Ch_pipe_read (unat p))) s)"
  using assms by (simp add: bind_def seqk_def wakeup_eq at_pipe_def)

lemma pipewrite_loop_full:
  assumes "at_pipe p c s" "pipe_full (pipes s p)"
  shows "pipewrite_loop p n (b # bs) (held (Lk_of p) s) =
    (if \<not> readopen (pipes s p) \<or> killed (ptable s c) then Done (- 1) s
     else Sleep (held Lk_ptable (upd_proc c (\<lambda>q. q\<lparr>chan := Some (Ch_pipe_write (unat p)), pstate := SLEEPING\<rparr>)
            (woken (Some (Ch_pipe_read (unat p))) s))))"
  using assms sleep_eq [of "woken (Some (Ch_pipe_read (unat p))) s" "Lk_of p" c "Ch_pipe_write (unat p)"]
  by (simp add: bind_def seqk_def wakeup_eq at_pipe_def killed_now_eq)

lemma piperead_copy_eq:
  assumes "pipe_ok (pipes s p)"
  shows "piperead_copy p n s = Done (take n (pipe_content (pipes s p)))
    (upd_pipe p (pipe_pop ^^ min n (length (pipe_content (pipes s p)))) s)"
  using assms
proof (induction n arbitrary: s)
  case 0
  then show ?case by (simp add: upd_pipe_def)
next
  case (Suc n)
  let ?q = "pipes s p"
  show ?case
  proof (cases "pipe_empty ?q")
    case True
    then have "pipe_content ?q = []" using pipeq.empty_iff [OF Suc.prems] by simp
    then show ?thesis using True by (simp add: bind_def upd_pipe_def)
  next
    case False
    then have q: "pipe_ok (pipe_pop ?q)" "pipe_content ?q = pipe_front ?q # pipe_content (pipe_pop ?q)"
      using pipeq.pop_ok [OF Suc.prems] by blast+
    have "piperead_copy p n (upd_pipe p pipe_pop s) = Done (take n (pipe_content (pipe_pop ?q)))
        (upd_pipe p (pipe_pop ^^ Suc (min n (length (pipe_content (pipe_pop ?q))))) s)"
      using Suc.IH [of "upd_pipe p pipe_pop s"] q(1) by (simp add: funpow_swap1 comp_def)
    moreover have "min (Suc n) (length (pipe_content ?q)) = Suc (min n (length (pipe_content (pipe_pop ?q))))"
      using q(2) by (metis length_Cons min_Suc_Suc)
    moreover have "take (Suc n) (pipe_content ?q) = pipe_front ?q # take n (pipe_content (pipe_pop ?q))"
      using q(2) by (metis take_Suc_Cons)
    ultimately show ?thesis using False by (simp add: bind_def seqk_def comp_def)
  qed
qed

section \<open>A machine with a pipe\<close>

definition file0 :: struct_file where
  "file0 = \<lparr>ftype = FD_NONE, fref = 0, readable = False, writable = False, fpipe = 0, fip = 0, foff = 0\<rparr>"

definition pipe0 :: pipe where
  "pipe0 = \<lparr>pdata = (\<lambda>_. 0), nread = 0, nwrite = 0, readopen = True, writeopen = True\<rparr>"

definition ostate0 :: ostate where
  "ostate0 = mstate.extend (mstate0\<lparr>cpus := (\<lambda>_. cpu0\<lparr>curproc := Some 0\<rparr>)\<rparr>) (ostate.fields (\<lambda>_. file0) (\<lambda>_. pipe0))"

lemma ostate0_simps [simp]:
  "pipes ostate0 = (\<lambda>_. pipe0)" "ftable ostate0 = (\<lambda>_. file0)" "at_pipe p 0 ostate0" "ptable ostate0 = (\<lambda>_. proc0)"
  "cli_ok ostate0" "lock_free l ostate0"
  by (simp_all add: ostate0_def mstate.defs ostate.defs mstate0_def at_pipe_def cli_ok_def lock_free_def boot_defs)

lemma pipe0_ok [simp]: "pipe_ok pipe0" "pipe_content pipe0 = []"
  by (simp_all add: pipe_ok_def pipe_content_def pipe0_def ring_def)

section \<open>Properties\<close>

text \<open>C30 (a pipe is a first-in first-out queue of 512 bytes). Whatever the order in which writers and readers get at the pipe,
  and also when the 32-bit counters wrap around: the bytes read, followed by those still in the pipe, are the bytes
  that were in it, followed by those written; and the pipe never holds more than 512 bytes.\<close>

theorem pipe_fifo:
  assumes "pipe_ok q" "qrun pipe_full pipe_empty pipe_put pipe_front pipe_pop ops q = (sent, got, r)"
  shows "pipe_content q @ sent = got @ pipe_content r \<and> pipe_ok r \<and> length (pipe_content r) \<le> 512"
  using pipeq.run_fifo [OF assms] pipeq.bound by blast

definition wrapped_pipe :: pipe where
  "wrapped_pipe = \<lparr>pdata = (\<lambda>_. 0)(511 := 7), nread = - 1, nwrite = 0, readopen = True, writeopen = True\<rparr>"

theorem pipe_fifo_witness:
  "pipe_ok wrapped_pipe \<and> pipe_content wrapped_pipe = [7] \<and>
   (\<exists>r. qrun pipe_full pipe_empty pipe_put pipe_front pipe_pop [Put 1, Get, Get, Get, Put 2] wrapped_pipe = ([1, 2], [7, 1], r) \<and>
      pipe_content r = [2])"
proof -
  have c: "pipe_ok wrapped_pipe" "pipe_content wrapped_pipe = [7]"
    by (simp_all add: wrapped_pipe_def pipe_ok_def pipe_content_def ring_def)
  moreover obtain r where
    r: "qrun pipe_full pipe_empty pipe_put pipe_front pipe_pop [Put 1, Get, Get, Get, Put 2] wrapped_pipe = ([1, 2], [7, 1], r)"
    by (simp add: wrapped_pipe_def pipe_full_def pipe_empty_def pipe_put_def pipe_front_def pipe_pop_def PIPESIZE_def)
  ultimately show ?thesis using pipe_fifo [OF c(1) r] by simp
qed

text \<open>C31 (writing to a pipe). A process that writes appends its bytes to the pipe as long as there is room.  If all fit, the
  call returns their number and the readers are woken up.  If they do not, the pipe is filled; then the call fails when
  the reading end is closed or the process was killed, and otherwise the process sleeps until a reader has made room,
  the readers being woken up first.\<close>

theorem pipewrite_appends:
  fixes s :: "'z ostate_scheme" and bs :: bytes and n :: int
  assumes "at_pipe p c s" "pipe_ok (pipes s p)"
  defines "d \<equiv> take (nat n) bs" and "q \<equiv> pipe_content (pipes s p)"
  defines "room \<equiv> 512 - length q"
  defines "u \<equiv> upd_pipe p (fold pipe_put (take room d)) s"
  shows "pipe_content (pipes u p) = q @ take room d \<and> pipewrite p bs n s =
      (if length d \<le> room then Done n (woken (Some (Ch_pipe_read (unat p))) u)
       else if \<not> readopen (pipes u p) \<or> killed (ptable s c) then Done (- 1) u
       else Sleep (held Lk_ptable (upd_proc c (\<lambda>r. r\<lparr>chan := Some (Ch_pipe_write (unat p)), pstate := SLEEPING\<rparr>)
             (woken (Some (Ch_pipe_read (unat p))) u))))"
proof -
  have len: "length q \<le> 512" using pipeq.bound [OF assms(2)] by (simp add: q_def)
  have u: "pipe_ok (pipes u p) \<and> pipe_content (pipes u p) = q @ take room d"
    using pipeq.put_many [OF assms(2), of "take room d"] len by (simp add: u_def q_def room_def)
  have a: "at_pipe p c u" using assms(1) by (simp add: u_def)
  have "pipewrite p bs n s = pipewrite_loop p n (take room d @ drop room d) (held (Lk_of p) s)"
    unfolding append_take_drop_id using assms(1) by (simp add: pipewrite_def seqk_def bind_def acquire_free at_pipe_def d_def)
  also have "\<dots> = pipewrite_loop p n (drop room d) (held (Lk_of p) u)"
    unfolding u_def using len by (intro pipewrite_loop_fits [OF assms(1,2)]) (simp add: room_def q_def)
  finally have e: "pipewrite p bs n s = pipewrite_loop p n (drop room d) (held (Lk_of p) u)" .
  show ?thesis
  proof (cases "length d \<le> room")
    case True
    then show ?thesis using u e pipewrite_loop_end [OF a] by simp
  next
    case False
    then obtain b cs where bc: "drop room d = b # cs" by (cases "drop room d") auto
    have "length (pipe_content (pipes u p)) = 512" using u False len by (simp add: room_def)
    then have "pipe_full (pipes u p)" using pipeq.full_iff u by blast
    then show ?thesis using u e bc False pipewrite_loop_full [OF a] by (simp add: u_def)
  qed
qed

theorem pipewrite_appends_witness:
  "at_pipe 4096 0 ostate0 \<and> pipe_ok (pipes ostate0 4096) \<and>
   (\<exists>t. pipewrite 4096 [7, 8] 2 ostate0 = Done 2 t \<and> pipe_content (pipes t 4096) = [7, 8])"
  using pipewrite_appends [of 4096 0 ostate0 2 "[7, 8]"] by (simp add: numeral_eq_Suc)

text \<open>C32 (reading from a pipe). A process that reads takes the oldest bytes of the pipe, as many as there are but at most the
  number it asked for, and the writers are woken up.  If the pipe is empty, the call returns 0 bytes when the writing end
  is closed; otherwise it fails for a process that was killed and lets any other sleep.\<close>

theorem piperead_takes:
  fixes s :: "'z ostate_scheme" and n :: int
  assumes "at_pipe p c s" "pipe_ok (pipes s p)"
  defines "q \<equiv> pipe_content (pipes s p)"
  defines "u \<equiv> upd_pipe p (pipe_pop ^^ min (nat n) (length q)) s"
  shows "pipe_content (pipes u p) = drop (nat n) q \<and> piperead p n s =
      (if q \<noteq> [] \<or> \<not> writeopen (pipes s p) then
         Done (int (min (nat n) (length q)), take (nat n) q) (woken (Some (Ch_pipe_write (unat p))) u)
       else if killed (ptable s c) then Done (- 1, []) s
       else Sleep (held Lk_ptable (upd_proc c (\<lambda>r. r\<lparr>chan := Some (Ch_pipe_read (unat p)), pstate := SLEEPING\<rparr>) s)))"
proof (rule conjI)
  show "pipe_content (pipes u p) = drop (nat n) q"
    using pipeq.pop_many [OF assms(2), of "min (nat n) (length q)"] by (simp add: u_def q_def min_def)
  have e: "pipe_empty (pipes s p) \<longleftrightarrow> q = []" using pipeq.empty_iff [OF assms(2)] by (simp add: q_def)
  have c: "piperead_copy p (nat n) (held (Lk_of p) s) = Done (take (nat n) q) (held (Lk_of p) u)"
    using piperead_copy_eq [of "held (Lk_of p) s"] assms(2) by (simp add: u_def q_def)
  show "piperead p n s =
      (if q \<noteq> [] \<or> \<not> writeopen (pipes s p) then
         Done (int (min (nat n) (length q)), take (nat n) q) (woken (Some (Ch_pipe_write (unat p))) u)
       else if killed (ptable s c) then Done (- 1, []) s
       else Sleep (held Lk_ptable (upd_proc c (\<lambda>r. r\<lparr>chan := Some (Ch_pipe_read (unat p)), pstate := SLEEPING\<rparr>) s)))"
    using assms(1) sleep_eq [of s "Lk_of p" c "Ch_pipe_read (unat p)"] e c
    by (simp add: piperead_def piperead_loop_def seqk_def bind_def acquire_free at_pipe_def killed_now_eq wakeup_eq u_def min.commute)
qed

theorem piperead_takes_witness:
  "\<exists>s :: ostate. at_pipe 4096 0 s \<and> pipe_ok (pipes s 4096) \<and>
     (\<exists>t. piperead 4096 3 s = Done (1, [7]) t \<and> pipe_content (pipes t 4096) = [])"
proof -
  let ?s = "upd_pipe 4096 (\<lambda>_. wrapped_pipe) ostate0"
  have c: "pipe_ok wrapped_pipe" "pipe_content wrapped_pipe = [7]"
    by (simp_all add: wrapped_pipe_def pipe_ok_def pipe_content_def ring_def)
  then show ?thesis using piperead_takes [of 4096 0 ?s 3] by (intro exI [of _ ?s]) simp
qed

end
