(* ===== verification/File.thy ===== *)
theory File
  imports Pipe
begin

text \<open>
  Open files (\<open>file.c\<close>) and the creation of pipes (\<open>pipealloc\<close> of \<open>pipe.c\<close>): closing, reading, writing and examining an
  open file, which is an inode with an offset or one end of a pipe.  The switch table of devices is the parameter
  \<open>dv\<close> that the inode layer has.
\<close>

section \<open>Operations\<close>

definition fileclose :: "(nat \<Rightarrow> 'z ostate_scheme devsw) \<Rightarrow> nat \<Rightarrow> (unit, 'z ostate_scheme) kop" where
  "fileclose dv f =
     seqk (acquire Lk_ftable)
    (bind (gets (\<lambda>s. fref (ftable s f))) (\<lambda>r.
     if r < 1 then panic ''fileclose''
     else
       seqk (modify (upd_file f (\<lambda>x. x\<lparr>fref := fref x - 1\<rparr>)))
      (if r - 1 > 0 then release Lk_ftable
       else
         bind (gets (\<lambda>s. ftable s f)) (\<lambda>ff.
         seqk (modify (upd_file f (\<lambda>x. x\<lparr>fref := 0, ftype := FD_NONE\<rparr>)))
        (seqk (release Lk_ftable)
        (case ftype ff of
           FD_PIPE \<Rightarrow> pipeclose (fpipe ff) (writable ff)
         | FD_INODE \<Rightarrow> seqk begin_trans (seqk (iput dv (fip ff)) commit_trans)
         | FD_NONE \<Rightarrow> ret ()))))))"

definition filestat :: "(nat \<Rightarrow> 'z ostate_scheme devsw) \<Rightarrow> nat \<Rightarrow> (int \<times> stat option, 'z ostate_scheme) kop" where
  "filestat dv f =
     bind (gets (\<lambda>s. ftable s f)) (\<lambda>x.
     if ftype x = FD_INODE then
       bind (ilock_trans dv (Some (fip x))) (\<lambda>r.
       if r = E_CORRUPTED then ret (E_CORRUPTED, None)
       else
         bind (stati (fip x)) (\<lambda>st.
         seqk (iunlock (Some (fip x)))
         (ret (0, Some st))))
     else ret (- 1, None))"

definition fileread :: "(nat \<Rightarrow> 'z ostate_scheme devsw) \<Rightarrow> nat \<Rightarrow> int \<Rightarrow> (int \<times> bytes, 'z ostate_scheme) kop" where
  "fileread dv f n =
     bind (gets (\<lambda>s. ftable s f)) (\<lambda>x.
     if \<not> readable x then ret (- 1, [])
     else case ftype x of
       FD_PIPE \<Rightarrow> piperead (fpipe x) n
     | FD_INODE \<Rightarrow>
         seqk (ilock_trans dv (Some (fip x)))
        (bind (gets (\<lambda>s. foff (ftable s f))) (\<lambda>off.
         bind (readi dv (fip x) off (word_of_int n)) (\<lambda>(r, bs).
         seqk (whenk (r > 0) (modify (upd_file f (\<lambda>y. y\<lparr>foff := foff y + word_of_int r\<rparr>))))
        (seqk (iunlock (Some (fip x)))
         (ret (r, bs))))))
     | FD_NONE \<Rightarrow> panic ''fileread'')"

text \<open>The number of bytes that one transaction of \<open>filewrite\<close> may write.\<close>

definition write_max :: int where
  "write_max = (int LOGSIZE - 1 - 1 - 2) div 2 * 512"

lemma write_max_eq [simp]: "write_max = 4096"
  by (simp add: write_max_def LOGSIZE_def)

definition filewrite_chunk :: "(nat \<Rightarrow> 'z ostate_scheme devsw) \<Rightarrow> nat \<Rightarrow> nat \<Rightarrow> bytes \<Rightarrow> int \<Rightarrow> (int, 'z ostate_scheme) kop" where
  "filewrite_chunk dv f ip src n1 =
     seqk begin_trans
    (seqk (ilock dv (Some ip))
    (bind (gets (\<lambda>s. foff (ftable s f))) (\<lambda>off.
     bind (writei dv ip src off (word_of_int n1)) (\<lambda>r.
     seqk (whenk (r > 0) (modify (upd_file f (\<lambda>y. y\<lparr>foff := foff y + word_of_int r\<rparr>))))
    (seqk (iunlock (Some ip))
    (seqk commit_trans
     (ret r)))))))"

function filewrite_loop ::
  "(nat \<Rightarrow> 'z ostate_scheme devsw) \<Rightarrow> nat \<Rightarrow> nat \<Rightarrow> bytes \<Rightarrow> int \<Rightarrow> int \<Rightarrow> (int, 'z ostate_scheme) kop" where
  "filewrite_loop dv f ip src n i =
     (if i < n then
        bind (filewrite_chunk dv f ip (drop (nat i) src) (min (n - i) write_max)) (\<lambda>r.
        if r < 0 then ret i
        else if r \<noteq> min (n - i) write_max then panic ''short filewrite''
        else filewrite_loop dv f ip src n (i + min (n - i) write_max))
      else ret i)"
  by pat_completeness auto
termination
  by (relation "measure (\<lambda>(dv, f, ip, src, n, i). nat (n - i))") auto

definition filewrite :: "(nat \<Rightarrow> 'z ostate_scheme devsw) \<Rightarrow> nat \<Rightarrow> bytes \<Rightarrow> int \<Rightarrow> (int, 'z ostate_scheme) kop" where
  "filewrite dv f src n =
     bind (gets (\<lambda>s. ftable s f)) (\<lambda>x.
     if \<not> writable x then ret (- 1)
     else case ftype x of
       FD_PIPE \<Rightarrow> pipewrite (fpipe x) src n
     | FD_INODE \<Rightarrow>
         bind (ilock_trans dv (Some (fip x))) (\<lambda>r.
         if r = E_CORRUPTED then ret E_CORRUPTED
         else
           seqk (iunlock (Some (fip x)))
          (bind (filewrite_loop dv f (fip x) src n 0) (\<lambda>i.
           ret (if i = n then n else - 1))))
     | FD_NONE \<Rightarrow> panic ''filewrite'')"

text \<open>
  The failure path of \<open>pipealloc\<close>.  It is entered before a page was allocated, or because none could be, so there is
  no page to free.
\<close>

definition pipealloc_bad :: "(nat \<Rightarrow> 'z ostate_scheme devsw) \<Rightarrow> u32 \<Rightarrow> nat option \<Rightarrow> nat option \<Rightarrow> (int, 'z ostate_scheme) kop" where
  "pipealloc_bad dv p f0 f1 =
     seqk (whenk (p \<noteq> 0) (kfree p))
    (seqk (case f0 of Some f \<Rightarrow> fileclose dv f | None \<Rightarrow> ret ())
    (seqk (case f1 of Some f \<Rightarrow> fileclose dv f | None \<Rightarrow> ret ())
     (ret (- 1))))"

definition pipe_end :: "u32 \<Rightarrow> bool \<Rightarrow> struct_file \<Rightarrow> struct_file" where
  "pipe_end p w x = x\<lparr>ftype := FD_PIPE, readable := \<not> w, writable := w, fpipe := p\<rparr>"

definition pipealloc :: "(nat \<Rightarrow> 'z ostate_scheme devsw) \<Rightarrow> (int \<times> nat option \<times> nat option, 'z ostate_scheme) kop" where
  "pipealloc dv =
     bind filealloc (\<lambda>f0. case f0 of
       None \<Rightarrow> bind (pipealloc_bad dv 0 None None) (\<lambda>r. ret (r, None, None))
     | Some a \<Rightarrow>
         bind filealloc (\<lambda>f1. case f1 of
           None \<Rightarrow> bind (pipealloc_bad dv 0 f0 None) (\<lambda>r. ret (r, f0, None))
         | Some b \<Rightarrow>
             bind kalloc (\<lambda>p.
             if p = 0 then bind (pipealloc_bad dv 0 f0 f1) (\<lambda>r. ret (r, f0, f1))
             else
               seqk (modify (upd_pipe p (\<lambda>q. q\<lparr>readopen := True, writeopen := True, nwrite := 0, nread := 0\<rparr>)))
              (seqk (initlock (Lk_of p) ''pipe'')
              (seqk (modify (upd_file a (pipe_end p False)))
              (seqk (modify (upd_file b (pipe_end p True)))
               (ret (0, f0, f1))))))))"

declare filewrite_loop.simps [simp del]

end
