(* ===== verification/Vm.thy ===== *)
theory Vm
  imports File
begin

text \<open>
  Virtual memory (\<open>vm.c\<close>, with the page-table layout of \<open>mmu.h\<close>): two-level page tables that live in pages of the page
  allocator, the mappings of the kernel, and the address space of a process.

  A page table is read and written as words of the memory \<open>ram\<close>, at the addresses that the code computes.  A loop over
  pages counts with a 32-bit address; it is bounded by the number of pages of the address space, after which the model
  gives \<open>Diverge\<close>.  Segment descriptors are not part of the model.
\<close>

section \<open>Page-table entries\<close>

definition PDX :: "u32 \<Rightarrow> u32" where "PDX va = drop_bit 22 va AND 0x3FF"
definition PTX :: "u32 \<Rightarrow> u32" where "PTX va = drop_bit 12 va AND 0x3FF"

definition PTE_P :: u32 where "PTE_P = 1"
definition PTE_W :: u32 where "PTE_W = 2"
definition PTE_U :: u32 where "PTE_U = 4"

definition PTE_ADDR :: "u32 \<Rightarrow> u32" where "PTE_ADDR pte = pte AND NOT 0xFFF"

definition NPDENTRIES :: nat where "NPDENTRIES = 1024"
definition NPTENTRIES :: u32 where "NPTENTRIES = 1024"

definition present :: "u32 \<Rightarrow> bool" where "present e \<longleftrightarrow> e AND PTE_P \<noteq> 0"

definition load :: "u32 \<Rightarrow> (u32, 'z mstate_scheme) kop" where
  "load a = gets (\<lambda>s. rd32 (ram s) a)"

definition store :: "u32 \<Rightarrow> u32 \<Rightarrow> (unit, 'z mstate_scheme) kop" where
  "store a w = modify (\<lambda>s. s\<lparr>ram := put32 a w (ram s)\<rparr>)"

definition zero_page :: "u32 \<Rightarrow> (unit, 'z mstate_scheme) kop" where
  "zero_page p = modify (\<lambda>s. s\<lparr>ram := memset p 0 PGSIZE (ram s)\<rparr>)"

text \<open>Storing a list of bytes.\<close>

definition poke :: "u32 \<Rightarrow> bytes \<Rightarrow> (u32 \<Rightarrow> byte) \<Rightarrow> u32 \<Rightarrow> byte" where
  "poke a bs m x = (if unat (x - a) < length bs then bs ! unat (x - a) else m x)"

section \<open>Page tables\<close>

definition walkpgdir :: "u32 \<Rightarrow> u32 \<Rightarrow> bool \<Rightarrow> (u32, 'z mstate_scheme) kop" where
  "walkpgdir pd va al =
     bind (load (pd + 4 * PDX va)) (\<lambda>pde.
     if present pde then ret (p2v (PTE_ADDR pde) + 4 * PTX va)
     else if \<not> al then ret 0
     else
       bind kalloc (\<lambda>pgtab.
       if pgtab = 0 then ret 0
       else
         seqk (zero_page pgtab)
        (seqk (store (pd + 4 * PDX va) (v2p pgtab OR PTE_P OR PTE_W OR PTE_U))
         (ret (pgtab + 4 * PTX va)))))"

primrec mappages_loop :: "nat \<Rightarrow> u32 \<Rightarrow> u32 \<Rightarrow> u32 \<Rightarrow> u32 \<Rightarrow> (int, 'z mstate_scheme) kop" where
  "mappages_loop 0 pd a pa perm =
     bind (walkpgdir pd a True) (\<lambda>pte.
     if pte = 0 then ret (- 1)
     else
       bind (load pte) (\<lambda>e.
       if present e then panic ''remap''
       else seqk (store pte (pa OR perm OR PTE_P)) (ret 0)))"
| "mappages_loop (Suc k) pd a pa perm =
     bind (walkpgdir pd a True) (\<lambda>pte.
     if pte = 0 then ret (- 1)
     else
       bind (load pte) (\<lambda>e.
       if present e then panic ''remap''
       else
         seqk (store pte (pa OR perm OR PTE_P))
         (mappages_loop k pd (a + PGSIZE) (pa + PGSIZE) perm)))"

text \<open>The loop ends at the page \<open>last\<close>, which is this number of pages away, modulo the size of the address space.\<close>

definition mappages :: "u32 \<Rightarrow> u32 \<Rightarrow> u32 \<Rightarrow> u32 \<Rightarrow> u32 \<Rightarrow> (int, 'z mstate_scheme) kop" where
  "mappages pd va n pa perm =
     (let a = PGROUNDDOWN va; last = PGROUNDDOWN (va + n - 1)
      in mappages_loop (unat ((last - a) div PGSIZE)) pd a pa perm)"

text \<open>The mappings of the kernel: virtual start, physical start and end, permissions.\<close>

definition kmap :: "u32 \<Rightarrow> (u32 \<times> u32 \<times> u32 \<times> u32) list" where
  "kmap dat =
     [(KERNBASE, 0, EXTMEM, PTE_W),
      (KERNLINK, v2p KERNLINK, v2p dat, 0),
      (dat, v2p dat, PHYSTOP, PTE_W),
      (DEVSPACE, DEVSPACE, 0, PTE_W)]"

primrec map_kernel :: "u32 \<Rightarrow> (u32 \<times> u32 \<times> u32 \<times> u32) list \<Rightarrow> (bool, 'z mstate_scheme) kop" where
  "map_kernel pd [] = ret True"
| "map_kernel pd (k # ks) =
     (case k of (virt, phys_start, phys_end, perm) \<Rightarrow>
       bind (mappages pd virt (phys_end - phys_start) phys_start perm) (\<lambda>r.
       if r < 0 then ret False else map_kernel pd ks))"

definition setupkvm :: "(u32, 'z mstate_scheme) kop" where
  "setupkvm =
     bind kalloc (\<lambda>pd.
     if pd = 0 then ret 0
     else
       seqk (zero_page pd)
      (if p2v PHYSTOP > DEVSPACE then panic ''PHYSTOP too high''
       else
         bind (gets kdata) (\<lambda>dat.
         bind (map_kernel pd (kmap dat)) (\<lambda>ok.
         ret (if ok then pd else 0)))))"

definition kvmalloc :: "(unit, 'z mstate_scheme) kop" where
  "kvmalloc =
     bind setupkvm (\<lambda>p.
     seqk (modify (\<lambda>s. s\<lparr>kpgdir := p\<rparr>))
     switchkvm)"

section \<open>User memory\<close>

definition vm_fuel :: nat where "vm_fuel = 2 ^ 20 + 2"

text \<open>Using the result of a failed allocation is an access to an address outside the memory of the kernel.\<close>

definition inituvm :: "u32 \<Rightarrow> bytes \<Rightarrow> u32 \<Rightarrow> (unit, 'z mstate_scheme) kop" where
  "inituvm pd init n =
     (if n \<ge> PGSIZE then panic ''inituvm: more than a page''
      else
        bind kalloc (\<lambda>m.
        if m = 0 then out_of_bounds
        else
          seqk (zero_page m)
         (seqk (mappages pd 0 PGSIZE (v2p m) (PTE_W OR PTE_U))
          (modify (\<lambda>s. s\<lparr>ram := poke m (take (unat n) init) (ram s)\<rparr>)))))"

primrec loaduvm_loop ::
  "nat \<Rightarrow> (nat \<Rightarrow> 'z mstate_scheme devsw) \<Rightarrow> u32 \<Rightarrow> u32 \<Rightarrow> nat \<Rightarrow> u32 \<Rightarrow> u32 \<Rightarrow> u32 \<Rightarrow> (int, 'z mstate_scheme) kop" where
  "loaduvm_loop 0 dv pd addr ip off n i = (\<lambda>s. Diverge)"
| "loaduvm_loop (Suc fuel) dv pd addr ip off n i =
     (if i < n then
        bind (walkpgdir pd (addr + i) False) (\<lambda>pte.
        if pte = 0 then panic ''loaduvm: address should exist''
        else
          bind (load pte) (\<lambda>e.
          let k = (if n - i < PGSIZE then n - i else PGSIZE) in
          bind (readi dv ip (off + i) k) (\<lambda>(r, bs).
          seqk (modify (\<lambda>s. s\<lparr>ram := poke (p2v (PTE_ADDR e)) bs (ram s)\<rparr>))
         (if word_of_int r \<noteq> k then ret (- 1)
          else loaduvm_loop fuel dv pd addr ip off n (i + PGSIZE)))))
      else ret 0)"

definition loaduvm ::
  "(nat \<Rightarrow> 'z mstate_scheme devsw) \<Rightarrow> u32 \<Rightarrow> u32 \<Rightarrow> nat \<Rightarrow> u32 \<Rightarrow> u32 \<Rightarrow> (int, 'z mstate_scheme) kop" where
  "loaduvm dv pd addr ip off n =
     (if addr mod PGSIZE \<noteq> 0 then panic ''loaduvm: addr must be page aligned''
      else loaduvm_loop vm_fuel dv pd addr ip off n 0)"

primrec deallocuvm_loop :: "nat \<Rightarrow> u32 \<Rightarrow> u32 \<Rightarrow> u32 \<Rightarrow> (unit, 'z mstate_scheme) kop" where
  "deallocuvm_loop 0 pd oldsz a = (\<lambda>s. Diverge)"
| "deallocuvm_loop (Suc fuel) pd oldsz a =
     (if a < oldsz then
        bind (walkpgdir pd a False) (\<lambda>pte.
        if pte = 0 then deallocuvm_loop fuel pd oldsz (a + (NPTENTRIES - 1) * PGSIZE + PGSIZE)
        else
          bind (load pte) (\<lambda>e.
          if present e then
            (if PTE_ADDR e = 0 then panic ''kfree''
             else
               seqk (kfree (p2v (PTE_ADDR e)))
              (seqk (store pte 0)
               (deallocuvm_loop fuel pd oldsz (a + PGSIZE))))
          else deallocuvm_loop fuel pd oldsz (a + PGSIZE)))
      else ret ())"

definition deallocuvm :: "u32 \<Rightarrow> u32 \<Rightarrow> u32 \<Rightarrow> (u32, 'z mstate_scheme) kop" where
  "deallocuvm pd oldsz newsz =
     (if newsz \<ge> oldsz then ret oldsz
      else seqk (deallocuvm_loop vm_fuel pd oldsz (PGROUNDUP newsz)) (ret newsz))"

primrec allocuvm_loop :: "nat \<Rightarrow> u32 \<Rightarrow> u32 \<Rightarrow> u32 \<Rightarrow> u32 \<Rightarrow> (u32, 'z mstate_scheme) kop" where
  "allocuvm_loop 0 pd oldsz newsz a = (\<lambda>s. Diverge)"
| "allocuvm_loop (Suc fuel) pd oldsz newsz a =
     (if a < newsz then
        bind kalloc (\<lambda>m.
        if m = 0 then seqk (deallocuvm pd newsz oldsz) (ret 0)
        else
          seqk (zero_page m)
         (seqk (mappages pd a PGSIZE (v2p m) (PTE_W OR PTE_U))
          (allocuvm_loop fuel pd oldsz newsz (a + PGSIZE))))
      else ret newsz)"

definition allocuvm :: "u32 \<Rightarrow> u32 \<Rightarrow> u32 \<Rightarrow> (u32, 'z mstate_scheme) kop" where
  "allocuvm pd oldsz newsz =
     (if newsz \<ge> KERNBASE then ret 0
      else if newsz < oldsz then ret oldsz
      else allocuvm_loop vm_fuel pd oldsz newsz (PGROUNDUP oldsz))"

definition freevm :: "u32 \<Rightarrow> (unit, 'z mstate_scheme) kop" where
  "freevm pd =
     (if pd = 0 then panic ''freevm: no pgdir''
      else
        seqk (deallocuvm pd KERNBASE 0)
       (seqk (foreach [0..<NPDENTRIES] (\<lambda>i.
          bind (load (pd + 4 * of_nat i)) (\<lambda>pde.
          whenk (present pde) (kfree (p2v (PTE_ADDR pde))))))
        (kfree pd)))"

definition clearpteu :: "u32 \<Rightarrow> u32 \<Rightarrow> (unit, 'z mstate_scheme) kop" where
  "clearpteu pd uva =
     bind (walkpgdir pd uva False) (\<lambda>pte.
     if pte = 0 then panic ''clearpteu''
     else bind (load pte) (\<lambda>e. store pte (e AND NOT PTE_U)))"

primrec copyuvm_loop :: "nat \<Rightarrow> u32 \<Rightarrow> u32 \<Rightarrow> u32 \<Rightarrow> u32 \<Rightarrow> (u32, 'z mstate_scheme) kop" where
  "copyuvm_loop 0 pd d n i = (\<lambda>s. Diverge)"
| "copyuvm_loop (Suc fuel) pd d n i =
     (if i < n then
        bind (walkpgdir pd i False) (\<lambda>pte.
        if pte = 0 then panic ''copyuvm: pte should exist''
        else
          bind (load pte) (\<lambda>e.
          if \<not> present e then panic ''copyuvm: page not present''
          else
            bind kalloc (\<lambda>m.
            if m = 0 then seqk (freevm d) (ret 0)
            else
              seqk (modify (\<lambda>s. s\<lparr>ram := memmove m (p2v (PTE_ADDR e)) PGSIZE (ram s)\<rparr>))
             (bind (mappages d i PGSIZE (v2p m) (PTE_W OR PTE_U)) (\<lambda>r.
              if r < 0 then seqk (freevm d) (ret 0)
              else copyuvm_loop fuel pd d n (i + PGSIZE))))))
      else ret d)"

definition copyuvm :: "u32 \<Rightarrow> u32 \<Rightarrow> (u32, 'z mstate_scheme) kop" where
  "copyuvm pd n =
     bind setupkvm (\<lambda>d.
     if d = 0 then ret 0 else copyuvm_loop vm_fuel pd d n 0)"

text \<open>\<open>uva2ka\<close> does not test for an absent page table: it then reads through a null pointer.\<close>

definition uva2ka :: "u32 \<Rightarrow> u32 \<Rightarrow> (u32, 'z mstate_scheme) kop" where
  "uva2ka pd uva =
     bind (walkpgdir pd uva False) (\<lambda>pte.
     if pte = 0 then out_of_bounds
     else
       bind (load pte) (\<lambda>e.
       if \<not> present e then ret 0
       else if e AND PTE_U = 0 then ret 0
       else ret (p2v (PTE_ADDR e))))"

lemma round_offset: "va - PGROUNDDOWN va = va AND mask 12"
proof -
  have "(va AND mask 12) + (va AND NOT (mask 12)) = (va AND mask 12) OR (va AND NOT (mask 12))"
    by (rule disjunctive_add) (simp add: bit_simps)
  moreover have "(va AND mask 12) OR (va AND NOT (mask 12)) = va" by (rule bit_word_eqI) (auto simp: bit_simps)
  ultimately have "va = (va AND mask 12) + (va AND NOT (mask 12))" by simp
  then have "va - (va AND NOT (mask 12)) = va AND mask 12" by (metis add_diff_cancel_right')
  then show ?thesis by (simp add: PGROUNDDOWN_def PGSIZE_def mask_eq_exp_minus_1)
qed

lemma page_offset: "unat (va - PGROUNDDOWN va) < 4096"
  unfolding round_offset using and_mask_less' [of 12 va] by (simp add: word_less_nat_alt)

lemma page_rest: "0 < unat (PGSIZE - (va - PGROUNDDOWN va))"
  using page_offset [of va] by (subst unat_sub) (simp_all add: PGSIZE_def word_le_nat_alt)

function copyout :: "u32 \<Rightarrow> u32 \<Rightarrow> bytes \<Rightarrow> (int, 'z mstate_scheme) kop" where
  "copyout pd va bs =
     (if bs = [] then ret 0
      else
        let va0 = PGROUNDDOWN va; n = min (unat (PGSIZE - (va - va0))) (length bs) in
        bind (uva2ka pd va0) (\<lambda>pa0.
        if pa0 = 0 then ret (- 1)
        else
          seqk (modify (\<lambda>s. s\<lparr>ram := poke (pa0 + (va - va0)) (take n bs) (ram s)\<rparr>))
          (copyout pd (va0 + PGSIZE) (drop n bs))))"
  by pat_completeness auto
termination
  by (relation "measure (\<lambda>(pd, va, bs). length bs)") (use page_rest in auto)

declare copyout.simps [simp del]

end
