(* ===== verification/Proclife.thy ===== *)
theory Proclife
  imports Vm
begin

text \<open>
  The life of a process (\<open>proc.c\<close>): allocating a process, the first process, growing the memory of a process, \<open>fork\<close>,
  \<open>exit\<close> and \<open>wait\<close>.  Scheduling, sleeping and the second half of \<open>exit\<close> are in the theory \<open>Proc\<close>.

  The trap frame is a field of the process rather than bytes of its kernel stack, and the saved context of the kernel
  thread, which only the context switch reads, is left out.
\<close>

section \<open>Operations\<close>

definition NOFILE :: nat where "NOFILE = 16"

definition allocproc :: "(nat option, 'z ostate_scheme) kop" where
  "allocproc =
     bind allocproc_claim (\<lambda>r. case r of
       None \<Rightarrow> ret None
     | Some p \<Rightarrow>
         bind kalloc (\<lambda>k.
         seqk (modify (upd_proc p (\<lambda>q. q\<lparr>kstack := k\<rparr>)))
        (if k = 0 then seqk (modify (upd_proc p (\<lambda>q. q\<lparr>pstate := UNUSED\<rparr>))) (ret None)
         else ret (Some p))))"

text \<open>\<open>safestrcpy\<close> into an array of 16 bytes.\<close>

definition copy_name :: "bytes \<Rightarrow> bytes \<Rightarrow> bytes" where
  "copy_name old src =
     (let k = length (takeWhile (\<lambda>b. b \<noteq> 0) (take 15 src)) in take k src @ [0] @ drop (k + 1) old)"

definition initcode_name :: bytes where
  "initcode_name = [0x69, 0x6E, 0x69, 0x74, 0x63, 0x6F, 0x64, 0x65]"

definition first_frame :: trapframe where
  "first_frame = \<lparr>tf_edi = 0, tf_esi = 0, tf_ebp = 0, tf_ebx = 0, tf_edx = 0, tf_ecx = 0, tf_eax = 0,
     tf_gs = 0, tf_fs = 0, tf_es = 0x2B, tf_ds = 0x2B, tf_trapno = 0, tf_err = 0, tf_eip = 0, tf_cs = 0x23,
     tf_eflags = 0x200, tf_esp = PGSIZE, tf_ss = 0x2B\<rparr>"

text \<open>The code of the first process is linked into the kernel image; it is the parameter \<open>init\<close>.\<close>

definition userinit :: "(nat \<Rightarrow> 'z ostate_scheme devsw) \<Rightarrow> bytes \<Rightarrow> (unit, 'z ostate_scheme) kop" where
  "userinit dv init =
     bind allocproc (\<lambda>r.
     seqk (modify (\<lambda>s. s\<lparr>initproc := r\<rparr>))
    (deref r (\<lambda>p.
     bind setupkvm (\<lambda>pd.
     seqk (modify (upd_proc p (\<lambda>q. q\<lparr>pgdir := pd\<rparr>)))
    (if pd = 0 then panic ''userinit: out of memory?''
     else
       seqk (inituvm pd init (of_nat (length init)))
      (seqk (modify (upd_proc p (\<lambda>q. q\<lparr>sz := PGSIZE, tf := first_frame, pname := copy_name (pname q) (initcode_name @ [0])\<rparr>)))
      (bind (namei dv [slash]) (\<lambda>c.
       seqk (modify (upd_proc p (\<lambda>q. q\<lparr>cwd := c\<rparr>)))
       (modify (upd_proc p (\<lambda>q. q\<lparr>pstate := RUNNABLE\<rparr>)))))))))))"

definition growproc :: "int \<Rightarrow> (int, 'z ostate_scheme) kop" where
  "growproc n = with_proc (\<lambda>p.
     bind (gets (\<lambda>s. ptable s p)) (\<lambda>q.
     bind (if n > 0 then allocuvm (pgdir q) (sz q) (sz q + word_of_int n)
           else if n < 0 then deallocuvm (pgdir q) (sz q) (sz q + word_of_int n)
           else ret (sz q)) (\<lambda>z.
     if n \<noteq> 0 \<and> z = 0 then ret (- 1)
     else
       seqk (modify (upd_proc p (\<lambda>q. q\<lparr>sz := z\<rparr>)))
      (seqk (switchuvm p)
       (ret 0)))))"

text \<open>The loop of \<open>fork\<close> over the open files of the parent \<open>p\<close>.\<close>

definition dup_files :: "nat \<Rightarrow> nat \<Rightarrow> (unit, 'z ostate_scheme) kop" where
  "dup_files p c = foreach [0..<NOFILE] (\<lambda>i.
     bind (gets (\<lambda>s. ofile (ptable s p) i)) (\<lambda>r. case r of
       None \<Rightarrow> ret ()
     | Some f \<Rightarrow> bind (filedup f) (\<lambda>g. modify (upd_proc c (\<lambda>q. q\<lparr>ofile := (ofile q)(i := Some g)\<rparr>)))))"

definition fork :: "(int, 'z ostate_scheme) kop" where
  "fork =
     bind allocproc (\<lambda>r. case r of
       None \<Rightarrow> ret (- 1)
     | Some c \<Rightarrow> with_proc (\<lambda>p.
         bind (gets (\<lambda>s. ptable s p)) (\<lambda>q.
         bind (copyuvm (pgdir q) (sz q)) (\<lambda>d.
         seqk (modify (upd_proc c (\<lambda>n. n\<lparr>pgdir := d\<rparr>)))
        (if d = 0 then
           bind (gets (\<lambda>s. kstack (ptable s c))) (\<lambda>k.
           seqk (kfree k)
          (seqk (modify (upd_proc c (\<lambda>n. n\<lparr>kstack := 0, pstate := UNUSED\<rparr>)))
           (ret (- 1))))
         else
           seqk (modify (upd_proc c (\<lambda>n. n\<lparr>sz := sz q, parent := Some p, tf := (tf q)\<lparr>tf_eax := 0\<rparr>\<rparr>)))
          (seqk (dup_files p c)
          (bind (gets (\<lambda>s. cwd (ptable s p))) (\<lambda>w.
           bind (deref w idup) (\<lambda>w'.
           seqk (modify (upd_proc c (\<lambda>n. n\<lparr>cwd := Some w'\<rparr>)))
          (bind (gets (\<lambda>s. pid (ptable s c))) (\<lambda>k.
           seqk (modify (upd_proc c (\<lambda>n. n\<lparr>pstate := RUNNABLE\<rparr>)))
          (seqk (modify (\<lambda>s. upd_proc c (\<lambda>n. n\<lparr>pname := copy_name (pname n) (pname (ptable s p))\<rparr>) s))
           (ret k)))))))))))))"

definition close_files :: "(nat \<Rightarrow> 'z ostate_scheme devsw) \<Rightarrow> nat \<Rightarrow> (unit, 'z ostate_scheme) kop" where
  "close_files dv p = foreach [0..<NOFILE] (\<lambda>fd.
     bind (gets (\<lambda>s. ofile (ptable s p) fd)) (\<lambda>r. case r of
       None \<Rightarrow> ret ()
     | Some f \<Rightarrow> seqk (fileclose dv f) (modify (upd_proc p (\<lambda>q. q\<lparr>ofile := (ofile q)(fd := None)\<rparr>)))))"

definition exit :: "(nat \<Rightarrow> 'z ostate_scheme devsw) \<Rightarrow> (unit, 'z ostate_scheme) kop" where
  "exit dv = with_proc (\<lambda>p.
     bind (gets initproc) (\<lambda>ip.
     if ip = Some p then panic ''init exiting''
     else
       seqk (close_files dv p)
      (bind (gets (\<lambda>s. cwd (ptable s p))) (\<lambda>w.
       seqk (deref w (iput dv))
      (seqk (modify (upd_proc p (\<lambda>q. q\<lparr>cwd := None\<rparr>)))
       exit_ptable)))))"

text \<open>The scan of \<open>wait\<close> over the process table: a zombie child that was reaped, or whether there are children.\<close>

definition reap :: "nat \<Rightarrow> (int, 'z ostate_scheme) kop" where
  "reap c =
     bind (gets (\<lambda>s. ptable s c)) (\<lambda>q.
     seqk (kfree (kstack q))
    (seqk (modify (upd_proc c (\<lambda>n. n\<lparr>kstack := 0\<rparr>)))
    (seqk (freevm (pgdir q))
    (seqk (modify (upd_proc c reaped))
     (ret (pid q))))))"

primrec wait_scan :: "nat \<Rightarrow> nat list \<Rightarrow> bool \<Rightarrow> (int option \<times> bool, 'z ostate_scheme) kop" where
  "wait_scan p [] havekids = ret (None, havekids)"
| "wait_scan p (i # is) havekids =
     bind (gets (\<lambda>s. ptable s i)) (\<lambda>q.
     if parent q \<noteq> Some p then wait_scan p is havekids
     else if pstate q = ZOMBIE then bind (reap i) (\<lambda>r. ret (Some r, True))
     else wait_scan p is True)"

definition wait_loop :: "(int, 'z ostate_scheme) kop" where
  "wait_loop = with_proc (\<lambda>p.
     bind (wait_scan p [0..<NPROC] False) (\<lambda>(r, havekids). case r of
       Some k \<Rightarrow> seqk (release Lk_ptable) (ret k)
     | None \<Rightarrow>
         bind (gets (\<lambda>s. killed (ptable s p))) (\<lambda>gone.
         if \<not> havekids \<or> gone then seqk (release Lk_ptable) (ret (- 1))
         else seqk (sleep (Ch_proc p) Lk_ptable) (\<lambda>s. Diverge))))"

definition wait :: "(int, 'z ostate_scheme) kop" where
  "wait = seqk (acquire Lk_ptable) wait_loop"

definition wait_resume :: "bool \<Rightarrow> (int, 'z ostate_scheme) kop" where
  "wait_resume ie = seqk (sleep_resume ie Lk_ptable) wait_loop"

text \<open>
  The first code a new process runs; the first process of all recovers the log.  The static variable \<open>first\<close> is the
  argument and the result.
\<close>

definition forkret :: "bool \<Rightarrow> (bool, 'z ostate_scheme) kop" where
  "forkret first =
     seqk (release Lk_ptable)
     (if first then seqk initlog (ret False) else ret first)"

end
