(* ===== verification/Syscall.thy ===== *)
theory Syscall
  imports Proclife
begin

text \<open>
  Access to the memory of the current process, the arguments of a system call (\<open>syscall.c\<close>) and the system calls on
  processes (\<open>sysproc.c\<close>).

  The kernel reaches the memory of the process through the page table in the register \<open>cr3\<close>, as the processor does; an
  access that the page table does not allow is a fault in the kernel, which ends in a panic of \<open>trap\<close>.  A string or a
  buffer argument is fetched as a list of bytes when the pointer is checked, and results are stored into the buffer of
  the process after the operation.
\<close>

section \<open>Memory of the current process\<close>

text \<open>The translation by the processor, for reading or (\<open>w\<close>) for writing, in the mode of the kernel.\<close>

definition hw_entry_ok :: "bool \<Rightarrow> u32 \<Rightarrow> bool" where
  "hw_entry_ok w e \<longleftrightarrow> present e \<and> (w \<longrightarrow> e AND PTE_W \<noteq> 0)"

definition hw_walk :: "(u32 \<Rightarrow> byte) \<Rightarrow> u32 \<Rightarrow> bool \<Rightarrow> u32 \<Rightarrow> u32 option" where
  "hw_walk m pd w va =
     (let pde = rd32 m (pd + 4 * PDX va) in
      if \<not> hw_entry_ok w pde then None
      else
        let pte = rd32 m (p2v (PTE_ADDR pde) + 4 * PTX va) in
        if \<not> hw_entry_ok w pte then None
        else Some (p2v (PTE_ADDR pte) + (va - PGROUNDDOWN va)))"

definition uread :: "u32 \<Rightarrow> (byte, 'z ostate_scheme) kop" where
  "uread va =
     bind (gets (\<lambda>s. hw_walk (ram s) (p2v (cr3 (mycpu s))) False va)) (\<lambda>r. case r of
       None \<Rightarrow> panic ''trap''
     | Some a \<Rightarrow> gets (\<lambda>s. ram s a))"

definition uwrite :: "u32 \<Rightarrow> byte \<Rightarrow> (unit, 'z ostate_scheme) kop" where
  "uwrite va b =
     bind (gets (\<lambda>s. hw_walk (ram s) (p2v (cr3 (mycpu s))) True va)) (\<lambda>r. case r of
       None \<Rightarrow> panic ''trap''
     | Some a \<Rightarrow> modify (\<lambda>s. s\<lparr>ram := (ram s)(a := b)\<rparr>))"

primrec uread_bytes :: "nat \<Rightarrow> u32 \<Rightarrow> (bytes, 'z ostate_scheme) kop" where
  "uread_bytes 0 va = ret []"
| "uread_bytes (Suc n) va = bind (uread va) (\<lambda>b. bind (uread_bytes n (va + 1)) (\<lambda>bs. ret (b # bs)))"

primrec uwrite_bytes :: "bytes \<Rightarrow> u32 \<Rightarrow> (unit, 'z ostate_scheme) kop" where
  "uwrite_bytes [] va = ret ()"
| "uwrite_bytes (b # bs) va = seqk (uwrite va b) (uwrite_bytes bs (va + 1))"

section \<open>Arguments\<close>

definition cur :: "(proc \<Rightarrow> 'a) \<Rightarrow> ('a, 'z kstate_scheme) kop" where
  "cur f = with_proc (\<lambda>p. gets (\<lambda>s. f (ptable s p)))"

definition set_cur :: "(proc \<Rightarrow> proc) \<Rightarrow> (unit, 'z kstate_scheme) kop" where
  "set_cur f = with_proc (\<lambda>p. modify (upd_proc p f))"

definition fetchint :: "u32 \<Rightarrow> (u32 option, 'z ostate_scheme) kop" where
  "fetchint addr =
     bind (cur sz) (\<lambda>n.
     if addr \<ge> n \<or> addr + 4 > n then ret None
     else bind (uread_bytes 4 addr) (\<lambda>bs. ret (Some (de32 bs))))"

text \<open>The scan of \<open>fetchstr\<close>, with the number of bytes that are left before the end of the process.\<close>

primrec fetchstr_loop :: "nat \<Rightarrow> u32 \<Rightarrow> (bytes option, 'z ostate_scheme) kop" where
  "fetchstr_loop 0 a = ret None"
| "fetchstr_loop (Suc n) a =
     bind (uread a) (\<lambda>b.
     if b = 0 then ret (Some [])
     else bind (fetchstr_loop n (a + 1)) (\<lambda>r. ret (map_option (\<lambda>bs. b # bs) r)))"

definition fetchstr :: "u32 \<Rightarrow> (bytes option, 'z ostate_scheme) kop" where
  "fetchstr addr =
     bind (cur sz) (\<lambda>n.
     if addr \<ge> n then ret None
     else fetchstr_loop (unat n - unat addr) addr)"

definition argint :: "nat \<Rightarrow> (u32 option, 'z ostate_scheme) kop" where
  "argint n = bind (cur (\<lambda>p. tf_esp (tf p))) (\<lambda>esp. fetchint (esp + 4 + 4 * of_nat n))"

definition argptr :: "nat \<Rightarrow> int \<Rightarrow> (u32 option, 'z ostate_scheme) kop" where
  "argptr n len =
     bind (argint n) (\<lambda>r. case r of
       None \<Rightarrow> ret None
     | Some i \<Rightarrow>
         bind (cur sz) (\<lambda>z.
         if i \<ge> z \<or> i + word_of_int len > z then ret None else ret (Some i)))"

definition argstr :: "nat \<Rightarrow> (bytes option, 'z ostate_scheme) kop" where
  "argstr n =
     bind (argint n) (\<lambda>r. case r of
       None \<Rightarrow> ret None
     | Some addr \<Rightarrow> fetchstr addr)"

section \<open>System calls on processes\<close>

definition sys_fork :: "(int, 'z ostate_scheme) kop" where
  "sys_fork = fork"

definition sys_exit :: "(nat \<Rightarrow> 'z ostate_scheme devsw) \<Rightarrow> (int, 'z ostate_scheme) kop" where
  "sys_exit dv = seqk (exit dv) (ret 0)"

definition sys_wait :: "(int, 'z ostate_scheme) kop" where
  "sys_wait = wait"

definition sys_kill :: "(int, 'z ostate_scheme) kop" where
  "sys_kill =
     bind (argint 0) (\<lambda>r. case r of
       None \<Rightarrow> ret (- 1)
     | Some n \<Rightarrow> kill (sint n))"

definition sys_getpid :: "(int, 'z ostate_scheme) kop" where
  "sys_getpid = cur pid"

definition sys_sbrk :: "(int, 'z ostate_scheme) kop" where
  "sys_sbrk =
     bind (argint 0) (\<lambda>r. case r of
       None \<Rightarrow> ret (- 1)
     | Some n \<Rightarrow>
         bind (cur sz) (\<lambda>addr.
         bind (growproc (sint n)) (\<lambda>g.
         ret (if g < 0 then - 1 else sint addr))))"

definition sys_sleep_loop :: "u32 \<Rightarrow> u32 \<Rightarrow> (int, 'z ostate_scheme) kop" where
  "sys_sleep_loop ticks0 n =
     bind (gets ticks) (\<lambda>t.
     if t - ticks0 < n then
       bind killed_now (\<lambda>gone.
       if gone then seqk (release Lk_tick) (ret (- 1))
       else seqk (sleep Ch_ticks Lk_tick) (\<lambda>s. Diverge))
     else seqk (release Lk_tick) (ret 0))"

definition sys_sleep :: "(int, 'z ostate_scheme) kop" where
  "sys_sleep =
     bind (argint 0) (\<lambda>r. case r of
       None \<Rightarrow> ret (- 1)
     | Some n \<Rightarrow>
         seqk (acquire Lk_tick)
        (bind (gets ticks) (\<lambda>ticks0. sys_sleep_loop ticks0 n)))"

definition sys_sleep_resume :: "bool \<Rightarrow> u32 \<Rightarrow> u32 \<Rightarrow> (int, 'z ostate_scheme) kop" where
  "sys_sleep_resume ie ticks0 n = seqk (sleep_resume ie Lk_tick) (sys_sleep_loop ticks0 n)"

definition sys_uptime :: "(int, 'z ostate_scheme) kop" where
  "sys_uptime =
     seqk (acquire Lk_tick)
    (bind (gets ticks) (\<lambda>xticks.
     seqk (release Lk_tick)
     (ret (sint xticks))))"

end
