(* ===== verification/Sysfile.thy ===== *)
theory Sysfile
  imports Syscall
begin

text \<open>
  The system calls on files (\<open>sysfile.c\<close>): file descriptors, reading and writing, links, directories, opening and
  creating files, replicas, and pipes.  Output on the console is not part of the state.
\<close>

section \<open>File descriptors\<close>

definition argfd :: "nat \<Rightarrow> ((nat \<times> nat) option, 'z ostate_scheme) kop" where
  "argfd n =
     bind (argint n) (\<lambda>r. case r of
       None \<Rightarrow> ret None
     | Some w \<Rightarrow>
         (let fd = sint w in
          if fd < 0 \<or> fd \<ge> int NOFILE then ret None
          else bind (cur (\<lambda>p. ofile p (nat fd))) (\<lambda>f. ret (map_option (\<lambda>f. (nat fd, f)) f))))"

definition free_fd :: "proc \<Rightarrow> nat option" where
  "free_fd p = List.find (\<lambda>fd. ofile p fd = None) [0..<NOFILE]"

definition fdalloc :: "nat \<Rightarrow> (int, 'z ostate_scheme) kop" where
  "fdalloc f =
     bind (cur free_fd) (\<lambda>r. case r of
       None \<Rightarrow> ret (- 1)
     | Some fd \<Rightarrow> seqk (set_cur (\<lambda>p. p\<lparr>ofile := (ofile p)(fd := Some f)\<rparr>)) (ret (int fd)))"

definition sys_dup :: "(int, 'z ostate_scheme) kop" where
  "sys_dup =
     bind (argfd 0) (\<lambda>r. case r of
       None \<Rightarrow> ret (- 1)
     | Some (_, f) \<Rightarrow>
         bind (fdalloc f) (\<lambda>fd.
         if fd < 0 then ret (- 1)
         else seqk (filedup f) (ret fd)))"

text \<open>The arguments of \<open>read\<close> and \<open>write\<close>: the file, the address and the number of bytes.\<close>

definition arg_buf :: "((nat \<times> u32 \<times> int) option, 'z ostate_scheme) kop" where
  "arg_buf =
     bind (argfd 0) (\<lambda>r. case r of
       None \<Rightarrow> ret None
     | Some (_, f) \<Rightarrow>
         bind (argint 2) (\<lambda>r. case r of
           None \<Rightarrow> ret None
         | Some n \<Rightarrow>
             bind (argptr 1 (sint n)) (\<lambda>r. ret (map_option (\<lambda>p. (f, p, sint n)) r))))"

definition sys_read :: "(nat \<Rightarrow> 'z ostate_scheme devsw) \<Rightarrow> (int, 'z ostate_scheme) kop" where
  "sys_read dv =
     bind arg_buf (\<lambda>r. case r of
       None \<Rightarrow> ret (- 1)
     | Some (f, p, n) \<Rightarrow>
         bind (fileread dv f n) (\<lambda>(r, bs).
         seqk (uwrite_bytes bs p)
         (ret r)))"

definition sys_write :: "(nat \<Rightarrow> 'z ostate_scheme devsw) \<Rightarrow> (int, 'z ostate_scheme) kop" where
  "sys_write dv =
     bind arg_buf (\<lambda>r. case r of
       None \<Rightarrow> ret (- 1)
     | Some (f, p, n) \<Rightarrow>
         bind (uread_bytes (nat n) p) (\<lambda>bs.
         filewrite dv f bs n))"

definition sys_close :: "(nat \<Rightarrow> 'z ostate_scheme devsw) \<Rightarrow> (int, 'z ostate_scheme) kop" where
  "sys_close dv =
     bind (argfd 0) (\<lambda>r. case r of
       None \<Rightarrow> ret (- 1)
     | Some (fd, f) \<Rightarrow>
         seqk (set_cur (\<lambda>p. p\<lparr>ofile := (ofile p)(fd := None)\<rparr>))
        (seqk (fileclose dv f)
         (ret 0)))"

text \<open>The fields of \<open>struct stat\<close>, each at its offset; the bytes between them are not written.\<close>

definition store_stat :: "u32 \<Rightarrow> stat \<Rightarrow> (unit, 'z ostate_scheme) kop" where
  "store_stat p st =
     seqk (uwrite_bytes (le16 (st_type st)) p)
    (seqk (uwrite_bytes (le32 (st_dev st)) (p + 4))
    (seqk (uwrite_bytes (le32 (st_ino st)) (p + 8))
    (seqk (uwrite_bytes (le16 (st_nlink st)) (p + 12))
    (seqk (uwrite_bytes (le32 (st_size st)) (p + 16))
    (seqk (uwrite_bytes (le16 (st_child1 st)) (p + 20))
    (seqk (uwrite_bytes (le16 (st_child2 st)) (p + 22))
     (uwrite_bytes (le32 (st_checksum st)) (p + 24))))))))"

definition sys_fstat :: "(nat \<Rightarrow> 'z ostate_scheme devsw) \<Rightarrow> (int, 'z ostate_scheme) kop" where
  "sys_fstat dv =
     bind (argfd 0) (\<lambda>r. case r of
       None \<Rightarrow> ret (- 1)
     | Some (_, f) \<Rightarrow>
         bind (argptr 1 28) (\<lambda>r. case r of
           None \<Rightarrow> ret (- 1)
         | Some p \<Rightarrow>
             bind (filestat dv f) (\<lambda>(r, st).
             seqk (case st of None \<Rightarrow> ret () | Some st \<Rightarrow> store_stat p st)
             (ret r))))"

section \<open>Links\<close>

definition sys_link_bad :: "(nat \<Rightarrow> 'z ostate_scheme devsw) \<Rightarrow> nat \<Rightarrow> (int, 'z ostate_scheme) kop" where
  "sys_link_bad dv ip =
     seqk (ilock dv (Some ip))
    (seqk (iset ip (\<lambda>i. i\<lparr>nlink := nlink i - 1\<rparr>))
    (seqk (iupdate dv ip)
    (seqk (iunlockput dv ip)
    (seqk commit_trans
     (ret (- 1))))))"

definition sys_link_dir :: "(nat \<Rightarrow> 'z ostate_scheme devsw) \<Rightarrow> nat \<Rightarrow> nat \<Rightarrow> bytes \<Rightarrow> (int, 'z ostate_scheme) kop" where
  "sys_link_dir dv ip dp name =
     bind (ilock dv (Some dp)) (\<lambda>r.
     if r \<noteq> 0 then panic ''sys_link''
     else
       bind (gets (\<lambda>s. (idev (icache s dp) \<noteq> idev (icache s ip), inum (icache s ip)))) (\<lambda>(other, n).
       bind (if other then ret (- 1) else dirlink dv dp name n) (\<lambda>r.
       if r < 0 then seqk (iunlockput dv dp) (sys_link_bad dv ip)
       else
         seqk (iunlockput dv dp)
        (seqk (iput dv ip)
        (seqk commit_trans
         (ret 0))))))"

definition sys_link :: "(nat \<Rightarrow> 'z ostate_scheme devsw) \<Rightarrow> (int, 'z ostate_scheme) kop" where
  "sys_link dv =
     bind (argstr 0) (\<lambda>r. case r of
       None \<Rightarrow> ret (- 1)
     | Some old \<Rightarrow>
         bind (argstr 1) (\<lambda>r. case r of
           None \<Rightarrow> ret (- 1)
         | Some new \<Rightarrow>
             bind (namei_trans dv old) (\<lambda>r. case r of
               None \<Rightarrow> ret (- 1)
             | Some ip \<Rightarrow>
                 seqk (ilock_trans dv (Some ip))
                (seqk begin_trans
                (bind (igets ip itype) (\<lambda>ty.
                 if ty = T_DIR then
                   seqk (iunlockput dv ip)
                  (seqk commit_trans
                   (ret (- 1)))
                 else
                   seqk (iset ip (\<lambda>i. i\<lparr>nlink := nlink i + 1\<rparr>))
                  (seqk (iupdate dv ip)
                  (seqk (iunlock (Some ip))
                  (bind (nameiparent dv new) (\<lambda>(dp, name). case dp of
                     None \<Rightarrow> sys_link_bad dv ip
                   | Some dp \<Rightarrow> sys_link_dir dv ip dp name))))))))))"

primrec isdirempty_loop :: "(nat \<Rightarrow> 'z fstate_scheme devsw) \<Rightarrow> nat \<Rightarrow> nat list \<Rightarrow> (bool, 'z fstate_scheme) kop" where
  "isdirempty_loop dv dp [] = ret True"
| "isdirempty_loop dv dp (off # offs) =
     bind (readi dv dp (of_nat off) 16) (\<lambda>(r, xs).
     if r \<noteq> 16 then panic ''isdirempty: readi''
     else if de_inum (de_dirent xs) \<noteq> 0 then ret False
     else isdirempty_loop dv dp offs)"

definition isdirempty :: "(nat \<Rightarrow> 'z fstate_scheme devsw) \<Rightarrow> nat \<Rightarrow> (bool, 'z fstate_scheme) kop" where
  "isdirempty dv dp =
     bind (igets dp isize) (\<lambda>len.
     isdirempty_loop dv dp (filter (\<lambda>off. off \<ge> 2 * 16) (dir_offs len)))"

definition dot :: bytes where "dot = [46]"
definition dotdot :: bytes where "dotdot = [46, 46]"

definition sys_unlink_bad :: "(nat \<Rightarrow> 'z ostate_scheme devsw) \<Rightarrow> nat \<Rightarrow> (int, 'z ostate_scheme) kop" where
  "sys_unlink_bad dv dp =
     seqk (iunlockput dv dp)
    (seqk commit_trans
     (ret (- 1)))"

definition sys_unlink_entry :: "(nat \<Rightarrow> 'z ostate_scheme devsw) \<Rightarrow> nat \<Rightarrow> nat \<Rightarrow> nat \<Rightarrow> (int, 'z ostate_scheme) kop" where
  "sys_unlink_entry dv dp ip off =
     bind (ilock_ext dv (Some ip) False) (\<lambda>r.
     if r < 0 then panic ''sys_unlink''
     else
       bind (igets ip (\<lambda>i. (sint (nlink i), itype i))) (\<lambda>(k, ty).
       if k < 1 then panic ''unlink: nlink < 1''
       else
         bind (if ty = T_DIR then isdirempty dv ip else ret True) (\<lambda>ok.
         if \<not> ok then seqk (iunlockput dv ip) (sys_unlink_bad dv dp)
         else
           bind (writei dv dp (replicate 16 0) (of_nat off) 16) (\<lambda>r.
           if r \<noteq> 16 then panic ''unlink: writei''
           else
             seqk (whenk (ty = T_DIR)
                (seqk (iset dp (\<lambda>i. i\<lparr>nlink := nlink i - 1\<rparr>))
                 (iupdate dv dp)))
            (seqk (iunlockput dv dp)
            (seqk (iset ip (\<lambda>i. i\<lparr>nlink := nlink i - 1\<rparr>))
            (seqk (iupdate dv ip)
            (seqk (iunlockput dv ip)
            (seqk commit_trans
             (ret 0))))))))))"

definition sys_unlink :: "(nat \<Rightarrow> 'z ostate_scheme devsw) \<Rightarrow> (int, 'z ostate_scheme) kop" where
  "sys_unlink dv =
     bind (argstr 0) (\<lambda>r. case r of
       None \<Rightarrow> ret (- 1)
     | Some path \<Rightarrow>
         bind (nameiparent_trans dv path) (\<lambda>(dp, name). case dp of
           None \<Rightarrow> ret (- 1)
         | Some dp \<Rightarrow>
             seqk begin_trans
            (bind (ilock dv (Some dp)) (\<lambda>r.
             if r < 0 then panic ''sys_unlink''
             else if namecmp name dot = 0 \<or> namecmp name dotdot = 0 then sys_unlink_bad dv dp
             else
               bind (dirlookup dv dp name) (\<lambda>e. case e of
                 None \<Rightarrow> sys_unlink_bad dv dp
               | Some (ip, off) \<Rightarrow> sys_unlink_entry dv dp ip off)))))"

section \<open>Creating files\<close>

definition DITTO_LOWER :: int where "DITTO_LOWER = 3"
definition DITTO_HIGHER :: int where "DITTO_HIGHER = 6"

text \<open>A new directory near the root gets one or two replicas.\<close>

definition create_dittos :: "nat \<Rightarrow> nat \<Rightarrow> u16 \<Rightarrow> int \<Rightarrow> (unit, 'z ostate_scheme) kop" where
  "create_dittos dp ip ty dtr =
     whenk (ty = T_DIR \<and> dtr < DITTO_HIGHER)
       (bind (igets dp idev) (\<lambda>dev.
        if dtr < DITTO_LOWER then
          bind (ialloc dev T_DITTO) (\<lambda>c1.
          bind (ialloc dev T_DITTO) (\<lambda>c2.
          bind (gets (\<lambda>s. (inum (icache s c1), inum (icache s c2)))) (\<lambda>(n1, n2).
          iset ip (\<lambda>i. i\<lparr>child1 := ucast n1, child2 := ucast n2\<rparr>))))
        else
          whenk (dtr < DITTO_HIGHER)
            (bind (ialloc dev T_DITTO) (\<lambda>c1.
             bind (igets c1 inum) (\<lambda>n1.
             iset ip (\<lambda>i. i\<lparr>child1 := ucast n1\<rparr>))))))"

definition create_new ::
  "(nat \<Rightarrow> 'z ostate_scheme devsw) \<Rightarrow> nat \<Rightarrow> bytes \<Rightarrow> u16 \<Rightarrow> u16 \<Rightarrow> u16 \<Rightarrow> int \<Rightarrow> (nat option, 'z ostate_scheme) kop" where
  "create_new dv dp name ty maj mnr dtr =
     bind (igets dp idev) (\<lambda>dev.
     bind (ialloc dev ty) (\<lambda>ip.
     seqk (ilock dv (Some ip))
    (seqk (iset ip (\<lambda>i. i\<lparr>major := maj, minor := mnr, nlink := 1\<rparr>))
    (seqk (create_dittos dp ip ty dtr)
    (seqk (iupdate dv ip)
    (seqk (whenk (ty = T_DIR)
       (seqk (iset dp (\<lambda>i. i\<lparr>nlink := nlink i + 1\<rparr>))
       (seqk (iupdate dv dp)
       (bind (gets (\<lambda>s. (inum (icache s ip), inum (icache s dp)))) (\<lambda>(n, up).
        bind (dirlink dv ip dot n) (\<lambda>r.
        bind (if r < 0 then ret r else dirlink dv ip dotdot up) (\<lambda>r.
        if r < 0 then panic ''create dots'' else ret ())))))))
    (bind (igets ip inum) (\<lambda>n.
     bind (dirlink dv dp name n) (\<lambda>r.
     if r < 0 then panic ''create: dirlink''
     else
       seqk (iunlockput dv dp)
       (ret (Some ip)))))))))))"

definition create ::
  "(nat \<Rightarrow> 'z ostate_scheme devsw) \<Rightarrow> bytes \<Rightarrow> u16 \<Rightarrow> u16 \<Rightarrow> u16 \<Rightarrow> (nat option, 'z ostate_scheme) kop" where
  "create dv path ty maj mnr =
     bind (distance_to_root dv path) (\<lambda>dtr.
     bind (nameiparent_trans dv path) (\<lambda>(dp, name). case dp of
       None \<Rightarrow> ret None
     | Some dp \<Rightarrow>
         seqk (ilock dv (Some dp))
        (bind (dirlookup dv dp name) (\<lambda>e. case e of
           Some (ip, _) \<Rightarrow>
             seqk (iunlockput dv dp)
            (seqk (ilock dv (Some ip))
            (bind (igets ip itype) (\<lambda>t.
             if ty = T_FILE \<and> t = T_FILE then ret (Some ip)
             else seqk (iunlockput dv ip) (ret None))))
         | None \<Rightarrow> create_new dv dp name ty maj mnr dtr))))"

section \<open>Replicas\<close>

definition copy_chunks :: "int \<Rightarrow> (int \<times> int) list" where
  "copy_chunks n = map (\<lambda>k. (int k * write_max, min (n - int k * write_max) write_max))
     [0..<nat ((n + write_max - 1) div write_max)]"

text \<open>One replica of \<open>ip\<close> receives a part of the content, in a transaction of its own.\<close>

definition copy_to_child ::
  "(nat \<Rightarrow> 'z ostate_scheme devsw) \<Rightarrow> nat \<Rightarrow> (inode \<Rightarrow> u16) \<Rightarrow> u32 \<Rightarrow> u32 \<Rightarrow> (unit, 'z ostate_scheme) kop" where
  "copy_to_child dv ip ch off n1 =
     seqk begin_trans
    (seqk (bind (igets ip (\<lambda>i. (idev i, ch i))) (\<lambda>(dev, c).
       whenk (c \<noteq> 0)
         (bind (iget dev (scast c)) (\<lambda>ic.
          seqk (ilock_ext dv (Some ic) False)
         (seqk (iduplicate dv ip ic off n1)
          (iunlock (Some ic)))))))
     commit_trans)"

definition ipropagate :: "(nat \<Rightarrow> 'z ostate_scheme devsw) \<Rightarrow> nat \<Rightarrow> (unit, 'z ostate_scheme) kop" where
  "ipropagate dv ip =
     bind (igets ip (\<lambda>i. sint (isize i))) (\<lambda>n.
     foreach (copy_chunks n) (\<lambda>(i, n1).
       seqk (copy_to_child dv ip child1 (word_of_int i) (word_of_int n1))
       (copy_to_child dv ip child2 (word_of_int i) (word_of_int n1))))"

text \<open>A replica is added when there is none yet; \<open>False\<close> when there is one, and \<open>duplicate\<close> returns at once.\<close>

definition add_child ::
  "nat \<Rightarrow> (inode \<Rightarrow> u16) \<Rightarrow> (u16 \<Rightarrow> inode \<Rightarrow> inode) \<Rightarrow> (bool, 'z ostate_scheme) kop" where
  "add_child ip ch set_ch =
     bind (igets ip (\<lambda>i. (idev i, ch i))) (\<lambda>(dev, c).
     if c \<noteq> 0 then ret False
     else
       bind (ialloc dev T_DITTO) (\<lambda>k.
       bind (igets k inum) (\<lambda>n.
       seqk (iset ip (set_ch (ucast n)))
       (ret True))))"

definition duplicate :: "(nat \<Rightarrow> 'z ostate_scheme devsw) \<Rightarrow> bytes \<Rightarrow> int \<Rightarrow> (nat option, 'z ostate_scheme) kop" where
  "duplicate dv path ndittos =
     bind (namei_trans dv path) (\<lambda>r. case r of
       None \<Rightarrow> ret None
     | Some ip \<Rightarrow>
         bind (ilock_trans dv (Some ip)) (\<lambda>r.
         if r = E_CORRUPTED then ret None
         else
           seqk begin_trans
          (bind (if ndittos > 0 then add_child ip child1 (\<lambda>n i. i\<lparr>child1 := n\<rparr>) else ret True) (\<lambda>ok.
           if \<not> ok then ret None
           else
             bind (if ndittos > 1 then add_child ip child2 (\<lambda>n i. i\<lparr>child2 := n\<rparr>) else ret True) (\<lambda>ok.
             if \<not> ok then ret None
             else
               seqk commit_trans
              (seqk (ipropagate dv ip)
              (seqk begin_trans
              (seqk (iupdate dv ip)
              (seqk (iunlockput dv ip)
              (seqk commit_trans
               (ret (Some ip))))))))))))"

section \<open>Opening files\<close>

text \<open>An open file and a descriptor for the locked inode \<open>ip\<close>; on failure the inode is released.\<close>

definition open_slot :: "(nat \<Rightarrow> 'z ostate_scheme devsw) \<Rightarrow> nat \<Rightarrow> ((nat \<times> int) option, 'z ostate_scheme) kop" where
  "open_slot dv ip =
     bind filealloc (\<lambda>r. case r of
       None \<Rightarrow> seqk (iunlockput dv ip) (ret None)
     | Some f \<Rightarrow>
         bind (fdalloc f) (\<lambda>fd.
         if fd < 0 then
           seqk (fileclose dv f)
          (seqk (iunlockput dv ip)
           (ret None))
         else ret (Some (f, fd))))"

definition open_inode :: "nat \<Rightarrow> nat \<Rightarrow> u32 \<Rightarrow> (unit, 'z ostate_scheme) kop" where
  "open_inode f ip omode = modify (upd_file f (\<lambda>x. x\<lparr>ftype := FD_INODE, fip := ip, foff := 0,
     readable := (omode AND O_WRONLY = 0), writable := (omode AND O_WRONLY \<noteq> 0 \<or> omode AND O_RDWR \<noteq> 0)\<rparr>))"

definition finish_open :: "(nat \<Rightarrow> 'z ostate_scheme devsw) \<Rightarrow> nat \<Rightarrow> u32 \<Rightarrow> int \<Rightarrow> (int, 'z ostate_scheme) kop" where
  "finish_open dv ip omode err =
     bind (open_slot dv ip) (\<lambda>r. case r of
       None \<Rightarrow> ret err
     | Some (f, fd) \<Rightarrow>
         seqk (iunlock (Some ip))
        (seqk (open_inode f ip omode)
         (ret fd)))"

definition open_create :: "(nat \<Rightarrow> 'z ostate_scheme devsw) \<Rightarrow> bytes \<Rightarrow> u32 \<Rightarrow> (int, 'z ostate_scheme) kop" where
  "open_create dv path omode =
     seqk begin_trans
    (bind (create dv path T_FILE 1 0) (\<lambda>r.
     seqk commit_trans
    (case r of
       None \<Rightarrow> ret (- 1)
     | Some ip \<Rightarrow> finish_open dv ip omode (- 1))))"

definition open_checked :: "(nat \<Rightarrow> 'z ostate_scheme devsw) \<Rightarrow> nat \<Rightarrow> u32 \<Rightarrow> (int, 'z ostate_scheme) kop" where
  "open_checked dv ip omode =
     bind (igets ip itype) (\<lambda>ty.
     if ty = T_DIR \<and> omode \<noteq> O_RDONLY then seqk (iunlockput dv ip) (ret (- 1))
     else finish_open dv ip omode (- 1))"

definition sys_open :: "(nat \<Rightarrow> 'z ostate_scheme devsw) \<Rightarrow> (int, 'z ostate_scheme) kop" where
  "sys_open dv =
     bind (argstr 0) (\<lambda>r. case r of
       None \<Rightarrow> ret (- 1)
     | Some path \<Rightarrow>
         bind (argint 1) (\<lambda>r. case r of
           None \<Rightarrow> ret (- 1)
         | Some omode \<Rightarrow>
             if omode AND O_CREATE \<noteq> 0 then open_create dv path omode
             else
               bind (namei_trans dv path) (\<lambda>r. case r of
                 None \<Rightarrow> ret (- 1)
               | Some ip \<Rightarrow>
                   bind (ilock_trans dv (Some ip)) (\<lambda>r.
                   if r = E_CORRUPTED then ret E_CORRUPTED
                   else open_checked dv ip omode))))"

definition sys_forceopen :: "(nat \<Rightarrow> 'z ostate_scheme devsw) \<Rightarrow> (int, 'z ostate_scheme) kop" where
  "sys_forceopen dv =
     bind (argstr 0) (\<lambda>r. case r of
       None \<Rightarrow> ret (- 1)
     | Some path \<Rightarrow>
         bind (argint 1) (\<lambda>r. case r of
           None \<Rightarrow> ret (- 1)
         | Some omode \<Rightarrow>
             if omode AND O_CREATE \<noteq> 0 then open_create dv path omode
             else
               bind (namei_trans dv path) (\<lambda>r. case r of
                 None \<Rightarrow> ret (- 1)
               | Some ip \<Rightarrow>
                   seqk (ilock_ext dv (Some ip) False)
                   (open_checked dv ip omode))))"

definition sys_iopen :: "(nat \<Rightarrow> 'z ostate_scheme devsw) \<Rightarrow> (int, 'z ostate_scheme) kop" where
  "sys_iopen dv =
     bind (argint 0) (\<lambda>r. case r of
       None \<Rightarrow> ret (- 1)
     | Some dev \<Rightarrow>
         bind (argint 1) (\<lambda>r. case r of
           None \<Rightarrow> ret (- 1)
         | Some n \<Rightarrow>
             bind (iget dev n) (\<lambda>ip.
             bind (ilock_trans dv (Some ip)) (\<lambda>r.
             if r = E_CORRUPTED then ret E_CORRUPTED
             else if r \<noteq> 0 then ret (- 4)
             else finish_open dv ip 0 (- 3)))))"

definition sys_ichecksum :: "(nat \<Rightarrow> 'z ostate_scheme devsw) \<Rightarrow> (int, 'z ostate_scheme) kop" where
  "sys_ichecksum dv =
     bind (argint 0) (\<lambda>r. case r of
       None \<Rightarrow> ret (- 1)
     | Some dev \<Rightarrow>
         bind (argint 1) (\<lambda>r. case r of
           None \<Rightarrow> ret (- 1)
         | Some n \<Rightarrow>
             bind (iget dev n) (\<lambda>ip.
             bind (ilock_trans dv (Some ip)) (\<lambda>r.
             if r = E_CORRUPTED then ret E_CORRUPTED
             else
               bind (open_slot dv ip) (\<lambda>r. case r of
                 None \<Rightarrow> ret (- 3)
               | Some (f, fd) \<Rightarrow>
                   bind (ichecksum dv ip) (\<lambda>cs.
                   seqk (iunlock (Some ip))
                  (seqk (open_inode f ip 0)
                  (seqk (set_cur (\<lambda>p. p\<lparr>ofile := (ofile p)(nat fd := None)\<rparr>))
                  (seqk (fileclose dv f)
                   (ret (sint cs)))))))))))"

section \<open>Directories and devices\<close>

definition commit_create :: "(nat \<Rightarrow> 'z ostate_scheme devsw) \<Rightarrow> nat option \<Rightarrow> (int, 'z ostate_scheme) kop" where
  "commit_create dv r =
     (case r of
        None \<Rightarrow> seqk commit_trans (ret (- 1))
      | Some ip \<Rightarrow> seqk (iunlockput dv ip) (seqk commit_trans (ret 0)))"

definition sys_mkdir :: "(nat \<Rightarrow> 'z ostate_scheme devsw) \<Rightarrow> (int, 'z ostate_scheme) kop" where
  "sys_mkdir dv =
     seqk begin_trans
    (bind (argstr 0) (\<lambda>r.
     bind (case r of None \<Rightarrow> ret None | Some path \<Rightarrow> create dv path T_DIR 0 0)
       (commit_create dv)))"

definition sys_duplicate :: "(nat \<Rightarrow> 'z ostate_scheme devsw) \<Rightarrow> (int, 'z ostate_scheme) kop" where
  "sys_duplicate dv =
     bind (argstr 0) (\<lambda>r. case r of
       None \<Rightarrow> ret (- 1)
     | Some path \<Rightarrow>
         bind (argint 1) (\<lambda>r. case r of
           None \<Rightarrow> ret (- 1)
         | Some n \<Rightarrow>
             bind (duplicate dv path (sint n)) (\<lambda>r.
             ret (if r = None then - 1 else 0))))"

definition sys_mknod :: "(nat \<Rightarrow> 'z ostate_scheme devsw) \<Rightarrow> (int, 'z ostate_scheme) kop" where
  "sys_mknod dv =
     seqk begin_trans
    (bind (argstr 0) (\<lambda>r.
     bind (case r of
       None \<Rightarrow> ret None
     | Some path \<Rightarrow>
         bind (argint 1) (\<lambda>r. case r of
           None \<Rightarrow> ret None
         | Some maj \<Rightarrow>
             bind (argint 2) (\<lambda>r. case r of
               None \<Rightarrow> ret None
             | Some mnr \<Rightarrow> create dv path T_DEV (ucast maj) (ucast mnr))))
       (commit_create dv)))"

definition sys_chdir :: "(nat \<Rightarrow> 'z ostate_scheme devsw) \<Rightarrow> (int, 'z ostate_scheme) kop" where
  "sys_chdir dv =
     bind (argstr 0) (\<lambda>r. case r of
       None \<Rightarrow> ret (- 1)
     | Some path \<Rightarrow>
         bind (namei_trans dv path) (\<lambda>r. case r of
           None \<Rightarrow> ret (- 1)
         | Some ip \<Rightarrow>
             bind (ilock dv (Some ip)) (\<lambda>r.
             if r = E_CORRUPTED then ret E_CORRUPTED
             else
               bind (igets ip itype) (\<lambda>ty.
               if ty \<noteq> T_DIR then seqk (iunlockput dv ip) (ret (- 1))
               else
                 seqk (iunlock (Some ip))
                (bind (cur cwd) (\<lambda>w.
                 seqk (deref w (iput dv))
                (seqk (set_cur (\<lambda>p. p\<lparr>cwd := Some ip\<rparr>))
                 (ret 0))))))))"

section \<open>Pipes\<close>

definition sys_pipe_bad :: "(nat \<Rightarrow> 'z ostate_scheme devsw) \<Rightarrow> int \<Rightarrow> nat \<Rightarrow> nat \<Rightarrow> (int, 'z ostate_scheme) kop" where
  "sys_pipe_bad dv fd0 rfile wfile =
     seqk (whenk (fd0 \<ge> 0) (set_cur (\<lambda>p. p\<lparr>ofile := (ofile p)(nat fd0 := None)\<rparr>)))
    (seqk (fileclose dv rfile)
    (seqk (fileclose dv wfile)
     (ret (- 1))))"

definition sys_pipe :: "(nat \<Rightarrow> 'z ostate_scheme devsw) \<Rightarrow> (int, 'z ostate_scheme) kop" where
  "sys_pipe dv =
     bind (argptr 0 8) (\<lambda>r. case r of
       None \<Rightarrow> ret (- 1)
     | Some fd \<Rightarrow>
         bind (pipealloc dv) (\<lambda>(r, rfile, wfile).
         if r < 0 then ret (- 1)
         else
           deref rfile (\<lambda>rfile. deref wfile (\<lambda>wfile.
           bind (fdalloc rfile) (\<lambda>fd0.
           if fd0 < 0 then sys_pipe_bad dv fd0 rfile wfile
           else
             bind (fdalloc wfile) (\<lambda>fd1.
             if fd1 < 0 then sys_pipe_bad dv fd0 rfile wfile
             else
               seqk (uwrite_bytes (le32 (word_of_int fd0)) fd)
              (seqk (uwrite_bytes (le32 (word_of_int fd1)) (fd + 4))
               (ret 0))))))))"

end
