(* ===== verification/Exec.thy ===== *)
theory Exec
  imports Sysfile
begin

text \<open>
  Running a program (\<open>exec.c\<close>, with the file format of \<open>elf.h\<close>) and its system call.  The buffer on the kernel stack that
  receives the file header may hold anything before; its old content is the parameter \<open>stk\<close>.
\<close>

section \<open>The file format\<close>

record elfhdr =
  elf_magic :: u32
  elf_entry :: u32
  elf_phoff :: u32
  elf_phnum :: u16

record proghdr =
  ph_type :: u32
  ph_off :: u32
  ph_vaddr :: u32
  ph_filesz :: u32
  ph_memsz :: u32

definition ELF_MAGIC :: u32 where "ELF_MAGIC = 0x464C457F"
definition ELF_PROG_LOAD :: u32 where "ELF_PROG_LOAD = 1"
definition MAXARG :: nat where "MAXARG = 32"

definition elf_size :: nat where "elf_size = 52"
definition ph_size :: nat where "ph_size = 32"

definition de_elfhdr :: "bytes \<Rightarrow> elfhdr" where
  "de_elfhdr bs = \<lparr>elf_magic = de32 (slice 0 4 bs), elf_entry = de32 (slice 24 4 bs), elf_phoff = de32 (slice 28 4 bs),
     elf_phnum = de16 (slice 44 2 bs)\<rparr>"

definition de_proghdr :: "bytes \<Rightarrow> proghdr" where
  "de_proghdr bs = \<lparr>ph_type = de32 (slice 0 4 bs), ph_off = de32 (slice 4 4 bs), ph_vaddr = de32 (slice 8 4 bs),
     ph_filesz = de32 (slice 16 4 bs), ph_memsz = de32 (slice 20 4 bs)\<rparr>"

section \<open>Loading a program\<close>

text \<open>The loop over the program headers: the size of the image, or \<open>None\<close> on failure.\<close>

primrec exec_load ::
  "nat \<Rightarrow> (nat \<Rightarrow> 'z ostate_scheme devsw) \<Rightarrow> u32 \<Rightarrow> nat \<Rightarrow> u32 \<Rightarrow> u32 \<Rightarrow> (u32 option, 'z ostate_scheme) kop" where
  "exec_load 0 dv pd ip off z = ret (Some z)"
| "exec_load (Suc k) dv pd ip off z =
     bind (readi dv ip off (of_nat ph_size)) (\<lambda>(r, xs).
     if r \<noteq> int ph_size then ret None
     else
       (let ph = de_proghdr xs in
        if ph_type ph \<noteq> ELF_PROG_LOAD then exec_load k dv pd ip (off + of_nat ph_size) z
        else if ph_memsz ph < ph_filesz ph then ret None
        else
          bind (allocuvm pd z (ph_vaddr ph + ph_memsz ph)) (\<lambda>z.
          if z = 0 then ret None
          else
            bind (loaduvm dv pd (ph_vaddr ph) ip (ph_off ph) (ph_filesz ph)) (\<lambda>r.
            if r < 0 then ret None
            else exec_load k dv pd ip (off + of_nat ph_size) z))))"

section \<open>The stack of the new program\<close>

text \<open>The loop that pushes the argument strings: the stack pointer and the addresses of the strings.\<close>

primrec push_args ::
  "bytes list \<Rightarrow> u32 \<Rightarrow> u32 \<Rightarrow> u32 list \<Rightarrow> ((u32 \<times> u32 list) option, 'z ostate_scheme) kop" where
  "push_args [] pd sp us = ret (Some (sp, us))"
| "push_args (a # as) pd sp us =
     (if length us \<ge> MAXARG then ret None
      else
        (let sp = (sp - (of_nat (length a) + 1)) AND NOT 3 in
         bind (copyout pd sp (a @ [0])) (\<lambda>r.
         if r < 0 then ret None else push_args as pd sp (us @ [sp]))))"

definition ustack :: "u32 \<Rightarrow> u32 list \<Rightarrow> u32 list" where
  "ustack sp us = [0xFFFFFFFF, of_nat (length us), sp - (of_nat (length us) + 1) * 4] @ us @ [0]"

text \<open>The two pages of the stack, the arguments, and the words on top: the size of the process and the stack pointer.\<close>

definition exec_stack :: "u32 \<Rightarrow> u32 \<Rightarrow> bytes list \<Rightarrow> ((u32 \<times> u32) option, 'z ostate_scheme) kop" where
  "exec_stack pd z argv =
     (let z = PGROUNDUP z in
      bind (allocuvm pd z (z + 2 * PGSIZE)) (\<lambda>z.
      if z = 0 then ret None
      else
        seqk (clearpteu pd (z - 2 * PGSIZE))
       (bind (push_args argv pd z []) (\<lambda>r. case r of
          None \<Rightarrow> ret None
        | Some (sp, us) \<Rightarrow>
            (let ws = ustack sp us; sp = sp - (3 + of_nat (length us) + 1) * 4 in
             bind (copyout pd sp (concat (map le32 ws))) (\<lambda>r.
             ret (if r < 0 then None else Some (z, sp))))))))"

section \<open>Running a program\<close>

definition last_elem :: "bytes \<Rightarrow> bytes" where
  "last_elem path = rev (takeWhile (\<lambda>b. b \<noteq> slash) (rev path))"

definition exec_bad :: "(nat \<Rightarrow> 'z ostate_scheme devsw) \<Rightarrow> u32 \<Rightarrow> nat option \<Rightarrow> (int, 'z ostate_scheme) kop" where
  "exec_bad dv pd ip =
     seqk (whenk (pd \<noteq> 0) (freevm pd))
    (seqk (case ip of None \<Rightarrow> ret () | Some ip \<Rightarrow> iunlockput dv ip)
     (ret (- 1)))"

definition exec_commit :: "bytes \<Rightarrow> elfhdr \<Rightarrow> u32 \<Rightarrow> u32 \<Rightarrow> u32 \<Rightarrow> (int, 'z ostate_scheme) kop" where
  "exec_commit path elf pd z sp = with_proc (\<lambda>p.
     seqk (modify (upd_proc p (\<lambda>q. q\<lparr>pname := copy_name (pname q) (last_elem path @ [0])\<rparr>)))
    (bind (gets (\<lambda>s. pgdir (ptable s p))) (\<lambda>old.
     seqk (modify (upd_proc p (\<lambda>q. q\<lparr>pgdir := pd, sz := z, tf := (tf q)\<lparr>tf_eip := elf_entry elf, tf_esp := sp\<rparr>\<rparr>)))
    (seqk (switchuvm p)
    (seqk (freevm old)
     (ret 0))))))"

definition exec ::
  "(nat \<Rightarrow> 'z ostate_scheme devsw) \<Rightarrow> bytes \<Rightarrow> bytes \<Rightarrow> bytes list \<Rightarrow> (int, 'z ostate_scheme) kop" where
  "exec dv stk path argv =
     bind (namei_trans dv path) (\<lambda>r. case r of
       None \<Rightarrow> ret (- 1)
     | Some ip \<Rightarrow>
         bind (ilock_trans dv (Some ip)) (\<lambda>r.
         if r \<noteq> 0 then ret E_CORRUPTED
         else
           bind (readi dv ip 0 (of_nat elf_size)) (\<lambda>(r, xs).
           let elf = de_elfhdr (splice 0 xs stk) in
           if (word_of_int r :: u32) < of_nat elf_size then exec_bad dv 0 (Some ip)
           else if elf_magic elf \<noteq> ELF_MAGIC then exec_bad dv 0 (Some ip)
           else
             bind setupkvm (\<lambda>pd.
             if pd = 0 then exec_bad dv 0 (Some ip)
             else
               bind (exec_load (unat (elf_phnum elf)) dv pd ip (elf_phoff elf) 0) (\<lambda>r. case r of
                 None \<Rightarrow> exec_bad dv pd (Some ip)
               | Some z \<Rightarrow>
                   seqk (iunlockput dv ip)
                  (bind (exec_stack pd z argv) (\<lambda>r. case r of
                     None \<Rightarrow> exec_bad dv pd None
                   | Some (z, sp) \<Rightarrow> exec_commit path elf pd z sp)))))))"

text \<open>The loop of \<open>sys_exec\<close> that fetches the argument strings, with the number of places left in \<open>argv\<close>.\<close>

primrec fetch_args :: "nat \<Rightarrow> u32 \<Rightarrow> (bytes list option, 'z ostate_scheme) kop" where
  "fetch_args 0 a = ret None"
| "fetch_args (Suc k) a =
     bind (fetchint a) (\<lambda>r. case r of
       None \<Rightarrow> ret None
     | Some uarg \<Rightarrow>
         if uarg = 0 then ret (Some [])
         else
           bind (fetchstr uarg) (\<lambda>r. case r of
             None \<Rightarrow> ret None
           | Some str \<Rightarrow> bind (fetch_args k (a + 4)) (\<lambda>r. ret (map_option (\<lambda>as. str # as) r))))"

definition sys_exec :: "(nat \<Rightarrow> 'z ostate_scheme devsw) \<Rightarrow> bytes \<Rightarrow> (int, 'z ostate_scheme) kop" where
  "sys_exec dv stk =
     bind (argstr 0) (\<lambda>r. case r of
       None \<Rightarrow> ret (- 1)
     | Some path \<Rightarrow>
         bind (argint 1) (\<lambda>r. case r of
           None \<Rightarrow> ret (- 1)
         | Some uargv \<Rightarrow>
             bind (fetch_args MAXARG uargv) (\<lambda>r. case r of
               None \<Rightarrow> ret (- 1)
             | Some argv \<Rightarrow> exec dv stk path argv)))"

end
