(* ===== verification/Format.thy ===== *)
theory Format
  imports Cstring
begin

text \<open>
  Formatted output: \<open>printint\<close> and \<open>cprintf\<close> of the kernel (\<open>console.c\<close>) and \<open>printint\<close> and \<open>printf\<close> of the user library
  (\<open>printf.c\<close>).  A call is modelled by the characters it prints.  The arguments after the format are the words on the
  stack, strings are read from memory; \<open>None\<close> is a run that does not end properly: an array that overflows, an argument that is
  missing, a string without an end.
\<close>

section \<open>Numbers\<close>

definition digits_lower :: bytes where
  "digits_lower = [48, 49, 50, 51, 52, 53, 54, 55, 56, 57, 97, 98, 99, 100, 101, 102]"

definition digits_upper :: bytes where
  "digits_upper = [48, 49, 50, 51, 52, 53, 54, 55, 56, 57, 65, 66, 67, 68, 69, 70]"

text \<open>The loop that stores the digits, lowest first, with the number of free places in the array.\<close>

primrec print_digits :: "nat \<Rightarrow> bytes \<Rightarrow> u32 \<Rightarrow> u32 \<Rightarrow> bytes option" where
  "print_digits 0 tab b x = None"
| "print_digits (Suc k) tab b x =
     (let d = tab ! unat (x mod b) in
      if x div b = 0 then Some [d] else map_option (\<lambda>ds. d # ds) (print_digits k tab b (x div b)))"

definition printint :: "u32 \<Rightarrow> u32 \<Rightarrow> bool \<Rightarrow> bytes option" where
  "printint xx b sign =
     (let neg = (sign \<and> sint xx < 0); x = (if neg then - xx else xx)
      in map_option (\<lambda>ds. rev (ds @ (if neg then [45] else []))) (print_digits (if neg then 15 else 16) digits_lower b x))"

definition printf_printint :: "u32 \<Rightarrow> u32 \<Rightarrow> bool \<Rightarrow> bytes option" where
  "printf_printint xx b sg =
     (let neg = (sg \<and> sint xx < 0); x = (if neg then - xx else xx)
      in map_option (\<lambda>ds. rev (ds @ (if neg then [45] else []))) (print_digits (if neg then 15 else 16) digits_upper b x))"

section \<open>Formats\<close>

definition percent :: byte where "percent = 37"

definition null_text :: bytes where "null_text = [40, 110, 117, 108, 108, 41]"

definition string_arg :: "mem \<Rightarrow> u32 \<Rightarrow> bytes option" where
  "string_arg m a = (if a = 0 then Some null_text else map_option (\<lambda>n. bytes_at m a n) (strlen (ptr m a)))"

definition app_opt :: "bytes option \<Rightarrow> bytes option \<Rightarrow> bytes option" where
  "app_opt x y = (case x of None \<Rightarrow> None | Some xs \<Rightarrow> map_option (\<lambda>ys. xs @ ys) y)"

fun cprintf :: "mem \<Rightarrow> bytes \<Rightarrow> u32 list \<Rightarrow> bytes option" where
  "cprintf m [] args = Some []"
| "cprintf m [c] args = (if c \<noteq> percent then Some [c] else Some [])"
| "cprintf m (c # d # cs) args =
     (if c \<noteq> percent then app_opt (Some [c]) (cprintf m (d # cs) args)
      else if d = 100 then
        (case args of [] \<Rightarrow> None | a # as \<Rightarrow> app_opt (printint a 10 True) (cprintf m cs as))
      else if d = 120 \<or> d = 112 then
        (case args of [] \<Rightarrow> None | a # as \<Rightarrow> app_opt (printint a 16 False) (cprintf m cs as))
      else if d = 115 then
        (case args of [] \<Rightarrow> None | a # as \<Rightarrow> app_opt (string_arg m a) (cprintf m cs as))
      else if d = percent then app_opt (Some [percent]) (cprintf m cs args)
      else app_opt (Some [percent, d]) (cprintf m cs args))"

text \<open>The loop of \<open>printf\<close> is a machine with two states: \<open>st\<close> says that the last character was a percent sign.\<close>

primrec printf_loop :: "mem \<Rightarrow> bool \<Rightarrow> bytes \<Rightarrow> u32 list \<Rightarrow> bytes option" where
  "printf_loop m st [] args = Some []"
| "printf_loop m st (c # cs) args =
     (if \<not> st then
        (if c = percent then printf_loop m True cs args else app_opt (Some [c]) (printf_loop m False cs args))
      else if c = 100 then
        (case args of [] \<Rightarrow> None | a # as \<Rightarrow> app_opt (printf_printint a 10 True) (printf_loop m False cs as))
      else if c = 120 \<or> c = 112 then
        (case args of [] \<Rightarrow> None | a # as \<Rightarrow> app_opt (printf_printint a 16 False) (printf_loop m False cs as))
      else if c = 115 then
        (case args of [] \<Rightarrow> None | a # as \<Rightarrow> app_opt (string_arg m a) (printf_loop m False cs as))
      else if c = 99 then
        (case args of [] \<Rightarrow> None | a # as \<Rightarrow> app_opt (Some [ucast a]) (printf_loop m False cs as))
      else if c = percent then app_opt (Some [c]) (printf_loop m False cs args)
      else app_opt (Some [percent, c]) (printf_loop m False cs args))"

definition printf :: "mem \<Rightarrow> bytes \<Rightarrow> u32 list \<Rightarrow> bytes option" where
  "printf m fmt args = printf_loop m False fmt args"

section \<open>Numbers that are printed can be read again\<close>

text \<open>The value of a list of decimal digits.\<close>

definition dec :: "bytes \<Rightarrow> u32 \<Rightarrow> u32" where
  "dec bs n = foldl (\<lambda>n c. n * 10 + ucast c - 48) n bs"

definition is_digit :: "byte \<Rightarrow> bool" where
  "is_digit c \<longleftrightarrow> 48 \<le> c \<and> c \<le> 57"

lemma atoi_from_digits:
  assumes "\<forall>c \<in> set bs. is_digit c" "\<And>j. j < length bs \<Longrightarrow> s (i + j) = bs ! j" "\<not> is_digit (s (i + length bs))"
  shows "atoi_from s i n = Some (dec bs n)"
  using assms
proof (induction bs arbitrary: i n)
  case Nil
  then show ?case by (subst atoi_from.simps) (auto simp: dec_def is_digit_def)
next
  case (Cons c bs)
  have c: "s i = c" using Cons.prems(2) [of 0] by simp
  have "atoi_from s (Suc i) (n * 10 + ucast c - 48) = Some (dec bs (n * 10 + ucast c - 48))"
    using Cons.prems by (intro Cons.IH) (use Cons.prems(2) [of "Suc _"] in auto)
  then show ?case using c Cons.prems(1) by (subst atoi_from.simps) (simp add: dec_def is_digit_def)
qed

lemma atoi_digits: "\<forall>c \<in> set bs. is_digit c \<Longrightarrow> atoi (cstr bs) = Some (dec bs 0)"
  unfolding atoi_def by (rule atoi_from_digits) (auto simp: cstr_def is_digit_def)

lemma digit_nth:
  assumes "n < 10" "tab = digits_lower \<or> tab = digits_upper"
  shows "tab ! n = 48 + of_nat n" "is_digit (tab ! n)" "ucast (tab ! n) = (48 + of_nat n :: u32)"
proof -
  have "n \<in> {0,1,2,3,4,5,6,7,8,9}" using assms(1) by auto
  then show "tab ! n = 48 + of_nat n" "is_digit (tab ! n)" "ucast (tab ! n) = (48 + of_nat n :: u32)"
    using assms(2) by (auto simp: digits_lower_def digits_upper_def is_digit_def)
qed

lemma print_digits_dec:
  assumes "tab = digits_lower \<or> tab = digits_upper" "unat x < 10 ^ k" "0 < k"
  shows "\<exists>ds. print_digits k tab 10 x = Some ds \<and> (\<forall>c \<in> set ds. is_digit c) \<and> dec (rev ds) 0 = x"
  using assms(2,3)
proof (induction k arbitrary: x)
  case (Suc k)
  let ?d = "tab ! unat (x mod 10)"
  have m: "unat (x mod 10) = unat x mod 10" "unat (x div 10) = unat x div 10" by (simp_all add: unat_mod unat_div)
  have lt: "unat (x mod 10) < 10" using m(1) by simp
  have e: "(of_nat (unat (x mod 10)) :: u32) = x mod 10" by simp
  have d: "is_digit ?d" "ucast ?d = (48 + x mod 10 :: u32)"
    using digit_nth(2) [OF lt assms(1)] digit_nth(3) [OF lt assms(1)] e by simp_all
  show ?case
  proof (cases "x div 10 = 0")
    case True
    have "x mod 10 = x" using True div_mult_mod_eq [of x 10] by simp
    then show ?thesis using True d by (simp add: dec_def Let_def)
  next
    case False
    have "0 < k" using Suc.prems False m(2) by (cases k) (auto simp: unat_eq_0 [symmetric])
    moreover have "unat (x div 10) < 10 ^ k" using Suc.prems(1) m(2) by (simp add: div_less_iff_less_mult mult.commute)
    ultimately obtain ds where ds: "print_digits k tab 10 (x div 10) = Some ds" "\<forall>c \<in> set ds. is_digit c" "dec (rev ds) 0 = x div 10"
      using Suc.IH [of "x div 10"] by auto
    have "dec (rev (?d # ds)) 0 = x div 10 * 10 + x mod 10" using ds(3) d(2) by (simp add: dec_def)
    also have "\<dots> = x" by (rule div_mult_mod_eq)
    finally show ?thesis using False ds d by (simp add: Let_def)
  qed
qed simp

section \<open>Properties\<close>


end
