(* ===== verification/Console.thy ===== *)
theory Console
  imports File Format
begin

text \<open>
  The console (\<open>console.c\<close>) and the keyboard driver (\<open>kbd.c\<close>, \<open>kbd.h\<close>): the screen, the line editing of the input and the
  two device operations.

  The screen is the array of the video memory with the cursor position, the serial line the list of bytes sent.  An interrupt of
  the keyboard or of the serial port is given by the bytes that the device holds when it arrives.  The listing of the
  processes on control-P, which prints saved program counters, is the parameter \<open>dump\<close>.
\<close>

section \<open>State\<close>

record input =
  ibuf :: "nat \<Rightarrow> byte"
  ir :: u32
  iw :: u32
  ie :: u32

record cstate = ostate +
  input :: input
  crt :: "nat \<Rightarrow> u16"
  crt_pos :: nat
  serial :: bytes
  uart_on :: bool
  cons_locking :: bool
  kshift :: u32

definition BACKSPACE :: nat where "BACKSPACE = 0x100"
definition INPUT_BUF :: u32 where "INPUT_BUF = 128"
definition CONSOLE :: nat where "CONSOLE = 1"

section \<open>Output\<close>

definition uartputc :: "byte \<Rightarrow> (unit, 'z cstate_scheme) kop" where
  "uartputc c = modify (\<lambda>s. if uart_on s then s\<lparr>serial := serial s @ [c]\<rparr> else s)"

definition cga_step :: "nat \<Rightarrow> (nat \<Rightarrow> u16) \<times> nat \<Rightarrow> (nat \<Rightarrow> u16) \<times> nat" where
  "cga_step c = (\<lambda>(m, pos).
     let (m, pos) =
           (if c = 10 then (m, pos + (80 - pos mod 80))
            else if c = BACKSPACE then (m, if pos > 0 then pos - 1 else pos)
            else (m(pos := (of_nat c AND 0xFF) OR 0x0700), pos + 1));
         (m, pos) =
           (if pos div 80 \<ge> 24 then
              let m = (\<lambda>i. if i < 23 * 80 then m (i + 80) else m i); pos = pos - 80
              in (\<lambda>i. if pos \<le> i \<and> i < 24 * 80 then 0 else m i, pos)
            else (m, pos))
     in (m(pos := 0x0720), pos mod 65536))"

definition cgaputc :: "nat \<Rightarrow> (unit, 'z cstate_scheme) kop" where
  "cgaputc c = modify (\<lambda>s. case cga_step c (crt s, crt_pos s) of (m, pos) \<Rightarrow> s\<lparr>crt := m, crt_pos := pos\<rparr>)"

definition consputc :: "nat \<Rightarrow> (unit, 'z cstate_scheme) kop" where
  "consputc c =
     seqk (if c = BACKSPACE then seqk (uartputc 8) (seqk (uartputc 32) (uartputc 8)) else uartputc (of_nat c))
     (cgaputc c)"

section \<open>Line editing\<close>

definition ctl_P :: byte where "ctl_P = 16"
definition ctl_U :: byte where "ctl_U = 21"
definition ctl_H :: byte where "ctl_H = 8"
definition ctl_D :: byte where "ctl_D = 4"
definition newline :: byte where "newline = 10"

text \<open>Control-U: the loop that takes back characters, with the number of characters in the line; and how many it took back.\<close>

primrec kill_line :: "nat \<Rightarrow> input \<Rightarrow> input \<times> nat" where
  "kill_line 0 i = (i, 0)"
| "kill_line (Suc k) i =
     (if ibuf i (unat ((ie i - 1) mod INPUT_BUF)) = newline then (i, 0)
      else let (j, n) = kill_line k (i\<lparr>ie := ie i - 1\<rparr>) in (j, Suc n))"

text \<open>
  What one character does to the buffer: the new buffer, the characters to print, and whether readers are woken up.  Control-P
  lists the processes and leaves the buffer alone.
\<close>

definition edit :: "byte \<Rightarrow> input \<Rightarrow> input \<times> nat list \<times> bool" where
  "edit c i =
     (if c = ctl_P then (i, [], False)
      else if c = ctl_U then
        let (j, n) = kill_line (unat (ie i - iw i)) i in (j, replicate n BACKSPACE, False)
      else if c = ctl_H \<or> c = 127 then
        (if ie i \<noteq> iw i then (i\<lparr>ie := ie i - 1\<rparr>, [BACKSPACE], False) else (i, [], False))
      else if c \<noteq> 0 \<and> ie i - ir i < INPUT_BUF then
        let c = (if c = 13 then newline else c);
            j = i\<lparr>ibuf := (ibuf i)(unat (ie i mod INPUT_BUF) := c), ie := ie i + 1\<rparr>
        in if c = newline \<or> c = ctl_D \<or> ie j = ir j + INPUT_BUF
           then (j\<lparr>iw := ie j\<rparr>, [unat c], True) else (j, [unat c], False)
      else (i, [], False))"

definition console_char :: "(unit, 'z cstate_scheme) kop \<Rightarrow> byte \<Rightarrow> (unit, 'z cstate_scheme) kop" where
  "console_char dump c =
     seqk (whenk (c = ctl_P) dump)
    (bind (gets (\<lambda>s. edit c (input s))) (\<lambda>(j, out, wake).
     seqk (modify (\<lambda>s. s\<lparr>input := j\<rparr>))
    (seqk (foreach out consputc)
     (whenk wake (wakeup Ch_input)))))"

definition consoleintr :: "(unit, 'z cstate_scheme) kop \<Rightarrow> bytes \<Rightarrow> (unit, 'z cstate_scheme) kop" where
  "consoleintr dump cs =
     seqk (acquire Lk_input)
    (seqk (foreach cs (console_char dump))
     (release Lk_input))"

section \<open>The console as a device\<close>

text \<open>
  The loop of \<open>consoleread\<close>: \<open>target\<close> bytes were asked for, \<open>n\<close> are still missing, \<open>acc\<close> was read.  The process that
  sleeps goes on with \<open>consoleread_resume\<close>.
\<close>

definition console_take :: "input \<Rightarrow> byte \<times> input" where
  "console_take i = (ibuf i (unat (ir i mod INPUT_BUF)), i\<lparr>ir := ir i + 1\<rparr>)"

definition consoleread_end ::
  "(nat \<Rightarrow> 'z cstate_scheme devsw) \<Rightarrow> nat \<Rightarrow> int \<Rightarrow> bytes \<Rightarrow> (int \<times> bytes, 'z cstate_scheme) kop" where
  "consoleread_end dv ip r acc =
     seqk (release Lk_input)
    (seqk (ilock dv (Some ip))
     (ret (r, acc)))"

primrec consoleread_loop ::
  "nat \<Rightarrow> (nat \<Rightarrow> 'z cstate_scheme devsw) \<Rightarrow> nat \<Rightarrow> int \<Rightarrow> bytes \<Rightarrow> (int \<times> bytes, 'z cstate_scheme) kop" where
  "consoleread_loop 0 dv ip target acc = consoleread_end dv ip target acc"
| "consoleread_loop (Suc n) dv ip target acc =
     bind (gets input) (\<lambda>i.
     if ir i = iw i then
       bind killed_now (\<lambda>gone.
       if gone then consoleread_end dv ip (- 1) acc
       else seqk (sleep Ch_input Lk_input) (\<lambda>s. Diverge))
     else
       (case console_take i of (c, j) \<Rightarrow>
        if c = ctl_D then
          seqk (modify (\<lambda>s. s\<lparr>input := (if int (Suc n) < target then i else j)\<rparr>))
          (consoleread_end dv ip (target - int (Suc n)) acc)
        else
          seqk (modify (\<lambda>s. s\<lparr>input := j\<rparr>))
          (if c = newline then consoleread_end dv ip (target - int n) (acc @ [c])
           else consoleread_loop n dv ip target (acc @ [c]))))"

definition consoleread :: "(nat \<Rightarrow> 'z cstate_scheme devsw) \<Rightarrow> nat \<Rightarrow> int \<Rightarrow> (int \<times> bytes, 'z cstate_scheme) kop" where
  "consoleread dv ip n =
     seqk (iunlock (Some ip))
    (seqk (acquire Lk_input)
     (if n \<le> 0 then consoleread_end dv ip 0 [] else consoleread_loop (nat n) dv ip n []))"

definition consoleread_resume ::
  "bool \<Rightarrow> nat \<Rightarrow> (nat \<Rightarrow> 'z cstate_scheme devsw) \<Rightarrow> nat \<Rightarrow> int \<Rightarrow> bytes \<Rightarrow> (int \<times> bytes, 'z cstate_scheme) kop" where
  "consoleread_resume en n dv ip target acc =
     seqk (sleep_resume en Lk_input) (consoleread_loop n dv ip target acc)"

definition consolewrite :: "(nat \<Rightarrow> 'z cstate_scheme devsw) \<Rightarrow> nat \<Rightarrow> bytes \<Rightarrow> int \<Rightarrow> (int, 'z cstate_scheme) kop" where
  "consolewrite dv ip bs n =
     seqk (iunlock (Some ip))
    (seqk (acquire Lk_cons)
    (seqk (foreach (take (nat n) bs) (\<lambda>b. consputc (unat b)))
    (seqk (release Lk_cons)
    (seqk (ilock dv (Some ip))
     (ret n)))))"

text \<open>
  \<open>consoleinit\<close> registers the two operations in the table of devices, which is a parameter here; locking the inode of a
  device again does not use the table, so the operations may be given the table of before.
\<close>

definition console_devsw :: "(nat \<Rightarrow> 'z cstate_scheme devsw) \<Rightarrow> nat \<Rightarrow> 'z cstate_scheme devsw" where
  "console_devsw dv = dv(CONSOLE := \<lparr>devread = Some (consoleread dv), devwrite = Some (consolewrite dv)\<rparr>)"

definition consoleinit :: "(unit, 'z cstate_scheme) kop" where
  "consoleinit =
     seqk (initlock Lk_cons ''console'')
    (seqk (initlock Lk_input ''input'')
     (modify (\<lambda>s. s\<lparr>cons_locking := True\<rparr>)))"

section \<open>The keyboard\<close>

definition SHIFT :: u32 where "SHIFT = 1"
definition CTL :: u32 where "CTL = 2"
definition ALT :: u32 where "ALT = 4"
definition CAPSLOCK :: u32 where "CAPSLOCK = 8"
definition NUMLOCK :: u32 where "NUMLOCK = 16"
definition SCROLLLOCK :: u32 where "SCROLLLOCK = 32"
definition E0ESC :: u32 where "E0ESC = 64"

definition shiftcode :: "byte \<Rightarrow> u32" where
  "shiftcode d = (if d = 0x1D \<or> d = 0x9D then CTL else if d = 0x2A \<or> d = 0x36 then SHIFT
     else if d = 0x38 \<or> d = 0xB8 then ALT else 0)"

definition togglecode :: "byte \<Rightarrow> u32" where
  "togglecode d = (if d = 0x3A then CAPSLOCK else if d = 0x45 then NUMLOCK else if d = 0x46 then SCROLLLOCK else 0)"

definition key_lookup :: "byte list \<Rightarrow> (byte \<rightharpoonup> byte) \<Rightarrow> byte \<Rightarrow> byte" where
  "key_lookup tab extra d =
     (case extra d of Some c \<Rightarrow> c | None \<Rightarrow> if unat d < length tab then tab ! unat d else 0)"

definition special_keys :: "(byte \<times> byte) list" where
  "special_keys = [(0xC8, 0xE2), (0xD0, 0xE3), (0xC9, 0xE6), (0xD1, 0xE7), (0xCB, 0xE4), (0xCD, 0xE5),
     (0x97, 0xE0), (0xCF, 0xE1), (0xD2, 0xE8), (0xD3, 0xE9)]"

definition extra_keys_std :: "byte \<rightharpoonup> byte" where
  "extra_keys_std = map_of ((0x9C, 10) # (0xB5, 47) # special_keys)"

definition extra_keys_ctl :: "byte \<rightharpoonup> byte" where
  "extra_keys_ctl = map_of ((0x9C, 13) # (0xB5, 239) # special_keys)"

definition normalmap :: "byte \<Rightarrow> byte" where
  "normalmap d = key_lookup
     [0, 27, 49, 50, 51, 52, 53, 54, 55, 56, 57, 48, 45, 61, 8, 9,
      113, 119, 101, 114, 116, 121, 117, 105, 111, 112, 91, 93, 10, 0, 97, 115,
      100, 102, 103, 104, 106, 107, 108, 59, 39, 96, 0, 92, 122, 120, 99, 118,
      98, 110, 109, 44, 46, 47, 0, 42, 0, 32, 0, 0, 0, 0, 0, 0,
      0, 0, 0, 0, 0, 0, 0, 55, 56, 57, 45, 52, 53, 54, 43, 49,
      50, 51, 48, 46, 0, 0, 0, 0]
     extra_keys_std d"

definition shiftmap :: "byte \<Rightarrow> byte" where
  "shiftmap d = key_lookup
     [0, 27, 33, 64, 35, 36, 37, 94, 38, 42, 40, 41, 95, 43, 8, 9,
      81, 87, 69, 82, 84, 89, 85, 73, 79, 80, 123, 125, 10, 0, 65, 83,
      68, 70, 71, 72, 74, 75, 76, 58, 34, 126, 0, 124, 90, 88, 67, 86,
      66, 78, 77, 60, 62, 63, 0, 42, 0, 32, 0, 0, 0, 0, 0, 0,
      0, 0, 0, 0, 0, 0, 0, 55, 56, 57, 45, 52, 53, 54, 43, 49,
      50, 51, 48, 46, 0, 0, 0, 0]
     extra_keys_std d"

definition ctlmap :: "byte \<Rightarrow> byte" where
  "ctlmap d = key_lookup
     [0, 0, 0, 0, 0, 0, 0, 0, 0, 0, 0, 0, 0, 0, 0, 0,
      17, 23, 5, 18, 20, 25, 21, 9, 15, 16, 0, 0, 13, 0, 1, 19,
      4, 6, 7, 8, 10, 11, 12, 0, 0, 0, 0, 28, 26, 24, 3, 22,
      2, 14, 13, 0, 0, 239, 0, 0]
     extra_keys_ctl d"

definition charcode :: "u32 \<Rightarrow> byte \<Rightarrow> byte" where
  "charcode k = (if k = 0 then normalmap else if k = 1 then shiftmap else ctlmap)"

text \<open>One byte of the keyboard controller: the new state of the shift keys and the result.\<close>

definition kbdgetc :: "u32 \<Rightarrow> byte \<Rightarrow> u32 \<times> byte" where
  "kbdgetc shift d =
     (if d = 0xE0 then (shift OR E0ESC, 0)
      else if d AND 0x80 \<noteq> 0 then
        (let d = (if shift AND E0ESC \<noteq> 0 then d else d AND 0x7F)
         in (shift AND NOT (shiftcode d OR E0ESC), 0))
      else
        let esc = (shift AND E0ESC \<noteq> 0);
            d = (if esc then d OR 0x80 else d);
            shift = (if esc then shift AND NOT E0ESC else shift);
            shift = (shift OR shiftcode d) XOR togglecode d;
            c = charcode (shift AND (CTL OR SHIFT)) d;
            c = (if shift AND CAPSLOCK \<noteq> 0 then
                   (if 97 \<le> c \<and> c \<le> 122 then c - 32 else if 65 \<le> c \<and> c \<le> 90 then c + 32 else c)
                 else c)
        in (shift, c))"

fun kbd_chars :: "u32 \<Rightarrow> bytes \<Rightarrow> u32 \<times> bytes" where
  "kbd_chars shift [] = (shift, [])"
| "kbd_chars shift (d # ds) =
     (let (shift, c) = kbdgetc shift d; (shift, cs) = kbd_chars shift ds in (shift, c # cs))"

text \<open>\<open>getc\<close> is called with the lock held; nothing else uses the state of the shift keys.\<close>

definition kbdintr :: "(unit, 'z cstate_scheme) kop \<Rightarrow> bytes \<Rightarrow> (unit, 'z cstate_scheme) kop" where
  "kbdintr dump ds =
     bind (gets (\<lambda>s. kbd_chars (kshift s) ds)) (\<lambda>(shift, cs).
     seqk (modify (\<lambda>s. s\<lparr>kshift := shift\<rparr>))
     (consoleintr dump cs))"

definition uartintr :: "(unit, 'z cstate_scheme) kop \<Rightarrow> bytes \<Rightarrow> (unit, 'z cstate_scheme) kop" where
  "uartintr dump ds =
     bind (gets uart_on) (\<lambda>on. consoleintr dump (if on then ds else []))"

section \<open>The line discipline\<close>

text \<open>
  The input, seen from outside, is a queue of characters that readers may take and the line that is being typed.  A
  character is appended to the line; the line is handed over when it is complete, or when there is no room for more.
\<close>

definition line_step :: "byte \<Rightarrow> bytes \<times> bytes \<Rightarrow> bytes \<times> bytes" where
  "line_step c = (\<lambda>(q, l).
     if c = ctl_P then (q, l)
     else if c = ctl_U then (q, [])
     else if c = ctl_H \<or> c = 127 then (q, butlast l)
     else if c = 0 \<or> length q + length l \<ge> 128 then (q, l)
     else
       let c = (if c = 13 then newline else c); l' = l @ [c]
       in if c = newline \<or> c = ctl_D \<or> length q + length l' = 128 then (q @ l', []) else (q, l'))"

definition ready :: "input \<Rightarrow> bytes" where
  "ready i = ring 128 (ibuf i) (ir i) (iw i)"

definition line :: "input \<Rightarrow> bytes" where
  "line i = ring 128 (ibuf i) (iw i) (ie i)"

definition input_ok :: "input \<Rightarrow> bool" where
  "input_ok i \<longleftrightarrow> unat (ie i - ir i) = unat (iw i - ir i) + unat (ie i - iw i) \<and> unat (ie i - ir i) \<le> 128 \<and>
     newline \<notin> set (line i)"

lemma unat_mod_128: "unat (x mod INPUT_BUF) = unat x mod 128"
  by (simp add: unat_mod INPUT_BUF_def)

lemma input_lengths: "input_ok i \<Longrightarrow> unat (ie i - ir i) = length (ready i) + length (line i)"
  by (simp add: input_ok_def ready_def line_def)

lemma input_back:
  assumes "input_ok i" "line i \<noteq> []"
  shows "input_ok (i\<lparr>ie := ie i - 1\<rparr>)" "ready (i\<lparr>ie := ie i - 1\<rparr>) = ready i" "line (i\<lparr>ie := ie i - 1\<rparr>) = butlast (line i)"
    "ibuf i (unat ((ie i - 1) mod INPUT_BUF)) = last (line i)" "ie i \<noteq> iw i"
proof -
  have ne: "iw i \<noteq> ie i" using assms(2) by (simp add: line_def ring_empty)
  then show "ie i \<noteq> iw i" by simp
  note u = ring_unput [OF ne]
  show "ready (i\<lparr>ie := ie i - 1\<rparr>) = ready i" by (simp add: ready_def)
  show l: "line (i\<lparr>ie := ie i - 1\<rparr>) = butlast (line i)" using u(1) [of 128 "ibuf i"] by (simp add: line_def)
  show "ibuf i (unat ((ie i - 1) mod INPUT_BUF)) = last (line i)" using u(3) [of "ibuf i" 128] by (simp add: line_def unat_mod_128)
  have pos: "0 < unat (ie i - iw i)" using ne offset_0 [of "ie i" "iw i"] by (auto simp del: offset_0)
  have sum: "unat (ie i - ir i) = unat (iw i - ir i) + unat (ie i - iw i)" using assms(1) by (simp only: input_ok_def)
  then have "unat (ie i - ir i) \<noteq> 0" using pos by linarith
  then have "ir i \<noteq> ie i" by (metis offset_0)
  then have "unat (ie i - 1 - ir i) = unat (ie i - ir i) - 1" using ring_unput(2) [of "ir i" "ie i"] by simp
  then show "input_ok (i\<lparr>ie := ie i - 1\<rparr>)"
    using assms(1) u(2) pos l unfolding input_ok_def by (auto dest: in_set_butlastD)
qed

lemma kill_line_clears:
  assumes "input_ok i" "k = length (line i)"
  shows "\<exists>j. kill_line k i = (j, k) \<and> input_ok j \<and> ready j = ready i \<and> line j = []"
  using assms
proof (induction k arbitrary: i)
  case (Suc k)
  then have ne: "line i \<noteq> []" by auto
  note b = input_back [OF Suc.prems(1) ne]
  have "last (line i) \<noteq> newline" using Suc.prems(1) ne by (metis input_ok_def last_in_set)
  moreover have "k = length (line (i\<lparr>ie := ie i - 1\<rparr>))" using b(3) Suc.prems(2) by simp
  ultimately show ?case using Suc.IH [OF b(1)] b(2,4) by auto
qed auto

lemma input_put:
  fixes i :: input and c :: byte
  assumes "input_ok i" "unat (ie i - ir i) < 128"
  defines "j \<equiv> i\<lparr>ibuf := (ibuf i)(unat (ie i mod INPUT_BUF) := c), ie := ie i + 1\<rparr>"
  shows "ready j = ready i" "line j = line i @ [c]" "unat (ie j - ir j) = unat (ie i - ir i) + 1"
    "unat (ie j - iw j) = unat (ie i - iw i) + 1" "unat (ie j - ir j) = unat (iw j - ir j) + unat (ie j - iw j)"
proof -
  have le: "unat (ie i - iw i) < 128" "unat (iw i - ir i) \<le> unat (ie i - ir i)" using assms by (auto simp: input_ok_def)
  show "ready j = ready i" using ring_other [of 128 "iw i" "ir i" "ie i" "ibuf i" c] le assms(2) by (simp add: j_def ready_def unat_mod_128)
  show "line j = line i @ [c]" using ring_put(1) [of 128 "ie i" "iw i" "ibuf i" c] le by (simp add: j_def line_def unat_mod_128)
  show e: "unat (ie j - ir j) = unat (ie i - ir i) + 1" using ring_put(2) [of 128 "ie i" "ir i"] assms(2) by (simp add: j_def)
  show w: "unat (ie j - iw j) = unat (ie i - iw i) + 1" using ring_put(2) [of 128 "ie i" "iw i"] le by (simp add: j_def)
  show "unat (ie j - ir j) = unat (iw j - ir j) + unat (ie j - iw j)" using e w assms(1) by (simp add: input_ok_def j_def)
qed

lemma input_hand_over:
  assumes "unat (ie j - ir j) = unat (iw j - ir j) + unat (ie j - iw j)" "unat (ie j - ir j) \<le> 128"
  shows "input_ok (j\<lparr>iw := ie j\<rparr>)" "ready (j\<lparr>iw := ie j\<rparr>) = ready j @ line j" "line (j\<lparr>iw := ie j\<rparr>) = []"
  using assms ring_append [OF assms(1)] ring_empty [of 128 "ibuf j" "ie j" "ie j"]
  by (simp_all add: input_ok_def ready_def line_def)

lemma edit_typed:
  assumes "input_ok i" "c \<noteq> ctl_U" "c \<noteq> ctl_H" "c \<noteq> 127" "c \<noteq> 0" "unat (ie i - ir i) < 128" "c \<noteq> ctl_P"
  shows "\<exists>j out wake. edit c i = (j, out, wake) \<and> input_ok j \<and> (ready j, line j) = line_step c (ready i, line i) \<and>
    (wake \<longleftrightarrow> ready j \<noteq> ready i)"
proof -
  define d where "d = (if c = 13 then newline else c)"
  define j where "j = i\<lparr>ibuf := (ibuf i)(unat (ie i mod INPUT_BUF) := d), ie := ie i + 1\<rparr>"
  note p = input_put [OF assms(1,6), of d, folded j_def]
  have lt: "ie i - ir i < INPUT_BUF" using assms(6) by (simp add: INPUT_BUF_def word_less_nat_alt)
  have len: "length (ready i) + length (line i) = unat (ie i - ir i)" using input_lengths [OF assms(1)] by simp
  have full: "ie j = ir j + INPUT_BUF \<longleftrightarrow> unat (ie j - ir j) = 128"
  proof
    assume "unat (ie j - ir j) = 128"
    then have "ie j - ir j = 128" by (simp add: word_unat_eq_iff)
    then show "ie j = ir j + INPUT_BUF" by (simp add: INPUT_BUF_def algebra_simps)
  qed (simp add: INPUT_BUF_def)
  define over where "over \<longleftrightarrow> d = newline \<or> d = ctl_D \<or> ie j = ir j + INPUT_BUF"
  have e: "edit c i = (if over then (j\<lparr>iw := ie j\<rparr>, [unat d], True) else (j, [unat d], False))"
    unfolding edit_def Let_def d_def [symmetric] j_def [symmetric] over_def using assms(2-5,7) lt by simp
  have s: "line_step c (ready i, line i) = (if over then (ready i @ line i @ [d], []) else (ready i, line i @ [d]))"
    unfolding line_step_def Let_def d_def [symmetric] over_def full using assms(2-7) len p(3) by simp
  show ?thesis
  proof (cases over)
    case True
    have "unat (ie j - ir j) \<le> 128" using p(3) assms(6) by simp
    note h = input_hand_over [OF p(5) this]
    show ?thesis using True e s h p(1,2) by simp
  next
    case False
    then have "d \<noteq> newline" by (simp add: over_def)
    then have "input_ok j" using p assms(1,6) by (simp add: input_ok_def)
    then show ?thesis using False e s p(1,2) by simp
  qed
qed

text \<open>C35 (line editing). The ring buffer of the console, with its three free-running indices, implements the line discipline: every
  character changes the queue of finished characters and the line being typed as \<open>line_step\<close> says, which deletes the whole
  line on control-U, the last character of the line only on backspace, never a character that was handed over, and drops
  characters when 128 are waiting; control-P changes nothing.  Readers are woken up exactly when characters are handed over, and the invariant of
  the buffer is kept.\<close>

theorem console_line_discipline:
  assumes "input_ok i"
  shows "\<exists>j out wake. edit c i = (j, out, wake) \<and> input_ok j \<and>
    (ready j, line j) = line_step c (ready i, line i) \<and> (wake \<longleftrightarrow> ready j \<noteq> ready i)"
proof -
  have len: "length (ready i) + length (line i) = unat (ie i - ir i)" using input_lengths [OF assms] by simp
  consider "c = ctl_U" | "c = ctl_H \<or> c = 127" "c \<noteq> ctl_U"
    | "c = 0 \<or> unat (ie i - ir i) \<ge> 128" "c \<noteq> ctl_U" "c \<noteq> ctl_H" "c \<noteq> 127" "c \<noteq> ctl_P"
    | "c \<noteq> ctl_U" "c \<noteq> ctl_H" "c \<noteq> 127" "c \<noteq> 0" "unat (ie i - ir i) < 128" "c \<noteq> ctl_P" | "c = ctl_P" by linarith
  then show ?thesis
  proof cases
    case 1
    obtain j where "kill_line (unat (ie i - iw i)) i = (j, unat (ie i - iw i))" "input_ok j" "ready j = ready i" "line j = []"
      using kill_line_clears [OF assms, of "unat (ie i - iw i)"] by (auto simp: line_def)
    then show ?thesis using 1 by (simp add: edit_def line_step_def ctl_P_def ctl_U_def)
  next
    case 2
    then have p: "c \<noteq> ctl_U" "c \<noteq> ctl_P" by (auto simp: ctl_P_def ctl_H_def)
    show ?thesis
    proof (cases "line i = []")
      case True
      then have "ie i = iw i" by (simp add: line_def ring_empty)
      then show ?thesis using 2 p True assms by (auto simp: edit_def line_step_def)
    next
      case False
      note b = input_back [OF assms False]
      show ?thesis using 2 p b by (auto simp: edit_def line_step_def)
    qed
  next
    case 3
    have "\<not> (c \<noteq> 0 \<and> ie i - ir i < INPUT_BUF)" using 3(1) by (auto simp: INPUT_BUF_def word_less_nat_alt)
    then have "edit c i = (i, [], False)" unfolding edit_def using 3(2-5) by (simp only: if_False if_True simp_thms)
    moreover have "line_step c (ready i, line i) = (ready i, line i)" unfolding line_step_def using 3 len by simp
    ultimately show ?thesis using assms by simp
  next
    case 4
    then show ?thesis using edit_typed [OF assms] by blast
  next
    case 5
    then show ?thesis using assms by (simp add: edit_def line_step_def)
  qed
qed

definition typed :: input where
  "typed = \<lparr>ibuf = (\<lambda>_. 0)(127 := 104, 0 := 105), ir = - 1, iw = - 1, ie = 1\<rparr>"

theorem console_line_discipline_witness:
  "input_ok typed \<and> (ready typed, line typed) = ([], [104, 105]) \<and>
   (\<exists>j out wake. edit 13 typed = (j, out, wake) \<and> (ready j, line j) = ([104, 105, 10], []) \<and> wake)"
proof -
  have l: "line typed = [104, 105]" by (simp add: line_def ring_def typed_def upt_rec)
  have r: "ready typed = []" by (simp add: ready_def ring_empty typed_def)
  have t: "input_ok typed" unfolding input_ok_def l by (simp add: typed_def newline_def)
  have "line_step 13 ([], [104, 105]) = ([104, 105, 10], [])"
    by (simp add: line_step_def ctl_P_def ctl_U_def ctl_H_def newline_def)
  then show ?thesis using console_line_discipline [OF t, of 13] t l r by auto
qed

end
