(* ===== verification/Trap.thy ===== *)
theory Trap
  imports Exec Console
begin

text \<open>
  Entering the kernel: the dispatch of system calls (\<open>syscall.c\<close>, \<open>syscall.h\<close>) and \<open>trap\<close> (\<open>trap.c\<close>).  The parameters
  are those of the components below: the device table, the old content of the kernel stack for \<open>exec\<close>, the process listing of the
  console, and the bytes that the keyboard and the serial port hold.  Messages on the console are not part of the model.
\<close>

section \<open>System calls\<close>

definition syscalls ::
  "(nat \<Rightarrow> 'z ostate_scheme devsw) \<Rightarrow> bytes \<Rightarrow> nat \<Rightarrow> (int, 'z ostate_scheme) kop option" where
  "syscalls dv stk n =
     (if n < 1 then None
      else if n \<le> 25 then Some
        ([sys_fork, sys_exit dv, sys_wait, sys_pipe dv, sys_read dv, sys_kill, sys_exec dv stk, sys_fstat dv, sys_chdir dv,
          sys_dup, sys_getpid, sys_sbrk, sys_sleep, sys_uptime, sys_open dv, sys_write dv, sys_mknod dv, sys_unlink dv,
          sys_link dv, sys_mkdir dv, sys_close dv, sys_iopen dv, sys_ichecksum dv, sys_duplicate dv, sys_forceopen dv] ! (n - 1))
      else None)"

definition syscall :: "(nat \<Rightarrow> 'z ostate_scheme devsw) \<Rightarrow> bytes \<Rightarrow> (unit, 'z ostate_scheme) kop" where
  "syscall dv stk =
     bind (cur (\<lambda>p. sint (tf_eax (tf p)))) (\<lambda>num.
     bind (if num > 0 then (case syscalls dv stk (nat num) of Some f \<Rightarrow> f | None \<Rightarrow> ret (- 1)) else ret (- 1)) (\<lambda>r.
     set_cur (\<lambda>p. p\<lparr>tf := (tf p)\<lparr>tf_eax := word_of_int r\<rparr>\<rparr>)))"

section \<open>Traps\<close>

definition T_SYSCALL :: u32 where "T_SYSCALL = 64"
definition T_IRQ0 :: u32 where "T_IRQ0 = 32"
definition IRQ_TIMER :: u32 where "IRQ_TIMER = 0"
definition IRQ_KBD :: u32 where "IRQ_KBD = 1"
definition IRQ_COM1 :: u32 where "IRQ_COM1 = 4"
definition IRQ_IDE :: u32 where "IRQ_IDE = 14"
definition IRQ_SPURIOUS :: u32 where "IRQ_SPURIOUS = 31"
definition DPL_USER :: u16 where "DPL_USER = 3"

definition exit_if_killed :: "(nat \<Rightarrow> 'z ostate_scheme devsw) \<Rightarrow> (unit, 'z ostate_scheme) kop" where
  "exit_if_killed dv = bind killed_now (\<lambda>k. whenk k (exit dv))"

definition trap_syscall :: "(nat \<Rightarrow> 'z ostate_scheme devsw) \<Rightarrow> bytes \<Rightarrow> trapframe \<Rightarrow> (unit, 'z ostate_scheme) kop" where
  "trap_syscall dv stk f =
     seqk (exit_if_killed dv)
    (seqk (set_cur (\<lambda>p. p\<lparr>tf := f\<rparr>))
    (seqk (syscall dv stk)
     (exit_if_killed dv)))"

definition timer_tick :: "(unit, 'z kstate_scheme) kop" where
  "timer_tick =
     bind (gets me) (\<lambda>c.
     whenk (c = 0)
       (seqk (acquire Lk_tick)
       (seqk (modify (\<lambda>s. s\<lparr>ticks := ticks s + 1\<rparr>))
       (seqk (wakeup Ch_ticks)
        (release Lk_tick)))))"

text \<open>The part of \<open>trap\<close> after the switch: a process that was killed exits, and the timer makes a running process yield.\<close>

definition exit_if_killed_in_user :: "(nat \<Rightarrow> 'z ostate_scheme devsw) \<Rightarrow> trapframe \<Rightarrow> (unit, 'z ostate_scheme) kop" where
  "exit_if_killed_in_user dv f =
     bind (gets (\<lambda>s. curproc (mycpu s))) (\<lambda>cp. case cp of
       None \<Rightarrow> ret ()
     | Some p \<Rightarrow>
         bind (gets (\<lambda>s. killed (ptable s p))) (\<lambda>k.
         whenk (k \<and> tf_cs f AND 3 = DPL_USER) (exit dv)))"

definition trap_end :: "(nat \<Rightarrow> 'z ostate_scheme devsw) \<Rightarrow> trapframe \<Rightarrow> (unit, 'z ostate_scheme) kop" where
  "trap_end dv f =
     seqk (exit_if_killed_in_user dv f)
    (seqk (bind (gets (\<lambda>s. curproc (mycpu s))) (\<lambda>cp. case cp of
         None \<Rightarrow> ret ()
       | Some p \<Rightarrow>
           bind (gets (\<lambda>s. pstate (ptable s p))) (\<lambda>st.
           whenk (st = RUNNING \<and> tf_trapno f = T_IRQ0 + IRQ_TIMER) yield)))
     (exit_if_killed_in_user dv f))"

definition trap ::
  "(nat \<Rightarrow> 'z cstate_scheme devsw) \<Rightarrow> bytes \<Rightarrow> (unit, 'z cstate_scheme) kop \<Rightarrow> bytes \<Rightarrow> bytes \<Rightarrow> trapframe \<Rightarrow>
   (unit, 'z cstate_scheme) kop" where
  "trap dv stk dump kbd com f =
     (if tf_trapno f = T_SYSCALL then trap_syscall dv stk f
      else
        seqk
         (if tf_trapno f = T_IRQ0 + IRQ_TIMER then timer_tick
          else if tf_trapno f = T_IRQ0 + IRQ_IDE then ret ()
          else if tf_trapno f = T_IRQ0 + IRQ_IDE + 1 then ret ()
          else if tf_trapno f = T_IRQ0 + IRQ_KBD then kbdintr dump kbd
          else if tf_trapno f = T_IRQ0 + IRQ_COM1 then uartintr dump com
          else if tf_trapno f = T_IRQ0 + 7 \<or> tf_trapno f = T_IRQ0 + IRQ_SPURIOUS then ret ()
          else
            bind (gets (\<lambda>s. curproc (mycpu s))) (\<lambda>cp. case cp of
              None \<Rightarrow> panic ''trap''
            | Some p \<Rightarrow>
                if tf_cs f AND 3 = 0 then panic ''trap''
                else modify (upd_proc p (\<lambda>q. q\<lparr>killed := True\<rparr>))))
         (trap_end dv f))"

definition tvinit :: "(unit, 'z machine_scheme) kop" where
  "tvinit = initlock Lk_tick ''time''"

end
