(* ===== verification/Paging.thy ===== *)
theory Paging
  imports Vm
begin

text \<open>
  What the page tables of \<open>vm.c\<close> mean: the mapping that a page directory describes, the invariant of a page directory in memory
  (its tables are pages of their own that the allocator does not hand out), and the effect of \<open>walkpgdir\<close> and
  \<open>mappages\<close> on the mapping.
\<close>

section \<open>Words in pages\<close>

lemma entry_div:
  fixes d i :: u32
  assumes "i < 1024"
  shows "unat (d - 4 * i) < 4 \<longleftrightarrow> unat d div 4 = unat i"
proof -
  have i: "unat i < 1024" using assms by (simp add: word_less_nat_alt)
  then have i4: "unat (4 * i) = 4 * unat i" by (simp add: unat_word_ariths)
  have d: "unat d div 4 = unat i \<longleftrightarrow> 4 * unat i \<le> unat d \<and> unat d < 4 * unat i + 4" by (auto simp: div_nat_eqI)
  show ?thesis
  proof (cases "4 * i \<le> d")
    case True
    then have "unat (d - 4 * i) = unat d - 4 * unat i" "4 * unat i \<le> unat d" by (simp_all add: unat_sub word_le_nat_alt i4)
    then show ?thesis using d by auto
  next
    case False
    then have "unat (d - 4 * i) = unat d + 2 ^ 32 - 4 * unat i" "unat d < 4 * unat i"
      by (simp_all add: unat_sub_if' word_le_nat_alt i4)
    then show ?thesis using d i by auto
  qed
qed

lemma entry_addr:
  fixes x p i :: u32
  assumes "i < 1024"
  shows "unat (x - (p + 4 * i)) < 4 \<longleftrightarrow> unat (x - p) div 4 = unat i"
  using entry_div [OF assms, of "x - p"] by (simp add: diff_diff_eq)

lemma entry_in_page:
  fixes x p i :: u32
  assumes "i < 1024" "unat (x - (p + 4 * i)) < 4"
  shows "unat (x - p) < 4096"
  using assms entry_addr [OF assms(1), of x p] by (simp add: word_less_nat_alt)

lemma rd32_put32_entry:
  assumes "i < 1024" "j < 1024"
  shows "rd32 (put32 (p + 4 * i) w m) (p + 4 * j) = (if i = j then w else rd32 m (p + 4 * j))"
proof (cases "i = j")
  case False
  have "rd32 (put32 (p + 4 * i) w m) (p + 4 * j) = rd32 m (p + 4 * j)"
  proof (rule rd32_cong)
    fix x assume "unat (x - (p + 4 * j)) < 4"
    then have "\<not> unat (x - (p + 4 * i)) < 4" using assms False by (simp add: entry_addr word_unat_eq_iff)
    then show "put32 (p + 4 * i) w m x = m x" by (rule put32_other)
  qed
  then show ?thesis using False by simp
qed simp

text \<open>Changes within one page do not show in the entries of another page.\<close>

lemma rd32_entry_other:
  assumes "p mod PGSIZE = 0" "q mod PGSIZE = 0" "p \<noteq> q" "j < 1024" "\<And>x. \<not> unat (x - q) < 4096 \<Longrightarrow> m x = m' x"
  shows "rd32 m (p + 4 * j) = rd32 m' (p + 4 * j)"
proof (rule rd32_cong, rule assms(5))
  fix x assume "unat (x - (p + 4 * j)) < 4"
  then have "unat (x - p) < 4096" using assms(4) by (rule entry_in_page [rotated])
  then show "\<not> unat (x - q) < 4096" by (rule other_page [OF assms(1-3)])
qed

lemma put32_page: "i < 1024 \<Longrightarrow> \<not> unat (x - q) < 4096 \<Longrightarrow> put32 (q + 4 * i) w m x = m x"
  using entry_in_page by (blast intro: put32_other)

lemma memset_page: "\<not> unat (x - q) < 4096 \<Longrightarrow> memset q c PGSIZE m x = m x"
  by (simp add: memset_apply PGSIZE_def)

lemma rd32_zero_page: "j < 1024 \<Longrightarrow> rd32 (memset p 0 PGSIZE m) (p + 4 * j) = 0"
proof -
  assume j: "j < 1024"
  have "rd32 (memset p 0 PGSIZE m) (p + 4 * j) = rd32 (\<lambda>_. 0) (p + 4 * j)"
  proof (rule rd32_cong)
    fix x assume "unat (x - (p + 4 * j)) < 4"
    then have "unat (x - p) < 4096" by (rule entry_in_page [OF j])
    then show "memset p 0 PGSIZE m x = 0" by (simp add: memset_apply PGSIZE_def)
  qed
  also have "\<dots> = 0" by (simp add: rd32_def de32_def)
  finally show ?thesis .
qed

section \<open>Entries\<close>

lemma PDX_less: "PDX va < 1024"
  using and_mask_less' [of 10 "drop_bit 22 va"] by (simp add: PDX_def mask_eq_exp_minus_1)

lemma PTX_less: "PTX va < 1024"
  using and_mask_less' [of 10 "drop_bit 12 va"] by (simp add: PTX_def mask_eq_exp_minus_1)

lemma index_masks: "PDX a = drop_bit 22 a AND mask 10" "PTX a = drop_bit 12 a AND mask 10" "PGROUNDDOWN a = a AND NOT (mask 12)"
  by (simp_all add: PDX_def PTX_def PGROUNDDOWN_def PGSIZE_def mask_eq_exp_minus_1)

text \<open>The two indices of an address determine its page.\<close>

lemma same_page: "PGROUNDDOWN a = PGROUNDDOWN b \<longleftrightarrow> PDX a = PDX b \<and> PTX a = PTX b"
proof
  assume *: "PGROUNDDOWN a = PGROUNDDOWN b"
  have "bit a n = bit b n" if "12 \<le> n" "n < 32" for n
    using arg_cong [OF *, of "\<lambda>w. bit w n"] that by (simp add: index_masks bit_simps)
  then have "bit (PDX a) n = bit (PDX b) n" "bit (PTX a) n = bit (PTX b) n" if "n < 32" for n
    using that by (auto simp: index_masks bit_simps)
  then show "PDX a = PDX b \<and> PTX a = PTX b" by (auto intro: bit_word_eqI)
next
  assume *: "PDX a = PDX b \<and> PTX a = PTX b"
  have d: "bit a (22 + n) = bit b (22 + n)" if "n < 10" for n
    using arg_cong [OF conjunct1 [OF *], of "\<lambda>w. bit w n"] that by (simp add: index_masks bit_simps)
  have t: "bit a (12 + n) = bit b (12 + n)" if "n < 10" for n
    using arg_cong [OF conjunct2 [OF *], of "\<lambda>w. bit w n"] that by (simp add: index_masks bit_simps)
  show "PGROUNDDOWN a = PGROUNDDOWN b"
  proof (rule bit_word_eqI)
    fix n assume n: "n < LENGTH(32)"
    have "n < 12 \<or> bit a n = bit b n"
    proof (cases "n < 22")
      case True
      then show ?thesis using t [of "n - 12"] by (cases "n < 12") simp_all
    next
      case False
      then show ?thesis using d [of "n - 22"] n by simp
    qed
    then show "bit (PGROUNDDOWN a) n = bit (PGROUNDDOWN b) n" by (auto simp: index_masks(3) bit_and_iff bit_not_iff bit_mask_iff)
  qed
qed

lemma aligned_mask: "p mod PGSIZE = 0 \<longleftrightarrow> p AND mask 12 = 0"
  using word_mod_2p_is_mask [of 12 p] by (simp add: PGSIZE_def)

lemma PTE_ADDR_flags:
  assumes "p mod PGSIZE = 0" "f AND NOT (mask 12) = 0"
  shows "PTE_ADDR (p OR f) = p"
proof -
  have z: "\<not> (bit p n \<and> n < 12)" for n
    using arg_cong [OF assms(1) [unfolded aligned_mask], of "\<lambda>w. bit w n"] by (auto simp: bit_and_iff bit_mask_iff)
  have "p AND NOT (mask 12) = p"
    by (rule bit_word_eqI) (use z in \<open>auto simp: bit_and_iff bit_not_iff bit_mask_iff\<close>)
  then show ?thesis using assms(2) by (simp add: PTE_ADDR_def mask_eq_exp_minus_1 bit.conj_disj_distrib2)
qed

lemma page_v2p:
  assumes "page s p"
  shows "v2p p mod PGSIZE = 0" "p2v (v2p p) = p"
proof -
  have a: "unat p mod 4096 = 0" using assms page_unat by (auto simp: page_def)
  have "2147483648 \<le> unat p"
  proof (rule ccontr)
    assume "\<not> 2147483648 \<le> unat p"
    then have "unat (p - KERNBASE) = unat p + 2147483648" by (simp add: unat_sub_if' KERNBASE_def)
    then show False using assms by (simp add: page_def v2p_def PHYSTOP_def word_less_nat_alt)
  qed
  then have "unat (v2p p) = unat p - 2147483648" by (simp add: v2p_def KERNBASE_def unat_sub word_le_nat_alt)
  moreover have "(unat p - 2147483648) mod 4096 = 0"
    using a by (simp add: mod_eq_0_iff_dvd dvd_diff_nat)
  ultimately have "unat (v2p p mod PGSIZE) = 0" by (simp add: unat_mod PGSIZE_def)
  then show "v2p p mod PGSIZE = 0" by (simp add: unat_eq_0)
  show "p2v (v2p p) = p" by (simp add: p2v_def v2p_def)
qed

definition pt_flags :: u32 where "pt_flags = PTE_P OR PTE_W OR PTE_U"

lemma pt_flags_simps: "pt_flags AND NOT (mask 12) = 0" "present (x OR pt_flags)"
proof -
  show "pt_flags AND NOT (mask 12) = 0" by (simp add: pt_flags_def PTE_P_def PTE_W_def PTE_U_def mask_eq_exp_minus_1)
  have "bit ((x OR pt_flags) AND PTE_P) 0" by (simp add: bit_and_iff bit_or_iff pt_flags_def PTE_P_def)
  then show "present (x OR pt_flags)" unfolding present_def by auto
qed

lemma present_simps [simp]: "\<not> present 0" "present (x OR y OR PTE_P)"
proof -
  show "\<not> present 0" by (simp add: present_def)
  have "bit ((x OR y OR PTE_P) AND PTE_P) 0" by (simp add: bit_and_iff bit_or_iff PTE_P_def)
  then show "present (x OR y OR PTE_P)" unfolding present_def by auto
qed

section \<open>The mapping of a page directory\<close>

definition pde :: "(u32 \<Rightarrow> byte) \<Rightarrow> u32 \<Rightarrow> u32 \<Rightarrow> u32" where
  "pde m pd va = rd32 m (pd + 4 * PDX va)"

definition table :: "(u32 \<Rightarrow> byte) \<Rightarrow> u32 \<Rightarrow> u32 \<Rightarrow> u32" where
  "table m pd va = p2v (PTE_ADDR (pde m pd va))"

definition mapping :: "(u32 \<Rightarrow> byte) \<Rightarrow> u32 \<Rightarrow> u32 \<Rightarrow> u32 option" where
  "mapping m pd va =
     (if present (pde m pd va) \<and> present (rd32 m (table m pd va + 4 * PTX va))
      then Some (rd32 m (table m pd va + 4 * PTX va)) else None)"

text \<open>
  A page directory in memory: the directory and its tables are pages that are in use, and no page serves twice.
\<close>

definition pt_ok :: "'z mstate_scheme \<Rightarrow> u32 \<Rightarrow> bool" where
  "pt_ok s pd \<longleftrightarrow> page s pd \<and> pd \<notin> freepages s \<and>
     (\<forall>va. present (pde (ram s) pd va) \<longrightarrow>
        page s (table (ram s) pd va) \<and> table (ram s) pd va \<notin> freepages s \<and> table (ram s) pd va \<noteq> pd) \<and>
     (\<forall>va vb. present (pde (ram s) pd va) \<and> present (pde (ram s) pd vb) \<and> PDX va \<noteq> PDX vb \<longrightarrow>
        table (ram s) pd va \<noteq> table (ram s) pd vb)"

lemma pt_okD:
  assumes "pt_ok s pd"
  shows "page s pd" "pd \<notin> freepages s"
    "present (pde (ram s) pd va) \<Longrightarrow> page s (table (ram s) pd va)"
    "present (pde (ram s) pd va) \<Longrightarrow> table (ram s) pd va \<notin> freepages s"
    "present (pde (ram s) pd va) \<Longrightarrow> table (ram s) pd va \<noteq> pd"
    "present (pde (ram s) pd va) \<Longrightarrow> present (pde (ram s) pd vb) \<Longrightarrow> PDX va \<noteq> PDX vb \<Longrightarrow>
       table (ram s) pd va \<noteq> table (ram s) pd vb"
  using assms by (simp_all add: pt_ok_def)

lemma page_aligned: "page s p \<Longrightarrow> p mod PGSIZE = 0"
  by (simp add: page_def)

lemma free_frame:
  assumes "kmem_ok s" "\<And>p x. p \<in> freepages s \<Longrightarrow> unat (x - p) < 4096 \<Longrightarrow> m x = ram s x"
  shows "kmem_ok (s\<lparr>ram := m\<rparr>)" "freepages (s\<lparr>ram := m\<rparr>) = freepages s"
proof -
  obtain ps where ps: "kmem_ready s" "chain (ram s) (freelist s) ps" "distinct ps" "\<forall>p \<in> set ps. page s p" "freepages s = set ps"
    using assms(1) by (rule kmem_okE)
  have "rd32 m p = rd32 (ram s) p" if "p \<in> set ps" for p
    by (rule rd32_cong) (use assms(2) [of p] that ps(5) in simp)
  then have c: "chain (ram (s\<lparr>ram := m\<rparr>)) (freelist (s\<lparr>ram := m\<rparr>)) ps" using ps(2) by (simp add: chain_frame)
  then show "kmem_ok (s\<lparr>ram := m\<rparr>)" unfolding kmem_ok_def using ps by auto
  show "freepages (s\<lparr>ram := m\<rparr>) = freepages s" using freepages_chain [OF c] ps(5) by simp
qed

text \<open>A change inside one page that is in use does not disturb the allocator.\<close>

lemma free_page_frame:
  assumes "kmem_ok s" "page s q" "q \<notin> freepages s" "\<And>x. \<not> unat (x - q) < 4096 \<Longrightarrow> m x = ram s x"
  shows "kmem_ok (s\<lparr>ram := m\<rparr>)" "freepages (s\<lparr>ram := m\<rparr>) = freepages s"
proof -
  have *: "m x = ram s x" if p: "p \<in> freepages s" and x: "unat (x - p) < 4096" for p x
  proof (rule assms(4), rule other_page [OF _ _ _ x])
    show "p mod PGSIZE = 0" using p kpages.avail_ours [OF assms(1)] by (simp add: page_def)
    show "q mod PGSIZE = 0" using assms(2) by (rule page_aligned)
    show "p \<noteq> q" using p assms(3) by blast
  qed
  then show "kmem_ok (s\<lparr>ram := m\<rparr>)" "freepages (s\<lparr>ram := m\<rparr>) = freepages s" using free_frame [OF assms(1)] by blast+
qed

text \<open>
  The operations on page tables change the memory and the free list only.  The pages of a directory are the directory and its
  tables; a directory \<^emph>\<open>grows\<close> when it takes pages off the free list and writes to nothing but its own pages.
\<close>

definition memop :: "'z mstate_scheme \<Rightarrow> 'z mstate_scheme \<Rightarrow> bool" where
  "memop s t \<longleftrightarrow> (\<exists>m f. t = s\<lparr>ram := m, freelist := f\<rparr>)"

definition pt_pages :: "(u32 \<Rightarrow> byte) \<Rightarrow> u32 \<Rightarrow> u32 set" where
  "pt_pages m pd = insert pd {table m pd va |va. present (pde m pd va)}"

definition grows :: "u32 \<Rightarrow> 'z mstate_scheme \<Rightarrow> 'z mstate_scheme \<Rightarrow> bool" where
  "grows pd s t \<longleftrightarrow> memop s t \<and> freepages t \<subseteq> freepages s \<and>
     pt_pages (ram t) pd = pt_pages (ram s) pd \<union> (freepages s - freepages t) \<and>
     (\<forall>x. ram t x \<noteq> ram s x \<longrightarrow> (\<exists>p \<in> pt_pages (ram s) pd \<union> (freepages s - freepages t). unat (x - p) < 4096))"

lemma memopI: "memop s (s\<lparr>ram := m, freelist := f\<rparr>)" by (auto simp: memop_def)

lemma memop_upd [simp]: "memop s s" "memop s (s\<lparr>ram := m\<rparr>)" "memop s (s\<lparr>freelist := f\<rparr>)"
  using memopI [of s "freelist s" "ram s"] memopI [of s "freelist s" m] memopI [of s f "ram s"] by simp_all

lemma memop_trans: "memop s t \<Longrightarrow> memop t u \<Longrightarrow> memop s u"
  unfolding memop_def by (elim exE) (simp, blast)

lemma memop_page: "memop s t \<Longrightarrow> page t = page s"
  unfolding memop_def by (elim exE) simp

lemma grows_refl [simp]: "grows pd s s" by (simp add: grows_def)

lemma growsD:
  assumes "grows pd s t"
  shows "memop s t" "freepages t \<subseteq> freepages s" "page t = page s"
    "pt_pages (ram t) pd = pt_pages (ram s) pd \<union> (freepages s - freepages t)"
    "(\<And>p. p \<in> pt_pages (ram s) pd \<union> (freepages s - freepages t) \<Longrightarrow> \<not> unat (x - p) < 4096) \<Longrightarrow> ram t x = ram s x"
  using assms memop_page unfolding grows_def by blast+

lemma grows_trans: "grows pd s t \<Longrightarrow> grows pd t u \<Longrightarrow> grows pd s u"
proof (unfold grows_def, elim conjE, intro conjI allI impI)
  fix x
  assume a: "freepages t \<subseteq> freepages s" "freepages u \<subseteq> freepages t"
    "pt_pages (ram t) pd = pt_pages (ram s) pd \<union> (freepages s - freepages t)"
    "\<forall>x. ram t x \<noteq> ram s x \<longrightarrow> (\<exists>p \<in> pt_pages (ram s) pd \<union> (freepages s - freepages t). unat (x - p) < 4096)"
    "\<forall>x. ram u x \<noteq> ram t x \<longrightarrow> (\<exists>p \<in> pt_pages (ram t) pd \<union> (freepages t - freepages u). unat (x - p) < 4096)"
    "ram u x \<noteq> ram s x"
  then consider "ram t x \<noteq> ram s x" | "ram u x \<noteq> ram t x" by metis
  then show "\<exists>p \<in> pt_pages (ram s) pd \<union> (freepages s - freepages u). unat (x - p) < 4096"
    using a by cases blast+
qed (use memop_trans in blast)+

lemma kalloc_cases:
  assumes "kmem_ok s"
  obtains (none) "kalloc s = Done 0 s" "freepages s = {}"
  | (some) p t where "kalloc s = Done p t" "p \<noteq> 0" "kmem_ok t" "page s p" "p \<in> freepages s" "freepages t = freepages s - {p}"
      "t = s\<lparr>freelist := freelist t\<rparr>"
proof (cases "freepages s = {}")
  case True
  then have "kalloc_opt s = Done None s" by (rule kpages.alloc_none [OF assms])
  then have "kalloc s = Done 0 s" by (auto simp: kalloc_opt_def bind_def split: outcome.splits if_splits)
  then show thesis using True by (rule none)
next
  case False
  then obtain p t where t: "kalloc_opt s = Done (Some p) t" "kmem_ok t" "p \<in> freepages s" "freepages t = freepages s - {p}"
    using kpages.alloc_some [OF assms] by blast
  have k: "kalloc s = Done p t" "p \<noteq> 0" using t(1) by (auto simp: kalloc_opt_def bind_def split: outcome.splits if_splits)
  have "kmem_ready s" using assms by (simp add: kmem_ok_def)
  then have "t = s\<lparr>freelist := freelist t\<rparr>" using kalloc_eq [of s] k(1) by (auto split: if_splits)
  then show thesis using k t kpages.avail_ours [OF assms t(3)] by (intro some)
qed

section \<open>Walking\<close>

lemma walk_present:
  "present (pde (ram s) pd va) \<Longrightarrow> walkpgdir pd va al s = Done (table (ram s) pd va + 4 * PTX va) s"
  by (simp add: walkpgdir_def load_def bind_def pde_def table_def)

lemma walk_absent: "\<not> present (pde (ram s) pd va) \<Longrightarrow> walkpgdir pd va False s = Done 0 s"
  by (simp add: walkpgdir_def load_def bind_def pde_def)

text \<open>The memory after a new table \<open>p\<close> was entered for \<open>va\<close>.\<close>

definition with_table :: "u32 \<Rightarrow> u32 \<Rightarrow> u32 \<Rightarrow> (u32 \<Rightarrow> byte) \<Rightarrow> u32 \<Rightarrow> byte" where
  "with_table pd va p m = put32 (pd + 4 * PDX va) (v2p p OR pt_flags) (memset p 0 PGSIZE m)"

lemma with_table_entries:
  assumes "page s p" "page s pd" "p \<noteq> pd"
  shows "pde (with_table pd va p m) pd vb = (if PDX vb = PDX va then v2p p OR pt_flags else pde m pd vb)"
    "PDX vb = PDX va \<Longrightarrow> table (with_table pd va p m) pd vb = p"
    "PDX vb \<noteq> PDX va \<Longrightarrow> table (with_table pd va p m) pd vb = table m pd vb"
    "rd32 (with_table pd va p m) (p + 4 * PTX vb) = 0"
    "page s q \<Longrightarrow> q \<noteq> p \<Longrightarrow> q \<noteq> pd \<Longrightarrow> rd32 (with_table pd va p m) (q + 4 * PTX vb) = rd32 m (q + 4 * PTX vb)"
proof -
  note al = page_aligned [OF assms(1)] page_aligned [OF assms(2)]
  have "rd32 (memset p 0 PGSIZE m) (pd + 4 * PDX vb) = rd32 m (pd + 4 * PDX vb)"
    by (rule rd32_entry_other [OF al(2,1) _ PDX_less memset_page]) (use assms(3) in auto)
  then show e: "pde (with_table pd va p m) pd vb = (if PDX vb = PDX va then v2p p OR pt_flags else pde m pd vb)"
    by (simp add: with_table_def pde_def rd32_put32_entry PDX_less)
  then show "PDX vb = PDX va \<Longrightarrow> table (with_table pd va p m) pd vb = p"
    using page_v2p [OF assms(1)] by (simp add: table_def PTE_ADDR_flags pt_flags_simps)
  show "PDX vb \<noteq> PDX va \<Longrightarrow> table (with_table pd va p m) pd vb = table m pd vb" using e by (simp add: table_def)
  have "rd32 (with_table pd va p m) (p + 4 * PTX vb) = rd32 (memset p 0 PGSIZE m) (p + 4 * PTX vb)"
    unfolding with_table_def by (rule rd32_entry_other [OF al assms(3) PTX_less put32_page [OF PDX_less]])
  then show "rd32 (with_table pd va p m) (p + 4 * PTX vb) = 0" by (simp add: rd32_zero_page PTX_less)
  show "rd32 (with_table pd va p m) (q + 4 * PTX vb) = rd32 m (q + 4 * PTX vb)" if "page s q" "q \<noteq> p" "q \<noteq> pd"
  proof -
    have "rd32 (with_table pd va p m) (q + 4 * PTX vb) = rd32 (memset p 0 PGSIZE m) (q + 4 * PTX vb)"
      unfolding with_table_def by (rule rd32_entry_other [OF page_aligned [OF that(1)] al(2) that(3) PTX_less put32_page [OF PDX_less]])
    also have "\<dots> = rd32 m (q + 4 * PTX vb)"
      by (rule rd32_entry_other [OF page_aligned [OF that(1)] al(1) that(2) PTX_less memset_page])
    finally show ?thesis .
  qed
qed

text \<open>A new table, entered for an address that had none, leaves the mapping as it was.\<close>

lemma with_table_mapping:
  assumes "pt_ok s pd" "page s p" "p \<in> freepages s" "\<not> present (pde (ram s) pd va)"
  shows "mapping (with_table pd va p (ram s)) pd = mapping (ram s) pd"
proof
  fix vb
  have ne: "p \<noteq> pd" using assms(1,3) pt_okD(2) by blast
  note w = with_table_entries [OF assms(2) pt_okD(1) [OF assms(1)] ne]
  show "mapping (with_table pd va p (ram s)) pd vb = mapping (ram s) pd vb"
  proof (cases "PDX vb = PDX va")
    case True
    then have "\<not> present (pde (ram s) pd vb)" using assms(4) by (simp add: pde_def)
    then show ?thesis using True w(2,4) by (simp add: mapping_def)
  next
    case False
    show ?thesis
    proof (cases "present (pde (ram s) pd vb)")
      case True
      note t = pt_okD(3-5) [OF assms(1) True]
      have "table (ram s) pd vb \<noteq> p" using t(2) assms(3) by blast
      then show ?thesis using w(5) [OF t(1) _ t(3)] False by (simp add: mapping_def w(1) w(3) [OF False])
    next
      case absent: False
      then show ?thesis using False by (simp add: mapping_def w(1))
    qed
  qed
qed

lemma with_table_pt_ok:
  assumes "kmem_ok s" "pt_ok s pd" "freepages s = insert p F" "p \<notin> F" "page s p" "\<not> present (pde (ram s) pd va)"
    and t: "ram t = with_table pd va p (ram s)" "freepages t = F" "page t = page s"
  shows "pt_ok t pd" "present (pde (ram t) pd va)" "table (ram t) pd va = p"
proof -
  have pf: "p \<in> freepages s" using assms(3) by simp
  have ne: "p \<noteq> pd" using assms(2) pf pt_okD(2) by blast
  note w = with_table_entries [OF assms(5) pt_okD(1) [OF assms(2)] ne]
  show "present (pde (ram t) pd va)" "table (ram t) pd va = p" by (simp_all add: t(1) w(1,2) pt_flags_simps)
  have tab: "(PDX vb = PDX va \<and> table (ram t) pd vb = p) \<or>
      (PDX vb \<noteq> PDX va \<and> present (pde (ram s) pd vb) \<and> table (ram t) pd vb = table (ram s) pd vb \<and> table (ram s) pd vb \<noteq> p)"
    if "present (pde (ram t) pd vb)" for vb
  proof (cases "PDX vb = PDX va")
    case True
    then show ?thesis by (simp add: t(1) w(2))
  next
    case False
    then have "present (pde (ram s) pd vb)" using that by (simp add: t(1) w(1))
    then show ?thesis using False pt_okD(4) [OF assms(2)] pf by (auto simp: t(1) w(3) [OF False])
  qed
  show "pt_ok t pd" unfolding pt_ok_def
  proof (intro conjI allI impI)
    show "page t pd" "pd \<notin> freepages t" using pt_okD(1,2) [OF assms(2)] assms(3) t by auto
    fix va' assume "present (pde (ram t) pd va')"
    note c = tab [OF this]
    show "page t (table (ram t) pd va')" using c pt_okD(3) [OF assms(2)] assms(5) t(3) by auto
    show "table (ram t) pd va' \<notin> freepages t" using c pt_okD(4) [OF assms(2)] assms(3,4) t(2) by auto
    show "table (ram t) pd va' \<noteq> pd" using c pt_okD(5) [OF assms(2)] ne by auto
  next
    fix va' vb assume *: "present (pde (ram t) pd va') \<and> present (pde (ram t) pd vb) \<and> PDX va' \<noteq> PDX vb"
    then show "table (ram t) pd va' \<noteq> table (ram t) pd vb"
      using tab [of va'] tab [of vb] pt_okD(6) [OF assms(2), of va' vb] by auto
  qed
qed

text \<open>What \<open>walkpgdir\<close> with allocation gives: the entry for the address, or 0 when there is no page left for a table.\<close>

lemma with_table_grows:
  assumes "page s p" "page s pd" "p \<noteq> pd" "p \<in> freepages s" "memop s t" "freepages t = freepages s - {p}"
    "ram t = with_table pd va p (ram s)" "\<not> present (pde (ram s) pd va)"
  shows "grows pd s t"
proof -
  note w = with_table_entries [OF assms(1-3)]
  have "present (pde (ram t) pd va)" "table (ram t) pd va = p"
    by (simp_all add: assms(7) w(1,2,3) pt_flags_simps(2))
  then have "p \<in> pt_pages (ram t) pd"
    by (auto simp: pt_pages_def)
  moreover have "table (ram s) pd vb \<in> pt_pages (ram t) pd" if "present (pde (ram s) pd vb)" for vb
  proof -
    have "PDX vb \<noteq> PDX va" using that assms(8) by (auto simp: pde_def)
    then have "present (pde (ram t) pd vb)" "table (ram t) pd vb = table (ram s) pd vb"
      using that by (simp_all add: assms(7) w(1,2,3))
    then show ?thesis by (auto simp: pt_pages_def)
  qed
  then have "pt_pages (ram s) pd \<subseteq> pt_pages (ram t) pd"
    by (auto simp: pt_pages_def [of "ram s"]) (simp add: pt_pages_def)
  moreover have "table (ram t) pd vb = p \<or> table (ram t) pd vb = table (ram s) pd vb \<and> present (pde (ram s) pd vb)"
    if "present (pde (ram t) pd vb)" for vb
    using that by (cases "PDX vb = PDX va") (simp_all add: assms(7) w(1,2,3))
  then have "pt_pages (ram t) pd \<subseteq> insert p (pt_pages (ram s) pd)"
    unfolding pt_pages_def by blast
  moreover have "ram t x = ram s x" if "\<not> unat (x - p) < 4096" "\<not> unat (x - pd) < 4096" for x
    using that by (simp add: assms(7) with_table_def put32_page PDX_less memset_page)
  moreover have "freepages s - freepages t = {p}" "pd \<in> pt_pages (ram s) pd"
    using assms(4,6) by (auto simp: pt_pages_def)
  ultimately show ?thesis unfolding grows_def using assms(4-6) by auto
qed

lemma walk_alloc:
  assumes "kmem_ok s" "pt_ok s pd"
  obtains (full) "walkpgdir pd va True s = Done 0 s" "freepages s = {}" "\<not> present (pde (ram s) pd va)"
  | (got) t where "walkpgdir pd va True s = Done (table (ram t) pd va + 4 * PTX va) t" "kmem_ok t" "pt_ok t pd"
      "grows pd s t" "present (pde (ram t) pd va)" "mapping (ram t) pd = mapping (ram s) pd"
proof (cases "present (pde (ram s) pd va)")
  case True
  then show thesis using walk_present [OF True] assms by (intro got [of s]) auto
next
  case absent: False
  from assms(1) show thesis
  proof (cases rule: kalloc_cases)
    case none
    then have "walkpgdir pd va True s = Done 0 s"
      using absent by (simp add: walkpgdir_def load_def bind_def pde_def)
    then show thesis using none(2) absent by (rule full)
  next
    case (some p u)
    have ram: "ram u = ram s" by (subst some(7)) simp
    have pg: "page u = page s" by (subst some(7)) simp
    have ne: "p \<noteq> pd" using some(5) pt_okD(2) [OF assms(2)] by blast
    let ?t = "u\<lparr>ram := with_table pd va p (ram s)\<rparr>"
    have w: "walkpgdir pd va True s = Done (p + 4 * PTX va) ?t"
      using absent some(1,2) by (simp add: walkpgdir_def load_def store_def zero_page_def bind_def seqk_def pde_def with_table_def pt_flags_def ram)
    have *: "with_table pd va p (ram s) x = ram u x" if q: "q \<in> freepages u" and x: "unat (x - q) < 4096" for q x
    proof -
      have "page s q" using q kpages.avail_ours [OF some(3)] pg by simp
      moreover have "q \<noteq> p" "q \<noteq> pd" using q some(6) pt_okD(2) [OF assms(2)] by auto
      ultimately have "\<not> unat (x - p) < 4096" "\<not> unat (x - pd) < 4096"
        using other_page [OF _ _ _ x] page_aligned some(4) pt_okD(1) [OF assms(2)] by blast+
      then show ?thesis by (simp add: with_table_def put32_page PDX_less memset_page ram)
    qed
    note f = free_frame [OF some(3) *]
    have ins: "freepages s = insert p (freepages u)" "p \<notin> freepages u" using some(5,6) by auto
    have r: "ram ?t = with_table pd va p (ram s)" "freepages ?t = freepages u" "page ?t = page s" using f(2) pg by simp_all
    have "memop s ?t" using memop_trans [OF _ memop_upd(2), of s u] by (subst (asm) some(7)) simp
    then have "grows pd s ?t" using with_table_grows [OF some(4) pt_okD(1) [OF assms(2)] ne some(5), of ?t] f(2) some(6) absent by simp
    then show thesis
    proof (rule got [rotated 3])
      note t = with_table_pt_ok [OF assms ins some(4) absent r]
      show "walkpgdir pd va True s = Done (table (ram ?t) pd va + 4 * PTX va) ?t" using w t(3) by simp
      show "kmem_ok ?t" by (rule f(1))
      show "pt_ok ?t pd" "present (pde (ram ?t) pd va)" by (rule t(1), rule t(2))
      show "mapping (ram ?t) pd = mapping (ram s) pd" using with_table_mapping [OF assms(2) some(4,5) absent] by simp
    qed
  qed
qed

section \<open>Changing an entry\<close>

lemma slot_store:
  fixes s :: "'z mstate_scheme" and pd va vb e :: u32
  assumes "kmem_ok s" "pt_ok s pd" "present (pde (ram s) pd va)"
  defines "m \<equiv> put32 (table (ram s) pd va + 4 * PTX va) e (ram s)"
  defines "t \<equiv> s\<lparr>ram := m\<rparr>"
  shows "kmem_ok t" "pt_ok t pd" "freepages t = freepages s" "page t = page s" "pde m pd vb = pde (ram s) pd vb"
    "mapping m pd vb = (if PGROUNDDOWN vb = PGROUNDDOWN va then (if present e then Some e else None) else mapping (ram s) pd vb)"
proof -
  let ?q = "table (ram s) pd va"
  note q = pt_okD(3-5) [OF assms(2,3)]
  note al = page_aligned [OF q(1)] page_aligned [OF pt_okD(1) [OF assms(2)]]
  have out: "m x = ram s x" if "\<not> unat (x - ?q) < 4096" for x
    unfolding m_def by (rule put32_page [OF PTX_less that])
  note f = free_page_frame [OF assms(1) q(1,2) out]
  show k: "kmem_ok t" "freepages t = freepages s" "page t = page s" using f by (simp_all add: t_def)
  have pdes: "pde m pd vb = pde (ram s) pd vb" for vb
    unfolding pde_def by (rule rd32_entry_other [OF al(2,1) q(3) [symmetric] PDX_less out])
  then show "pde m pd vb = pde (ram s) pd vb" .
  have tabs: "table m pd vb = table (ram s) pd vb" for vb by (simp add: table_def pdes)
  show "pt_ok t pd" using assms(2) unfolding pt_ok_def k(2,3) by (simp add: t_def pdes tabs)
  show "mapping m pd vb = (if PGROUNDDOWN vb = PGROUNDDOWN va then (if present e then Some e else None) else mapping (ram s) pd vb)"
  proof (cases "present (pde (ram s) pd vb)")
    case False
    then have "PDX vb \<noteq> PDX va" using assms(3) by (auto simp: pde_def)
    then show ?thesis using False by (simp add: mapping_def pdes same_page)
  next
    case True
    show ?thesis
    proof (cases "PDX vb = PDX va")
      case same: True
      then have tb: "table (ram s) pd vb = ?q" by (simp add: table_def pde_def)
      have "rd32 m (?q + 4 * PTX vb) = (if PTX vb = PTX va then e else rd32 (ram s) (?q + 4 * PTX vb))"
        unfolding m_def using rd32_put32_entry [OF PTX_less PTX_less] by auto
      then show ?thesis using True same
        by (cases "PTX vb = PTX va") (simp_all add: mapping_def pdes tabs tb same_page)
    next
      case other: False
      have "?q \<noteq> table (ram s) pd vb" using pt_okD(6) [OF assms(2,3) True] other by auto
      then have "rd32 m (table (ram s) pd vb + 4 * PTX vb) = rd32 (ram s) (table (ram s) pd vb + 4 * PTX vb)"
        using rd32_entry_other [OF page_aligned [OF pt_okD(3) [OF assms(2) True]] al(1) _ PTX_less out] by auto
      then show ?thesis using other by (simp add: mapping_def pdes tabs same_page)
    qed
  qed
qed

lemma slot_store_grows:
  assumes "kmem_ok s" "pt_ok s pd" "present (pde (ram s) pd va)"
  shows "grows pd s (s\<lparr>ram := put32 (table (ram s) pd va + 4 * PTX va) e (ram s)\<rparr>)" (is "grows pd s ?t")
proof -
  note st = slot_store [OF assms, of e]
  have "pt_pages (ram ?t) pd = pt_pages (ram s) pd" using st(5) by (simp add: pt_pages_def table_def)
  moreover have "table (ram s) pd va \<in> pt_pages (ram s) pd" using assms(3) by (auto simp: pt_pages_def)
  moreover have "ram ?t x = ram s x" if "\<not> unat (x - table (ram s) pd va) < 4096" for x
    using put32_page [OF PTX_less that] by simp
  ultimately show ?thesis unfolding grows_def st(3) by auto
qed

section \<open>Mapping a range of pages\<close>

text \<open>The number of the page of an address, counted from \<open>a\<close> around the address space.\<close>

definition page_no :: "u32 \<Rightarrow> u32 \<Rightarrow> nat" where
  "page_no a vb = unat (PGROUNDDOWN vb - a) div 4096"

lemma round_aligned [simp]: "PGROUNDDOWN vb mod PGSIZE = 0"
  unfolding aligned_mask index_masks by (rule bit_word_eqI) (auto simp: bit_and_iff bit_not_iff bit_mask_iff)

lemma round_same: "a mod PGSIZE = 0 \<Longrightarrow> PGROUNDDOWN a = a"
  using PTE_ADDR_flags [of a 0] by (simp add: PTE_ADDR_def PGROUNDDOWN_def PGSIZE_def)

lemma page_multiple:
  assumes "p mod PGSIZE = 0"
  obtains i where "unat p = 4096 * i"
  using page_unat [OF assms] by (auto simp: mod_eq_0_iff_dvd)

lemma aligned_diff:
  assumes "a mod PGSIZE = 0" "b mod PGSIZE = 0"
  shows "(a - b) mod PGSIZE = 0"
proof -
  obtain i where i: "unat a = 4096 * i" by (rule page_multiple [OF assms(1)])
  obtain j where j: "unat b = 4096 * j" by (rule page_multiple [OF assms(2)])
  have "unat (a - b) mod 4096 = 0"
  proof (cases "b \<le> a")
    case True
    have "unat (a - b) = 4096 * (i - j)" unfolding unat_sub [OF True] i j by (simp only: diff_mult_distrib2)
    then show ?thesis by simp
  next
    case False
    then have "unat (a - b) = 4096 * i + 4096 * 1048576 - 4096 * j" by (simp add: unat_sub_if' word_le_nat_alt i j)
    also have "\<dots> = 4096 * (i + 1048576 - j)" by (simp only: diff_mult_distrib2 add_mult_distrib2)
    finally show ?thesis by simp
  qed
  then have "unat ((a - b) mod PGSIZE) = 0" by (simp add: unat_mod PGSIZE_def)
  then show ?thesis by (simp add: unat_eq_0)
qed

lemma page_no_next:
  assumes "a mod PGSIZE = 0"
  shows "page_no a vb = 0 \<longleftrightarrow> PGROUNDDOWN vb = a"
    "page_no (a + PGSIZE) vb = (if page_no a vb = 0 then 1048575 else page_no a vb - 1)"
proof -
  let ?D = "PGROUNDDOWN vb - a"
  obtain q where q: "unat ?D = 4096 * q" by (rule page_multiple [OF aligned_diff [OF round_aligned assms]])
  have n: "page_no a vb = q" by (simp add: page_no_def q)
  show z: "page_no a vb = 0 \<longleftrightarrow> PGROUNDDOWN vb = a" unfolding n using q offset_0 [of "PGROUNDDOWN vb" a] by auto
  have e: "PGROUNDDOWN vb - (a + PGSIZE) = ?D - 4096" by (simp add: PGSIZE_def)
  show "page_no (a + PGSIZE) vb = (if page_no a vb = 0 then 1048575 else page_no a vb - 1)"
  proof (cases "q = 0")
    case True
    then have "?D = 0" using q by (simp add: unat_eq_0)
    then have "unat (?D - 4096) = 4294963200" by simp
    then show ?thesis using True n unfolding page_no_def e by simp
  next
    case False
    then have "unat (?D - 4096) = 4096 * q - 4096" using q by (subst unat_sub) (simp_all add: word_le_nat_alt)
    then show ?thesis using False n unfolding page_no_def e by simp
  qed
qed

definition range_mapping :: "nat \<Rightarrow> u32 \<Rightarrow> u32 \<Rightarrow> u32 \<Rightarrow> (u32 \<Rightarrow> u32 option) \<Rightarrow> u32 \<Rightarrow> u32 option" where
  "range_mapping k a pa perm f vb =
     (if page_no a vb \<le> k then Some ((pa + of_nat (page_no a vb) * PGSIZE) OR perm OR PTE_P) else f vb)"

lemma range_mapping_Suc:
  assumes "a mod PGSIZE = 0" "Suc k < 1048576"
  shows "range_mapping k (a + PGSIZE) (pa + PGSIZE) perm
    (\<lambda>vb. if PGROUNDDOWN vb = a then Some (pa OR perm OR PTE_P) else f vb) = range_mapping (Suc k) a pa perm f"
proof
  fix vb
  note n = page_no_next [OF assms(1), of vb]
  show "range_mapping k (a + PGSIZE) (pa + PGSIZE) perm (\<lambda>vb. if PGROUNDDOWN vb = a then Some (pa OR perm OR PTE_P) else f vb) vb =
    range_mapping (Suc k) a pa perm f vb"
  proof (cases "page_no a vb")
    case 0
    then show ?thesis using assms(2) n by (simp add: range_mapping_def)
  next
    case (Suc i)
    have "page_no (a + PGSIZE) vb = i" "PGROUNDDOWN vb \<noteq> a" using n Suc by auto
    then show ?thesis using Suc by (simp add: range_mapping_def algebra_simps)
  qed
qed

text \<open>One round of the loop: the address is mapped, or there is no page left for a table.\<close>

definition map_one :: "u32 \<Rightarrow> u32 \<Rightarrow> u32 \<Rightarrow> u32 \<Rightarrow> (int, 'z mstate_scheme) kop" where
  "map_one pd a pa perm =
     bind (walkpgdir pd a True) (\<lambda>pte.
     if pte = 0 then ret (- 1)
     else
       bind (load pte) (\<lambda>e.
       if present e then panic ''remap''
       else seqk (store pte (pa OR perm OR PTE_P)) (ret 0)))"

lemma mappages_loop_map_one:
  "mappages_loop 0 pd a pa perm = map_one pd a pa perm"
  "mappages_loop (Suc k) pd a pa perm s =
     (case map_one pd a pa perm s of
        Done r t \<Rightarrow> if r < 0 then Done r t else mappages_loop k pd (a + PGSIZE) (pa + PGSIZE) perm t
      | x \<Rightarrow> x)"
  by (auto simp: map_one_def bind_def seqk_def split: outcome.splits)

declare mappages_loop.simps [simp del]

lemma slot_nonzero:
  assumes "page s q"
  shows "q + 4 * PTX va \<noteq> 0"
proof
  assume z: "q + 4 * PTX va = 0"
  have "unat (0 - (q + 4 * PTX va)) < 4" using z by simp
  then have "unat (0 - q) < 4096" by (rule entry_in_page [OF PTX_less])
  then have "unat (0 :: u32) div 4096 = unat q div 4096" using in_page [OF page_aligned [OF assms], of 0] by simp
  then have "unat q < 4096" by simp
  then have "q < 4096" by (simp add: word_less_nat_alt)
  moreover have "PHYSTOP \<le> v2p q" if "q < 4096"
    using that by (simp add: v2p_def KERNBASE_def PHYSTOP_def word_le_nat_alt word_less_nat_alt unat_sub_if')
  ultimately show False using assms by (auto simp: page_def linorder_not_less [symmetric])
qed

lemma map_one_eq:
  assumes "kmem_ok s" "pt_ok s pd" "mapping (ram s) pd a = None" "a mod PGSIZE = 0"
  obtains (full) "map_one pd a pa perm s = Done (- 1) s" "freepages s = {}"
  | (got) t where "map_one pd a pa perm s = Done 0 t" "kmem_ok t" "pt_ok t pd" "grows pd s t"
      "mapping (ram t) pd = (\<lambda>vb. if PGROUNDDOWN vb = a then Some (pa OR perm OR PTE_P) else mapping (ram s) pd vb)"
  using assms(1,2)
proof (cases rule: walk_alloc [of s pd a])
  case full
  then show thesis using that(1) by (simp add: map_one_def bind_def)
next
  case (got u)
  define p where "p = table (ram u) pd a + 4 * PTX a"
  have p: "p \<noteq> 0" unfolding p_def by (rule slot_nonzero [OF pt_okD(3) [OF got(3,5)]])
  have "mapping (ram u) pd a = None" unfolding got(6) by (rule assms(3))
  then have np: "\<not> present (rd32 (ram u) p)" using got(5) by (simp add: mapping_def p_def split: if_splits)
  note st = slot_store [OF got(2,3,5), of "pa OR perm OR PTE_P", folded p_def]
  have "map_one pd a pa perm s = Done 0 (u\<lparr>ram := put32 p (pa OR perm OR PTE_P) (ram u)\<rparr>)"
    using got(1) [folded p_def] p np by (simp add: map_one_def bind_def seqk_def load_def store_def)
  then show thesis
  proof (rule that(2) [OF _ st(1,2)])
    show "grows pd s (u\<lparr>ram := put32 p (pa OR perm OR PTE_P) (ram u)\<rparr>)"
      by (rule grows_trans [OF got(4) slot_store_grows [OF got(2,3,5), folded p_def]])
    show "mapping (ram (u\<lparr>ram := put32 p (pa OR perm OR PTE_P) (ram u)\<rparr>)) pd =
        (\<lambda>vb. if PGROUNDDOWN vb = a then Some (pa OR perm OR PTE_P) else mapping (ram s) pd vb)"
      using st(6) by (simp add: fun_eq_iff round_same [OF assms(4)] got(6))
  qed
qed

lemma range_mapping_0:
  assumes "a mod PGSIZE = 0"
  shows "range_mapping 0 a pa perm f = (\<lambda>vb. if PGROUNDDOWN vb = a then Some (pa OR perm OR PTE_P) else f vb)"
  unfolding page_no_next(1) [OF assms, symmetric] by (auto simp: range_mapping_def fun_eq_iff)

lemma mappages_loop_eq:
  assumes "kmem_ok s" "pt_ok s pd" "k < 1048576" "a mod PGSIZE = 0"
    "\<And>vb. page_no a vb \<le> k \<Longrightarrow> mapping (ram s) pd vb = None"
  shows "\<exists>r t. mappages_loop k pd a pa perm s = Done r t \<and> kmem_ok t \<and> pt_ok t pd \<and> grows pd s t \<and>
    (r = 0 \<and> mapping (ram t) pd = range_mapping k a pa perm (mapping (ram s) pd) \<or> r = - 1 \<and> freepages t = {})"
  using assms
proof (induction k arbitrary: s a pa)
  case 0
  have "mapping (ram s) pd a = None" using page_no_next(1) [OF "0.prems"(4), of a] round_same [OF "0.prems"(4)]
    by (intro "0.prems"(5)) simp
  with "0.prems"(1,2) show ?case using "0.prems"(4)
  proof (cases rule: map_one_eq [where pa = pa and perm = perm])
    case full
    then show ?thesis using "0.prems" by (simp add: mappages_loop_map_one)
  next
    case (got t)
    then show ?thesis by (simp add: mappages_loop_map_one range_mapping_0 [OF "0.prems"(4)])
  qed
next
  case (Suc k)
  have "mapping (ram s) pd a = None" using page_no_next(1) [OF Suc.prems(4), of a] round_same [OF Suc.prems(4)]
    by (intro Suc.prems(5)) simp
  with Suc.prems(1,2) show ?case using Suc.prems(4)
  proof (cases rule: map_one_eq [where pa = pa and perm = perm])
    case full
    then show ?thesis using Suc.prems by (simp add: mappages_loop_map_one)
  next
    case (got u)
    have al: "(a + PGSIZE) mod PGSIZE = 0" using aligned_diff [OF Suc.prems(4), of "- PGSIZE"] by (simp add: PGSIZE_def)
    have free: "mapping (ram u) pd vb = None" if "page_no (a + PGSIZE) vb \<le> k" for vb
      using that page_no_next [OF Suc.prems(4), of vb] Suc.prems(3) Suc.prems(5) [of vb]
      by (auto simp: got(5) split: if_splits)
    have "k < 1048576" using Suc.prems(3) by simp
    from Suc.IH [OF got(2,3) this al free, of "pa + PGSIZE"]
    obtain r t where "mappages_loop k pd (a + PGSIZE) (pa + PGSIZE) perm u = Done r t" "kmem_ok t" "pt_ok t pd" "grows pd u t"
      "r = 0 \<and> mapping (ram t) pd = range_mapping (Suc k) a pa perm (mapping (ram s) pd) \<or> r = - 1 \<and> freepages t = {}"
      unfolding got(5) range_mapping_Suc [OF Suc.prems(4,3)] by blast
    then show ?thesis using grows_trans [OF got(4)] by (auto simp: mappages_loop_map_one got(1))
  qed
qed

lemma page_no_mult:
  assumes "a mod PGSIZE = 0"
  shows "4096 * page_no a vb = unat (PGROUNDDOWN vb - a)" "of_nat (page_no a vb) * PGSIZE = PGROUNDDOWN vb - a"
proof -
  obtain q where q: "unat (PGROUNDDOWN vb - a) = 4096 * q" by (rule page_multiple [OF aligned_diff [OF round_aligned assms]])
  then show e: "4096 * page_no a vb = unat (PGROUNDDOWN vb - a)" by (simp add: page_no_def)
  have "of_nat (page_no a vb) * PGSIZE = (of_nat (4096 * page_no a vb) :: u32)" by (simp add: PGSIZE_def)
  then show "of_nat (page_no a vb) * PGSIZE = PGROUNDDOWN vb - a" unfolding e by simp
qed

text \<open>
  A function on addresses changed on the pages from \<open>a\<close> to \<open>b\<close>: the page of \<open>vb\<close> gets the physical page that lies as far from
  \<open>pa\<close> as the page of \<open>vb\<close> from \<open>a\<close>.
\<close>

definition map_range :: "u32 \<Rightarrow> u32 \<Rightarrow> u32 \<Rightarrow> u32 \<Rightarrow> (u32 \<Rightarrow> u32 option) \<Rightarrow> u32 \<Rightarrow> u32 option" where
  "map_range a b pa perm f vb =
     (if PGROUNDDOWN vb - a \<le> b - a then Some ((pa + (PGROUNDDOWN vb - a)) OR perm OR PTE_P) else f vb)"

lemma page_no_le:
  assumes "a mod PGSIZE = 0"
  shows "page_no a vb \<le> page_no a vc \<longleftrightarrow> PGROUNDDOWN vb - a \<le> PGROUNDDOWN vc - a"
  unfolding word_le_nat_alt page_no_mult(1) [OF assms, symmetric] by simp

lemma range_mapping_eq:
  assumes "a mod PGSIZE = 0"
  shows "range_mapping (page_no a vc) a pa perm f = map_range a (PGROUNDDOWN vc) pa perm f"
  by (simp add: fun_eq_iff range_mapping_def map_range_def page_no_le [OF assms] page_no_mult(2) [OF assms])

lemma mappages_eq:
  assumes "kmem_ok s" "pt_ok s pd"
    "\<And>vb. PGROUNDDOWN vb - PGROUNDDOWN va \<le> PGROUNDDOWN (va + n - 1) - PGROUNDDOWN va \<Longrightarrow> mapping (ram s) pd vb = None"
  shows "\<exists>r t. mappages pd va n pa perm s = Done r t \<and> kmem_ok t \<and> pt_ok t pd \<and> grows pd s t \<and>
    (r = 0 \<and> mapping (ram t) pd = map_range (PGROUNDDOWN va) (PGROUNDDOWN (va + n - 1)) pa perm (mapping (ram s) pd) \<or>
     r = - 1 \<and> freepages t = {})"
proof -
  let ?k = "page_no (PGROUNDDOWN va) (va + n - 1)"
  have k: "unat ((PGROUNDDOWN (va + n - 1) - PGROUNDDOWN va) div PGSIZE) = ?k" by (simp add: page_no_def unat_div PGSIZE_def)
  have "?k < 1048576" unfolding page_no_def using unat_u32_less [of "PGROUNDDOWN (va + n - 1) - PGROUNDDOWN va"]
    by (simp add: less_mult_imp_div_less)
  moreover have "mapping (ram s) pd vb = None" if "page_no (PGROUNDDOWN va) vb \<le> ?k" for vb
    using that by (simp add: page_no_le assms(3))
  ultimately have "\<exists>r t. mappages_loop ?k pd (PGROUNDDOWN va) pa perm s = Done r t \<and> kmem_ok t \<and> pt_ok t pd \<and> grows pd s t \<and>
      (r = 0 \<and> mapping (ram t) pd = range_mapping ?k (PGROUNDDOWN va) pa perm (mapping (ram s) pd) \<or> r = - 1 \<and> freepages t = {})"
    by (intro mappages_loop_eq [OF assms(1,2)] round_aligned)
  then show ?thesis by (simp add: mappages_def Let_def k range_mapping_eq)
qed

section \<open>A new page directory\<close>

lemma new_pgdir:
  assumes "kmem_ok s" "page s pd" "pd \<notin> freepages s"
  shows "kmem_ok (s\<lparr>ram := memset pd 0 PGSIZE (ram s)\<rparr>)" "pt_ok (s\<lparr>ram := memset pd 0 PGSIZE (ram s)\<rparr>) pd"
    "freepages (s\<lparr>ram := memset pd 0 PGSIZE (ram s)\<rparr>) = freepages s"
    "mapping (memset pd 0 PGSIZE (ram s)) pd = (\<lambda>vb. None)" "pt_pages (memset pd 0 PGSIZE (ram s)) pd = {pd}"
proof -
  have "memset pd 0 PGSIZE (ram s) x = ram s x" if "\<not> unat (x - pd) < 4096" for x by (rule memset_page [OF that])
  note f = free_page_frame [OF assms this]
  have z: "pde (memset pd 0 PGSIZE (ram s)) pd vb = 0" for vb by (simp add: pde_def rd32_zero_page PDX_less)
  show "kmem_ok (s\<lparr>ram := memset pd 0 PGSIZE (ram s)\<rparr>)" "freepages (s\<lparr>ram := memset pd 0 PGSIZE (ram s)\<rparr>) = freepages s" using f by simp_all
  then show "pt_ok (s\<lparr>ram := memset pd 0 PGSIZE (ram s)\<rparr>) pd" using assms(2,3) by (simp add: pt_ok_def z)
  show "mapping (memset pd 0 PGSIZE (ram s)) pd = (\<lambda>vb. None)" by (simp add: mapping_def z fun_eq_iff)
  show "pt_pages (memset pd 0 PGSIZE (ram s)) pd = {pd}" by (simp add: pt_pages_def z)
qed

lemma round_diff:
  assumes "a mod PGSIZE = 0"
  shows "unat (PGROUNDDOWN vb - a) = 4096 * (unat (vb - a) div 4096)"
proof -
  obtain q where q: "unat (PGROUNDDOWN vb - a) = 4096 * q" by (rule page_multiple [OF aligned_diff [OF round_aligned assms]])
  define r where "r = unat (vb - PGROUNDDOWN vb)"
  have r: "r < 4096" unfolding r_def by (rule page_offset)
  have "4096 * q < 4096 * 1048576" using unat_u32_less [of "PGROUNDDOWN vb - a"] by (simp add: q)
  then have "unat (PGROUNDDOWN vb - a) + unat (vb - PGROUNDDOWN vb) < 2 ^ 32" using r by (simp add: q r_def)
  then have "unat ((PGROUNDDOWN vb - a) + (vb - PGROUNDDOWN vb)) = 4096 * q + r"
    by (subst unat_word_ariths(1)) (simp add: q r_def)
  then show ?thesis using r by (simp add: q)
qed

lemma in_pages:
  assumes "a mod PGSIZE = 0" "n mod PGSIZE = 0" "n \<noteq> 0"
  shows "PGROUNDDOWN vb - a \<le> PGROUNDDOWN (a + n - 1) - a \<longleftrightarrow> vb - a < n"
proof -
  obtain k where k: "unat n = 4096 * k" by (rule page_multiple [OF assms(2)])
  then obtain j where j: "k = Suc j" using assms(3) by (cases k) (simp_all add: unat_eq_0)
  have "unat (n - 1) = 4096 * j + 4095" unfolding unat_minus_one [OF assms(3)] k j by simp
  moreover have "a + n - 1 - a = n - 1" by simp
  ultimately have "unat (PGROUNDDOWN (a + n - 1) - a) = 4096 * j" unfolding round_diff [OF assms(1)] by simp
  then show ?thesis unfolding word_le_nat_alt word_less_nat_alt round_diff [OF assms(1), of vb] k j
    using div_less_iff_less_mult [of 4096 "unat (vb - a)" "Suc j"] by linarith
qed

text \<open>The mapping of the regions of \<open>kmap\<close>, added one after the other to the mapping \<open>f\<close>.\<close>

primrec map_regions :: "(u32 \<times> u32 \<times> u32 \<times> u32) list \<Rightarrow> (u32 \<Rightarrow> u32 option) \<Rightarrow> u32 \<Rightarrow> u32 option" where
  "map_regions [] f = f"
| "map_regions (k # ks) f =
     (case k of (virt, phys_start, phys_end, perm) \<Rightarrow>
       map_regions ks (\<lambda>vb. if vb - virt < phys_end - phys_start
         then Some ((phys_start + (PGROUNDDOWN vb - virt)) OR perm OR PTE_P) else f vb))"

text \<open>The regions are made of whole pages, are not empty and do not overlap.\<close>

primrec regions_ok :: "(u32 \<times> u32 \<times> u32 \<times> u32) list \<Rightarrow> bool" where
  "regions_ok [] \<longleftrightarrow> True"
| "regions_ok (k # ks) \<longleftrightarrow>
     (case k of (virt, phys_start, phys_end, perm) \<Rightarrow>
       virt mod PGSIZE = 0 \<and> (phys_end - phys_start) mod PGSIZE = 0 \<and> phys_end \<noteq> phys_start \<and>
       (\<forall>(v, p, e, _) \<in> set ks. \<forall>vb. \<not> (vb - virt < phys_end - phys_start \<and> vb - v < e - p)) \<and> regions_ok ks)"

lemma map_kernel_eq:
  assumes "kmem_ok s" "pt_ok s pd" "regions_ok ks" "\<And>v p e q vb. (v, p, e, q) \<in> set ks \<Longrightarrow> vb - v < e - p \<Longrightarrow> mapping (ram s) pd vb = None"
  shows "\<exists>ok t. map_kernel pd ks s = Done ok t \<and> kmem_ok t \<and> pt_ok t pd \<and> grows pd s t \<and>
    (ok \<and> mapping (ram t) pd = map_regions ks (mapping (ram s) pd) \<or> \<not> ok \<and> freepages t = {})"
  using assms
proof (induction ks arbitrary: s)
  case Nil
  then show ?case by auto
next
  case (Cons k ks)
  obtain virt ps pe perm where k: "k = (virt, ps, pe, perm)" by (cases k)
  have r: "virt mod PGSIZE = 0" "(pe - ps) mod PGSIZE = 0" "pe - ps \<noteq> 0" "regions_ok ks" using Cons.prems(3) by (simp_all add: k)
  have disj: "\<not> (vb - virt < pe - ps \<and> vb - v < e - p)" if "(v, p, e, q) \<in> set ks" for v p e q vb
    using Cons.prems(3) that unfolding k by fastforce
  note in_pages = in_pages [OF r(1-3)] and v = round_same [OF r(1)]
  have "mapping (ram s) pd vb = None" if "PGROUNDDOWN vb - PGROUNDDOWN virt \<le> PGROUNDDOWN (virt + (pe - ps) - 1) - PGROUNDDOWN virt" for vb
    using that Cons.prems(4) [of virt ps pe perm vb] unfolding v in_pages k by simp
  then obtain x u where u: "mappages pd virt (pe - ps) ps perm s = Done x u" "kmem_ok u" "pt_ok u pd" "grows pd s u"
    "x = 0 \<and> mapping (ram u) pd = map_range virt (PGROUNDDOWN (virt + (pe - ps) - 1)) ps perm (mapping (ram s) pd) \<or> x = - 1 \<and> freepages u = {}"
    using mappages_eq [OF Cons.prems(1,2), of virt "pe - ps" ps perm] unfolding v by blast
  show ?case
  proof (cases "x = 0")
    case True
    then have m: "mapping (ram u) pd = (\<lambda>vb. if vb - virt < pe - ps then Some ((ps + (PGROUNDDOWN vb - virt)) OR perm OR PTE_P) else mapping (ram s) pd vb)"
      using u(5) by (simp add: map_range_def fun_eq_iff in_pages)
    have free: "mapping (ram u) pd vb = None" if "(v, p, e, q) \<in> set ks" "vb - v < e - p" for v p e q vb
      using disj [OF that(1), of vb] that Cons.prems(4) [of v p e q vb] by (simp add: m)
    have "\<exists>ok t. map_kernel pd ks u = Done ok t \<and> kmem_ok t \<and> pt_ok t pd \<and> grows pd u t \<and>
        (ok \<and> mapping (ram t) pd = map_regions ks (mapping (ram u) pd) \<or> \<not> ok \<and> freepages t = {})"
      by (rule Cons.IH [OF u(2,3) r(4)]) (erule (1) free)
    then show ?thesis using True u(1) grows_trans [OF u(4)] by (auto simp: k bind_def m)
  next
    case False
    then show ?thesis using u by (auto simp: k bind_def)
  qed
qed

text \<open>
  The pages a new directory took: they come off the free list, and nothing else is written.
\<close>

lemma setupkvm_eq:
  assumes "kmem_ok s" "regions_ok (kmap (kdata s))"
  obtains (full) t d where "setupkvm s = Done 0 t" "kmem_ok t" "freepages t = {}" "memop s t"
      "\<And>x. (\<And>p. p \<in> freepages s \<Longrightarrow> \<not> unat (x - p) < 4096) \<Longrightarrow> ram t x = ram s x"
      "freepages s \<subseteq> pt_pages (ram t) d"
  | (got) d t where "setupkvm s = Done d t" "d \<noteq> 0" "kmem_ok t" "pt_ok t d" "d \<in> freepages s" "memop s t"
      "mapping (ram t) d = map_regions (kmap (kdata s)) (\<lambda>_. None)"
      "freepages t \<subseteq> freepages s" "pt_pages (ram t) d = freepages s - freepages t"
      "\<And>x. (\<And>p. p \<in> freepages s \<Longrightarrow> \<not> unat (x - p) < 4096) \<Longrightarrow> ram t x = ram s x"
  using assms(1)
proof (cases rule: kalloc_cases)
  case none
  then show thesis using full [of s] assms(1) by (simp add: setupkvm_def bind_def)
next
  case (some d u)
  let ?u = "u\<lparr>ram := memset d 0 PGSIZE (ram u)\<rparr>"
  have pg: "page u d" using some(4) by (subst some(7)) simp
  have du: "d \<notin> freepages u" using some(6) by simp
  note n = new_pgdir [OF some(3) pg du]
  have ram: "ram u = ram s" and kd: "kdata u = kdata s" by (subst some(7), simp)+
  have mu: "memop s u" by (subst some(7)) simp
  have "mapping (ram ?u) d = (\<lambda>_. None)" using n(4) by simp
  with map_kernel_eq [OF n(1,2) assms(2)] obtain ok t where t: "map_kernel d (kmap (kdata s)) ?u = Done ok t" "kmem_ok t" "pt_ok t d" "grows d ?u t"
    "ok \<and> mapping (ram t) d = map_regions (kmap (kdata s)) (\<lambda>_. None) \<or> \<not> ok \<and> freepages t = {}"
    by auto
  note g = growsD [OF t(4)]
  have mt: "memop s t" using memop_trans [OF mu memop_trans [OF memop_upd(2) g(1)]] .
  have eq: "setupkvm s = Done (if ok then d else 0) t"
    using some(1,2) t(1) kd by (simp add: setupkvm_def bind_def seqk_def zero_page_def p2v_def KERNBASE_def PHYSTOP_def DEVSPACE_def)
  have x: "ram t x = ram s x" if x: "\<And>p. p \<in> freepages s \<Longrightarrow> \<not> unat (x - p) < 4096" for x
  proof -
    have "ram t x = ram ?u x" using x g(5) [of x] n(3,5) some(5,6) by auto
    then show ?thesis using memset_page [of x d] x [OF some(5)] by (simp add: ram)
  qed
  show thesis
  proof (cases ok)
    case False
    have "freepages t = {}" using False t(5) by simp
    moreover have "freepages s \<subseteq> pt_pages (ram t) d" using g(4) n(3,5) some(6) calculation by auto
    ultimately show thesis by (intro full [OF _ t(2) _ mt x]) (use False eq in simp_all)
  next
    case True
    have fr: "freepages t \<subseteq> freepages s - {d}" using g(2) n(3) some(6) by auto
    show thesis
    proof (rule got [OF _ some(2) t(2,3) some(5) mt _ _ _ x])
      show "setupkvm s = Done d t" "mapping (ram t) d = map_regions (kmap (kdata s)) (\<lambda>_. None)" using eq t(5) True by simp_all
      show "freepages t \<subseteq> freepages s" using fr by blast
      show "pt_pages (ram t) d = freepages s - freepages t" using g(4) n(3,5) some(5,6) fr by auto
    qed
  qed
qed

section \<open>The kernel's part of an address space\<close>

lemma sub_less:
  fixes a b x :: u32
  assumes "a \<le> b"
  shows "x - a < b - a \<longleftrightarrow> a \<le> x \<and> x < b"
  using assms unat_u32_less [of b] by (auto simp: word_le_nat_alt word_less_nat_alt unat_sub_if' split: if_splits)

lemma sub_less_top:
  fixes a x :: u32
  assumes "a \<noteq> 0"
  shows "x - a < 0 - a \<longleftrightarrow> a \<le> x"
proof -
  have "unat a \<noteq> 0" using assms by (simp add: unat_eq_0)
  then have "unat (0 - a) = 4294967296 - unat a" unfolding unat_sub_if' by simp
  then show ?thesis unfolding word_less_nat_alt word_le_nat_alt using unat_u32_less [of x] unat_u32_less [of a]
    by (auto simp: unat_sub_if' split: if_splits)
qed

text \<open>What the kernel maps: its text read-only, the other memory and the devices writable, all of it without user access.\<close>

definition kernel_mapping :: "u32 \<Rightarrow> u32 \<Rightarrow> u32 option" where
  "kernel_mapping dat va =
     (if va < KERNBASE then None
      else if KERNLINK \<le> va \<and> va < dat then Some (v2p (PGROUNDDOWN va) OR PTE_P)
      else if va < p2v PHYSTOP then Some (v2p (PGROUNDDOWN va) OR PTE_W OR PTE_P)
      else if va < DEVSPACE then None
      else Some (PGROUNDDOWN va OR PTE_W OR PTE_P))"

text \<open>The linker script puts \<open>data\<close> on a page boundary behind the text of the kernel.\<close>

definition data_ok :: "u32 \<Rightarrow> bool" where
  "data_ok dat \<longleftrightarrow> dat mod PGSIZE = 0 \<and> KERNLINK < dat \<and> dat < p2v PHYSTOP"

lemma kmap_sizes:
  "EXTMEM - 0 = KERNLINK - KERNBASE" "v2p dat - v2p KERNLINK = dat - KERNLINK" "PHYSTOP - v2p dat = p2v PHYSTOP - dat"
  by (simp_all add: v2p_def p2v_def KERNLINK_def)

lemma kmap_order:
  assumes "data_ok dat"
  shows "KERNBASE \<le> KERNLINK" "KERNLINK \<le> dat" "dat \<le> p2v PHYSTOP" "p2v PHYSTOP \<le> DEVSPACE" "DEVSPACE \<noteq> 0"
    "KERNLINK \<noteq> KERNBASE" "dat \<noteq> KERNLINK" "p2v PHYSTOP \<noteq> dat"
  using assms by (auto simp: data_ok_def KERNLINK_def KERNBASE_def EXTMEM_def p2v_def PHYSTOP_def DEVSPACE_def)

lemma kmap_aligned:
  assumes "data_ok dat"
  shows "KERNBASE mod PGSIZE = 0" "KERNLINK mod PGSIZE = 0" "dat mod PGSIZE = 0" "p2v PHYSTOP mod PGSIZE = 0" "DEVSPACE mod PGSIZE = 0"
  using assms by (auto simp: data_ok_def KERNLINK_def KERNBASE_def EXTMEM_def p2v_def PHYSTOP_def DEVSPACE_def PGSIZE_def)

lemma kmap_regions:
  assumes "data_ok dat"
  shows "vb - KERNBASE < EXTMEM - 0 \<longleftrightarrow> KERNBASE \<le> vb \<and> vb < KERNLINK"
    "vb - KERNLINK < v2p dat - v2p KERNLINK \<longleftrightarrow> KERNLINK \<le> vb \<and> vb < dat"
    "vb - dat < PHYSTOP - v2p dat \<longleftrightarrow> dat \<le> vb \<and> vb < p2v PHYSTOP"
    "vb - DEVSPACE < 0 - DEVSPACE \<longleftrightarrow> DEVSPACE \<le> vb"
  using kmap_order [OF assms] by (simp_all only: kmap_sizes sub_less sub_less_top simp_thms)

lemma kmap_ok:
  assumes "data_ok dat"
  shows "regions_ok (kmap dat)"
proof -
  note o = kmap_order [OF assms] and r = kmap_regions [OF assms] and al = kmap_aligned [OF assms]
  have n: "(EXTMEM - 0) mod PGSIZE = 0" "(v2p dat - v2p KERNLINK) mod PGSIZE = 0" "(PHYSTOP - v2p dat) mod PGSIZE = 0" "(0 - DEVSPACE) mod PGSIZE = 0"
    unfolding kmap_sizes by (rule aligned_diff, fact al, fact al)+ (simp add: DEVSPACE_def PGSIZE_def)
  have ne: "EXTMEM \<noteq> 0" "v2p dat \<noteq> v2p KERNLINK" "PHYSTOP \<noteq> v2p dat"
    using o(6-8) kmap_sizes(1) kmap_sizes(2,3) [of dat] by auto
  show ?thesis unfolding kmap_def regions_ok.simps prod.case using n al ne o r
    by (auto simp del: diff_0_right diff_0)
qed

lemma kmap_mapping:
  assumes "data_ok dat"
  shows "map_regions (kmap dat) (\<lambda>_. None) = kernel_mapping dat"
proof
  fix va
  note o = kmap_order [OF assms]
  have p: "v2p KERNLINK + (x - KERNLINK) = v2p x" "v2p dat + (x - dat) = v2p x" "0 + (x - KERNBASE) = v2p x" "DEVSPACE + (x - DEVSPACE) = x" for x
    by (simp_all add: v2p_def)
  consider "va < KERNBASE" | "KERNBASE \<le> va" "va < KERNLINK" | "KERNLINK \<le> va" "va < dat" | "dat \<le> va" "va < p2v PHYSTOP"
    | "p2v PHYSTOP \<le> va" "va < DEVSPACE" | "DEVSPACE \<le> va" by (metis not_le)
  then show "map_regions (kmap dat) (\<lambda>_. None) va = kernel_mapping dat va"
    unfolding kmap_def map_regions.simps prod.case kmap_regions [OF assms] p kernel_mapping_def
    using o by cases (auto simp: word_le_nat_alt word_less_nat_alt)
qed

section \<open>Properties\<close>

text \<open>C28 (mapping a range of pages). \<open>mappages\<close>, called on a range in which no page is mapped, either maps every page of the range
  to the physical page at the same distance, with the given permissions, and leaves every other address as it was, or returns -1
  because no page was left for a page table.  It writes to nothing but the directory, its tables and the free pages it takes, and
  the allocator and the directory stay well-formed.\<close>

theorem mappages_maps:
  assumes "kmem_ok s" "pt_ok s pd"
    "\<forall>vb. PGROUNDDOWN vb - PGROUNDDOWN va \<le> PGROUNDDOWN (va + n - 1) - PGROUNDDOWN va \<longrightarrow> mapping (ram s) pd vb = None"
  shows "\<exists>r t. mappages pd va n pa perm s = Done r t \<and> kmem_ok t \<and> pt_ok t pd \<and> grows pd s t \<and>
    (r = 0 \<and> mapping (ram t) pd = map_range (PGROUNDDOWN va) (PGROUNDDOWN (va + n - 1)) pa perm (mapping (ram s) pd) \<or>
     r = - 1 \<and> freepages t = {})"
  using assms by (intro mappages_eq) auto

lemma kdata_upd [simp]: "freepages (s\<lparr>kdata := d\<rparr>) = freepages s" "kmem_ok (s\<lparr>kdata := d\<rparr>) = kmem_ok s" "page (s\<lparr>kdata := d\<rparr>) = page s"
  by (simp_all add: freepages_def kmem_ok_def kmem_ready_def page_def cli_ok_def lock_free_def fun_eq_iff)

lemma boot_data:
  obtains t :: mstate where "kmem_ok t" "freepages t = {0x80111000, 0x80112000}" "kdata t = 0x80108000"
proof -
  obtain t :: mstate where "kmem_ok t" "freepages t = {0x80111000, 0x80112000}" by (rule boot_kmem)
  then show thesis by (intro that [of "t\<lparr>kdata := 0x80108000\<rparr>"]) simp_all
qed

lemma boot_pgdir:
  obtains t :: mstate and d where "kmem_ok t" "pt_ok t d" "mapping (ram t) d = (\<lambda>_. None)" "freepages t \<noteq> {}"
proof -
  obtain s :: mstate where s: "kmem_ok s" "freepages s = {0x80111000, 0x80112000}" by (rule boot_kmem)
  from s(1) show thesis
  proof (cases rule: kalloc_cases)
    case none
    then show ?thesis using s(2) by simp
  next
    case (some p u)
    have "page u p" using some(4) by (subst some(7)) simp
    from new_pgdir [OF some(3) this] show ?thesis using that [of "u\<lparr>ram := memset p 0 PGSIZE (ram u)\<rparr>" p] some(6) s(2) by auto
  qed
qed

theorem mappages_maps_witness:
  "\<exists>(s :: mstate) pd. kmem_ok s \<and> pt_ok s pd \<and> freepages s \<noteq> {} \<and> mapping (ram s) pd 0x2000 = None \<and>
     (\<exists>r t. mappages pd 0x1000 0x2000 0x5000 PTE_W s = Done r t \<and>
       (r = 0 \<and> mapping (ram t) pd 0x2004 = Some (0x6000 OR PTE_W OR PTE_P) \<or> r = - 1 \<and> freepages t = {}))"
proof -
  obtain s :: mstate and pd where s: "kmem_ok s" "pt_ok s pd" "mapping (ram s) pd = (\<lambda>_. None)" "freepages s \<noteq> {}" by (rule boot_pgdir)
  have "map_range (PGROUNDDOWN 0x1000) (PGROUNDDOWN (0x1000 + 0x2000 - 1)) 0x5000 PTE_W (\<lambda>_. None) 0x2004 = Some (0x6000 OR PTE_W OR PTE_P)"
    by (simp add: map_range_def PGROUNDDOWN_def PGSIZE_def)
  then show ?thesis using mappages_maps [OF s(1,2), of "0x1000" "0x2000" "0x5000" PTE_W] s
    by (intro exI [of _ s] exI [of _ pd]) (auto simp: s(3))
qed

text \<open>C27 (the kernel's address space). \<open>setupkvm\<close> returns a new page directory that maps exactly the kernel's memory and devices,
  the text of the kernel without write permission and nothing with user permission, or 0 when the pages run out.  All its pages
  come off the free list and no other memory is written.\<close>

theorem setupkvm_maps:
  assumes "kmem_ok s" "data_ok (kdata s)"
  shows "\<exists>d t. setupkvm s = Done d t \<and> kmem_ok t \<and>
    (d = 0 \<and> freepages t = {} \<or>
     d \<noteq> 0 \<and> pt_ok t d \<and> mapping (ram t) d = kernel_mapping (kdata s) \<and> pt_pages (ram t) d \<subseteq> freepages s - freepages t \<and>
     (\<forall>x. ram t x = ram s x \<or> (\<exists>p. p \<in> freepages s \<and> unat (x - p) < 4096)))"
  using assms(1) kmap_ok [OF assms(2)]
proof (cases rule: setupkvm_eq)
  case (full t)
  then show ?thesis by blast
next
  case (got d t)
  then show ?thesis using kmap_mapping [OF assms(2)] by (intro exI [of _ d] exI [of _ t]) (auto intro: got(10))
qed

theorem setupkvm_maps_witness:
  "\<exists>s :: mstate. kmem_ok s \<and> data_ok (kdata s) \<and> card (freepages s) = 2 \<and>
     (\<exists>d t. setupkvm s = Done d t \<and> kmem_ok t \<and> (d = 0 \<and> freepages t = {} \<or> mapping (ram t) d 0x80109123 = Some (0x109000 OR PTE_W OR PTE_P)))"
proof -
  obtain s :: mstate where s: "kmem_ok s" "freepages s = {0x80111000, 0x80112000}" "kdata s = 0x80108000" by (rule boot_data)
  have d: "data_ok (kdata s)" by (simp add: s(3) data_ok_def PGSIZE_def KERNLINK_def KERNBASE_def EXTMEM_def p2v_def PHYSTOP_def)
  have "kernel_mapping 0x80108000 0x80109123 = Some (0x109000 OR PTE_W OR PTE_P)"
    by (simp add: kernel_mapping_def PGROUNDDOWN_def PGSIZE_def v2p_def KERNBASE_def KERNLINK_def EXTMEM_def p2v_def PHYSTOP_def)
  then show ?thesis using setupkvm_maps [OF s(1) d] s d by (intro exI [of _ s]) auto
qed

end
