(* ===== verification/Uvm.thy ===== *)
theory Uvm
  imports Paging
begin

text \<open>
  User memory.  This theory shows what \<open>deallocuvm\<close>, \<open>freevm\<close> and \<open>copyuvm\<close> of \<open>vm.c\<close> do with the pages of an address space:
  no page is freed twice, none is lost, and a copy has the contents of the original.
\<close>

section \<open>Writing to a set of pages\<close>

definition only :: "u32 set \<Rightarrow> 'z mstate_scheme \<Rightarrow> 'z mstate_scheme \<Rightarrow> bool" where
  "only P s t \<longleftrightarrow> memop s t \<and> (\<forall>x. ram t x \<noteq> ram s x \<longrightarrow> (\<exists>p \<in> P. unat (x - p) < 4096))"

lemma only_refl [simp]: "only P s s"
  by (simp add: only_def)

lemma only_mono: "only P s t \<Longrightarrow> P \<subseteq> Q \<Longrightarrow> only Q s t"
  unfolding only_def by blast

lemma only_trans: "only P s t \<Longrightarrow> only P t u \<Longrightarrow> only P s u"
proof (unfold only_def, elim conjE, intro conjI allI impI)
  fix x
  assume a: "\<forall>x. ram t x \<noteq> ram s x \<longrightarrow> (\<exists>p \<in> P. unat (x - p) < 4096)" "\<forall>x. ram u x \<noteq> ram t x \<longrightarrow> (\<exists>p \<in> P. unat (x - p) < 4096)"
    "ram u x \<noteq> ram s x"
  then consider "ram t x \<noteq> ram s x" | "ram u x \<noteq> ram t x" by metis
  then show "\<exists>p \<in> P. unat (x - p) < 4096" using a by cases blast+
qed (use memop_trans in blast)

lemma only_memop: "only P s t \<Longrightarrow> memop s t"
  by (simp add: only_def)

lemma only_page:
  assumes "only P s t" "\<forall>q \<in> P. page s q" "page s p" "p \<notin> P" "unat (x - p) < 4096"
  shows "ram t x = ram s x"
proof (rule ccontr)
  assume "ram t x \<noteq> ram s x"
  then obtain q where q: "q \<in> P" "unat (x - q) < 4096" using assms(1) unfolding only_def by blast
  have "p \<noteq> q" using q(1) assms(4) by blast
  then have "\<not> unat (x - q) < 4096" using other_page [OF page_aligned [OF assms(3)] page_aligned [OF bspec [OF assms(2) q(1)]] _ assms(5)] by blast
  then show False using q(2) by simp
qed

lemma only_entry:
  assumes "only P s t" "\<forall>q \<in> P. page s q" "page s p" "p \<notin> P" "j < 1024"
  shows "rd32 (ram t) (p + 4 * j) = rd32 (ram s) (p + 4 * j)"
proof (rule rd32_cong)
  fix x assume "unat (x - (p + 4 * j)) < 4"
  then have "unat (x - p) < 4096" by (rule entry_in_page [OF assms(5)])
  with assms(1-4) show "ram t x = ram s x" by (rule only_page)
qed

lemma only_upd: "(\<And>x. \<not> unat (x - p) < 4096 \<Longrightarrow> m x = ram s x) \<Longrightarrow> only {p} s (s\<lparr>ram := m\<rparr>)"
  unfolding only_def by (auto intro: memop_upd)

lemma grows_only: "grows pd s t \<Longrightarrow> only (pt_pages (ram s) pd \<union> freepages s) s t"
  unfolding grows_def only_def by blast

text \<open>What is written outside the pages of a directory does not change what the directory maps.\<close>

lemma pt_okD_pages:
  assumes "pt_ok s pd" "p \<in> pt_pages (ram s) pd"
  shows "page s p" "p \<notin> freepages s"
  using assms pt_okD [OF assms(1)] by (auto simp: pt_pages_def)

lemma only_mapping:
  assumes "only P s t" "\<forall>q \<in> P. page s q" "pt_ok s pd" "P \<inter> pt_pages (ram s) pd = {}"
  shows "pde (ram t) pd = pde (ram s) pd" "mapping (ram t) pd = mapping (ram s) pd" "pt_pages (ram t) pd = pt_pages (ram s) pd"
    "freepages t \<inter> pt_pages (ram s) pd = {} \<Longrightarrow> pt_ok t pd"
proof -
  have "pd \<notin> P" using assms(4) by (auto simp: pt_pages_def)
  then have d: "pde (ram t) pd va = pde (ram s) pd va" for va
    unfolding pde_def by (rule only_entry [OF assms(1,2) pt_okD(1) [OF assms(3)] _ PDX_less])
  then show pde: "pde (ram t) pd = pde (ram s) pd" by (rule ext)
  have tab: "table (ram t) pd = table (ram s) pd" by (simp add: table_def fun_eq_iff d)
  show pp: "pt_pages (ram t) pd = pt_pages (ram s) pd" by (simp add: pt_pages_def pde tab)
  show "mapping (ram t) pd = mapping (ram s) pd"
  proof
    fix va
    show "mapping (ram t) pd va = mapping (ram s) pd va"
    proof (cases "present (pde (ram s) pd va)")
      case True
      then have "table (ram s) pd va \<notin> P" using assms(4) by (auto simp: pt_pages_def)
      from only_entry [OF assms(1,2) pt_okD(3) [OF assms(3) True] this PTX_less [of va]]
      show ?thesis by (simp add: mapping_def pde tab)
    qed (simp add: mapping_def pde)
  qed
  have "page t = page s" by (rule memop_page [OF only_memop [OF assms(1)]])
  then show "pt_ok t pd" if "freepages t \<inter> pt_pages (ram s) pd = {}"
    using assms(3) that unfolding pt_ok_def pde tab by (auto simp: pt_pages_def)
qed

section \<open>Address spaces\<close>

definition frame :: "u32 \<Rightarrow> u32" where
  "frame e = p2v (PTE_ADDR e)"

text \<open>The addresses at which the pages of user memory start, and the frames of the user pages from \<open>a\<close> to \<open>b\<close>.\<close>

definition upage :: "u32 \<Rightarrow> bool" where
  "upage va \<longleftrightarrow> va mod PGSIZE = 0 \<and> va < KERNBASE"

definition frames :: "(u32 \<Rightarrow> byte) \<Rightarrow> u32 \<Rightarrow> u32 \<Rightarrow> u32 \<Rightarrow> u32 set" where
  "frames m pd a b = {frame e |va e. upage va \<and> a \<le> va \<and> va < b \<and> mapping m pd va = Some e}"

text \<open>An address space: every frame of user memory is a page in use, for one page of user memory only.\<close>

definition as_ok :: "'z mstate_scheme \<Rightarrow> u32 \<Rightarrow> bool" where
  "as_ok s pd \<longleftrightarrow> pt_ok s pd \<and> KERNBASE < kend s \<and>
     (\<forall>va e. upage va \<and> mapping (ram s) pd va = Some e \<longrightarrow>
        page s (frame e) \<and> frame e \<notin> freepages s \<and> frame e \<notin> pt_pages (ram s) pd) \<and>
     (\<forall>va vb e f. upage va \<and> upage vb \<and> va \<noteq> vb \<and>
        mapping (ram s) pd va = Some e \<and> mapping (ram s) pd vb = Some f \<longrightarrow> frame e \<noteq> frame f)"

lemma as_okD:
  assumes "as_ok s pd"
  shows "pt_ok s pd" "KERNBASE < kend s"
    "upage va \<Longrightarrow> mapping (ram s) pd va = Some e \<Longrightarrow> page s (frame e)"
    "upage va \<Longrightarrow> mapping (ram s) pd va = Some e \<Longrightarrow> frame e \<notin> freepages s"
    "upage va \<Longrightarrow> mapping (ram s) pd va = Some e \<Longrightarrow> frame e \<notin> pt_pages (ram s) pd"
    "upage va \<Longrightarrow> upage vb \<Longrightarrow> va \<noteq> vb \<Longrightarrow> mapping (ram s) pd va = Some e \<Longrightarrow> mapping (ram s) pd vb = Some f \<Longrightarrow> frame e \<noteq> frame f"
  using assms unfolding as_ok_def by blast+

definition owned :: "(u32 \<Rightarrow> byte) \<Rightarrow> u32 \<Rightarrow> u32 set" where
  "owned m pd = pt_pages m pd \<union> frames m pd 0 KERNBASE"

lemma owned_page:
  assumes "as_ok s pd" "p \<in> owned (ram s) pd"
  shows "page s p" "p \<notin> freepages s"
  using assms(2) pt_okD_pages [OF as_okD(1) [OF assms(1)]] as_okD(3,4) [OF assms(1)]
  unfolding owned_def frames_def by blast+

lemma mapping_round: "mapping m pd (PGROUNDDOWN va) = mapping m pd va"
proof -
  have "PDX (PGROUNDDOWN va) = PDX va \<and> PTX (PGROUNDDOWN va) = PTX va"
    using same_page [of "PGROUNDDOWN va" va] round_same [OF round_aligned] by blast
  then show ?thesis by (simp add: mapping_def pde_def table_def)
qed

lemma kfree_only:
  assumes "kmem_ok s" "page s p" "p \<notin> freepages s"
  obtains t where "kfree p s = Done () t" "kmem_ok t" "freepages t = insert p (freepages s)" "only {p} s t"
proof -
  obtain t where t: "kfree p s = Done () t" "kmem_ok t" "freepages t = insert p (freepages s)" using kfree_step [OF assms] by blast
  have "kmem_ready s" using assms(1) by (simp add: kmem_ok_def)
  then have eq: "t = s\<lparr>ram := put32 p (freelist s) (memset p 1 PGSIZE (ram s)), freelist := p\<rparr>" using kfree_eq [OF _ assms(2)] t(1) by auto
  have "ram t x = ram s x" if "\<not> unat (x - p) < 4096" for x
    using put32_page [of 0 x p] that by (simp add: eq memset_page)
  then have "only {p} s t" unfolding only_def using memopI [of s] eq by blast
  then show thesis using t by (rule that [rotated 3])
qed

lemma frame_nonzero:
  assumes "page s (frame e)" "KERNBASE < kend s"
  shows "PTE_ADDR e \<noteq> 0"
proof
  assume "PTE_ADDR e = 0"
  then have "frame e = KERNBASE" by (simp add: frame_def p2v_def)
  then show False using assms unfolding page_def by auto
qed

section \<open>Freeing a range of pages\<close>

text \<open>A user page is freed: its frame goes to the free list and its entry is cleared.\<close>

lemma free_slot:
  assumes "kmem_ok s" "as_ok s pd" "upage a" "mapping (ram s) pd a = Some e"
  obtains t where "seqk (kfree (frame e)) (store (table (ram s) pd a + 4 * PTX a) 0) s = Done () t" "kmem_ok t" "as_ok t pd"
    "pde (ram t) pd = pde (ram s) pd" "mapping (ram t) pd = (\<lambda>vb. if PGROUNDDOWN vb = a then None else mapping (ram s) pd vb)"
    "freepages t = insert (frame e) (freepages s)" "only (insert (frame e) (pt_pages (ram s) pd)) s t"
proof -
  note f = as_okD(3-5) [OF assms(2-4)] and pt = as_okD(1) [OF assms(2)]
  obtain u where u: "kfree (frame e) s = Done () u" "kmem_ok u" "freepages u = insert (frame e) (freepages s)" "only {frame e} s u"
    by (rule kfree_only [OF assms(1) f(1,2)])
  have "\<forall>q \<in> {frame e}. page s q" "{frame e} \<inter> pt_pages (ram s) pd = {}" using f by simp_all
  note om = only_mapping [OF u(4) this(1) pt this(2)]
  have "freepages u \<inter> pt_pages (ram s) pd = {}" using u(3) f(3) pt_okD_pages(2) [OF pt] by auto
  then have ptu: "pt_ok u pd" by (rule om(4))
  have tab: "table (ram u) pd a = table (ram s) pd a" by (simp add: table_def om(1))
  have pr: "present (pde (ram u) pd a)" using assms(4) by (simp add: mapping_def om(1) split: if_splits)
  define t where "t = u\<lparr>ram := put32 (table (ram s) pd a + 4 * PTX a) 0 (ram u)\<rparr>"
  note st = slot_store [OF u(2) ptu pr, of 0, unfolded tab, folded t_def]
  note gr = slot_store_grows [OF u(2) ptu pr, of 0, unfolded tab, folded t_def]
  have rt: "ram t = put32 (table (ram s) pd a + 4 * PTX a) 0 (ram u)" by (simp add: t_def)
  have ra: "PGROUNDDOWN a = a" using assms(3) by (simp add: upage_def round_same)
  have pdt: "pde (ram t) pd = pde (ram s) pd" using st(5) om(1) by (simp add: fun_eq_iff rt)
  have mt: "mapping (ram t) pd = (\<lambda>vb. if PGROUNDDOWN vb = a then None else mapping (ram s) pd vb)"
    using st(6) by (simp add: fun_eq_iff rt om(2) ra)
  have ft: "freepages t = insert (frame e) (freepages s)" using st(3) u(3) by simp
  have pp: "pt_pages (ram t) pd = pt_pages (ram s) pd" by (simp add: pt_pages_def table_def pdt)
  have pg: "page t = page s" using st(4) memop_page [OF only_memop [OF u(4)]] by simp
  have "table (ram s) pd a \<in> pt_pages (ram s) pd" using pr om(1) by (auto simp: pt_pages_def)
  moreover have "only {table (ram s) pd a} u t" unfolding t_def by (rule only_upd) (rule put32_page [OF PTX_less])
  ultimately have on: "only (insert (frame e) (pt_pages (ram s) pd)) s t"
    using only_trans [OF only_mono [OF u(4), of "insert (frame e) (pt_pages (ram s) pd)"] only_mono [of "{table (ram s) pd a}" u t]] by blast
  have "as_ok t pd" unfolding as_ok_def
  proof (intro conjI allI impI)
    show "pt_ok t pd" by (rule st(2))
    have "memop s t" using on by (rule only_memop)
    then show "KERNBASE < kend t" using as_okD(2) [OF assms(2)] by (auto simp: memop_def)
  next
    fix va g assume g: "upage va \<and> mapping (ram t) pd va = Some g"
    then have ms: "mapping (ram s) pd va = Some g" "va \<noteq> a" using ra by (auto simp: mt split: if_splits)
    show "page t (frame g)" using as_okD(3) [OF assms(2) _ ms(1)] g pg by simp
    show "frame g \<notin> freepages t" using as_okD(4) [OF assms(2) _ ms(1)] as_okD(6) [OF assms(2) _ assms(3) ms(2,1) assms(4)] g ft by simp
    show "frame g \<notin> pt_pages (ram t) pd" using as_okD(5) [OF assms(2) _ ms(1)] g pp by simp
  next
    fix va vb g h assume "upage va \<and> upage vb \<and> va \<noteq> vb \<and> mapping (ram t) pd va = Some g \<and> mapping (ram t) pd vb = Some h"
    then show "frame g \<noteq> frame h" using as_okD(6) [OF assms(2), of va vb g h] by (auto simp: mt split: if_splits)
  qed
  moreover have "seqk (kfree (frame e)) (store (table (ram s) pd a + 4 * PTX a) 0) s = Done () t"
    using u(1) by (simp add: seqk_def bind_def store_def t_def)
  ultimately show thesis using that st(1) pdt mt ft on by blast
qed

lemma PDX_div: "unat (PDX a) = unat a div 4194304"
proof -
  have "unat a div 4194304 < 1024" using unat_u32_less [of a] by (simp add: less_mult_imp_div_less)
  then show ?thesis unfolding index_masks by (simp add: drop_bit_eq_div take_bit_eq_mod unat_mod unat_div flip: take_bit_eq_mask)
qed

lemma same_PDX: "PDX a = PDX b \<longleftrightarrow> unat a div 4194304 = unat b div 4194304"
  unfolding PDX_div [symmetric] by (rule word_unat_eq_iff)

lemma div_table: "4096 * i div 4194304 = i div (1024 :: nat)"
  using div_mult_mult1 [of 4096 i 1024] by simp

lemma mod_table: "4096 * i mod 4194304 = 4096 * (i mod (1024 :: nat))"
  using mult_mod_right [of 4096 i 1024] by simp

text \<open>The next page of user memory, and the next page directory entry.\<close>

lemma next_page:
  assumes "a mod PGSIZE = 0" "a < KERNBASE"
  shows "unat (a + PGSIZE) = unat a + 4096" "(a + PGSIZE) mod PGSIZE = 0"
    "va mod PGSIZE = 0 \<Longrightarrow> a \<le> va \<longleftrightarrow> va = a \<or> a + PGSIZE \<le> va"
    "PDX (a + PGSIZE) = PDX a \<or> unat (a + PGSIZE) mod 4194304 = 0"
proof -
  have lt: "unat a < 2147483648" using assms(2) by (simp add: KERNBASE_def word_less_nat_alt)
  obtain i where i: "unat a = 4096 * i" by (rule page_multiple [OF assms(1)])
  show n: "unat (a + PGSIZE) = unat a + 4096" using lt by (simp add: PGSIZE_def unat_word_ariths(1))
  show "(a + PGSIZE) mod PGSIZE = 0" using aligned_diff [OF assms(1), of "- PGSIZE"] by (simp add: PGSIZE_def)
  have "4096 * i + 4096 = 4096 * Suc i" by simp
  then show "PDX (a + PGSIZE) = PDX a \<or> unat (a + PGSIZE) mod 4194304 = 0"
    unfolding same_PDX n i by (simp only: div_table mod_table) (simp add: div_Suc mod_Suc)
  show "a \<le> va \<longleftrightarrow> va = a \<or> a + PGSIZE \<le> va" if va: "va mod PGSIZE = 0"
  proof -
    obtain j where j: "unat va = 4096 * j" by (rule page_multiple [OF va])
    have "va = a \<longleftrightarrow> unat va = unat a" by (rule word_unat_eq_iff)
    then have "va = a \<longleftrightarrow> j = i" unfolding i j by simp
    then show ?thesis unfolding word_le_nat_alt n i j by auto
  qed
qed

lemma next_table:
  assumes "unat a mod 4194304 = 0" "a < KERNBASE"
  defines "a' \<equiv> a + (NPTENTRIES - 1) * PGSIZE + PGSIZE"
  shows "unat a' = unat a + 4194304" "a' mod PGSIZE = 0" "\<not> a' \<le> va \<Longrightarrow> a \<le> va \<Longrightarrow> PDX va = PDX a"
proof -
  have lt: "unat a < 2147483648" using assms(2) by (simp add: KERNBASE_def word_less_nat_alt)
  obtain q where q: "unat a = 4194304 * q" using assms(1) by (auto simp: mod_eq_0_iff_dvd)
  have e: "a' = a + 4194304" by (simp add: a'_def NPTENTRIES_def PGSIZE_def)
  show n: "unat a' = unat a + 4194304" using lt by (simp add: e unat_word_ariths(1))
  have "unat a' = 4096 * (1024 * Suc q)" unfolding n q by simp
  then have "unat a' mod 4096 = 0" by simp
  then have "unat (a' mod PGSIZE) = 0" by (simp add: unat_mod PGSIZE_def)
  then show "a' mod PGSIZE = 0" by (simp add: unat_eq_0)
  show "PDX va = PDX a" if "\<not> a' \<le> va" "a \<le> va"
  proof -
    have "unat va div 4194304 = q" using that unfolding word_le_nat_alt n q by (intro div_nat_eqI) simp_all
    then show ?thesis by (simp add: same_PDX q)
  qed
qed

lemma framesI: "upage va \<Longrightarrow> a \<le> va \<Longrightarrow> va < b \<Longrightarrow> mapping m pd va = Some e \<Longrightarrow> frame e \<in> frames m pd a b"
  unfolding frames_def by blast

lemma framesE:
  assumes "p \<in> frames m pd a b"
  obtains va e where "p = frame e" "upage va" "a \<le> va" "va < b" "mapping m pd va = Some e"
  using assms unfolding frames_def by blast

lemma frames_mono:
  assumes "\<And>va. upage va \<Longrightarrow> a \<le> va \<Longrightarrow> mapping m pd va = mapping m' pd' va"
  shows "frames m pd a b \<subseteq> frames m' pd' a b"
proof
  fix p assume "p \<in> frames m pd a b"
  then obtain va e where va: "p = frame e" "upage va" "a \<le> va" "va < b" "mapping m pd va = Some e" by (rule framesE)
  then show "p \<in> frames m' pd' a b" using framesI [OF va(2-4)] assms [OF va(2,3)] by simp
qed

lemma frames_cong:
  assumes "\<And>va. upage va \<Longrightarrow> a \<le> va \<Longrightarrow> mapping m pd va = mapping m' pd' va"
  shows "frames m pd a b = frames m' pd' a b"
  using assms by (intro equalityI frames_mono) simp_all

lemma frames_step:
  assumes "upage a" "a < b"
  shows "frames m pd a b = (case mapping m pd a of None \<Rightarrow> {} | Some e \<Rightarrow> {frame e}) \<union> frames m pd (a + PGSIZE) b" (is "?F = ?A \<union> ?G")
proof (intro equalityI subsetI)
  have a: "a mod PGSIZE = 0" "a < KERNBASE" using assms(1) by (simp_all add: upage_def)
  have *: "a \<le> va \<longleftrightarrow> va = a \<or> a + PGSIZE \<le> va" if "upage va" for va using next_page(3) [OF a] that by (simp add: upage_def)
  fix p
  show "p \<in> ?A \<union> ?G" if "p \<in> ?F" using that
  proof (rule framesE)
    fix va e assume va: "p = frame e" "upage va" "a \<le> va" "va < b" "mapping m pd va = Some e"
    then consider "va = a" | "a + PGSIZE \<le> va" using * by blast
    then show ?thesis using va framesI [OF va(2) _ va(4,5)] by cases simp_all
  qed
  show "p \<in> ?F" if "p \<in> ?A \<union> ?G"
  proof (cases "p \<in> ?G")
    case True
    then show ?thesis
    proof (rule framesE)
      fix va e assume va: "p = frame e" "upage va" "a + PGSIZE \<le> va" "va < b" "mapping m pd va = Some e"
      then show ?thesis using framesI [OF va(2) _ va(4,5), of a] * by blast
    qed
  next
    case False
    then show ?thesis using that framesI [OF assms(1) order_refl assms(2)] by (auto split: option.splits)
  qed
qed

lemma dealloc_loop_absent:
  "a < b \<Longrightarrow> \<not> present (pde (ram s) pd a) \<Longrightarrow>
     deallocuvm_loop (Suc f) pd b a s = deallocuvm_loop f pd b (a + (NPTENTRIES - 1) * PGSIZE + PGSIZE) s"
  by (simp add: bind_def walk_absent)

lemma dealloc_loop_none:
  assumes "a < b" "pt_ok s pd" "present (pde (ram s) pd a)" "mapping (ram s) pd a = None"
  shows "deallocuvm_loop (Suc f) pd b a s = deallocuvm_loop f pd b (a + PGSIZE) s"
proof -
  have "\<not> present (rd32 (ram s) (table (ram s) pd a + 4 * PTX a))" using assms(3,4) by (simp add: mapping_def split: if_splits)
  then show ?thesis using assms(1) slot_nonzero [OF pt_okD(3) [OF assms(2,3)]] by (simp add: bind_def walk_present [OF assms(3)] load_def)
qed

lemma dealloc_loop_some:
  assumes "a < b" "pt_ok s pd" "mapping (ram s) pd a = Some e" "PTE_ADDR e \<noteq> 0"
    "seqk (kfree (frame e)) (store (table (ram s) pd a + 4 * PTX a) 0) s = Done () t"
  shows "deallocuvm_loop (Suc f) pd b a s = deallocuvm_loop f pd b (a + PGSIZE) t"
proof -
  have pr: "present (pde (ram s) pd a)" "present e" "rd32 (ram s) (table (ram s) pd a + 4 * PTX a) = e"
    using assms(3) by (auto simp: mapping_def split: if_splits)
  obtain u where "kfree (frame e) s = Done () u" "store (table (ram s) pd a + 4 * PTX a) 0 u = Done () t"
    using assms(5) by (auto simp: seqk_def bind_def split: outcome.splits)
  then show ?thesis using assms(1,4) pr slot_nonzero [OF pt_okD(3) [OF assms(2) pr(1)]]
    by (simp add: bind_def seqk_def walk_present [OF pr(1)] load_def frame_def)
qed

text \<open>What the loop has done when it ends: the pages from \<open>a\<close> to \<open>b\<close> are unmapped and their frames are free.\<close>

definition freed :: "u32 \<Rightarrow> u32 \<Rightarrow> u32 \<Rightarrow> 'z mstate_scheme \<Rightarrow> 'z mstate_scheme \<Rightarrow> bool" where
  "freed pd a b s t \<longleftrightarrow> kmem_ok t \<and> as_ok t pd \<and> pde (ram t) pd = pde (ram s) pd \<and>
     mapping (ram t) pd = (\<lambda>vb. if a \<le> PGROUNDDOWN vb \<and> PGROUNDDOWN vb < b then None else mapping (ram s) pd vb) \<and>
     freepages t = freepages s \<union> frames (ram s) pd a b \<and> only (pt_pages (ram s) pd \<union> frames (ram s) pd a b) s t"

lemma freed_refl: "kmem_ok s \<Longrightarrow> as_ok s pd \<Longrightarrow> \<not> a < b \<Longrightarrow> freed pd a b s s"
proof -
  assume a: "kmem_ok s" "as_ok s pd" "\<not> a < b"
  then have "frames (ram s) pd a b = {}" "\<not> (a \<le> PGROUNDDOWN vb \<and> PGROUNDDOWN vb < b)" for vb by (auto simp: frames_def)
  then show ?thesis using a unfolding freed_def by (auto simp: fun_eq_iff)
qed

lemma freed_skip:
  assumes "freed pd a' b s t" "a \<le> a'" "\<And>vb. a \<le> vb \<Longrightarrow> \<not> a' \<le> vb \<Longrightarrow> vb mod PGSIZE = 0 \<Longrightarrow> mapping (ram s) pd vb = None"
  shows "freed pd a b s t"
proof -
  have fr: "frames (ram s) pd a' b = frames (ram s) pd a b"
  proof (intro equalityI subsetI; erule framesE)
    fix p va e assume va: "p = frame e" "upage va" "a' \<le> va" "va < b" "mapping (ram s) pd va = Some e"
    then show "p \<in> frames (ram s) pd a b" using framesI [OF va(2) _ va(4,5)] assms(2) by simp
  next
    fix p va e assume va: "p = frame e" "upage va" "a \<le> va" "va < b" "mapping (ram s) pd va = Some e"
    have "va mod PGSIZE = 0" using va(2) by (simp add: upage_def)
    then have "a' \<le> va" using assms(3) [OF va(3)] va(5) by (metis option.distinct(1))
    from framesI [OF va(2) this va(4,5)] show "p \<in> frames (ram s) pd a' b" unfolding va(1) .
  qed
  have "(if a' \<le> PGROUNDDOWN vb \<and> PGROUNDDOWN vb < b then None else mapping (ram s) pd vb) =
      (if a \<le> PGROUNDDOWN vb \<and> PGROUNDDOWN vb < b then None else mapping (ram s) pd vb)" for vb
    using assms(3) [of "PGROUNDDOWN vb", unfolded mapping_round] order_trans [OF assms(2), of "PGROUNDDOWN vb"] by auto
  then show ?thesis using assms(1) unfolding freed_def fr by simp
qed

lemma freed_page:
  assumes "kmem_ok s" "as_ok s pd" "upage a" "a < b" "mapping (ram s) pd a = Some e"
  obtains u where "\<And>f. deallocuvm_loop (Suc f) pd b a s = deallocuvm_loop f pd b (a + PGSIZE) u" "kmem_ok u" "as_ok u pd"
    "pde (ram u) pd = pde (ram s) pd" "\<And>t. freed pd (a + PGSIZE) b u t \<Longrightarrow> freed pd a b s t"
proof -
  obtain u where u: "seqk (kfree (frame e)) (store (table (ram s) pd a + 4 * PTX a) 0) s = Done () u" "kmem_ok u" "as_ok u pd"
    "pde (ram u) pd = pde (ram s) pd" "mapping (ram u) pd = (\<lambda>vb. if PGROUNDDOWN vb = a then None else mapping (ram s) pd vb)"
    "freepages u = insert (frame e) (freepages s)" "only (insert (frame e) (pt_pages (ram s) pd)) s u"
    by (rule free_slot [OF assms(1-3,5)])
  have a: "a mod PGSIZE = 0" "a < KERNBASE" using assms(3) by (simp_all add: upage_def)
  note np = next_page [OF a]
  have "PTE_ADDR e \<noteq> 0" by (rule frame_nonzero [OF as_okD(3) [OF assms(2,3,5)] as_okD(2) [OF assms(2)]])
  then have loop: "deallocuvm_loop (Suc f) pd b a s = deallocuvm_loop f pd b (a + PGSIZE) u" for f
    by (rule dealloc_loop_some [OF assms(4) as_okD(1) [OF assms(2)] assms(5) _ u(1)])
  have pp: "pt_pages (ram u) pd = pt_pages (ram s) pd" by (simp add: pt_pages_def table_def u(4))
  have "mapping (ram u) pd va = mapping (ram s) pd va" if "upage va" "a + PGSIZE \<le> va" for va
  proof -
    have "PGROUNDDOWN va = va" using that(1) by (simp add: upage_def round_same)
    moreover have "va \<noteq> a" using that(2) np(1) by (auto simp: word_le_nat_alt)
    ultimately show ?thesis by (simp add: u(5))
  qed
  then have fr: "frames (ram u) pd (a + PGSIZE) b = frames (ram s) pd (a + PGSIZE) b" by (rule frames_cong)
  have rng: "a \<le> PGROUNDDOWN vb \<longleftrightarrow> PGROUNDDOWN vb = a \<or> a + PGSIZE \<le> PGROUNDDOWN vb" for vb by (rule np(3)) simp
  have mp: "(if a + PGSIZE \<le> PGROUNDDOWN vb \<and> PGROUNDDOWN vb < b then None else mapping (ram u) pd vb) =
      (if a \<le> PGROUNDDOWN vb \<and> PGROUNDDOWN vb < b then None else mapping (ram s) pd vb)" for vb
    unfolding u(5) rng using assms(4) by auto
  have st: "frames (ram s) pd a b = insert (frame e) (frames (ram s) pd (a + PGSIZE) b)" using frames_step [OF assms(3,4)] assms(5) by simp
  have "freed pd a b s t" if t: "freed pd (a + PGSIZE) b u t" for t
  proof -
    have "only (pt_pages (ram s) pd \<union> frames (ram s) pd (a + PGSIZE) b) u t" using t unfolding freed_def pp fr by blast
    then have o: "only (pt_pages (ram s) pd \<union> frames (ram s) pd a b) u t" by (rule only_mono) (auto simp: st)
    have "only (pt_pages (ram s) pd \<union> frames (ram s) pd a b) s u" by (rule only_mono [OF u(7)]) (auto simp: st)
    then have "only (pt_pages (ram s) pd \<union> frames (ram s) pd a b) s t" using o by (rule only_trans)
    then show ?thesis using t unfolding freed_def mp fr pp u(4,6) by (simp add: st)
  qed
  then show thesis using that loop u(2-4) by blast
qed

lemma dealloc_loop:
  assumes "kmem_ok s" "as_ok s pd" "a mod PGSIZE = 0" "b \<le> KERNBASE" "unat a mod 4194304 = 0 \<or> present (pde (ram s) pd a)"
    "unat b \<le> unat a + 4096 * f"
  shows "\<exists>t. deallocuvm_loop (Suc f) pd b a s = Done () t \<and> freed pd a b s t"
  using assms
proof (induction f arbitrary: a s)
  case 0
  then have "\<not> a < b" by (simp add: word_less_nat_alt)
  then show ?case using 0 freed_refl by simp
next
  case (Suc f)
  consider (over) "\<not> a < b" | (absent) "a < b" "\<not> present (pde (ram s) pd a)" | (unmapped) "a < b" "present (pde (ram s) pd a)" "mapping (ram s) pd a = None"
    | (mapped) e where "a < b" "present (pde (ram s) pd a)" "mapping (ram s) pd a = Some e" by fastforce
  then show ?case
  proof cases
    case over
    then show ?thesis using Suc.prems freed_refl by simp
  next
    case absent
    define a' where "a' = a + (NPTENTRIES - 1) * PGSIZE + PGSIZE"
    have al: "unat a mod 4194304 = 0" "a < KERNBASE" using Suc.prems(4,5) absent by auto
    note nt = next_table [OF al, folded a'_def]
    have al': "unat a' mod 4194304 = 0 \<or> present (pde (ram s) pd a')" using nt(1) al by simp
    have "unat b \<le> unat a' + 4096 * f" using Suc.prems(6) nt(1) by simp
    from Suc.IH [OF Suc.prems(1,2) nt(2) Suc.prems(4) al' this] obtain t where t: "deallocuvm_loop (Suc f) pd b a' s = Done () t" "freed pd a' b s t" by blast
    have "mapping (ram s) pd vb = None" if "a \<le> vb" "\<not> a' \<le> vb" for vb
      using absent nt(3) [OF that(2,1)] by (simp add: mapping_def pde_def)
    then have "freed pd a b s t" using nt(1) by (intro freed_skip [OF t(2)]) (auto simp: word_le_nat_alt)
    then show ?thesis using t(1) unfolding dealloc_loop_absent [OF absent, folded a'_def] by blast
  next
    case unmapped
    then have lt: "a < KERNBASE" using Suc.prems(4) by simp
    note np = next_page [OF Suc.prems(3) lt]
    have f: "unat b \<le> unat (a + PGSIZE) + 4096 * f" using Suc.prems(6) np(1) by simp
    have "unat (a + PGSIZE) mod 4194304 = 0 \<or> present (pde (ram s) pd (a + PGSIZE))" using np(4) unmapped(2) by (auto simp: pde_def)
    from Suc.IH [OF Suc.prems(1,2) np(2) Suc.prems(4) this f]
    obtain t where t: "deallocuvm_loop (Suc f) pd b (a + PGSIZE) s = Done () t" "freed pd (a + PGSIZE) b s t" by blast
    have "a \<le> a + PGSIZE" using np(1) by (simp add: word_le_nat_alt)
    then have "freed pd a b s t" using np(3) unmapped(3) by (intro freed_skip [OF t(2)]) auto
    then show ?thesis using t(1) unfolding dealloc_loop_none [OF unmapped(1) as_okD(1) [OF Suc.prems(2)] unmapped(2,3)] by blast
  next
    case mapped
    then have lt: "a < KERNBASE" "upage a" using Suc.prems(3,4) by (auto simp: upage_def)
    note np = next_page [OF Suc.prems(3) lt(1)]
    obtain u where u: "\<And>f. deallocuvm_loop (Suc f) pd b a s = deallocuvm_loop f pd b (a + PGSIZE) u" "kmem_ok u" "as_ok u pd"
      "pde (ram u) pd = pde (ram s) pd" "\<And>t. freed pd (a + PGSIZE) b u t \<Longrightarrow> freed pd a b s t"
      by (rule freed_page [OF Suc.prems(1,2) lt(2) mapped(1,3)]) blast
    have f: "unat b \<le> unat (a + PGSIZE) + 4096 * f" using Suc.prems(6) np(1) by simp
    have "unat (a + PGSIZE) mod 4194304 = 0 \<or> present (pde (ram u) pd (a + PGSIZE))"
      unfolding u(4) using np(4) mapped(2) by (auto simp: pde_def)
    from Suc.IH [OF u(2,3) np(2) Suc.prems(4) this f] show ?thesis unfolding u(1) using u(5) by blast
  qed
qed

section \<open>Freeing an address space\<close>

lemma memop_kend: "memop s t \<Longrightarrow> kend t = kend s"
  by (auto simp: memop_def)

lemma PGROUNDUP_down: "PGROUNDUP a = PGROUNDDOWN (a + PGSIZE - 1)"
  by (simp add: PGROUNDUP_def PGROUNDDOWN_def)

lemma deallocuvm_frees:
  assumes "kmem_ok s" "as_ok s pd" "b \<le> KERNBASE" "unat (PGROUNDUP a) mod 4194304 = 0 \<or> present (pde (ram s) pd (PGROUNDUP a))" "a < b"
  obtains t where "deallocuvm pd b a s = Done a t" "freed pd (PGROUNDUP a) b s t"
proof -
  have al: "PGROUNDUP a mod PGSIZE = 0" unfolding PGROUNDUP_down by (rule round_aligned)
  have "unat b \<le> unat (PGROUNDUP a) + 4096 * (2 ^ 20 + 1)" using unat_u32_less [of b] by simp
  from dealloc_loop [OF assms(1,2) al assms(3,4) this] obtain t where "deallocuvm_loop vm_fuel pd b (PGROUNDUP a) s = Done () t" "freed pd (PGROUNDUP a) b s t"
    by (auto simp: vm_fuel_def)
  moreover have "\<not> b \<le> a" using assms(5) by simp
  ultimately show thesis by (intro that) (simp_all add: deallocuvm_def seqk_def bind_def)
qed

definition free_table :: "u32 \<Rightarrow> nat \<Rightarrow> (unit, 'z mstate_scheme) kop" where
  "free_table pd i = bind (load (pd + 4 * of_nat i)) (\<lambda>pde. whenk (present pde) (kfree (p2v (PTE_ADDR pde))))"

lemma free_table_eq:
  "rd32 (ram s) (pd + 4 * of_nat i) = e \<Longrightarrow> free_table pd i s = (if present e then kfree (frame e) s else Done () s)"
  by (auto simp: free_table_def bind_def load_def frame_def)

lemma free_tables:
  assumes "kmem_ok s" "page s pd" "\<forall>i \<in> set is. i < 1024 \<and> rd32 (ram s) (pd + 4 * of_nat i) = E i" "distinct is"
    "\<forall>i \<in> set is. present (E i) \<longrightarrow> page s (frame (E i)) \<and> frame (E i) \<notin> freepages s \<and> frame (E i) \<noteq> pd"
    "\<forall>i \<in> set is. \<forall>j \<in> set is. present (E i) \<and> present (E j) \<and> i \<noteq> j \<longrightarrow> frame (E i) \<noteq> frame (E j)"
  shows "\<exists>t. foreach is (free_table pd) s = Done () t \<and>
    kmem_ok t \<and> freepages t = freepages s \<union> {frame (E i) |i. i \<in> set is \<and> present (E i)} \<and>
    only {frame (E i) |i. i \<in> set is \<and> present (E i)} s t"
  using assms
proof (induction "is" arbitrary: s)
  case Nil
  then show ?case by simp
next
  case (Cons i js)
  have rd: "rd32 (ram s) (pd + 4 * of_nat i) = E i" using Cons.prems(3) by simp
  show ?case
  proof (cases "present (E i)")
    case False
    have "{frame (E j) |j. j \<in> set (i # js) \<and> present (E j)} = {frame (E j) |j. j \<in> set js \<and> present (E j)}" using False by auto
    moreover have "\<exists>t. foreach js (free_table pd) s = Done () t \<and>
        kmem_ok t \<and> freepages t = freepages s \<union> {frame (E j) |j. j \<in> set js \<and> present (E j)} \<and>
        only {frame (E j) |j. j \<in> set js \<and> present (E j)} s t"
      using Cons.prems by (intro Cons.IH) simp_all
    ultimately show ?thesis using False by (simp add: bind_def seqk_def free_table_eq [OF rd])
  next
    case True
    let ?p = "frame (E i)"
    have p: "page s ?p" "?p \<notin> freepages s" "?p \<noteq> pd" using Cons.prems(5) True by simp_all
    obtain u where u: "kfree ?p s = Done () u" "kmem_ok u" "freepages u = insert ?p (freepages s)" "only {?p} s u"
      by (rule kfree_only [OF Cons.prems(1) p(1,2)])
    have pg: "page u = page s" by (rule memop_page [OF only_memop [OF u(4)]])
    have rds: "rd32 (ram u) (pd + 4 * of_nat j) = rd32 (ram s) (pd + 4 * of_nat j)" if "j < 1024" for j
      using only_entry [OF u(4) _ Cons.prems(2), of "of_nat j"] p that by (simp add: word_less_nat_alt unat_of_nat)
    have ne: "frame (E j) \<noteq> ?p" if "j \<in> set js" "present (E j)" for j
      using Cons.prems(4) Cons.prems(6) [rule_format, of j i] that True by auto
    have "\<exists>t. foreach js (free_table pd) u = Done () t \<and>
        kmem_ok t \<and> freepages t = freepages u \<union> {frame (E j) |j. j \<in> set js \<and> present (E j)} \<and>
        only {frame (E j) |j. j \<in> set js \<and> present (E j)} u t"
      using Cons.prems u(2) rds ne by (intro Cons.IH) (simp_all add: u(3) pg)
    then obtain t where t: "foreach js (free_table pd) u = Done () t"
      "kmem_ok t" "freepages t = freepages u \<union> {frame (E j) |j. j \<in> set js \<and> present (E j)}"
      "only {frame (E j) |j. j \<in> set js \<and> present (E j)} u t" by blast
    have st: "{frame (E j) |j. j \<in> set (i # js) \<and> present (E j)} = insert ?p {frame (E j) |j. j \<in> set js \<and> present (E j)}" using True by auto
    have "only (insert ?p {frame (E j) |j. j \<in> set js \<and> present (E j)}) s t"
      by (rule only_trans [OF only_mono [OF u(4)] only_mono [OF t(4)]]) auto
    then show ?thesis using t u(1,3) True unfolding st by (simp add: bind_def seqk_def free_table_eq [OF rd])
  qed
qed

text \<open>The pages of a directory, by the number of the directory entry.\<close>

lemma PDX_entry: "i < 1024 \<Longrightarrow> PDX (of_nat (4194304 * i)) = of_nat i"
proof -
  assume i: "i < 1024"
  have "unat (of_nat (4194304 * i) :: u32) = 4194304 * i" using i by (simp add: unat_of_nat del: of_nat_mult)
  then have "unat (PDX (of_nat (4194304 * i))) = unat (of_nat i :: u32)" unfolding PDX_div using i by (simp add: unat_of_nat del: of_nat_mult)
  then show ?thesis by (simp only: word_unat_eq_iff)
qed

definition dir_entry :: "(u32 \<Rightarrow> byte) \<Rightarrow> u32 \<Rightarrow> nat \<Rightarrow> u32" where
  "dir_entry m pd i = rd32 m (pd + 4 * of_nat i)"

lemma pde_entry: "i < 1024 \<Longrightarrow> pde m pd (of_nat (4194304 * i)) = dir_entry m pd i" "pde m pd va = dir_entry m pd (unat (PDX va))"
  by (simp_all add: pde_def dir_entry_def PDX_entry del: of_nat_mult)

lemma table_frame: "table m pd va = frame (pde m pd va)"
  by (simp add: table_def frame_def)

lemma pt_pages_entries: "pt_pages m pd = insert pd {frame (dir_entry m pd i) |i. i \<in> set [0..<1024] \<and> present (dir_entry m pd i)}"
proof -
  have "unat (PDX va) < 1024" for va using PDX_less [of va] by (simp add: word_less_nat_alt)
  then have "{table m pd va |va. present (pde m pd va)} \<subseteq> {frame (dir_entry m pd i) |i. i \<in> set [0..<1024] \<and> present (dir_entry m pd i)}"
    by (auto simp: table_frame pde_entry(2))
  moreover have "\<exists>va. frame (dir_entry m pd i) = table m pd va \<and> present (pde m pd va)" if "i < 1024" "present (dir_entry m pd i)" for i
    using that pde_entry(1) [OF that(1)] unfolding table_frame by metis
  then have "{frame (dir_entry m pd i) |i. i \<in> set [0..<1024] \<and> present (dir_entry m pd i)} \<subseteq> {table m pd va |va. present (pde m pd va)}"
    by auto
  ultimately show ?thesis unfolding pt_pages_def by (intro arg_cong [where f = "insert pd"] subset_antisym)
qed

lemma free_directory:
  assumes "kmem_ok s" "pt_ok s pd"
  obtains t where "foreach [0..<NPDENTRIES] (free_table pd) s = Done () t" "kmem_ok t"
    "insert pd (freepages t) = freepages s \<union> pt_pages (ram s) pd" "pd \<notin> freepages t" "only (pt_pages (ram s) pd) s t"
proof -
  let ?E = "dir_entry (ram s) pd"
  let ?T = "{frame (?E i) |i. i \<in> set [0..<1024] \<and> present (?E i)}"
  have e: "present (?E i) \<longleftrightarrow> present (pde (ram s) pd (of_nat (4194304 * i)))" "frame (?E i) = table (ram s) pd (of_nat (4194304 * i))" if "i < 1024" for i
    using pde_entry(1) [OF that] by (simp_all add: table_frame)
  have 1: "\<forall>i \<in> set [0..<1024]. i < 1024 \<and> rd32 (ram s) (pd + 4 * of_nat i) = ?E i" by (simp add: dir_entry_def)
  have 2: "\<forall>i \<in> set [0..<1024]. present (?E i) \<longrightarrow> page s (frame (?E i)) \<and> frame (?E i) \<notin> freepages s \<and> frame (?E i) \<noteq> pd"
    using pt_okD(3-5) [OF assms(2)] by (simp add: e del: of_nat_mult)
  have ne: "PDX (of_nat (4194304 * i)) \<noteq> PDX (of_nat (4194304 * j))" if "i < 1024" "j < 1024" "i \<noteq> j" for i j
  proof -
    have "unat (of_nat i :: u32) = i" "unat (of_nat j :: u32) = j" using that by (simp_all add: unat_of_nat)
    then show ?thesis using that(3) unfolding PDX_entry [OF that(1)] PDX_entry [OF that(2)] by metis
  qed
  have 3: "\<forall>i \<in> set [0..<1024]. \<forall>j \<in> set [0..<1024]. present (?E i) \<and> present (?E j) \<and> i \<noteq> j \<longrightarrow> frame (?E i) \<noteq> frame (?E j)"
    using pt_okD(6) [OF assms(2)] ne by (simp add: e del: of_nat_mult)
  obtain t where t: "foreach [0..<1024] (free_table pd) s = Done () t" "kmem_ok t" "freepages t = freepages s \<union> ?T" "only ?T s t"
    using free_tables [OF assms(1) pt_okD(1) [OF assms(2)] 1 distinct_upt 2 3] by blast
  have "pd \<notin> ?T" using 2 by auto
  then have "pd \<notin> freepages t" using t(3) pt_okD(2) [OF assms(2)] by simp
  moreover have "insert pd (freepages t) = freepages s \<union> pt_pages (ram s) pd" unfolding t(3) pt_pages_entries by simp
  moreover have "only (pt_pages (ram s) pd) s t" by (rule only_mono [OF t(4)]) (simp add: pt_pages_entries subset_insertI)
  ultimately show thesis using t(1,2) by (intro that) (simp_all add: NPDENTRIES_def)
qed

lemma owned_cong:
  assumes "pde m pd = pde m' pd"
  shows "pt_pages m pd = pt_pages m' pd"
  using assms by (simp add: pt_pages_def table_def)

lemma freevm_eq:
  assumes "kmem_ok s" "as_ok s pd" "pd \<noteq> 0"
  obtains t where "freevm pd s = Done () t" "kmem_ok t" "freepages t = freepages s \<union> owned (ram s) pd" "only (owned (ram s) pd) s t"
proof -
  have z: "PGROUNDUP 0 = 0" by (simp add: PGROUNDUP_def PGSIZE_def)
  have "(0 :: u32) < KERNBASE" by (simp add: KERNBASE_def)
  then obtain u where u: "deallocuvm pd KERNBASE 0 s = Done 0 u" "freed pd 0 KERNBASE s u"
    using deallocuvm_frees [OF assms(1,2) order_refl, of 0] z by auto
  note fu = u(2) [unfolded freed_def owned_def [symmetric]]
  have pp: "pt_pages (ram u) pd = pt_pages (ram s) pd" using fu by (intro owned_cong) simp
  have pgu: "page u = page s" using fu only_memop memop_page by blast
  obtain v where v: "foreach [0..<NPDENTRIES] (free_table pd) u = Done () v" "kmem_ok v"
    "insert pd (freepages v) = freepages u \<union> pt_pages (ram s) pd" "pd \<notin> freepages v" "only (pt_pages (ram s) pd) u v"
    using free_directory [of u pd] fu as_okD(1) [of u pd] unfolding pp by blast
  have pgv: "page v = page s" using memop_page [OF only_memop [OF v(5)]] pgu by simp
  then have "page v pd" using pt_okD(1) [OF as_okD(1) [OF assms(2)]] by simp
  then obtain t where t: "kfree pd v = Done () t" "kmem_ok t" "freepages t = insert pd (freepages v)" "only {pd} v t"
    using kfree_only [OF v(2) _ v(4)] by blast
  have "freepages t = freepages s \<union> owned (ram s) pd" using t(3) v(3) fu by (auto simp: owned_def)
  moreover have "only (owned (ram s) pd) s t"
  proof (rule only_trans, rule only_trans)
    show "only (owned (ram s) pd) s u" using fu by blast
    show "only (owned (ram s) pd) u v" by (rule only_mono [OF v(5)]) (simp add: owned_def)
    show "only (owned (ram s) pd) v t" by (rule only_mono [OF t(4)]) (simp add: owned_def pt_pages_def)
  qed
  ultimately show thesis using t(1,2) u(1) v(1) assms(3)
    by (intro that) (simp_all add: freevm_def free_table_def [symmetric] seqk_def bind_def)
qed

section \<open>Keeping an address space\<close>

text \<open>The byte that a process sees at an address.\<close>

definition umem :: "(u32 \<Rightarrow> byte) \<Rightarrow> u32 \<Rightarrow> u32 \<Rightarrow> byte option" where
  "umem m pd va = (case mapping m pd va of None \<Rightarrow> None | Some e \<Rightarrow> Some (m (frame e + (va - PGROUNDDOWN va))))"

lemma round_user: "PGROUNDDOWN va < KERNBASE \<longleftrightarrow> va < KERNBASE"
proof -
  have "unat (PGROUNDDOWN va) = 4096 * (unat va div 4096)" using round_diff [of 0 va] by simp
  moreover have "unat va div 4096 < 524288 \<longleftrightarrow> unat va < 524288 * 4096" by (rule div_less_iff_less_mult) simp
  moreover have "unat KERNBASE = 4096 * 524288" by (simp add: KERNBASE_def)
  ultimately show ?thesis unfolding word_less_nat_alt by simp
qed

lemma upage_round: "upage (PGROUNDDOWN va) \<longleftrightarrow> va < KERNBASE"
  unfolding upage_def round_user by simp

lemma frame_owned: "upage va \<Longrightarrow> mapping m pd va = Some e \<Longrightarrow> frame e \<in> owned m pd"
proof -
  assume va: "upage va" "mapping m pd va = Some e"
  have "va < KERNBASE" using va(1) by (simp add: upage_def)
  then show ?thesis using framesI [OF va(1) _ _ va(2), of 0 KERNBASE] by (simp add: owned_def)
qed

lemma only_umem:
  assumes "only P s t" "\<forall>q \<in> P. page s q" "va < KERNBASE" "mapping (ram t) pd va = mapping (ram s) pd va"
    "\<And>e. mapping (ram s) pd va = Some e \<Longrightarrow> page s (frame e) \<and> frame e \<notin> P"
  shows "umem (ram t) pd va = umem (ram s) pd va"
proof (cases "mapping (ram s) pd va")
  case None
  then show ?thesis using assms(4) by (simp add: umem_def)
next
  case (Some e)
  have "ram t (frame e + (va - PGROUNDDOWN va)) = ram s (frame e + (va - PGROUNDDOWN va))"
    by (rule only_page [OF assms(1,2), of "frame e"]) (use assms(5) [OF Some] page_offset [of va] in simp_all)
  then show ?thesis using Some assms(4) by (simp add: umem_def)
qed

lemma keep_space:
  assumes "only P s t" "\<forall>q \<in> P. page s q" "as_ok s pd" "P \<inter> owned (ram s) pd = {}" "freepages t \<inter> owned (ram s) pd = {}"
  shows "as_ok t pd" "mapping (ram t) pd = mapping (ram s) pd" "owned (ram t) pd = owned (ram s) pd"
    "va < KERNBASE \<Longrightarrow> umem (ram t) pd va = umem (ram s) pd va"
proof -
  have "P \<inter> pt_pages (ram s) pd = {}" "freepages t \<inter> pt_pages (ram s) pd = {}" using assms(4,5) by (auto simp: owned_def)
  note om = only_mapping [OF assms(1,2) as_okD(1) [OF assms(3)] this(1)] and pt = only_mapping(4) [OF assms(1,2) as_okD(1) [OF assms(3)] this]
  show mp: "mapping (ram t) pd = mapping (ram s) pd" by (rule om(2))
  show "owned (ram t) pd = owned (ram s) pd" by (simp add: owned_def om(3) frames_def mp)
  have pg: "page t = page s" by (rule memop_page [OF only_memop [OF assms(1)]])
  have kt: "kend t = kend s" by (rule memop_kend [OF only_memop [OF assms(1)]])
  have "frame e \<notin> freepages t" if "upage va" "mapping (ram s) pd va = Some e" for va e
    using frame_owned [OF that] assms(5) by blast
  then show "as_ok t pd" using assms(3) pt unfolding as_ok_def mp om(3) pg kt by blast
  show "umem (ram t) pd va = umem (ram s) pd va" if "va < KERNBASE"
  proof (rule only_umem [OF assms(1,2) that])
    show "mapping (ram t) pd va = mapping (ram s) pd va" by (simp add: mp)
    fix e assume "mapping (ram s) pd va = Some e"
    then have e: "mapping (ram s) pd (PGROUNDDOWN va) = Some e" "upage (PGROUNDDOWN va)" using that by (simp_all add: mapping_round upage_round)
    show "page s (frame e) \<and> frame e \<notin> P" using as_okD(3) [OF assms(3) e(2,1)] frame_owned [OF e(2,1)] assms(4) by blast
  qed
qed

section \<open>Adding a page\<close>

text \<open>The pages a directory can still use and the ones it has: a page table moves a page from the first to the second.\<close>

definition room :: "'z mstate_scheme \<Rightarrow> u32 \<Rightarrow> nat" where
  "room s d = card (freepages s) + card (pt_pages (ram s) d)"

lemma pt_pages_card: "finite (pt_pages m pd)" "card (pt_pages m pd) \<le> 1025"
proof -
  let ?T = "{frame (dir_entry m pd i) |i. i \<in> set [0..<1024] \<and> present (dir_entry m pd i)}"
  have T: "?T \<subseteq> (\<lambda>i. frame (dir_entry m pd i)) ` {0..<1024}"
    by auto
  have fin: "finite ((\<lambda>i. frame (dir_entry m pd i)) ` {0..<1024})"
    by simp
  have "card ?T \<le> card {0..<1024::nat}"
    using card_mono [OF fin T] card_image_le [of "{0..<1024}" "\<lambda>i. frame (dir_entry m pd i)"] by simp
  moreover have "card (insert pd ?T) \<le> Suc (card ?T)"
    by (rule card_insert_le_m1) simp_all
  ultimately show "card (pt_pages m pd) \<le> 1025"
    unfolding pt_pages_entries by simp
  show "finite (pt_pages m pd)"
    unfolding pt_pages_entries using finite_subset [OF T fin] by simp
qed

lemma free_finite: "kmem_ok s \<Longrightarrow> finite (freepages s)"
  by (erule kmem_okE) simp

lemma grows_room:
  assumes "grows d s t" "kmem_ok s" "pt_ok s d"
  shows "room t d = room s d"
proof -
  note g = growsD [OF assms(1)] and f = free_finite [OF assms(2)]
  have "pt_pages (ram s) d \<inter> (freepages s - freepages t) = {}"
    using pt_okD_pages(2) [OF assms(3)] by blast
  then have "card (pt_pages (ram t) d) = card (pt_pages (ram s) d) + card (freepages s - freepages t)"
    unfolding g(4) using f pt_pages_card(1) by (intro card_Un_disjoint) auto
  moreover have "card (freepages s - freepages t) + card (freepages t) = card (freepages s)"
    using card_Diff_subset [OF finite_subset [OF g(2) f] g(2)] card_mono [OF f g(2)] by simp
  ultimately show ?thesis by (simp add: room_def)
qed

lemma mappages_one: "a mod PGSIZE = 0 \<Longrightarrow> mappages pd a PGSIZE pa perm = map_one pd a pa perm"
proof -
  assume a: "a mod PGSIZE = 0"
  have "PGSIZE mod PGSIZE = 0" "PGSIZE \<noteq> 0" by (simp_all add: PGSIZE_def)
  note ip = in_pages [OF a this, of a]
  have "unat (PGROUNDDOWN (a + PGSIZE - 1) - a) = 4096 * (unat (PGSIZE - 1) div 4096)" using round_diff [OF a, of "a + PGSIZE - 1"] by simp
  then have "PGROUNDDOWN (a + PGSIZE - 1) - a = 0" by (simp add: PGSIZE_def unat_eq_0)
  then show ?thesis by (simp add: mappages_def Let_def round_same [OF a] mappages_loop_map_one)
qed

lemma frame_new:
  assumes "page s p" "perm AND NOT (mask 12) = 0"
  shows "frame (v2p p OR perm OR PTE_P) = p"
proof -
  have "(perm OR PTE_P) AND NOT (mask 12) = 0" using assms(2) by (simp add: PTE_P_def bit.conj_disj_distrib2 mask_eq_exp_minus_1)
  then have "PTE_ADDR (v2p p OR (perm OR PTE_P)) = v2p p" by (rule PTE_ADDR_flags [OF page_v2p(1) [OF assms(1)]])
  then show ?thesis using page_v2p(2) [OF assms(1)] by (simp add: frame_def or.assoc)
qed

lemma add_page:
  assumes "kmem_ok s" "as_ok s d" "upage i" "mapping (ram s) d i = None" "page s p" "p \<notin> freepages s" "p \<notin> owned (ram s) d"
    "perm AND NOT (mask 12) = 0"
  obtains (full) "mappages d i PGSIZE (v2p p) perm s = Done (- 1) s" "freepages s = {}"
  | (got) t where "mappages d i PGSIZE (v2p p) perm s = Done 0 t" "kmem_ok t" "as_ok t d" "only (pt_pages (ram s) d \<union> freepages s) s t"
      "mapping (ram t) d = (\<lambda>vb. if PGROUNDDOWN vb = i then Some (v2p p OR perm OR PTE_P) else mapping (ram s) d vb)"
      "owned (ram t) d \<subseteq> insert p (owned (ram s) d) \<union> freepages s" "freepages t \<subseteq> freepages s"
      "room t d = room s d"
proof -
  have al: "i mod PGSIZE = 0" using assms(3) by (simp add: upage_def)
  note eq = mappages_one [OF al, of d "v2p p" perm] and fn = frame_new [OF assms(5,8)]
  from assms(1) as_okD(1) [OF assms(2)] assms(4) al show thesis
  proof (cases rule: map_one_eq [where pa = "v2p p" and perm = perm])
    case full
    then show thesis using that(1) by (simp add: eq)
  next
    case (got t)
    note g = growsD [OF got(4)]
    have mp: "mapping (ram t) d va = Some e \<longleftrightarrow> (if va = i then e = v2p p OR perm OR PTE_P else mapping (ram s) d va = Some e)" if "upage va" for va e
      using that round_same [of va] by (auto simp: got(5) upage_def)
    have pp: "pt_pages (ram t) d \<subseteq> pt_pages (ram s) d \<union> freepages s" using g(4) by blast
    have po: "pt_pages (ram s) d \<subseteq> owned (ram s) d" by (simp add: owned_def)
    have fe: "page s (frame e) \<and> frame e \<notin> freepages s \<and> frame e \<notin> pt_pages (ram s) d" if "upage va" "mapping (ram t) d va = Some e" for va e
      using that(2) mp [OF that(1)] fn assms(5-7) po as_okD(3-5) [OF assms(2) that(1)] by (auto split: if_splits)
    have "as_ok t d" unfolding as_ok_def
    proof (intro conjI allI impI)
      show "pt_ok t d" by (rule got(3))
      show "KERNBASE < kend t" using as_okD(2) [OF assms(2)] memop_kend [OF g(1)] by simp
    next
      fix va e assume "upage va \<and> mapping (ram t) d va = Some e"
      then have "page s (frame e) \<and> frame e \<notin> freepages s \<and> frame e \<notin> pt_pages (ram s) d" using fe by blast
      then show "page t (frame e)" "frame e \<notin> freepages t" "frame e \<notin> pt_pages (ram t) d" using g(2,3) pp by auto
    next
      fix va vb e f assume v: "upage va \<and> upage vb \<and> va \<noteq> vb \<and> mapping (ram t) d va = Some e \<and> mapping (ram t) d vb = Some f"
      have own: "mapping (ram s) d vc = Some h \<Longrightarrow> frame h \<noteq> p" if "upage vc" for vc h using frame_owned [OF that] assms(7) by blast
      show "frame e \<noteq> frame f" using v mp [of va e] mp [of vb f] fn own [of va e] own [of vb f] as_okD(6) [OF assms(2), of va vb e f]
        by (auto split: if_splits)
    qed
    moreover have "frames (ram t) d 0 KERNBASE \<subseteq> insert p (owned (ram s) d)"
    proof
      fix q assume "q \<in> frames (ram t) d 0 KERNBASE"
      then obtain va e where va: "q = frame e" "upage va" "mapping (ram t) d va = Some e" by (rule framesE)
      then show "q \<in> insert p (owned (ram s) d)" using mp [OF va(2)] fn frame_owned [OF va(2)] by (auto split: if_splits)
    qed
    then have "owned (ram t) d \<subseteq> insert p (owned (ram s) d) \<union> freepages s" using pp po unfolding owned_def by blast
    ultimately show thesis using that(2) [of t] got(1,2,5) g(2) grows_only [OF got(4)]
        grows_room [OF got(4) assms(1) as_okD(1) [OF assms(2)]] by (simp add: eq)
  qed
qed

section \<open>Copying an address space\<close>

definition kept :: "u32 \<Rightarrow> 'z mstate_scheme \<Rightarrow> 'z mstate_scheme \<Rightarrow> bool" where
  "kept pd s t \<longleftrightarrow> memop s t \<and> as_ok t pd \<and> mapping (ram t) pd = mapping (ram s) pd \<and> owned (ram t) pd = owned (ram s) pd \<and>
     (\<forall>va. va < KERNBASE \<longrightarrow> umem (ram t) pd va = umem (ram s) pd va)"

lemma kept_refl: "as_ok s pd \<Longrightarrow> kept pd s s"
  by (simp add: kept_def)

lemma kept_trans: "kept pd s t \<Longrightarrow> kept pd t u \<Longrightarrow> kept pd s u"
  unfolding kept_def using memop_trans by metis

lemma keptI:
  assumes "only P s t" "\<forall>q \<in> P. page s q" "as_ok s pd" "P \<inter> owned (ram s) pd = {}" "freepages t \<inter> owned (ram s) pd = {}"
  shows "kept pd s t"
  unfolding kept_def using keep_space [OF assms] only_memop [OF assms(1)] by blast

lemma free_pages: "kmem_ok s \<Longrightarrow> \<forall>q \<in> freepages s. page s q"
  using kpages.avail_ours by blast

text \<open>The frame of a new page, filled with the contents of another page.\<close>

lemma page_small:
  assumes "page s p"
  shows "unat p + 4096 < 2 ^ 32"
proof -
  have "unat (v2p p) < 234881024" using assms by (simp add: page_def PHYSTOP_def word_less_nat_alt)
  moreover have "unat p = unat (v2p p + KERNBASE)" by (simp add: v2p_def)
  ultimately show ?thesis by (simp add: unat_word_ariths(1) KERNBASE_def)
qed

lemma fill_page:
  fixes s :: "'z mstate_scheme" and p q off :: u32
  assumes "kmem_ok s" "page s p" "p \<notin> freepages s" "page s q"
  defines "t \<equiv> s\<lparr>ram := memmove p q PGSIZE (ram s)\<rparr>"
  shows "kmem_ok t" "freepages t = freepages s" "only {p} s t" "unat off < 4096 \<Longrightarrow> ram t (p + off) = ram s (q + off)"
proof -
  have mm: "memmove p q PGSIZE (ram s) x = (if unat (x - p) < 4096 then ram s (q + (x - p)) else ram s x)" for x
    using memmove_apply [of p PGSIZE q] page_small [OF assms(2)] page_small [OF assms(4)] by (simp add: PGSIZE_def)
  have out: "memmove p q PGSIZE (ram s) x = ram s x" if "\<not> unat (x - p) < 4096" for x
    using that by (simp add: mm)
  note f = free_page_frame [OF assms(1-3) out]
  show "kmem_ok t" "freepages t = freepages s" using f by (simp_all add: t_def)
  show "only {p} s t" unfolding t_def by (rule only_upd) (rule out)
  show "ram t (p + off) = ram s (q + off)" if "unat off < 4096" using that by (simp add: t_def mm)
qed

lemma free_space:
  assumes "kmem_ok s" "as_ok s pd" "as_ok s d" "owned (ram s) pd \<inter> owned (ram s) d = {}" "d \<noteq> 0"
  obtains t where "freevm d s = Done () t" "kmem_ok t" "kept pd s t"
proof -
  obtain t where t: "freevm d s = Done () t" "kmem_ok t" "freepages t = freepages s \<union> owned (ram s) d" "only (owned (ram s) d) s t"
    by (rule freevm_eq [OF assms(1,3,5)])
  have "\<forall>q \<in> owned (ram s) d. page s q" using owned_page(1) [OF assms(3)] by blast
  moreover have "freepages t \<inter> owned (ram s) pd = {}" using t(3) assms(4) owned_page(2) [OF assms(2)] by blast
  ultimately have "kept pd s t" using assms(4) by (intro keptI [OF t(4) _ assms(2)]) auto
  then show thesis using t by (intro that)
qed

definition user_perm :: u32 where "user_perm = PTE_W OR PTE_U"

lemma user_perm: "user_perm AND NOT (mask 12) = 0"
  by (simp add: user_perm_def PTE_W_def PTE_U_def mask_eq_exp_minus_1)

text \<open>A page is taken for the copy and filled; it does not belong to either address space yet.\<close>

lemma take_page:
  assumes "kmem_ok s" "as_ok s pd" "as_ok s d" "owned (ram s) pd \<inter> owned (ram s) d = {}" "kalloc s = Done p u" "kmem_ok u" "page s p"
    "p \<in> freepages s" "freepages u = freepages s - {p}" "u = s\<lparr>freelist := freelist u\<rparr>" "page s q"
  defines "w \<equiv> u\<lparr>ram := memmove p q PGSIZE (ram u)\<rparr>"
  shows "kmem_ok w" "kept pd s w" "kept d s w" "freepages w = freepages s - {p}" "page w = page s"
    "unat off < 4096 \<Longrightarrow> ram w (p + off) = ram s (q + off)" "p \<notin> owned (ram s) pd" "p \<notin> owned (ram s) d"
    "room s d = Suc (room w d)"
proof -
  have ram: "ram u = ram s" and pg: "page u = page s" and mu: "memop s u" by (subst assms(10), simp)+
  have pu: "page u p" "p \<notin> freepages u" "page u q" using assms(7,9,11) pg by simp_all
  note f = fill_page [OF assms(6) pu, folded w_def]
  show "kmem_ok w" by (rule f(1))
  show fw: "freepages w = freepages s - {p}" using f(2) assms(9) by simp
  show "ram w (p + off) = ram s (q + off)" if "unat off < 4096" using f(4) [OF that] ram by simp
  have on: "only {p} s w" using f(3) mu memop_trans unfolding only_def ram by blast
  show "page w = page s" by (rule memop_page [OF only_memop [OF on]])
  show p: "p \<notin> owned (ram s) pd" "p \<notin> owned (ram s) d" using owned_page(2) assms(2,3,8) by blast+
  have "freepages w \<inter> owned (ram s) pd = {}" "freepages w \<inter> owned (ram s) d = {}" using fw owned_page(2) assms(2,3) by blast+
  then show "kept pd s w" "kept d s w" using p assms(2,3,7) by (intro keptI [OF on]; simp)+
  have "\<forall>q \<in> {p}. page s q" "{p} \<inter> pt_pages (ram s) d = {}" using assms(7) p(2) by (auto simp: owned_def)
  then have "pt_pages (ram w) d = pt_pages (ram s) d" by (intro only_mapping(3) [OF on _ as_okD(1) [OF assms(3)]])
  moreover have "card (freepages s) = Suc (card (freepages w))" unfolding fw by (rule card.remove [OF free_finite [OF assms(1)] assms(8)])
  ultimately show "room s d = Suc (room w d)" by (simp add: room_def)
qed

lemma copy_page:
  assumes "kmem_ok s" "as_ok s pd" "as_ok s d" "owned (ram s) pd \<inter> owned (ram s) d = {}" "d \<noteq> 0" "upage i" "i < n"
    "mapping (ram s) pd i = Some e" "mapping (ram s) d i = None"
  obtains (fail) t where "\<And>f. copyuvm_loop (Suc f) pd d n i s = Done 0 t" "kmem_ok t" "kept pd s t" "room s d \<le> 1026"
  | (step) t h where "\<And>f. copyuvm_loop (Suc f) pd d n i s = copyuvm_loop f pd d n (i + PGSIZE) t" "kmem_ok t" "kept pd s t" "as_ok t d"
      "owned (ram t) pd \<inter> owned (ram t) d = {}" "mapping (ram t) d = (\<lambda>vb. if PGROUNDDOWN vb = i then Some h else mapping (ram s) d vb)"
      "\<And>va. va < KERNBASE \<Longrightarrow> umem (ram t) d va = (if PGROUNDDOWN va = i then umem (ram s) pd va else umem (ram s) d va)"
      "room s d = Suc (room t d)"
proof -
  have pr: "present (pde (ram s) pd i)" "present e" "rd32 (ram s) (table (ram s) pd i + 4 * PTX i) = e"
    using assms(8) by (auto simp: mapping_def split: if_splits)
  note nz = slot_nonzero [OF pt_okD(3) [OF as_okD(1) [OF assms(2)] pr(1)]]
  have loop: "copyuvm_loop (Suc f) pd d n i s =
      bind kalloc (\<lambda>m. if m = 0 then seqk (freevm d) (ret 0)
        else seqk (modify (\<lambda>s. s\<lparr>ram := memmove m (frame e) PGSIZE (ram s)\<rparr>))
          (bind (mappages d i PGSIZE (v2p m) user_perm) (\<lambda>r. if r < 0 then seqk (freevm d) (ret 0) else copyuvm_loop f pd d n (i + PGSIZE)))) s" for f
    unfolding frame_def user_perm_def using assms(7) pr(2,3) nz by (simp add: bind_def walk_present [OF pr(1)] load_def)
  note fp = as_okD(3) [OF assms(2,6,8)]
  from assms(1) show thesis
  proof (cases rule: kalloc_cases)
    case none
    obtain t where "freevm d s = Done () t" "kmem_ok t" "kept pd s t" by (rule free_space [OF assms(1-5)])
    then show thesis using none pt_pages_card(2) [of "ram s" d] by (intro fail [of t]) (simp_all add: loop bind_def seqk_def room_def del: copyuvm_loop.simps)
  next
    case (some p u)
    define w where "w = u\<lparr>ram := memmove p (frame e) PGSIZE (ram u)\<rparr>"
    note w = take_page [OF assms(1-4) some(1,3-7) fp, folded w_def]
    have wd: "as_ok w pd" "as_ok w d" "mapping (ram w) d = mapping (ram s) d" "owned (ram w) d = owned (ram s) d" "owned (ram w) pd = owned (ram s) pd"
      using w(2,3) by (simp_all add: kept_def)
    have dis: "owned (ram w) pd \<inter> owned (ram w) d = {}" using assms(4) wd by simp
    have pw: "page w p" "p \<notin> freepages w" "p \<notin> owned (ram w) d" using w(4,5,8) some(4) wd(4) by simp_all
    have "mapping (ram w) d i = None" using wd(3) assms(9) by simp
    from w(1) wd(2) assms(6) this pw user_perm show thesis
    proof (cases rule: add_page)
      case full
      obtain t where "freevm d w = Done () t" "kmem_ok t" "kept pd w t" by (rule free_space [OF w(1) wd(1,2) dis assms(5)])
      moreover have "room s d \<le> 1026" using w(9) full(2) pt_pages_card(2) [of "ram w" d] by (simp add: room_def)
      ultimately show thesis using some(1,2) full(1) kept_trans [OF w(2)] by (intro fail [of t]) (simp_all add: loop bind_def seqk_def w_def [symmetric] del: copyuvm_loop.simps)
    next
      case (got t)
      let ?P = "pt_pages (ram w) d \<union> freepages w"
      have pP: "\<forall>q \<in> ?P. page w q" using pt_okD_pages(1) [OF as_okD(1) [OF wd(2)]] free_pages [OF w(1)] by blast
      have fd: "freepages w \<inter> owned (ram w) pd = {}" using owned_page(2) [OF wd(1)] by blast
      have pd: "pt_pages (ram w) d \<subseteq> owned (ram w) d" by (simp add: owned_def)
      have kw: "kept pd w t" using fd dis pd got(7) by (intro keptI [OF got(4) pP wd(1)]) blast+
      then have ow: "owned (ram t) pd = owned (ram w) pd" by (simp add: kept_def)
      have "owned (ram t) pd \<inter> owned (ram t) d = {}" using got(6) dis fd w(7) wd(5) unfolding ow by blast
      moreover have "umem (ram t) d va = (if PGROUNDDOWN va = i then umem (ram s) pd va else umem (ram s) d va)" if va: "va < KERNBASE" for va
      proof (cases "PGROUNDDOWN va = i")
        case True
        have "ram t (p + (va - PGROUNDDOWN va)) = ram w (p + (va - PGROUNDDOWN va))"
          by (rule only_page [OF got(4) pP pw(1)]) (use pw pd page_offset [of va] in auto)
        also have "\<dots> = ram s (frame e + (va - PGROUNDDOWN va))" by (rule w(6) [OF page_offset])
        finally have "ram t (p + (va - PGROUNDDOWN va)) = ram s (frame e + (va - PGROUNDDOWN va))" .
        moreover have "mapping (ram s) pd va = Some e" using assms(8) True mapping_round [of "ram s" pd va] by metis
        ultimately show ?thesis using True by (simp add: umem_def got(5) frame_new [OF pw(1) user_perm])
      next
        case False
        have "umem (ram t) d va = umem (ram w) d va"
        proof (rule only_umem [OF got(4) pP va])
          show "mapping (ram t) d va = mapping (ram w) d va" using False by (simp add: got(5))
          fix g assume "mapping (ram w) d va = Some g"
          then have g: "mapping (ram w) d (PGROUNDDOWN va) = Some g" "upage (PGROUNDDOWN va)" using va by (simp_all add: mapping_round upage_round)
          show "page w (frame g) \<and> frame g \<notin> ?P" using as_okD(3-5) [OF wd(2) g(2,1)] by blast
        qed
        then show ?thesis using False va w(3) by (simp add: kept_def)
      qed
      ultimately show thesis using got(1-3) got(5) [unfolded wd(3)] got(8) w(9) some(1,2) kept_trans [OF w(2) kw]
        by (intro step [of t "v2p p OR user_perm OR PTE_P"]) (simp_all add: loop bind_def seqk_def w_def [symmetric] del: copyuvm_loop.simps)
    qed
  qed
qed

text \<open>What the loop leaves: the pages from \<open>i\<close> to \<open>n\<close> are copied, and nothing else is mapped in user memory.\<close>

definition copied :: "u32 \<Rightarrow> u32 \<Rightarrow> u32 \<Rightarrow> u32 \<Rightarrow> 'z mstate_scheme \<Rightarrow> 'z mstate_scheme \<Rightarrow> bool" where
  "copied pd d n i s t \<longleftrightarrow> as_ok t d \<and> owned (ram t) pd \<inter> owned (ram t) d = {} \<and>
     (\<forall>va. va < i \<longrightarrow> umem (ram t) d va = umem (ram s) d va) \<and>
     (\<forall>va. i \<le> va \<and> va < n \<longrightarrow> umem (ram t) d va = umem (ram s) pd va) \<and>
     (\<forall>va. upage va \<and> i \<le> va \<and> n \<le> va \<longrightarrow> mapping (ram t) d va = None) \<and>
     (\<forall>va. \<not> va < KERNBASE \<longrightarrow> mapping (ram t) d va = mapping (ram s) d va)"

lemma round_range:
  assumes "i mod PGSIZE = 0" "i < KERNBASE"
  shows "PGROUNDDOWN va = i \<longleftrightarrow> i \<le> va \<and> va < i + PGSIZE"
proof -
  have "PGROUNDDOWN va = i \<longleftrightarrow> unat (PGROUNDDOWN va - i) = 0" by (auto simp: unat_eq_0)
  also have "\<dots> \<longleftrightarrow> va - i < PGSIZE" unfolding round_diff [OF assms(1)] by (simp add: word_less_nat_alt PGSIZE_def div_eq_0_iff)
  also have "\<dots> \<longleftrightarrow> i \<le> va \<and> va < i + PGSIZE"
    using sub_less [of i "i + PGSIZE" va] next_page(1) [OF assms] by (simp add: word_le_nat_alt)
  finally show ?thesis .
qed

lemma copied_step:
  assumes "copied pd d n (i + PGSIZE) t u" "kept pd s t" "upage i" "i < n" "n \<le> KERNBASE"
    "mapping (ram t) d = (\<lambda>vb. if PGROUNDDOWN vb = i then Some h else mapping (ram s) d vb)"
    "\<And>va. va < KERNBASE \<Longrightarrow> umem (ram t) d va = (if PGROUNDDOWN va = i then umem (ram s) pd va else umem (ram s) d va)"
  shows "copied pd d n i s u"
proof -
  have i: "i mod PGSIZE = 0" "i < KERNBASE" using assms(3) by (simp_all add: upage_def)
  have c: "\<And>va. va < i + PGSIZE \<Longrightarrow> umem (ram u) d va = umem (ram t) d va" "\<And>va. i + PGSIZE \<le> va \<Longrightarrow> va < n \<Longrightarrow> umem (ram u) d va = umem (ram t) pd va"
    "\<And>va. upage va \<Longrightarrow> i + PGSIZE \<le> va \<Longrightarrow> n \<le> va \<Longrightarrow> mapping (ram u) d va = None" "\<And>va. \<not> va < KERNBASE \<Longrightarrow> mapping (ram u) d va = mapping (ram t) d va"
    using assms(1) unfolding copied_def by blast+
  have k: "umem (ram t) pd va = umem (ram s) pd va" if "va < KERNBASE" for va using assms(2) that unfolding kept_def by blast
  note np = next_page [OF i]
  have round: "PGROUNDDOWN va = i \<longleftrightarrow> i \<le> va \<and> va < i + PGSIZE" for va by (rule round_range [OF i])
  show ?thesis unfolding copied_def
  proof (intro conjI allI impI)
    show "as_ok u d" "owned (ram u) pd \<inter> owned (ram u) d = {}" using assms(1) by (simp_all add: copied_def)
  next
    fix va assume va: "va < i"
    then have "va < i + PGSIZE" "va < KERNBASE" "PGROUNDDOWN va \<noteq> i" using np(1) i(2) by (auto simp: round word_less_nat_alt word_le_nat_alt)
    then show "umem (ram u) d va = umem (ram s) d va" using c(1) assms(7) by simp
  next
    fix va assume va: "i \<le> va \<and> va < n"
    then have vk: "va < KERNBASE" using assms(5) less_le_trans by blast
    show "umem (ram u) d va = umem (ram s) pd va"
    proof (cases "va < i + PGSIZE")
      case True
      then show ?thesis using c(1) [OF True] assms(7) [OF vk] va round by simp
    next
      case False
      then show ?thesis using c(2) [of va] va k [OF vk] by simp
    qed
  next
    fix va assume va: "upage va \<and> i \<le> va \<and> n \<le> va"
    then have "i + PGSIZE \<le> va" using np(3) [of va] assms(4) by (auto simp: upage_def)
    then show "mapping (ram u) d va = None" using c(3) va by blast
  next
    fix va assume va: "\<not> va < KERNBASE"
    then have "PGROUNDDOWN va \<noteq> i" using i(2) round_user [of va] by auto
    then show "mapping (ram u) d va = mapping (ram s) d va" using c(4) [OF va] by (simp add: assms(6))
  qed
qed

lemma copy_loop:
  assumes "kmem_ok s" "as_ok s pd" "as_ok s d" "owned (ram s) pd \<inter> owned (ram s) d = {}" "d \<noteq> 0" "i mod PGSIZE = 0" "n \<le> KERNBASE"
    "\<forall>va. upage va \<and> va < n \<longrightarrow> mapping (ram s) pd va \<noteq> None" "\<forall>va. upage va \<and> i \<le> va \<longrightarrow> mapping (ram s) d va = None"
    "unat n \<le> unat i + 4096 * f"
  shows "\<exists>r t. copyuvm_loop (Suc f) pd d n i s = Done r t \<and> kmem_ok t \<and> kept pd s t \<and> (r = 0 \<and> room s d \<le> 1025 + (unat n - unat i + 4095) div 4096 \<or> r = d \<and> copied pd d n i s t)"
  using assms
proof (induction f arbitrary: i s)
  case 0
  then have "\<not> i < n" by (simp add: word_less_nat_alt)
  then have "copied pd d n i s s" using 0 by (auto simp: copied_def)
  then show ?case using 0 \<open>\<not> i < n\<close> kept_refl by auto
next
  case (Suc f)
  show ?case
  proof (cases "i < n")
    case False
    then have "copied pd d n i s s" using Suc.prems by (auto simp: copied_def)
    then show ?thesis using Suc.prems(1,2) False kept_refl by auto
  next
    case True
    then have i: "upage i" "i < KERNBASE" using Suc.prems(6,7) by (auto simp: upage_def)
    then obtain e where e: "mapping (ram s) pd i = Some e" using Suc.prems(8) True by blast
    have "mapping (ram s) d i = None" using Suc.prems(9) i(1) by simp
    with Suc.prems(1-5) i(1) True e show ?thesis
    proof (cases rule: copy_page)
      case (fail t)
      have "4096 \<le> unat n - unat i + 4095" using True by (simp add: word_less_nat_alt)
      then have "1 \<le> (unat n - unat i + 4095) div 4096" by (simp add: less_eq_div_iff_mult_less_eq)
      then show ?thesis using fail by auto
    next
      case (step t h)
      note np = next_page [OF Suc.prems(6) i(2)]
      have m: "\<forall>va. upage va \<and> va < n \<longrightarrow> mapping (ram t) pd va \<noteq> None" using Suc.prems(8) step(3) by (simp add: kept_def)
      have z: "\<forall>va. upage va \<and> i + PGSIZE \<le> va \<longrightarrow> mapping (ram t) d va = None"
      proof (intro allI impI)
        fix va assume va: "upage va \<and> i + PGSIZE \<le> va"
        then have "PGROUNDDOWN va = va" "i \<le> va" "va \<noteq> i" using np(1,3) round_same by (auto simp: upage_def word_le_nat_alt)
        then show "mapping (ram t) d va = None" using Suc.prems(9) va by (simp add: step(6))
      qed
      have f: "unat n \<le> unat (i + PGSIZE) + 4096 * f" using Suc.prems(10) np(1) by simp
      have "as_ok t pd" using step(3) by (simp add: kept_def)
      have "unat n - unat i + 4095 = (unat n - unat (i + PGSIZE) + 4095) + 4096 \<or>
          unat n - unat (i + PGSIZE) = 0 \<and> 4096 \<le> unat n - unat i + 4095" using True np(1) by (auto simp: word_less_nat_alt)
      then have rm: "Suc ((unat n - unat (i + PGSIZE) + 4095) div 4096) \<le> (unat n - unat i + 4095) div 4096"
        by (auto simp: less_eq_div_iff_mult_less_eq)
      from Suc.IH [OF step(2) \<open>as_ok t pd\<close> step(4,5) Suc.prems(5) np(2) Suc.prems(7) m z f]
      obtain r u where u: "copyuvm_loop (Suc f) pd d n (i + PGSIZE) t = Done r u" "kmem_ok u" "kept pd t u"
        "r = 0 \<and> room t d \<le> 1025 + (unat n - unat (i + PGSIZE) + 4095) div 4096 \<or> r = d \<and> copied pd d n (i + PGSIZE) t u" by blast
      have "r = 0 \<and> room s d \<le> 1025 + (unat n - unat i + 4095) div 4096 \<or> r = d \<and> copied pd d n i s u"
        using u(4) rm step(8) copied_step [OF _ step(3) i(1) True Suc.prems(7) step(6,7)] by auto
      then show ?thesis unfolding step(1) using u(1,2) kept_trans [OF step(3) u(3)] by blast
    qed
  qed
qed

lemma new_space:
  assumes "pt_ok s d" "KERNBASE < kend s" "\<And>va. va < KERNBASE \<Longrightarrow> mapping (ram s) d va = None"
  shows "as_ok s d" "owned (ram s) d = pt_pages (ram s) d"
proof -
  have n: "mapping (ram s) d va = None" if "upage va" for va using that assms(3) by (simp add: upage_def)
  then show "as_ok s d" using assms(1,2) by (auto simp: as_ok_def)
  have "frames (ram s) d 0 KERNBASE = {}" using n by (auto elim!: framesE)
  then show "owned (ram s) d = pt_pages (ram s) d" by (simp add: owned_def)
qed

lemma copyuvm_eq:
  assumes "kmem_ok s" "data_ok (kdata s)" "as_ok s pd" "n \<le> KERNBASE" "\<forall>va. upage va \<and> va < n \<longrightarrow> mapping (ram s) pd va \<noteq> None"
  shows "\<exists>r t. copyuvm pd n s = Done r t \<and> kmem_ok t \<and> kept pd s t \<and>
    (r = 0 \<and> card (freepages s) \<le> 1025 + (unat n + 4095) div 4096 \<or>
       r \<noteq> 0 \<and> as_ok t r \<and> owned (ram t) pd \<inter> owned (ram t) r = {} \<and> (\<forall>va. va < n \<longrightarrow> umem (ram t) r va = umem (ram s) pd va) \<and>
       (\<forall>va. upage va \<and> n \<le> va \<longrightarrow> mapping (ram t) r va = None) \<and>
       (\<forall>va. \<not> va < KERNBASE \<longrightarrow> mapping (ram t) r va = kernel_mapping (kdata s) va))"
  using assms(1) kmap_ok [OF assms(2)]
proof (cases rule: setupkvm_eq)
  case (full t)
  have "freepages t \<inter> owned (ram s) pd = {}" using full(3) by simp
  moreover have "only (freepages s) s t" using full(4,5) unfolding only_def by blast
  ultimately have "kept pd s t" using owned_page(2) [OF assms(3)] by (intro keptI [OF _ free_pages [OF assms(1)] assms(3)]) auto
  moreover have "card (freepages s) \<le> 1025"
    using card_mono [OF pt_pages_card(1) full(6)] pt_pages_card(2) le_trans by blast
  ultimately show ?thesis using full by (auto simp: copyuvm_def bind_def)
next
  case (got d u)
  have mp: "mapping (ram u) d = kernel_mapping (kdata s)" using got(7) kmap_mapping [OF assms(2)] by simp
  have "only (freepages s) s u" using got(6,10) unfolding only_def by blast
  moreover have "freepages s \<inter> owned (ram s) pd = {}" using owned_page(2) [OF assms(3)] by blast
  ultimately have ku: "kept pd s u" using got(8) by (intro keptI [OF _ free_pages [OF assms(1)] assms(3)]) auto
  have "KERNBASE < kend u" using as_okD(2) [OF assms(3)] memop_kend [OF got(6)] by simp
  moreover have nu: "mapping (ram u) d va = None" if "va < KERNBASE" for va using that by (simp add: mp kernel_mapping_def)
  ultimately have du: "as_ok u d" "owned (ram u) d = pt_pages (ram u) d" using new_space [OF got(4)] by blast+
  have "as_ok u pd" "owned (ram u) pd = owned (ram s) pd" using ku by (simp_all add: kept_def)
  then have dis: "owned (ram u) pd \<inter> owned (ram u) d = {}" using du(2) got(9) owned_page(2) [OF assms(3)] by blast
  have m: "\<forall>va. upage va \<and> va < n \<longrightarrow> mapping (ram u) pd va \<noteq> None" using assms(5) ku by (simp add: kept_def)
  have z: "\<forall>va. upage va \<and> 0 \<le> va \<longrightarrow> mapping (ram u) d va = None" using nu by (simp add: upage_def)
  have f: "unat n \<le> unat (0 :: u32) + 4096 * (2 ^ 20 + 1)" using unat_u32_less [of n] by simp
  from copy_loop [OF got(3) \<open>as_ok u pd\<close> du(1) dis got(2) _ assms(4) m z f]
  obtain r t where t: "copyuvm_loop vm_fuel pd d n 0 u = Done r t" "kmem_ok t" "kept pd u t" "r = 0 \<and> room u d \<le> 1025 + (unat n + 4095) div 4096 \<or> r = d \<and> copied pd d n 0 u t"
    by (auto simp: vm_fuel_def)
  have "room u d = card (freepages s)"
    unfolding room_def got(9) using card_Diff_subset [OF finite_subset [OF got(8) free_finite [OF assms(1)]] got(8)]
      card_mono [OF free_finite [OF assms(1)] got(8)] by simp
  have "umem (ram u) pd va = umem (ram s) pd va" if "va < n" for va
    using ku assms(4) that less_le_trans unfolding kept_def by blast
  then show ?thesis using got(1,2) t \<open>room u d = card (freepages s)\<close> kept_trans [OF ku t(3)] mp
    by (auto simp: copyuvm_def bind_def copied_def)
qed

section \<open>Properties\<close>

text \<open>C26 (freeing an address space). \<open>freevm\<close> returns the directory, every page table and every frame of user memory to the free
  list, each of them once, and nothing else: afterwards the free pages are the ones that were free before and the ones of the
  address space.  It writes to no other page.\<close>

theorem freevm_frees:
  assumes "kmem_ok s" "as_ok s pd"
  shows "\<exists>t. freevm pd s = Done () t \<and> kmem_ok t \<and> freepages t = freepages s \<union> owned (ram s) pd \<and> only (owned (ram s) pd) s t"
proof -
  have "pd \<noteq> 0" using pt_okD(1) [OF as_okD(1) [OF assms(2)]] as_okD(2) [OF assms(2)] by (auto simp: page_def KERNBASE_def)
  then show ?thesis using freevm_eq [OF assms] by metis
qed

lemma kend_upd:
  assumes "kmem_ok s" "\<forall>p \<in> freepages s. e \<le> p"
  shows "kmem_ok (s\<lparr>kend := e\<rparr>)" "freepages (s\<lparr>kend := e\<rparr>) = freepages s"
proof -
  show f: "freepages (s\<lparr>kend := e\<rparr>) = freepages s" by (simp add: freepages_def)
  obtain ps where "kmem_ready s" "chain (ram s) (freelist s) ps" "distinct ps" "\<forall>p \<in> set ps. page s p" "freepages s = set ps"
    using assms(1) by (rule kmem_okE)
  then show "kmem_ok (s\<lparr>kend := e\<rparr>)" unfolding kmem_ok_def using assms(2)
    by (intro conjI exI [of _ ps]) (auto simp: page_def kmem_ready_def cli_ok_def lock_free_def)
qed

lemma many_pages:
  assumes "unat a \<le> 4096 * k" "4096 * (k + n) \<le> unat b"
  shows "n \<le> card (whole_pages a b)"
proof -
  let ?f = "\<lambda>i. of_nat (4096 * (k + i)) :: u32"
  have f: "unat (?f i) = 4096 * (k + i)" if "i < n" for i
  proof -
    have "4096 * (k + i) < 4096 * (k + n)" using that by simp
    then have "4096 * (k + i) < 2 ^ 32" using assms(2) unat_u32_less [of b] by (meson less_le_trans less_trans)
    then show ?thesis by (simp add: unat_of_nat del: of_nat_mult of_nat_add)
  qed
  have "inj_on ?f {..<n}"
  proof (rule inj_onI)
    fix i j assume ij: "i \<in> {..<n}" "j \<in> {..<n}" "?f i = ?f j"
    then have "4096 * (k + i) = 4096 * (k + j)" using f [of i] f [of j] by (metis lessThan_iff)
    then show "i = j" by simp
  qed
  then have "card (?f ` {..<n}) = n" by (simp add: card_image)
  moreover have "?f ` {..<n} \<subseteq> whole_pages a b"
  proof
    fix p assume "p \<in> ?f ` {..<n}"
    then obtain i where i: "i < n" "p = ?f i" by blast
    have "4096 * (k + i) + 4096 \<le> 4096 * (k + n)" using i(1) by simp
    then have "4096 * (k + i) + 4096 \<le> unat b" using assms(2) by (rule le_trans)
    then show "p \<in> whole_pages a b" using f [OF i(1)] assms(1) unfolding i(2) whole_pages_def by simp
  qed
  ultimately show ?thesis using card_mono [of "whole_pages a b" "?f ` {..<n}"] by simp
qed

lemma boot_many:
  obtains t :: mstate where "kmem_ok t" "3000 \<le> card (freepages t)" "kend t = 0x80110000" "kdata t = 0x80108000"
proof -
  define a b :: u32 where "a = 0x80110004" and "b = 0x80CCA000"
  have ab: "unat a = 0x80110004" "unat b = 0x80CCA000" "kend mstate0 \<le> a" "KERNBASE \<le> a" "unat b \<le> unat KERNBASE + unat PHYSTOP"
    by (simp_all add: a_def b_def mstate0_def KERNBASE_def PHYSTOP_def)
  have "unat a \<le> 2 ^ 32 - 4096" by (simp add: ab)
  note w = range_pages_whole [OF this, of b]
  have "\<forall>p \<in> set (range_pages a b). page mstate0 p" unfolding w(1) using whole_page [OF _ ab(3-5)] by blast
  from kinit1_step [OF _ this w(2)] obtain t :: mstate where t: "kmem_ok t" "freepages t = whole_pages a b"
    unfolding w(1) by (auto simp: mstate0_def)
  have "3000 \<le> card (freepages t)" unfolding t(2) by (rule many_pages [of a "0x80111" "3000" b]) (simp_all add: ab)
  moreover have "\<forall>p \<in> freepages t. 0x80110000 \<le> p" unfolding t(2) whole_pages_def ab by (simp add: word_le_nat_alt)
  note k = kend_upd [OF t(1) this]
  ultimately show thesis by (intro that [of "t\<lparr>kend := 0x80110000, kdata := 0x80108000\<rparr>"]) (use k in simp_all)
qed

text \<open>An address space with one page, at address 0.\<close>

lemma boot_space:
  obtains t :: mstate and d e where "kmem_ok t" "as_ok t d" "data_ok (kdata t)" "mapping (ram t) d 0 = Some e"
    "1100 \<le> card (freepages t)"
proof -
  obtain s :: mstate where s: "kmem_ok s" "3000 \<le> card (freepages s)" "kend s = 0x80110000" "kdata s = 0x80108000" by (rule boot_many)
  from s(1) show thesis
  proof (cases rule: kalloc_cases)
    case (some d u)
    have u: "page u d" "kend u = 0x80110000" "kdata u = 0x80108000" using some(4) s(3,4) by (subst some(7), simp)+
    have du: "d \<notin> freepages u" "2999 \<le> card (freepages u)"
      using s(2) card.remove [OF free_finite [OF s(1)] some(5)] unfolding some(6) by (simp, linarith)
    note n = new_pgdir [OF some(3) u(1) du(1)]
    let ?v = "u\<lparr>ram := memset d 0 PGSIZE (ram u)\<rparr>"
    have v: "as_ok ?v d" "owned (ram ?v) d = {d}" using new_space [OF n(2)] n(4,5) u(2) by (simp_all add: KERNBASE_def)
    from n(1) show thesis
    proof (cases rule: kalloc_cases)
      case (some p w)
      have ram: "ram w = ram ?v" and pw: "page w p" and kw: "kdata w = 0x80108000" and mw: "memop ?v w"
        using some(4) u(3) by (subst some(7), simp)+
      have fw: "freepages w = freepages u - {p}" "p \<in> freepages u" using some(5,6) n(3) by simp_all
      have "only {} ?v w" using mw by (simp add: only_def ram)
      then have "kept d ?v w" using v du(1) fw(1) by (intro keptI [where P = "{}"]) simp_all
      then have w: "as_ok w d" "owned (ram w) d = {d}" "mapping (ram w) d 0 = None" using v(2) n(4) by (simp_all add: kept_def)
      have z: "upage 0" by (simp add: upage_def KERNBASE_def)
      have "p \<notin> freepages w" "p \<notin> owned (ram w) d" using fw w(2) du(1) by auto
      from some(3) w(1) z w(3) pw this user_perm show thesis
      proof (cases rule: add_page)
        case full
        then have "freepages u = {p}" using fw by auto
        then show thesis using du(2) by simp
      next
        case (got t)
        have "2998 \<le> card (freepages w)" using card.remove [OF free_finite [OF \<open>kmem_ok u\<close>] fw(2)] du(2) unfolding fw(1) by linarith
        then have "1100 \<le> card (freepages t)" using got(8) pt_pages_card(2) [of "ram t" d] by (simp add: room_def)
        moreover have "kdata t = 0x80108000" using only_memop [OF got(4)] kw by (auto simp: memop_def)
        ultimately show thesis using got(1-7) that [of t d] by (simp add: data_ok_def PGSIZE_def KERNLINK_def KERNBASE_def EXTMEM_def p2v_def PHYSTOP_def PGROUNDDOWN_def)
      qed
    qed (use n(3) du(2) in simp)
  qed (use s(2) in simp)
qed

theorem freevm_frees_witness:
  "\<exists>(s :: mstate) d e. kmem_ok s \<and> as_ok s d \<and> mapping (ram s) d 0 = Some e \<and>
     (\<exists>t. freevm d s = Done () t \<and> d \<in> freepages t \<and> frame e \<in> freepages t)"
proof -
  obtain s :: mstate and d e where s: "kmem_ok s" "as_ok s d" "mapping (ram s) d 0 = Some e" by (rule boot_space)
  have "d \<in> owned (ram s) d" by (simp add: owned_def pt_pages_def)
  moreover have "frame e \<in> owned (ram s) d" by (rule frame_owned [OF _ s(3)]) (simp add: upage_def KERNBASE_def)
  ultimately show ?thesis using freevm_frees [OF s(1,2)] s by blast
qed

text \<open>C25 (copying an address space). \<open>copyuvm\<close> on the first \<open>n\<close> bytes of an address space, all of them mapped, returns a new address
  space, or 0 only when there are not enough free pages: the pages to copy, one directory and 1024 page tables are always enough.
  The new one shares no page with the old one, shows the same bytes at every address below \<open>n\<close>, maps nothing in the rest of user
  memory and maps the kernel; the old one is as before, also when the copy fails.\<close>

theorem copyuvm_copies:
  assumes "kmem_ok s" "data_ok (kdata s)" "as_ok s pd" "n \<le> KERNBASE" "\<forall>va. upage va \<and> va < n \<longrightarrow> mapping (ram s) pd va \<noteq> None"
  shows "\<exists>r t. copyuvm pd n s = Done r t \<and> kmem_ok t \<and> kept pd s t \<and>
    (r = 0 \<and> card (freepages s) \<le> 1025 + (unat n + 4095) div 4096 \<or>
       r \<noteq> 0 \<and> as_ok t r \<and> owned (ram t) pd \<inter> owned (ram t) r = {} \<and> (\<forall>va. va < n \<longrightarrow> umem (ram t) r va = umem (ram s) pd va) \<and>
       (\<forall>va. upage va \<and> n \<le> va \<longrightarrow> mapping (ram t) r va = None) \<and>
       (\<forall>va. \<not> va < KERNBASE \<longrightarrow> mapping (ram t) r va = kernel_mapping (kdata s) va))"
  by (rule copyuvm_eq [OF assms])

theorem copyuvm_copies_witness:
  "\<exists>(s :: mstate) pd. kmem_ok s \<and> data_ok (kdata s) \<and> as_ok s pd \<and>
     (\<exists>r t. copyuvm pd 100 s = Done r t \<and> r \<noteq> 0 \<and> as_ok t pd \<and> as_ok t r \<and>
       umem (ram t) pd 7 = umem (ram s) pd 7 \<and> umem (ram t) r 7 = umem (ram s) pd 7)"
proof -
  obtain s :: mstate and pd e where s: "kmem_ok s" "as_ok s pd" "data_ok (kdata s)" "mapping (ram s) pd 0 = Some e"
    "1100 \<le> card (freepages s)" by (rule boot_space)
  have "va = 0" if "upage va" "va < 100" for va
  proof -
    have "va mod PGSIZE = 0" using that(1) by (simp add: upage_def)
    then obtain i where "unat va = 4096 * i" by (rule page_multiple)
    moreover have "unat va < 100" using that(2) by (simp add: word_less_nat_alt)
    ultimately have "unat va = 0" by (cases i) simp_all
    then show ?thesis by (simp add: unat_eq_0)
  qed
  then have m: "\<forall>va. upage va \<and> va < 100 \<longrightarrow> mapping (ram s) pd va \<noteq> None" using s(4) by auto
  have c: "(100 :: u32) \<le> KERNBASE" "(7 :: u32) < KERNBASE" "(7 :: u32) < 100" by (simp_all add: KERNBASE_def)
  have "\<not> card (freepages s) \<le> 1025 + (unat (100 :: u32) + 4095) div 4096" using s(5) by simp
  then show ?thesis using copyuvm_copies [OF s(1,3,2) c(1) m] s(1-3) c(2,3) unfolding kept_def by blast
qed

end
