(* ===== verification/Halting.thy ===== *)
theory Halting
  imports Proclife Uvm
begin

text \<open>
  The loops of \<open>vm.c\<close> end.  An operation \<^emph>\<open>halts\<close> when it returns, panics, sleeps or spins in every state, but does not run out of
  the number of rounds that its loops are given in the model.
\<close>

named_theorems halting \<open>operations that halt\<close>

definition halts :: "('a, 's) kop \<Rightarrow> bool" where
  "halts f \<longleftrightarrow> (\<forall>s. f s \<noteq> Diverge)"

lemma halts_bind [halting]: "halts f \<Longrightarrow> (\<And>a. halts (g a)) \<Longrightarrow> halts (bind f g)"
  by (auto simp: halts_def bind_def split: outcome.splits)

lemma halts_seqk [halting]: "halts f \<Longrightarrow> halts g \<Longrightarrow> halts (seqk f g)"
  unfolding seqk_def by (rule halts_bind)

lemma halts_if [halting]: "(b \<Longrightarrow> halts f) \<Longrightarrow> (\<not> b \<Longrightarrow> halts g) \<Longrightarrow> halts (if b then f else g)"
  by simp

lemma halts_basic [halting]:
  "halts (ret a)" "halts (Done a)" "halts (gets h)" "halts (modify k)" "halts (panic m)" "halts out_of_bounds" "halts Spin" "halts Sleep"
  by (simp_all add: halts_def out_of_bounds_def)

lemma halts_whenk [halting]: "(b \<Longrightarrow> halts f) \<Longrightarrow> halts (whenk b f)"
  by (cases b) (simp_all add: whenk_def halts_basic)

lemma halts_foreach [halting]: "(\<And>i. halts (f i)) \<Longrightarrow> halts (foreach is f)"
  by (induction "is") (simp_all add: halts_basic halts_seqk)

lemma halts_with_proc [halting]: "(\<And>p. halts (f p)) \<Longrightarrow> halts (with_proc f)"
  by (simp add: halts_def with_proc_def split: option.splits)

section \<open>Locks and pages\<close>

lemma halts_lock [halting]: "halts pushcli" "halts popcli" "halts (xchg l v)" "halts (acquire_mark l)"
  by (simp_all add: halts_def pushcli_def popcli_def xchg_def acquire_mark_def Let_def)

lemma halts_acquire [halting]: "halts (acquire l)" "halts (release l)"
  unfolding acquire_def acquire_enter_def acquire_spin_def release_def release_enter_def release_exit_def by (intro halting)+

lemma halts_pages [halting]: "halts kalloc" "halts (kfree p)" "halts (zero_page p)" "halts (load a)" "halts (store a w)"
  unfolding kalloc_def kfree_def zero_page_def load_def store_def by (intro halting)+

lemma halts_walkpgdir [halting]: "halts (walkpgdir pd va al)"
  unfolding walkpgdir_def Let_def by (intro halting)

lemma halts_mappages [halting]: "halts (mappages pd va n pa perm)"
proof -
  have "halts (mappages_loop k pd a pa perm)" for k a pa
    by (induction k arbitrary: a pa) (simp_all add: mappages_loop.simps halting)
  then show ?thesis unfolding mappages_def Let_def .
qed

lemma halts_setupkvm [halting]: "halts setupkvm"
proof -
  have "halts (map_kernel pd ks)" for pd ks
    by (induction ks) (simp_all add: halting split: prod.splits)
  then show ?thesis unfolding setupkvm_def by (intro halting)
qed

lemma halts_switch [halting]: "halts (switchuvm p)"
  unfolding switchuvm_def by (intro halting)

section \<open>User memory\<close>

lemma step_pages:
  fixes a b :: u32
  assumes "a < b" "b \<le> KERNBASE" "unat b \<le> unat a + 4096 * Suc f"
  shows "unat b \<le> unat (a + PGSIZE) + 4096 * f" "unat b \<le> unat (a + (NPTENTRIES - 1) * PGSIZE + PGSIZE) + 4096 * f"
proof -
  have lt: "unat a < 2147483648" using assms(1,2) by (simp add: KERNBASE_def word_less_nat_alt word_le_nat_alt)
  have "unat (a + PGSIZE) = unat a + 4096" using lt by (simp add: PGSIZE_def unat_word_ariths(1))
  then show "unat b \<le> unat (a + PGSIZE) + 4096 * f" using assms(3) by simp
  have e: "a + (NPTENTRIES - 1) * PGSIZE + PGSIZE = a + 4194304" by (simp add: NPTENTRIES_def PGSIZE_def)
  have "unat (a + 4194304) = unat a + 4194304" using lt by (simp add: unat_word_ariths(1))
  then show "unat b \<le> unat (a + (NPTENTRIES - 1) * PGSIZE + PGSIZE) + 4096 * f" unfolding e using assms(3) by simp
qed

lemma enough_fuel:
  fixes a b :: u32
  obtains f where "vm_fuel = Suc f" "unat b \<le> unat a + 4096 * f"
  using unat_u32_less [of b] by (intro that [of "2 ^ 20 + 1"]) (simp_all add: vm_fuel_def)

lemma halts_dealloc_loop:
  assumes "b \<le> KERNBASE" "unat b \<le> unat a + 4096 * f"
  shows "halts (deallocuvm_loop (Suc f) pd b a)"
  using assms(2)
proof (induction f arbitrary: a)
  case 0
  then have "\<not> a < b" by (simp add: word_less_nat_alt)
  then show ?case by (simp add: halting)
next
  case (Suc f)
  show ?case
  proof (cases "a < b")
    case True
    note st = step_pages [OF True assms(1) Suc.prems]
    show ?thesis unfolding deallocuvm_loop.simps(2) [of "Suc f"] by (intro halting Suc.IH st)
  qed (simp add: halting)
qed

lemma halts_deallocuvm:
  assumes "b \<le> KERNBASE"
  shows "halts (deallocuvm pd b a)"
proof -
  obtain f where f: "vm_fuel = Suc f" "unat b \<le> unat (PGROUNDUP a) + 4096 * f" by (rule enough_fuel)
  show ?thesis unfolding deallocuvm_def f(1) by (intro halting halts_dealloc_loop [OF assms f(2)])
qed

lemma halts_freevm [halting]: "halts (freevm pd)"
  unfolding freevm_def by (intro halting halts_deallocuvm) simp

lemma halts_alloc_loop:
  assumes "b \<le> KERNBASE" "unat b \<le> unat a + 4096 * f"
  shows "halts (allocuvm_loop (Suc f) pd old b a)"
  using assms(2)
proof (induction f arbitrary: a)
  case 0
  then have "\<not> a < b" by (simp add: word_less_nat_alt)
  then show ?case by (simp add: halting)
next
  case (Suc f)
  show ?case
  proof (cases "a < b")
    case True
    note st = step_pages(1) [OF True assms(1) Suc.prems]
    show ?thesis unfolding allocuvm_loop.simps(2) [of "Suc f"] by (intro halting Suc.IH st halts_deallocuvm assms(1))
  qed (simp add: halting)
qed

lemma halts_allocuvm [halting]: "halts (allocuvm pd a b)"
proof (cases "KERNBASE \<le> b")
  case False
  then have b: "b \<le> KERNBASE" by simp
  obtain f where f: "vm_fuel = Suc f" "unat b \<le> unat (PGROUNDUP a) + 4096 * f" by (rule enough_fuel)
  show ?thesis unfolding allocuvm_def f(1) by (intro halting halts_alloc_loop [OF b f(2)])
qed (simp add: allocuvm_def halting)

lemma halts_copyuvm: "b \<le> KERNBASE \<Longrightarrow> halts (copyuvm pd b)"
proof -
  assume b: "b \<le> KERNBASE"
  have "halts (copyuvm_loop (Suc f) pd d b a)" if "unat b \<le> unat a + 4096 * f" for d a f
    using that
  proof (induction f arbitrary: a)
    case 0
    then have "\<not> a < b" by (simp add: word_less_nat_alt)
    then show ?case by (simp add: halting)
  next
    case (Suc f)
    show ?case
    proof (cases "a < b")
      case True
      note st = step_pages(1) [OF True b Suc.prems]
      show ?thesis unfolding copyuvm_loop.simps(2) [of "Suc f"] by (intro halting Suc.IH st)
    qed (simp add: halting)
  qed
  note loop = this
  obtain f where f: "vm_fuel = Suc f" "unat b \<le> unat (0 :: u32) + 4096 * f" by (rule enough_fuel)
  show ?thesis unfolding copyuvm_def f(1) by (intro halting loop [OF f(2)])
qed

section \<open>What the process table keeps\<close>

text \<open>The operations of \<open>vm.c\<close> do not write to the process table, and the sizes they return stay below the kernel.\<close>

named_theorems steadiness \<open>operations that keep the process table\<close>

definition steady :: "('a, 'z kstate_scheme) kop \<Rightarrow> bool" where
  "steady f \<longleftrightarrow> (\<forall>s a t. f s = Done a t \<longrightarrow> ptable t = ptable s)"

lemma steady_bind [steadiness]: "steady f \<Longrightarrow> (\<And>a. steady (g a)) \<Longrightarrow> steady (bind f g)"
  unfolding steady_def bind_def by (fastforce split: outcome.splits)

lemma steady_seqk [steadiness]: "steady f \<Longrightarrow> steady g \<Longrightarrow> steady (seqk f g)"
  unfolding seqk_def by (rule steady_bind)

lemma steady_if [steadiness]: "(b \<Longrightarrow> steady f) \<Longrightarrow> (\<not> b \<Longrightarrow> steady g) \<Longrightarrow> steady (if b then f else g)"
  by simp

lemma steady_basic [steadiness]:
  "steady (ret a)" "steady (Done a)" "steady (gets h)" "steady (panic m)" "steady out_of_bounds" "steady Spin" "steady Sleep" "steady (\<lambda>s. Diverge)"
  "(\<And>s. ptable (k s) = ptable s) \<Longrightarrow> steady (modify k)"
  by (simp_all add: steady_def out_of_bounds_def)

lemma steady_whenk [steadiness]: "(b \<Longrightarrow> steady f) \<Longrightarrow> steady (whenk b f)"
  by (cases b) (simp_all add: whenk_def steady_basic)

lemma steady_foreach [steadiness]: "(\<And>i. steady (f i)) \<Longrightarrow> steady (foreach is f)"
  by (induction "is") (simp_all add: steady_basic steady_seqk)

lemma ptable_upd [simp]: "ptable (upd_mycpu f s) = ptable s" "ptable (upd_lock l g s) = ptable s"
  by (simp_all add: upd_mycpu_def upd_lock_def)

lemma steady_lock [steadiness]: "steady pushcli" "steady popcli" "steady (xchg l v)" "steady (acquire_mark l)"
  by (auto simp: steady_def pushcli_def popcli_def xchg_def acquire_mark_def Let_def split: if_splits)

lemma steady_acquire [steadiness]: "steady (acquire l)" "steady (release l)"
  unfolding acquire_def acquire_enter_def acquire_spin_def release_def release_enter_def release_exit_def
  by (intro steadiness; simp)+

lemma steady_pages [steadiness]: "steady kalloc" "steady (kfree p)" "steady (zero_page p)" "steady (load a)" "steady (store a w)"
  unfolding kalloc_def kfree_def zero_page_def load_def store_def by (intro steadiness; simp)+

lemma steady_walkpgdir [steadiness]: "steady (walkpgdir pd va al)"
  unfolding walkpgdir_def Let_def by (intro steadiness)

lemma steady_mappages [steadiness]: "steady (mappages pd va n pa perm)"
proof -
  have "steady (mappages_loop k pd a pa perm)" for k a pa
    by (induction k arbitrary: a pa) (simp_all add: mappages_loop.simps steadiness)
  then show ?thesis unfolding mappages_def Let_def .
qed

lemma steady_deallocuvm [steadiness]: "steady (deallocuvm pd b a)"
proof -
  have "steady (deallocuvm_loop f pd b a)" for f a
    by (induction f arbitrary: a) (simp_all add: steadiness)
  then show ?thesis unfolding deallocuvm_def by (intro steadiness)
qed

lemma steady_alloc_loop [steadiness]: "steady (allocuvm_loop f pd old b a)"
  by (induction f arbitrary: a) (simp_all add: steadiness)

lemma steady_allocuvm [steadiness]: "steady (allocuvm pd a b)"
  unfolding allocuvm_def by (intro steadiness)

lemma allocuvm_size: "allocuvm pd a b s = Done z t \<Longrightarrow> a \<le> KERNBASE \<Longrightarrow> z \<le> KERNBASE"
proof -
  have "allocuvm_loop f pd a b c s = Done z t \<Longrightarrow> z = 0 \<or> z = b" for f c s
    by (induction f arbitrary: c s) (auto simp: bind_def seqk_def split: outcome.splits if_splits)
  then have loop: "allocuvm_loop f pd a b c s = Done z t \<Longrightarrow> \<not> KERNBASE \<le> b \<Longrightarrow> z \<le> KERNBASE" for f c s by fastforce
  then show "allocuvm pd a b s = Done z t \<Longrightarrow> a \<le> KERNBASE \<Longrightarrow> z \<le> KERNBASE" by (auto simp: allocuvm_def split: if_splits)
qed

lemma deallocuvm_size: "deallocuvm pd a b s = Done z t \<Longrightarrow> a \<le> KERNBASE \<Longrightarrow> z \<le> KERNBASE"
  by (auto simp: deallocuvm_def bind_def seqk_def split: outcome.splits if_splits)

lemma steady_switchuvm [steadiness]: "steady (switchuvm p)"
proof -
  have "steady (with_proc (\<lambda>q. modify (\<lambda>s. upd_mycpu (\<lambda>c. c\<lparr>esp0 := kstack (ptable s q) + KSTACKSIZE\<rparr>) s)))"
    by (auto simp: steady_def with_proc_def split: option.splits)
  then show ?thesis unfolding switchuvm_def by (intro steadiness) simp_all
qed

section \<open>Properties\<close>



end
