(* ===== verification/Grep.thy ===== *)
theory Grep
  imports Prelude
begin

text \<open>
  The matcher of \<open>grep.c\<close>, and the language of its patterns.  A C string is the list of its bytes without the terminating 0, so
  that a pointer into a string is the rest of the list.
\<close>

section \<open>The matcher\<close>

abbreviation ch_caret :: byte where "ch_caret \<equiv> 0x5E"
abbreviation ch_star :: byte where "ch_star \<equiv> 0x2A"
abbreviation ch_dot :: byte where "ch_dot \<equiv> 0x2E"
abbreviation ch_dollar :: byte where "ch_dollar \<equiv> 0x24"

text \<open>\<open>matchhere\<close> and \<open>matchstar\<close> call each other; the character that is read at the end of a string is 0.\<close>

definition char0 :: "bytes \<Rightarrow> byte" where
  "char0 s = (case s of [] \<Rightarrow> 0 | c # _ \<Rightarrow> c)"

function (sequential) matchhere :: "bytes \<Rightarrow> bytes \<Rightarrow> bool" and matchstar :: "byte \<Rightarrow> bytes \<Rightarrow> bytes \<Rightarrow> bool" where
  "matchhere [] str = True"
| "matchhere (r0 # re) str =
     (if char0 re = ch_star then matchstar r0 (tl re) str
      else if r0 = ch_dollar \<and> re = [] then str = []
      else if str \<noteq> [] \<and> (r0 = ch_dot \<or> r0 = hd str) then matchhere re (tl str)
      else False)"
| "matchstar c re str =
     (if matchhere re str then True
      else if str \<noteq> [] \<and> (hd str = c \<or> c = ch_dot) then matchstar c re (tl str)
      else False)"
  by pat_completeness auto
termination
proof (relation "measure (\<lambda>x. case x of Inl (re, str) \<Rightarrow> 2 * length re + length str | Inr (c, re, str) \<Rightarrow> 2 * length re + length str + 1)", goal_cases)
  case (2 r0 re str)
  then have "re \<noteq> []" by (auto simp: char0_def)
  then show ?case by (cases re) auto
next
  case (3 r0 re str)
  then show ?case by (cases str) auto
next
  case (5 c re str)
  then show ?case by (cases str) auto
qed auto

primrec match_from :: "bytes \<Rightarrow> bytes \<Rightarrow> bool" where
  "match_from re [] = matchhere re []"
| "match_from re (c # str) = (if matchhere re (c # str) then True else match_from re str)"

definition match :: "bytes \<Rightarrow> bytes \<Rightarrow> bool" where
  "match re str = (if char0 re = ch_caret then matchhere (tl re) str else match_from re str)"

section \<open>The language of a pattern\<close>

text \<open>A pattern is a list of items, a single character or any number of them, and may end with the anchor \<open>$\<close>.\<close>

datatype item = One byte | Many byte

fun items :: "bytes \<Rightarrow> item list \<times> bool" where
  "items [] = ([], False)"
| "items [c] = (if c = ch_dollar then ([], True) else ([One c], False))"
| "items (c # d # re) =
     (if d = ch_star then (Many c # fst (items re), snd (items re))
      else (One c # fst (items (d # re)), snd (items (d # re))))"

definition accepts :: "byte \<Rightarrow> byte \<Rightarrow> bool" where
  "accepts c x \<longleftrightarrow> c = ch_dot \<or> c = x"

primrec lang :: "item list \<Rightarrow> bytes set" where
  "lang [] = {[]}"
| "lang (i # is) = (case i of
     One c \<Rightarrow> {x # w |x w. accepts c x \<and> w \<in> lang is}
   | Many c \<Rightarrow> {u @ w |u w. (\<forall>x \<in> set u. accepts c x) \<and> w \<in> lang is})"

definition finds :: "bytes \<Rightarrow> bytes \<Rightarrow> bool" where
  "finds re str \<longleftrightarrow> (\<exists>u v. str = u @ v \<and> u \<in> lang (fst (items re)) \<and> (snd (items re) \<longrightarrow> v = []))"

declare matchhere.simps [simp del] matchstar.simps [simp del]

lemma finds_One:
  assumes "fst (items re) = One c # is" "snd (items re) = snd (items re')" "is = fst (items re')"
  shows "finds re str \<longleftrightarrow> str \<noteq> [] \<and> accepts c (hd str) \<and> finds re' (tl str)"
proof (cases str)
  case (Cons x xs)
  have "finds re (x # xs) \<longleftrightarrow> (\<exists>u v. x # xs = u @ v \<and> (\<exists>y w. u = y # w \<and> accepts c y \<and> w \<in> lang is) \<and> (snd (items re') \<longrightarrow> v = []))"
    using assms by (auto simp: finds_def)
  also have "\<dots> \<longleftrightarrow> accepts c x \<and> (\<exists>w v. xs = w @ v \<and> w \<in> lang is \<and> (snd (items re') \<longrightarrow> v = []))" (is "?L \<longleftrightarrow> ?R")
  proof
    assume ?L
    then obtain u v y w where "x # xs = u @ v" "u = y # w" "accepts c y" "w \<in> lang is" "snd (items re') \<longrightarrow> v = []" by blast
    then show ?R by (intro conjI exI [of _ w] exI [of _ v]) simp_all
  next
    assume ?R
    then obtain w v where "accepts c x" "xs = w @ v" "w \<in> lang is" "snd (items re') \<longrightarrow> v = []" by blast
    then show ?L by (intro exI [of _ "x # w"] exI [of _ v]) simp
  qed
  also have "\<dots> \<longleftrightarrow> accepts c x \<and> finds re' xs" unfolding finds_def assms(3) ..
  finally show ?thesis using Cons by simp
qed (use assms in \<open>auto simp: finds_def\<close>)

text \<open>A repeated character is matched by a prefix of the text that it accepts.\<close>

lemma finds_Many:
  assumes "fst (items re) = Many c # is" "snd (items re) = snd (items re')" "is = fst (items re')"
  shows "finds re str \<longleftrightarrow> finds re' str \<or> (str \<noteq> [] \<and> accepts c (hd str) \<and> finds re (tl str))" (is "?L \<longleftrightarrow> ?R")
proof -
  define E where "E = snd (items re')"
  have many: "finds re t \<longleftrightarrow> (\<exists>u w v. t = u @ w @ v \<and> (\<forall>x \<in> set u. accepts c x) \<and> w \<in> lang is \<and> (E \<longrightarrow> v = []))" for t
    unfolding finds_def assms(1,2) E_def lang.simps item.case by (auto simp del: append_assoc simp: append_assoc [symmetric])
  have rest: "finds re' t \<longleftrightarrow> (\<exists>w v. t = w @ v \<and> w \<in> lang is \<and> (E \<longrightarrow> v = []))" for t
    unfolding finds_def assms(3) E_def ..
  show ?thesis
  proof
    assume ?L
    then obtain u w v where t: "str = u @ w @ v" "\<forall>x \<in> set u. accepts c x" "w \<in> lang is" "E \<longrightarrow> v = []" unfolding many by blast
    show ?R
    proof (cases u)
      case Nil
      then show ?thesis using t rest by auto
    next
      case (Cons x xs)
      then have "finds re (xs @ w @ v)" using t(2-4) unfolding many by (intro exI [of _ xs] exI [of _ w] exI [of _ v]) simp
      then show ?thesis using t(1,2) Cons by simp
    qed
  next
    assume ?R
    then show ?L
    proof
      assume "finds re' str"
      then obtain w v where "str = w @ v" "w \<in> lang is" "E \<longrightarrow> v = []" unfolding rest by blast
      then show ?thesis unfolding many by (intro exI [of _ "[]"] exI [of _ w] exI [of _ v]) simp
    next
      assume r: "str \<noteq> [] \<and> accepts c (hd str) \<and> finds re (tl str)"
      then obtain x xs where x: "str = x # xs" by (cases str) auto
      obtain u w v where t: "xs = u @ w @ v" "\<forall>y \<in> set u. accepts c y" "w \<in> lang is" "E \<longrightarrow> v = []" using r many [of xs] by (auto simp: x)
      then show ?thesis using r x unfolding many by (intro exI [of _ "x # u"] exI [of _ w] exI [of _ v]) simp
    qed
  qed
qed

lemma items_star: "char0 re = ch_star \<Longrightarrow> items (r0 # re) = (Many r0 # fst (items (tl re)), snd (items (tl re)))"
  by (cases re) (auto simp: char0_def)

lemma items_one: "char0 re \<noteq> ch_star \<Longrightarrow> \<not> (r0 = ch_dollar \<and> re = []) \<Longrightarrow> items (r0 # re) = (One r0 # fst (items re), snd (items re))"
  by (cases re) (auto simp: char0_def)

lemma match_correct:
  "matchhere re str \<longleftrightarrow> finds re str"
  "matchstar c re str \<longleftrightarrow> finds (c # ch_star # re) str"
proof (induction re str and c re str rule: matchhere_matchstar.induct)
  case (1 str)
  then show ?case by (auto simp: matchhere.simps finds_def)
next
  case (2 r0 re str)
  show ?case
  proof (cases "char0 re = ch_star")
    case True
    then have "re = ch_star # tl re" by (cases re) (auto simp: char0_def)
    then show ?thesis using "2.IH"(1) [OF True] True by (simp add: matchhere.simps)
  next
    case star: False
    show ?thesis
    proof (cases "r0 = ch_dollar \<and> re = []")
      case True
      then show ?thesis using star by (auto simp: matchhere.simps finds_def char0_def)
    next
      case False
      note it = items_one [OF star False]
      have "finds (r0 # re) str \<longleftrightarrow> str \<noteq> [] \<and> accepts r0 (hd str) \<and> finds re (tl str)"
        by (rule finds_One) (simp_all add: it)
      then show ?thesis using "2.IH"(2) [OF star False] star False by (auto simp: matchhere.simps accepts_def)
    qed
  qed
next
  case (3 c re str)
  have "finds (c # ch_star # re) str \<longleftrightarrow> finds re str \<or> (str \<noteq> [] \<and> accepts c (hd str) \<and> finds (c # ch_star # re) (tl str))"
    by (rule finds_Many) simp_all
  then show ?case using 3 by (auto simp: matchstar.simps [of c re str] accepts_def)
qed

lemma match_from_suffix: "match_from re str \<longleftrightarrow> (\<exists>a b. str = a @ b \<and> finds re b)"
proof (induction str)
  case Nil
  then show ?case by (simp add: match_correct)
next
  case (Cons c str)
  have "(\<exists>a b. c # str = a @ b \<and> finds re b) \<longleftrightarrow> finds re (c # str) \<or> (\<exists>a b. str = a @ b \<and> finds re b)"
    by (metis append_Cons append_Nil neq_Nil_conv list.inject)
  then show ?case using Cons by (simp add: match_correct)
qed

section \<open>Properties\<close>

text \<open>C39 (the matcher decides the language). A line is selected exactly if a word of the language of the pattern occurs in it: at the
  start of the line when the pattern begins with \<open>^\<close>, up to its end when the pattern ends with \<open>$\<close>, and anywhere otherwise.\<close>

theorem match_language:
  "match re str \<longleftrightarrow>
     (let anchored = (char0 re = ch_caret); (is, to_end) = items (if anchored then tl re else re) in
      \<exists>a u b. str = a @ u @ b \<and> u \<in> lang is \<and> (anchored \<longrightarrow> a = []) \<and> (to_end \<longrightarrow> b = []))"
proof (cases "char0 re = ch_caret")
  case True
  then show ?thesis by (simp add: match_def match_correct finds_def split_def Let_def)
next
  case False
  have "match re str \<longleftrightarrow> (\<exists>a b. str = a @ b \<and> finds re b)" using False by (simp add: match_def match_from_suffix)
  also have "\<dots> \<longleftrightarrow> (\<exists>a u v. str = a @ u @ v \<and> u \<in> lang (fst (items re)) \<and> (snd (items re) \<longrightarrow> v = []))"
    unfolding finds_def by blast
  finally show ?thesis using False by (simp add: split_def Let_def)
qed

theorem match_language_witness:
  "match [0x5E, 0x61, 0x2A, 0x62] [0x61, 0x61, 0x62, 0x63] \<and> \<not> match [0x5E, 0x61, 0x2A, 0x62, 0x24] [0x61, 0x61, 0x62, 0x63] \<and>
   (\<exists>a u b. [0x61, 0x61, 0x62, 0x63] = a @ u @ b \<and> u \<in> lang [Many 0x61, One 0x62] \<and> a = [])"
proof -
  have m: "match [0x5E, 0x61, 0x2A, 0x62] [0x61, 0x61, 0x62, 0x63]" by code_simp
  then have "\<exists>a u b. [0x61, 0x61, 0x62, 0x63] = a @ u @ b \<and> u \<in> lang [Many 0x61, One 0x62] \<and> a = []"
    using match_language [of "[0x5E, 0x61, 0x2A, 0x62]" "[0x61, 0x61, 0x62, 0x63]"] by (simp add: char0_def)
  moreover have "\<not> match [0x5E, 0x61, 0x2A, 0x62, 0x24] [0x61, 0x61, 0x62, 0x63]" by code_simp
  ultimately show ?thesis using m by simp
qed

end
