(* ===== verification/Shell.thy ===== *)
theory Shell
  imports Grep "HOL-Library.Sublist"
begin

text \<open>
  The parser of the shell (\<open>sh.c\<close>).  A pointer into the command line is the rest of the line from there on, so that the end of the
  line \<open>es\<close> is the empty list and the character read there is 0.  The constructors of commands allocate memory; running out of it,
  which the code does not test for, is not part of the model.
\<close>

section \<open>Tokens\<close>

type_synonym ptr = bytes

definition whitespace :: bytes where "whitespace = [0x20, 0x09, 0x0D, 0x0A, 0x0B]"

definition symbols :: bytes where "symbols = [0x3C, 0x7C, 0x3E, 0x26, 0x3B, 0x28, 0x29]"

abbreviation ch_lt :: byte where "ch_lt \<equiv> 0x3C"
abbreviation ch_bar :: byte where "ch_bar \<equiv> 0x7C"
abbreviation ch_gt :: byte where "ch_gt \<equiv> 0x3E"
abbreviation ch_amp :: byte where "ch_amp \<equiv> 0x26"
abbreviation ch_semi :: byte where "ch_semi \<equiv> 0x3B"
abbreviation ch_open :: byte where "ch_open \<equiv> 0x28"
abbreviation ch_close :: byte where "ch_close \<equiv> 0x29"
abbreviation ch_plus :: byte where "ch_plus \<equiv> 0x2B"
abbreviation ch_a :: byte where "ch_a \<equiv> 0x61"

definition is_space :: "byte \<Rightarrow> bool" where "is_space c \<longleftrightarrow> c \<in> set whitespace"

definition is_word :: "byte \<Rightarrow> bool" where "is_word c \<longleftrightarrow> c \<notin> set whitespace \<and> c \<notin> set symbols"

definition skip :: "ptr \<Rightarrow> ptr" where "skip s = dropWhile is_space s"

text \<open>The kind of token, the pointers to its start and its end, and the pointer behind the white space that follows.\<close>

definition token_at :: "ptr \<Rightarrow> byte \<times> ptr" where
  "token_at q =
     (if q = [] then (0, q)
      else if hd q \<in> {ch_bar, ch_open, ch_close, ch_semi, ch_amp, ch_lt} then (hd q, tl q)
      else if hd q = ch_gt then (if char0 (tl q) = ch_gt then (ch_plus, tl (tl q)) else (ch_gt, tl q))
      else (ch_a, dropWhile is_word q))"

definition gettoken :: "ptr \<Rightarrow> byte \<times> ptr \<times> ptr \<times> ptr" where
  "gettoken s = (let q = skip s; (r, eq) = token_at q in (r, q, eq, skip eq))"

definition peek :: "bytes \<Rightarrow> ptr \<Rightarrow> bool \<times> ptr" where
  "peek toks s = (let s = skip s in (s \<noteq> [] \<and> hd s \<in> set toks, s))"

section \<open>Commands\<close>

datatype cmd =
    EXEC "(ptr \<times> ptr) list"
  | REDIR cmd ptr ptr u32 u32
  | PIPE cmd cmd
  | LIST cmd cmd
  | BACK cmd

definition MAXARGS :: nat where "MAXARGS = 10"

text \<open>A parser gives a result and the rest of the line, or the message with which the shell gives up.\<close>

datatype 'a parsed = Parsed 'a ptr | Bad string | Fuel

primrec andthen :: "'a parsed \<Rightarrow> ('a \<Rightarrow> ptr \<Rightarrow> 'b parsed) \<Rightarrow> 'b parsed" where
  "andthen (Parsed a s) f = f a s"
| "andthen (Bad m) f = Bad m"
| "andthen Fuel f = Fuel"

type_synonym redir = "ptr \<times> ptr \<times> u32 \<times> u32"

text \<open>
  \<open>parseredirs\<close> wraps a command into the redirections that follow.  \<open>parseexec\<close> goes on filling in the arguments of the command inside;
  the redirections are therefore collected in a list and wrapped around the command at the end.
\<close>

definition wrap :: "redir list \<Rightarrow> cmd \<Rightarrow> cmd" where
  "wrap rs c = foldl (\<lambda>c (q, eq, mode, fd). REDIR c q eq mode fd) c rs"

definition redir_of :: "byte \<Rightarrow> ptr \<Rightarrow> ptr \<Rightarrow> redir list" where
  "redir_of tok q eq =
     (if tok = ch_lt then [(q, eq, O_RDONLY, 0)]
      else if tok = ch_gt \<or> tok = ch_plus then [(q, eq, O_WRONLY OR O_CREATE, 1)]
      else [])"

lemma skip_length: "length (skip s) \<le> length s"
  by (simp add: skip_def length_dropWhile_le)

lemma skip_idem [simp]: "skip (skip s) = skip s"
  by (simp add: skip_def dropWhile_idem)

lemma skip_hd: "skip s \<noteq> [] \<Longrightarrow> \<not> is_space (hd (skip s))"
  unfolding skip_def by (rule hd_dropWhile)

lemma token_at_cons:
  assumes "\<not> is_space c"
  shows "fst (token_at (c # r)) \<noteq> 0" "length (snd (token_at (c # r))) \<le> length r"
proof -
  have "is_word c" if "c \<notin> {ch_bar, ch_open, ch_close, ch_semi, ch_amp, ch_lt}" "c \<noteq> ch_gt"
    using that assms by (auto simp: is_word_def is_space_def symbols_def)
  moreover have "length (tl r) \<le> length r" "length (dropWhile is_word r) \<le> length r" by (simp_all add: length_dropWhile_le)
  ultimately show "fst (token_at (c # r)) \<noteq> 0" "length (snd (token_at (c # r))) \<le> length r" by (auto simp: token_at_def)
qed

lemma gettoken_length:
  assumes "gettoken s = (tok, q, eq, s')"
  shows "tok = 0 \<longleftrightarrow> skip s = []" "length s' \<le> length (skip s)" "tok \<noteq> 0 \<Longrightarrow> length s' < length (skip s)"
proof -
  have eq: "token_at (skip s) = (tok, eq)" "s' = skip eq" using assms by (auto simp: gettoken_def Let_def split: prod.splits)
  have l: "(tok = 0 \<longleftrightarrow> skip s = []) \<and> length eq \<le> length (skip s) \<and> (tok \<noteq> 0 \<longrightarrow> length eq < length (skip s))"
  proof (cases "skip s")
    case Nil
    then show ?thesis using eq(1) by (simp add: token_at_def)
  next
    case (Cons c r)
    then have "\<not> is_space c" using skip_hd [of s] by simp
    then show ?thesis using token_at_cons [of c r] eq(1) Cons by auto
  qed
  then show "tok = 0 \<longleftrightarrow> skip s = []" "length s' \<le> length (skip s)" "tok \<noteq> 0 \<Longrightarrow> length s' < length (skip s)"
    using eq(2) skip_length [of eq] by auto
qed

lemma peek_eq: "peek toks s = (skip s \<noteq> [] \<and> hd (skip s) \<in> set toks, skip s)"
  by (simp add: peek_def Let_def)

text \<open>The loops of the parser take at least one character in every round.\<close>

lemma token_less:
  assumes "gettoken (skip s) = (tok, q, eq, s')" "skip s \<noteq> []"
  shows "length s' < length s"
  using gettoken_length [OF assms(1)] assms(2) skip_length [of s] by auto

lemma two_tokens_less:
  assumes "(tok, p, ep, s1) = gettoken (skip s)" "(w, q, eq, s2) = gettoken s1" "skip s \<noteq> []"
  shows "length s2 < length s"
  using token_less [OF assms(1) [symmetric] assms(3)] gettoken_length(2) [OF assms(2) [symmetric]] skip_length [of s1] by simp

section \<open>The parser\<close>

function parseredirs :: "redir list \<Rightarrow> ptr \<Rightarrow> redir list parsed" where
  "parseredirs rs s =
     (case peek [ch_lt, ch_gt] s of (b, s) \<Rightarrow>
      if b then
        case gettoken s of (tok, _, _, s) \<Rightarrow>
        case gettoken s of (w, q, eq, s) \<Rightarrow>
        if w \<noteq> ch_a then Bad ''missing file for redirection''
        else parseredirs (rs @ redir_of tok q eq) s
      else Parsed rs s)"
  by pat_completeness auto
termination
  by (relation "measure (\<lambda>(rs, s). length s)") (simp, auto simp: peek_eq dest: two_tokens_less)

declare parseredirs.simps [simp del]

lemma parseredirs_length: "parseredirs rs s = Parsed rs' s' \<Longrightarrow> length s' \<le> length s"
proof (induction rs s rule: parseredirs.induct)
  case (1 rs s)
  show ?case
  proof (cases "skip s \<noteq> [] \<and> hd (skip s) \<in> {ch_lt, ch_gt}")
    case True
    obtain tok p ep s1 where t: "gettoken (skip s) = (tok, p, ep, s1)" by (metis prod_cases4)
    obtain w q eq s2 where u: "gettoken s1 = (w, q, eq, s2)" by (metis prod_cases4)
    have p: "peek [ch_lt, ch_gt] s = (True, skip s)" using True by (auto simp: peek_eq)
    then have "w = ch_a" "parseredirs (rs @ redir_of tok q eq) s2 = Parsed rs' s'"
      using "1.prems" t u by (auto simp: parseredirs.simps [of rs s] split: if_splits)
    then have "length s' \<le> length s2" using "1.IH" [OF p [symmetric] TrueI t [symmetric] _ _ u [symmetric]] by simp
    then show ?thesis using two_tokens_less [OF t [symmetric] u [symmetric]] True by simp
  next
    case False
    then have "s' = skip s" using "1.prems" by (auto simp: parseredirs.simps [of rs s] peek_eq)
    then show ?thesis by (simp add: skip_length)
  qed
qed

text \<open>The arguments of a command, with the redirections between them.\<close>

function parseargs :: "(ptr \<times> ptr) list \<Rightarrow> redir list \<Rightarrow> ptr \<Rightarrow> ((ptr \<times> ptr) list \<times> redir list) parsed" where
  "parseargs args rs s =
     (case peek [ch_bar, ch_close, ch_amp, ch_semi] s of (b, s) \<Rightarrow>
      if b then Parsed (args, rs) s
      else
        case gettoken s of (tok, q, eq, s) \<Rightarrow>
        if tok = 0 then Parsed (args, rs) s
        else if tok \<noteq> ch_a then Bad ''syntax''
        else if Suc (length args) \<ge> MAXARGS then Bad ''too many args''
        else
          case parseredirs rs s of
            Parsed rs s \<Rightarrow> parseargs (args @ [(q, eq)]) rs s
          | Bad m \<Rightarrow> Bad m
          | Fuel \<Rightarrow> Fuel)"
  by pat_completeness auto
termination
proof (relation "measure (\<lambda>(args, rs, s). length s)", simp, clarsimp simp: peek_eq)
  fix s rs q eq s1 rs' s2
  assume a: "(ch_a, q, eq, s1) = gettoken (skip s)" "parseredirs rs s1 = Parsed rs' s2"
  have "skip s \<noteq> []" using gettoken_length(1) [OF a(1) [symmetric]] by auto
  then have "length s1 < length s" using token_less [OF a(1) [symmetric]] by simp
  then show "length s2 < length s" using parseredirs_length [OF a(2)] by simp
qed

function backs :: "cmd \<Rightarrow> ptr \<Rightarrow> cmd \<times> ptr" where
  "backs c s =
     (case peek [ch_amp] s of (b, s) \<Rightarrow>
      if b then case gettoken s of (_, _, _, s) \<Rightarrow> backs (BACK c) s
      else (c, s))"
  by pat_completeness auto
termination
  by (relation "measure (\<lambda>(c, s). length s)") (simp, auto simp: peek_eq dest!: sym [where t = "gettoken _"] token_less)

declare parseargs.simps [simp del] backs.simps [simp del]

fun parseline :: "nat \<Rightarrow> ptr \<Rightarrow> cmd parsed" and parsepipe :: "nat \<Rightarrow> ptr \<Rightarrow> cmd parsed"
  and parseexec :: "nat \<Rightarrow> ptr \<Rightarrow> cmd parsed" and parseblock :: "nat \<Rightarrow> ptr \<Rightarrow> cmd parsed" where
  "parseline 0 s = Fuel"
| "parseline (Suc n) s =
     andthen (parsepipe n s) (\<lambda>c s.
     case backs c s of (c, s) \<Rightarrow>
     case peek [ch_semi] s of (b, s) \<Rightarrow>
     if b then
       case gettoken s of (_, _, _, s) \<Rightarrow>
       andthen (parseline n s) (\<lambda>d s. Parsed (LIST c d) s)
     else Parsed c s)"
| "parsepipe 0 s = Fuel"
| "parsepipe (Suc n) s =
     andthen (parseexec n s) (\<lambda>c s.
     case peek [ch_bar] s of (b, s) \<Rightarrow>
     if b then
       case gettoken s of (_, _, _, s) \<Rightarrow>
       andthen (parsepipe n s) (\<lambda>d s. Parsed (PIPE c d) s)
     else Parsed c s)"
| "parseexec 0 s = Fuel"
| "parseexec (Suc n) s =
     (case peek [ch_open] s of (b, s) \<Rightarrow>
      if b then parseblock n s
      else
        andthen (parseredirs [] s) (\<lambda>rs s.
        andthen (parseargs [] rs s) (\<lambda>(args, rs) s. Parsed (wrap rs (EXEC args)) s)))"
| "parseblock 0 s = Fuel"
| "parseblock (Suc n) s =
     (case peek [ch_open] s of (b, s) \<Rightarrow>
      if \<not> b then Bad ''parseblock''
      else
        case gettoken s of (_, _, _, s) \<Rightarrow>
        andthen (parseline n s) (\<lambda>c s.
        case peek [ch_close] s of (b, s) \<Rightarrow>
        if \<not> b then Bad ''syntax - missing )''
        else
          case gettoken s of (_, _, _, s) \<Rightarrow>
          andthen (parseredirs [] s) (\<lambda>rs s. Parsed (wrap rs c) s)))"

text \<open>\<open>nulterminate\<close> writes a 0 behind every word of the command; \<open>n\<close> is the length of the line.\<close>

definition put_nul :: "nat \<Rightarrow> ptr \<Rightarrow> bytes \<Rightarrow> bytes" where
  "put_nul n eq b = b[n - length eq := 0]"

primrec nulterminate :: "nat \<Rightarrow> cmd \<Rightarrow> bytes \<Rightarrow> bytes" where
  "nulterminate n (EXEC args) b = fold (\<lambda>(q, eq). put_nul n eq) args b"
| "nulterminate n (REDIR c q eq mode fd) b = put_nul n eq (nulterminate n c b)"
| "nulterminate n (PIPE c d) b = nulterminate n d (nulterminate n c b)"
| "nulterminate n (LIST c d) b = nulterminate n d (nulterminate n c b)"
| "nulterminate n (BACK c) b = nulterminate n c b"

text \<open>
  Four calls at most lie between two characters that are taken.  The result is the command and the line in which the words are terminated.
\<close>

definition parsecmd :: "bytes \<Rightarrow> (cmd \<times> bytes) parsed" where
  "parsecmd s =
     andthen (parseline (4 * length s + 4) s) (\<lambda>c rest.
     case peek [] rest of (_, rest) \<Rightarrow>
     if rest \<noteq> [] then Bad ''syntax'' else Parsed (c, nulterminate (length s) c (s @ [0])) rest)"

section \<open>Well-formed commands\<close>

text \<open>The pointers of a word: it is a part of the line \<open>s\<close>, not empty, and as long as possible.\<close>

definition word_in :: "bytes \<Rightarrow> ptr \<times> ptr \<Rightarrow> bool" where
  "word_in s p \<longleftrightarrow> suffix (fst p) s \<and>
     (\<exists>w. fst p = w @ snd p \<and> w \<noteq> [] \<and> list_all is_word w \<and> (snd p = [] \<or> \<not> is_word (hd (snd p))))"

primrec words :: "cmd \<Rightarrow> (ptr \<times> ptr) list" where
  "words (EXEC args) = args"
| "words (REDIR c q eq mode fd) = words c @ [(q, eq)]"
| "words (PIPE c d) = words c @ words d"
| "words (LIST c d) = words c @ words d"
| "words (BACK c) = words c"

primrec args_fit :: "cmd \<Rightarrow> bool" where
  "args_fit (EXEC args) \<longleftrightarrow> length args < MAXARGS"
| "args_fit (REDIR c q eq mode fd) \<longleftrightarrow> args_fit c"
| "args_fit (PIPE c d) \<longleftrightarrow> args_fit c \<and> args_fit d"
| "args_fit (LIST c d) \<longleftrightarrow> args_fit c \<and> args_fit d"
| "args_fit (BACK c) \<longleftrightarrow> args_fit c"

definition cmd_ok :: "bytes \<Rightarrow> cmd \<Rightarrow> bool" where
  "cmd_ok s c \<longleftrightarrow> list_all (word_in s) (words c) \<and> args_fit c"

definition redirs_ok :: "bytes \<Rightarrow> redir list \<Rightarrow> bool" where
  "redirs_ok s rs \<longleftrightarrow> list_all (\<lambda>(q, eq, _). word_in s (q, eq)) rs"

lemma word_in_mono: "word_in s p \<Longrightarrow> suffix s t \<Longrightarrow> word_in t p"
  unfolding word_in_def using suffix_order.order_trans by blast

lemma cmd_ok_mono: "cmd_ok s c \<Longrightarrow> suffix s t \<Longrightarrow> cmd_ok t c"
  unfolding cmd_ok_def using word_in_mono by (metis list_all_iff)

lemma cmd_ok_simps [simp]:
  "cmd_ok s (EXEC args) \<longleftrightarrow> list_all (word_in s) args \<and> length args < MAXARGS"
  "cmd_ok s (REDIR c q eq mode fd) \<longleftrightarrow> cmd_ok s c \<and> word_in s (q, eq)"
  "cmd_ok s (PIPE c d) \<longleftrightarrow> cmd_ok s c \<and> cmd_ok s d" "cmd_ok s (LIST c d) \<longleftrightarrow> cmd_ok s c \<and> cmd_ok s d" "cmd_ok s (BACK c) \<longleftrightarrow> cmd_ok s c"
  by (auto simp: cmd_ok_def)

lemma wrap_ok: "redirs_ok s rs \<Longrightarrow> cmd_ok s c \<Longrightarrow> cmd_ok s (wrap rs c)"
  by (induction rs arbitrary: c) (auto simp: wrap_def redirs_ok_def)

lemma skip_suffix: "suffix (skip s) s"
  by (simp add: skip_def suffix_dropWhile)

lemma gettoken_ok:
  assumes "gettoken s = (tok, q, eq, s')"
  shows "suffix s' s" "tok = ch_a \<Longrightarrow> word_in s (q, eq)"
proof -
  have e: "token_at (skip s) = (tok, eq)" "s' = skip eq" "q = skip s" using assms by (auto simp: gettoken_def Let_def split: prod.splits)
  have "suffix eq (skip s)"
  proof (cases "skip s")
    case (Cons c r)
    have "suffix r (c # r)" "suffix (tl r) (c # r)" "suffix (dropWhile is_word (c # r)) (c # r)"
      by (simp_all add: suffix_ConsI suffix_tl suffix_dropWhile suffix_Cons)
    then show ?thesis using e(1) unfolding Cons by (auto simp: token_at_def split: if_splits)
  qed (use e(1) in \<open>simp add: token_at_def\<close>)
  then show "suffix s' s" unfolding e(2) using skip_suffix [of eq] skip_suffix [of s] suffix_order.order_trans by blast
  show "word_in s (q, eq)" if "tok = ch_a"
  proof (cases "skip s")
    case Nil
    then show ?thesis using e(1) that by (simp add: token_at_def)
  next
    case (Cons c r)
    then have sp: "\<not> is_space c" using skip_hd [of s] by simp
    have c: "eq = dropWhile is_word (c # r)" "is_word c"
      using e(1) that sp unfolding Cons by (auto simp: token_at_def is_word_def is_space_def symbols_def split: if_splits)
    let ?w = "takeWhile is_word (c # r)"
    have "c # r = ?w @ eq" "?w \<noteq> []" "list_all is_word ?w" "eq = [] \<or> \<not> is_word (hd eq)"
      unfolding c(1) using c(2) hd_dropWhile [of is_word "c # r"] by (auto simp: list_all_iff dest: set_takeWhileD)
    then have "\<exists>w. skip s = w @ eq \<and> w \<noteq> [] \<and> list_all is_word w \<and> (eq = [] \<or> \<not> is_word (hd eq))" unfolding Cons by blast
    then show ?thesis unfolding word_in_def e(3) fst_conv snd_conv using skip_suffix [of s] by blast
  qed
qed

lemma parseredirs_ok:
  "parseredirs rs s = Parsed rs' s' \<Longrightarrow> redirs_ok t rs \<Longrightarrow> suffix s t \<Longrightarrow> redirs_ok t rs' \<and> suffix s' s"
proof (induction rs s rule: parseredirs.induct)
  case (1 rs s)
  show ?case
  proof (cases "skip s \<noteq> [] \<and> hd (skip s) \<in> {ch_lt, ch_gt}")
    case True
    obtain tok p ep s1 where t: "gettoken (skip s) = (tok, p, ep, s1)" by (metis prod_cases4)
    obtain w q eq s2 where u: "gettoken s1 = (w, q, eq, s2)" by (metis prod_cases4)
    have p: "peek [ch_lt, ch_gt] s = (True, skip s)" using True by (auto simp: peek_eq)
    then have w: "w = ch_a" "parseredirs (rs @ redir_of tok q eq) s2 = Parsed rs' s'"
      using "1.prems"(1) t u by (auto simp: parseredirs.simps [of rs s] split: if_splits)
    have s1: "suffix s1 s" using gettoken_ok(1) [OF t] skip_suffix suffix_order.order_trans by blast
    then have s2: "suffix s2 s" using gettoken_ok(1) [OF u] suffix_order.order_trans by blast
    have "word_in t (q, eq)" using gettoken_ok(2) [OF u w(1)] s1 "1.prems"(3) word_in_mono suffix_order.order_trans by blast
    then have "redirs_ok t (rs @ redir_of tok q eq)" using "1.prems"(2) by (auto simp: redirs_ok_def redir_of_def)
    moreover have "suffix s2 t" using s2 "1.prems"(3) suffix_order.order_trans by blast
    ultimately show ?thesis using "1.IH" [OF p [symmetric] TrueI t [symmetric] _ _ u [symmetric]] w s2 suffix_order.order_trans by blast
  next
    case False
    then have "s' = skip s" "rs' = rs" using "1.prems"(1) by (auto simp: parseredirs.simps [of rs s] peek_eq)
    then show ?thesis using skip_suffix "1.prems"(2) by simp
  qed
qed

lemma parseargs_ok:
  "parseargs args rs s = Parsed (args', rs') s' \<Longrightarrow> redirs_ok t rs \<Longrightarrow> list_all (word_in t) args \<Longrightarrow> length args < MAXARGS \<Longrightarrow> suffix s t \<Longrightarrow>
     redirs_ok t rs' \<and> list_all (word_in t) args' \<and> length args' < MAXARGS \<and> suffix s' s"
proof (induction args rs s rule: parseargs.induct)
  case (1 args rs s)
  obtain b where p: "peek [ch_bar, ch_close, ch_amp, ch_semi] s = (b, skip s)" by (simp add: peek_eq)
  obtain tok q eq s1 where t: "gettoken (skip s) = (tok, q, eq, s1)" by (metis prod_cases4)
  have s1: "suffix s1 s" using gettoken_ok(1) [OF t] skip_suffix suffix_order.order_trans by blast
  show ?case
  proof (cases "b \<or> tok = 0")
    case True
    then have "args' = args" "rs' = rs" "s' = skip s \<or> s' = s1" using "1.prems"(1) p t by (auto simp: parseargs.simps [of args rs s] split: if_splits)
    then show ?thesis using "1.prems" skip_suffix s1 by auto
  next
    case False
    then obtain rs1 s2 where r: "tok = ch_a" "Suc (length args) < MAXARGS" "parseredirs rs s1 = Parsed rs1 s2"
      "parseargs (args @ [(q, eq)]) rs1 s2 = Parsed (args', rs') s'"
      using "1.prems"(1) p t by (auto simp: parseargs.simps [of args rs s] not_le split: if_splits parsed.splits)
    have s1t: "suffix s1 t" using s1 "1.prems"(5) suffix_order.order_trans by blast
    note ro = parseredirs_ok [OF r(3) "1.prems"(2) s1t]
    have "word_in s (q, eq)" using gettoken_ok(2) [OF t r(1)] skip_suffix word_in_mono by blast
    then have "word_in t (q, eq)" using "1.prems"(5) word_in_mono by blast
    moreover have "suffix s2 t" using ro s1t suffix_order.order_trans by blast
    ultimately have "redirs_ok t rs' \<and> list_all (word_in t) args' \<and> length args' < MAXARGS \<and> suffix s' s2"
      using "1.prems"(3) r ro False by (intro "1.IH" [OF p [symmetric] _ t [symmetric]]) auto
    then show ?thesis using ro s1 suffix_order.order_trans by blast
  qed
qed

lemma andthen_eq:
  "andthen x f = Parsed b t \<longleftrightarrow> (\<exists>a s. x = Parsed a s \<and> f a s = Parsed b t)"
  "andthen x f = Fuel \<longleftrightarrow> x = Fuel \<or> (\<exists>a s. x = Parsed a s \<and> f a s = Fuel)"
  by (cases x; auto)+

lemma suffix_trans: "suffix a b \<Longrightarrow> suffix b c \<Longrightarrow> suffix a c"
  by (rule suffix_order.order_trans)

text \<open>The rest of the line behind the token at the start of \<open>s\<close>.\<close>

definition rest :: "ptr \<Rightarrow> ptr" where
  "rest s = snd (snd (snd (gettoken s)))"

lemma rest_eq: "gettoken s = (tok, q, eq, s') \<Longrightarrow> rest s = s'" "(case gettoken s of (_, _, _, s') \<Rightarrow> f s') = f (rest s)"
  by (auto simp: rest_def split_def)

lemma rest_suffix: "suffix (rest s) s"
  using gettoken_ok(1) [of s] by (cases "gettoken s") (simp add: rest_def)

lemma rest_less: "skip s \<noteq> [] \<Longrightarrow> length (rest (skip s)) < length s"
  using token_less [of s] by (cases "gettoken (skip s)") (simp add: rest_def)

lemma rest_skip_suffix: "suffix (rest (skip s)) s"
  by (rule suffix_trans [OF rest_suffix skip_suffix])

lemma backs_ok: "backs c s = (c', s') \<Longrightarrow> cmd_ok t c \<Longrightarrow> cmd_ok t c' \<and> suffix s' s"
proof (induction c s rule: backs.induct)
  case (1 c s)
  obtain tok q eq s1 where t: "gettoken (skip s) = (tok, q, eq, s1)" by (metis prod_cases4)
  have s1: "suffix s1 s" using gettoken_ok(1) [OF t] skip_suffix suffix_trans by blast
  obtain b where p: "peek [ch_amp] s = (b, skip s)" by (simp add: peek_eq)
  show ?case
  proof (cases b)
    case True
    then have "backs (BACK c) s1 = (c', s')" using "1.prems"(1) p t by (simp add: backs.simps [of c s])
    then have "cmd_ok t c' \<and> suffix s' s1" using "1.IH" [OF p [symmetric] True t [symmetric]] "1.prems"(2) by auto
    then show ?thesis using s1 suffix_trans by blast
  next
    case False
    then show ?thesis using "1.prems" p skip_suffix by (auto simp: backs.simps [of c s])
  qed
qed

lemma line_ok:
  assumes "\<And>s c s'. parsepipe n s = Parsed c s' \<Longrightarrow> cmd_ok s c \<and> suffix s' s" "\<And>s c s'. parseline n s = Parsed c s' \<Longrightarrow> cmd_ok s c \<and> suffix s' s"
    "parseline (Suc n) s = Parsed c s'"
  shows "cmd_ok s c \<and> suffix s' s"
proof -
  obtain c1 s1 where 1: "parsepipe n s = Parsed c1 s1" using assms(3) by (auto simp: andthen_eq)
  obtain c2 s2 where 2: "backs c1 s1 = (c2, s2)" by (cases "backs c1 s1")
  have o1: "cmd_ok s c1" "suffix s1 s" using assms(1) [OF 1] by simp_all
  have o2: "cmd_ok s c2" "suffix s2 s" using backs_ok [OF 2, of s] o1 suffix_trans by blast+
  have s3: "suffix (skip s2) s" "suffix (rest (skip s2)) s" using o2(2) skip_suffix rest_skip_suffix suffix_trans by blast+
  show ?thesis
  proof (cases "skip s2 \<noteq> [] \<and> hd (skip s2) = ch_semi")
    case True
    then obtain d where d: "parseline n (rest (skip s2)) = Parsed d s'" "c = LIST c2 d"
      using assms(3) 1 2 by (auto simp: andthen_eq peek_eq rest_eq(2))
    then show ?thesis using assms(2) [OF d(1)] o2(1) s3(2) cmd_ok_mono suffix_trans cmd_ok_simps(4) by blast
  next
    case False
    then have "c = c2" "s' = skip s2" using assms(3) 1 2 by (auto simp: peek_eq)
    then show ?thesis using o2(1) s3(1) by simp
  qed
qed

lemma pipe_ok:
  assumes "\<And>s c s'. parseexec n s = Parsed c s' \<Longrightarrow> cmd_ok s c \<and> suffix s' s" "\<And>s c s'. parsepipe n s = Parsed c s' \<Longrightarrow> cmd_ok s c \<and> suffix s' s"
    "parsepipe (Suc n) s = Parsed c s'"
  shows "cmd_ok s c \<and> suffix s' s"
proof -
  obtain c1 s1 where 1: "parseexec n s = Parsed c1 s1" using assms(3) by (auto simp: andthen_eq)
  have o1: "cmd_ok s c1" "suffix s1 s" using assms(1) [OF 1] by simp_all
  have s3: "suffix (skip s1) s" "suffix (rest (skip s1)) s" using o1(2) skip_suffix rest_skip_suffix suffix_trans by blast+
  show ?thesis
  proof (cases "skip s1 \<noteq> [] \<and> hd (skip s1) = ch_bar")
    case True
    then obtain d where d: "parsepipe n (rest (skip s1)) = Parsed d s'" "c = PIPE c1 d"
      using assms(3) 1 by (auto simp: andthen_eq peek_eq rest_eq(2))
    then show ?thesis using assms(2) [OF d(1)] o1(1) s3(2) cmd_ok_mono suffix_trans cmd_ok_simps(3) by blast
  next
    case False
    then have "c = c1" "s' = skip s1" using assms(3) 1 by (auto simp: peek_eq)
    then show ?thesis using o1(1) s3(1) by simp
  qed
qed

lemma exec_ok:
  assumes "\<And>s c s'. parseblock n s = Parsed c s' \<Longrightarrow> cmd_ok s c \<and> suffix s' s" "parseexec (Suc n) s = Parsed c s'"
  shows "cmd_ok s c \<and> suffix s' s"
proof (cases "skip s \<noteq> [] \<and> hd (skip s) = ch_open")
  case True
  then have "parseblock n (skip s) = Parsed c s'" using assms(2) by (simp add: peek_eq)
  then show ?thesis using assms(1) skip_suffix [of s] cmd_ok_mono suffix_trans by blast
next
  case False
  then obtain rs s1 args rs2 where r: "parseredirs [] (skip s) = Parsed rs s1" "parseargs [] rs s1 = Parsed (args, rs2) s'" "c = wrap rs2 (EXEC args)"
    using assms(2) by (auto simp: andthen_eq peek_eq)
  have "redirs_ok s []" by (simp add: redirs_ok_def)
  note 1 = parseredirs_ok [OF r(1) this skip_suffix]
  then have "suffix s1 s" using skip_suffix suffix_trans by blast
  with 1 have "redirs_ok s rs2 \<and> list_all (word_in s) args \<and> length args < MAXARGS \<and> suffix s' s1"
    by (intro parseargs_ok [OF r(2)]) (simp_all add: MAXARGS_def)
  then show ?thesis using r(3) wrap_ok \<open>suffix s1 s\<close> suffix_trans cmd_ok_simps(1) by blast
qed

lemma block_ok:
  assumes "\<And>s c s'. parseline n s = Parsed c s' \<Longrightarrow> cmd_ok s c \<and> suffix s' s" "parseblock (Suc n) s = Parsed c s'"
  shows "cmd_ok s c \<and> suffix s' s"
proof -
  obtain c1 s1 rs where r: "parseline n (rest (skip s)) = Parsed c1 s1" "parseredirs [] (rest (skip s1)) = Parsed rs s'" "c = wrap rs c1"
    using assms(2) by (auto simp: andthen_eq peek_eq rest_eq(2) split: if_splits)
  have 1: "cmd_ok (rest (skip s)) c1" "suffix s1 (rest (skip s))" using assms(1) [OF r(1)] by simp_all
  have "suffix s1 s" using 1(2) rest_skip_suffix suffix_trans by blast
  then have s2: "suffix (rest (skip s1)) s" using rest_skip_suffix suffix_trans by blast
  have "redirs_ok s rs \<and> suffix s' (rest (skip s1))" by (rule parseredirs_ok [OF r(2) _ s2]) (simp add: redirs_ok_def)
  moreover have "cmd_ok s c1" using 1(1) rest_skip_suffix cmd_ok_mono by blast
  ultimately show ?thesis using r(3) wrap_ok s2 suffix_trans by blast
qed

lemma parse_ok:
  "parseline n s = Parsed c s' \<Longrightarrow> cmd_ok s c \<and> suffix s' s" "parsepipe n s = Parsed c s' \<Longrightarrow> cmd_ok s c \<and> suffix s' s"
  "parseexec n s = Parsed c s' \<Longrightarrow> cmd_ok s c \<and> suffix s' s" "parseblock n s = Parsed c s' \<Longrightarrow> cmd_ok s c \<and> suffix s' s"
proof (induction n arbitrary: s c s')
  case (Suc n)
  { case 1 then show ?case using line_ok [OF Suc.IH(2,1)] by blast }
  { case 2 then show ?case using pipe_ok [OF Suc.IH(3,2)] by blast }
  { case 3 then show ?case using exec_ok [OF Suc.IH(4)] by blast }
  { case 4 then show ?case using block_ok [OF Suc.IH(1)] by blast }
qed auto

section \<open>The parser ends\<close>

lemma parseredirs_fuel: "parseredirs rs s \<noteq> Fuel"
proof (induction rs s rule: parseredirs.induct)
  case (1 rs s)
  then show ?case by (auto simp: parseredirs.simps [of rs s] split: prod.splits)
qed

lemma parseargs_fuel: "parseargs args rs s \<noteq> Fuel"
proof (induction args rs s rule: parseargs.induct)
  case (1 args rs s)
  then show ?case using parseredirs_fuel by (auto simp: parseargs.simps [of args rs s] split: prod.splits parsed.splits)
qed

lemma parse_fuel:
  "4 * length s + 4 \<le> n \<Longrightarrow> parseline n s \<noteq> Fuel" "4 * length s + 3 \<le> n \<Longrightarrow> parsepipe n s \<noteq> Fuel"
  "4 * length s + 2 \<le> n \<Longrightarrow> parseexec n s \<noteq> Fuel" "4 * length s + 1 \<le> n \<Longrightarrow> parseblock n s \<noteq> Fuel"
proof (induction n arbitrary: s)
  case (Suc n)
  have sl: "length b \<le> length a" if "suffix b a" for a b :: ptr using suffix_length_le [OF that] .
  {
    case 1
    have "parseline n (rest (skip s2)) \<noteq> Fuel" if a: "parsepipe n s = Parsed c1 s1" "backs c1 s1 = (c2, s2)" "skip s2 \<noteq> []" for c1 s1 c2 s2
    proof (rule Suc.IH(1))
      have "cmd_ok s c1" "suffix s1 s" using parse_ok(2) [OF a(1)] by simp_all
      then have "length s2 \<le> length s" using backs_ok [OF a(2)] sl le_trans by meson
      then show "4 * length (rest (skip s2)) + 4 \<le> n" using rest_less [OF a(3)] 1 by simp
    qed
    moreover have "parsepipe n s \<noteq> Fuel" using 1 by (intro Suc.IH(2)) simp
    ultimately show ?case by (auto simp: andthen_eq peek_eq rest_eq(2) split: prod.splits)
  }
  {
    case 2
    have "parsepipe n (rest (skip s1)) \<noteq> Fuel" if a: "parseexec n s = Parsed c1 s1" "skip s1 \<noteq> []" for c1 s1
    proof (rule Suc.IH(2))
      have "length s1 \<le> length s" using parse_ok(3) [OF a(1)] sl by blast
      then show "4 * length (rest (skip s1)) + 3 \<le> n" using rest_less [OF a(2)] 2 by simp
    qed
    moreover have "parseexec n s \<noteq> Fuel" using 2 by (intro Suc.IH(3)) simp
    ultimately show ?case by (auto simp: andthen_eq peek_eq rest_eq(2))
  }
  {
    case 3
    have "parseblock n (skip s) \<noteq> Fuel" using 3 skip_length [of s] by (intro Suc.IH(4)) simp
    then show ?case using parseredirs_fuel parseargs_fuel by (auto simp: andthen_eq peek_eq)
  }
  {
    case 4
    have "parseline n (rest (skip s)) \<noteq> Fuel" if "skip s \<noteq> []" using rest_less [OF that] 4 by (intro Suc.IH(1)) simp
    then show ?case using parseredirs_fuel by (auto simp: andthen_eq peek_eq rest_eq(2))
  }
qed auto

lemma parsecmd_fuel: "parsecmd s \<noteq> Fuel"
  using parse_fuel(1) [of s "4 * length s + 4"] by (auto simp: parsecmd_def andthen_eq peek_eq)

section \<open>Terminating the strings\<close>

text \<open>The C string that starts at an index of a buffer.\<close>

definition cstring :: "bytes \<Rightarrow> nat \<Rightarrow> bytes" where
  "cstring b i = takeWhile (\<lambda>c. c \<noteq> 0) (drop i b)"

lemma nulterminate_fold: "nulterminate n c b = fold (\<lambda>(q, eq). put_nul n eq) (words c) b"
  by (induction c arbitrary: b) auto

lemma put_nuls:
  "length (fold (\<lambda>(q, eq). put_nul n eq) ps b) = length b"
  "i < length b \<Longrightarrow> fold (\<lambda>(q, eq). put_nul n eq) ps b ! i = (if i \<in> (\<lambda>p. n - length (snd p)) ` set ps then 0 else b ! i)"
proof (induction ps arbitrary: b)
  case (Cons p ps)
  obtain q eq where p: "p = (q, eq)" by (cases p)
  have l: "length (put_nul n eq b) = length b" for b by (simp add: put_nul_def)
  { case 1 then show ?case by (simp add: Cons.IH(1) p l) }
  { case 2 then show ?case using Cons.IH(2) [of "put_nul n eq b"] by (simp add: p l) (simp add: put_nul_def nth_list_update) }
qed simp_all

lemma takeWhile_prefix:
  assumes "length w < length xs" "\<And>k. k < length w \<Longrightarrow> xs ! k = w ! k \<and> w ! k \<noteq> (0 :: byte)" "xs ! length w = 0"
  shows "takeWhile (\<lambda>c. c \<noteq> 0) xs = w"
proof -
  have "xs = take (length w) xs @ xs ! length w # drop (Suc (length w)) xs" by (rule id_take_nth_drop [OF assms(1)])
  moreover have "take (length w) xs = w" using assms(1,2) by (intro nth_equalityI) simp_all
  ultimately have "xs = w @ 0 # drop (Suc (length w)) xs" using assms(3) by simp
  moreover have "\<forall>c \<in> set w. c \<noteq> 0" using assms(2) by (auto simp: in_set_conv_nth)
  ultimately show ?thesis by (metis (mono_tags, lifting) takeWhile_append2 takeWhile.simps(2) append_Nil2)
qed

lemma nulterminated:
  assumes "0 \<notin> set s" "list_all (word_in s) ps" "(q, eq) \<in> set ps" "b = fold (\<lambda>(q, eq). put_nul (length s) eq) ps (s @ [0])"
  shows "cstring b (length s - length q) = take (length q - length eq) q"
proof -
  have wi: "word_in s p" if "p \<in> set ps" for p using assms(2) that by (simp add: list_all_iff)
  obtain a w where s: "s = a @ q" "q = w @ eq" "list_all is_word w" using wi [OF assms(3)] by (auto simp: word_in_def suffix_def)
  have len: "length b = Suc (length s)" by (simp add: assms(4) put_nuls(1))
  have nth: "b ! i = (if \<exists>p \<in> set ps. i = length s - length (snd p) then 0 else (s @ [0]) ! i)" if "i < Suc (length s)" for i
    using that by (auto simp: assms(4) put_nuls(2))
  have free: "\<not> (\<exists>p \<in> set ps. length a + k = length s - length (snd p))" if k: "k < length w" for k
  proof
    assume "\<exists>p \<in> set ps. length a + k = length s - length (snd p)"
    then obtain p where p: "p \<in> set ps" "length a + k = length s - length (snd p)" by blast
    then have "suffix (snd p) s" "snd p = [] \<or> \<not> is_word (hd (snd p))" using wi [OF p(1)] by (auto simp: word_in_def suffix_def)
    moreover from this(1) have "drop (length a + k) s = snd p" unfolding p(2) by (auto simp: suffix_def)
    moreover have "drop (length a + k) s = (w ! k # drop (Suc k) w) @ eq" using s(1,2) k by (simp add: Cons_nth_drop_Suc)
    ultimately have "snd p = w ! k # drop (Suc k) w @ eq" "snd p = [] \<or> \<not> is_word (hd (snd p))" by simp_all
    moreover have "is_word (w ! k)" using s(3) k by (simp add: list_all_length)
    ultimately show False by simp
  qed
  have "takeWhile (\<lambda>c. c \<noteq> 0) (drop (length a) b) = w"
  proof (rule takeWhile_prefix)
    show "length w < length (drop (length a) b)" using len s(1,2) by simp
    fix k assume k: "k < length w"
    then have "b ! (length a + k) = (s @ [0]) ! (length a + k)" using nth [of "length a + k"] free [OF k] s(1,2) by auto
    then have "drop (length a) b ! k = w ! k" using len k s(1,2) by (simp add: nth_append)
    moreover have "w ! k \<in> set s" using k s(1,2) by simp
    ultimately show "drop (length a) b ! k = w ! k \<and> w ! k \<noteq> 0" using assms(1) by auto
  next
    have "b ! (length a + length w) = 0" using nth [of "length a + length w"] assms(3) s(1,2) by force
    then show "drop (length a) b ! length w = 0" using len s(1,2) by simp
  qed
  then show ?thesis using s(1,2) by (simp add: cstring_def)
qed

section \<open>Printing commands\<close>

text \<open>Commands with their words as strings, and a way to write them as a command line.\<close>

datatype scmd =
    Simple "bytes list"
  | Redirect scmd bytes u32 u32
  | Pipeline scmd scmd
  | Sequence scmd scmd
  | Background scmd

definition word_of :: "ptr \<times> ptr \<Rightarrow> bytes" where
  "word_of p = take (length (fst p) - length (snd p)) (fst p)"

lemma word_of_append [simp]: "word_of (w @ t, t) = w"
  by (simp add: word_of_def)

primrec strings :: "cmd \<Rightarrow> scmd" where
  "strings (EXEC args) = Simple (map word_of args)"
| "strings (REDIR c q eq mode fd) = Redirect (strings c) (word_of (q, eq)) mode fd"
| "strings (PIPE c d) = Pipeline (strings c) (strings d)"
| "strings (LIST c d) = Sequence (strings c) (strings d)"
| "strings (BACK c) = Background (strings c)"

fun join :: "bytes list \<Rightarrow> bytes" where
  "join [] = []"
| "join [w] = w"
| "join (w # v # ws) = w @ [0x20] @ join (v # ws)"

definition paren :: "bytes \<Rightarrow> bytes" where
  "paren s = [ch_open] @ s @ [ch_close]"

primrec show_cmd :: "scmd \<Rightarrow> bytes" where
  "show_cmd (Simple ws) = join ws"
| "show_cmd (Redirect c f mode fd) = paren (show_cmd c) @ [if fd = 0 then ch_lt else ch_gt] @ f"
| "show_cmd (Pipeline c d) = paren (show_cmd c) @ [ch_bar] @ paren (show_cmd d)"
| "show_cmd (Sequence c d) = paren (show_cmd c) @ [ch_semi] @ paren (show_cmd d)"
| "show_cmd (Background c) = paren (show_cmd c) @ [ch_amp]"

definition is_name :: "bytes \<Rightarrow> bool" where
  "is_name w \<longleftrightarrow> w \<noteq> [] \<and> list_all is_word w"

primrec scmd_ok :: "scmd \<Rightarrow> bool" where
  "scmd_ok (Simple ws) \<longleftrightarrow> length ws < MAXARGS \<and> list_all is_name ws"
| "scmd_ok (Redirect c f mode fd) \<longleftrightarrow> scmd_ok c \<and> is_name f \<and> (mode = O_RDONLY \<and> fd = 0 \<or> mode = O_WRONLY OR O_CREATE \<and> fd = 1)"
| "scmd_ok (Pipeline c d) \<longleftrightarrow> scmd_ok c \<and> scmd_ok d"
| "scmd_ok (Sequence c d) \<longleftrightarrow> scmd_ok c \<and> scmd_ok d"
| "scmd_ok (Background c) \<longleftrightarrow> scmd_ok c"

text \<open>What may follow a command inside a line: its end, or a closing parenthesis.\<close>

definition stop :: "ptr \<Rightarrow> bool" where
  "stop r \<longleftrightarrow> r = [] \<or> hd r = ch_close"

definition solid :: "ptr \<Rightarrow> bool" where
  "solid r \<longleftrightarrow> r = [] \<or> \<not> is_space (hd r)"

lemma solid_skip: "solid r \<Longrightarrow> skip r = r"
  by (cases r) (auto simp: solid_def skip_def)

lemma symbol_simps [simp]:
  "\<not> is_space ch_lt" "\<not> is_space ch_gt" "\<not> is_space ch_bar" "\<not> is_space ch_amp" "\<not> is_space ch_semi" "\<not> is_space ch_open" "\<not> is_space ch_close"
  "\<not> is_word ch_lt" "\<not> is_word ch_gt" "\<not> is_word ch_bar" "\<not> is_word ch_amp" "\<not> is_word ch_semi" "\<not> is_word ch_open" "\<not> is_word ch_close"
  "\<not> is_word 0x20" "is_space 0x20"
  by (simp_all add: is_space_def is_word_def whitespace_def symbols_def)

lemma word_not_space: "is_word c \<Longrightarrow> \<not> is_space c"
  by (simp add: is_word_def is_space_def)

lemma word_char: "is_word c \<Longrightarrow> c \<notin> {ch_lt, ch_gt, ch_bar, ch_amp, ch_semi, ch_open, ch_close}"
  by (auto simp: is_word_def symbols_def)

lemma stop_solid: "stop r \<Longrightarrow> solid r"
  by (auto simp: stop_def solid_def)

lemma solid_symbol [simp]: "solid []" "\<not> is_space c \<Longrightarrow> solid (c # s)"
  by (simp_all add: solid_def)

lemma rest_symbol: "c \<in> {ch_bar, ch_open, ch_close, ch_semi, ch_amp} \<Longrightarrow> solid s \<Longrightarrow> rest (c # s) = s"
  by (auto simp: rest_def gettoken_def token_at_def Let_def solid_skip)

lemma gettoken_name:
  assumes "is_name w" "t = [] \<or> \<not> is_word (hd t)"
  shows "gettoken (w @ t) = (ch_a, w @ t, t, skip t)"
proof -
  obtain c v where w: "w = c # v" "is_word c" using assms(1) by (cases w) (auto simp: is_name_def)
  have "skip (w @ t) = w @ t" using w word_not_space by (simp add: solid_skip)
  moreover have "dropWhile is_word (w @ t) = t"
    using assms by (cases t) (auto simp: is_name_def list_all_iff dropWhile_append2 dropWhile_append)
  ultimately show ?thesis using w word_char [OF w(2)] by (simp add: gettoken_def token_at_def)
qed

lemma join_solid: "list_all is_name ws \<Longrightarrow> stop r \<Longrightarrow> solid (join ws @ r)"
proof (induction ws rule: join.induct)
  case (2 w)
  then show ?case by (cases w) (auto simp: is_name_def word_not_space)
next
  case (3 w v ws)
  then show ?case by (cases w) (auto simp: is_name_def word_not_space)
qed (simp add: stop_solid)

lemma show_solid: "scmd_ok c \<Longrightarrow> stop r \<Longrightarrow> solid (show_cmd c @ r)"
  by (cases c) (auto simp: paren_def join_solid)

lemma parseredirs_none: "solid s \<Longrightarrow> s = [] \<or> hd s \<notin> {ch_lt, ch_gt} \<Longrightarrow> parseredirs rs s = Parsed rs s"
  by (auto simp: parseredirs.simps [of rs s] peek_eq solid_skip)

lemma parseredirs_one:
  assumes "is_name f" "stop r" "tok = ch_lt \<or> tok = ch_gt"
  shows "parseredirs [] ([tok] @ f @ r) = Parsed (redir_of tok (f @ r) r) r"
proof -
  obtain c v where f: "f = c # v" "is_word c" using assms(1) by (cases f) (auto simp: is_name_def)
  have r: "r = [] \<or> \<not> is_word (hd r)" using assms(2) by (auto simp: stop_def)
  have "char0 (f @ r) \<noteq> ch_gt" using f word_char by (auto simp: char0_def)
  moreover have "skip (f @ r) = f @ r" using f word_not_space by (simp add: solid_skip)
  ultimately have "gettoken (tok # f @ r) = (tok, tok # f @ r, f @ r, f @ r)"
    using assms(3) by (auto simp: gettoken_def token_at_def Let_def solid_skip)
  moreover have "peek [ch_lt, ch_gt] (tok # f @ r) = (True, tok # f @ r)" using assms(3) by (auto simp: peek_eq solid_skip)
  ultimately have "parseredirs [] ([tok] @ f @ r) = parseredirs (redir_of tok (f @ r) r) (skip r)"
    using gettoken_name [OF assms(1) r] by (simp add: parseredirs.simps [of "[]" "tok # f @ r"])
  also have "\<dots> = Parsed (redir_of tok (f @ r) r) r"
    using assms(2) solid_skip [OF stop_solid [OF assms(2)]] parseredirs_none [OF stop_solid [OF assms(2)]] by (auto simp: stop_def)
  finally show ?thesis .
qed

lemma join_head: "list_all is_name (w # ws) \<Longrightarrow> \<exists>c v. join (w # ws) = c # v \<and> is_word c"
  by (cases ws; cases w) (auto simp: is_name_def)

lemma parseargs_join:
  assumes "stop r"
  shows "list_all is_name ws \<Longrightarrow> length args + length ws < MAXARGS \<Longrightarrow>
    \<exists>ps. parseargs args rs (join ws @ r) = Parsed (args @ ps, rs) r \<and> map word_of ps = ws"
proof (induction ws arbitrary: args)
  case Nil
  have "skip r = r" by (rule solid_skip [OF stop_solid [OF assms]])
  then have "parseargs args rs r = Parsed (args, rs) r" using assms
    by (auto simp: parseargs.simps [of args rs r] peek_eq stop_def gettoken_def token_at_def Let_def)
  then show ?case by simp
next
  case (Cons w ws)
  define t where "t = (if ws = [] then r else [0x20] @ join ws @ r)"
  have e: "join (w # ws) @ r = w @ t" by (cases ws) (simp_all add: t_def)
  have w: "is_name w" "list_all is_name ws" using Cons.prems(1) by simp_all
  have sol: "solid (join ws @ r)" by (rule join_solid [OF w(2) assms])
  have st: "skip t = join ws @ r"
  proof (cases ws)
    case Nil
    then show ?thesis using solid_skip [OF sol] by (simp add: t_def)
  next
    case (Cons v vs)
    then have "skip t = skip (join ws @ r)" by (simp add: t_def skip_def)
    then show ?thesis using solid_skip [OF sol] by simp
  qed
  have t: "t = [] \<or> \<not> is_word (hd t)" using assms by (auto simp: t_def stop_def)
  obtain c v where c: "w = c # v" "is_word c" using w(1) by (cases w) (auto simp: is_name_def)
  have sw: "skip (w @ t) = w @ t" using c word_not_space by (simp add: solid_skip)
  have pk: "peek [ch_bar, ch_close, ch_amp, ch_semi] (w @ t) = (False, w @ t)" unfolding peek_eq sw using c word_char [OF c(2)] by auto
  have hd: "join ws @ r = [] \<or> hd (join ws @ r) \<notin> {ch_lt, ch_gt}"
    using join_head [of "hd ws" "tl ws"] w(2) assms word_char by (cases ws) (auto simp: stop_def)
  have "parseargs args rs (w @ t) = parseargs (args @ [(w @ t, t)]) rs (join ws @ r)"
    using Cons.prems(2) parseredirs_none [OF sol hd] by (simp add: parseargs.simps [of args rs "w @ t"] pk gettoken_name [OF w(1) t] st)
  moreover have "length (args @ [(w @ t, t)]) + length ws < MAXARGS" using Cons.prems(2) by simp
  then obtain ps where "parseargs (args @ [(w @ t, t)]) rs (join ws @ r) = Parsed ((args @ [(w @ t, t)]) @ ps, rs) r" "map word_of ps = ws"
    using Cons.IH [OF w(2)] by blast
  ultimately show ?case unfolding e by (intro exI [of _ "(w @ t, t) # ps"]) simp
qed

text \<open>A command in parentheses, followed by \<open>t\<close>.\<close>

lemma parse_paren:
  assumes "parseline n (p @ [ch_close] @ t) = Parsed c ([ch_close] @ t)" "solid (p @ [ch_close] @ t)" "solid t"
  shows "parseexec (Suc (Suc n)) (paren p @ t) = andthen (parseredirs [] t) (\<lambda>rs s. Parsed (wrap rs c) s)"
proof -
  have a: "skip (paren p @ t) = paren p @ t" "paren p @ t = ch_open # (p @ [ch_close] @ t)" by (simp_all add: paren_def solid_skip)
  have "rest (paren p @ t) = p @ [ch_close] @ t" unfolding a(2) by (rule rest_symbol [OF _ assms(2)]) simp
  moreover have "rest (ch_close # t) = t" by (rule rest_symbol [OF _ assms(3)]) simp
  ultimately show ?thesis using a assms(1) by (simp add: peek_eq rest_eq(2) solid_skip)
qed

definition ends :: "ptr \<Rightarrow> bool" where
  "ends r \<longleftrightarrow> r = [] \<or> hd r \<in> {ch_close, ch_bar, ch_amp, ch_semi}"

lemma ends_solid: "ends r \<Longrightarrow> solid r" "stop r \<Longrightarrow> ends r"
  by (auto simp: ends_def solid_def stop_def)

lemma parse_paren_ends:
  assumes "parseline n (p @ [ch_close] @ t) = Parsed c ([ch_close] @ t)" "solid (p @ [ch_close] @ t)" "ends t"
  shows "parseexec (Suc (Suc n)) (paren p @ t) = Parsed c t"
proof -
  have "parseredirs [] t = Parsed [] t" using assms(3) by (intro parseredirs_none ends_solid(1)) (auto simp: ends_def)
  then show ?thesis using parse_paren [OF assms(1,2) ends_solid(1) [OF assms(3)]] by (simp add: wrap_def)
qed

text \<open>At the end of a command, a pipeline or a line there is nothing more to take.\<close>

lemma pipe_stop: "parseexec n s = Parsed c r \<Longrightarrow> ends r \<Longrightarrow> r = [] \<or> hd r \<noteq> ch_bar \<Longrightarrow> parsepipe (Suc n) s = Parsed c r"
  by (auto simp: peek_eq solid_skip ends_solid)

lemma backs_stop: "solid r \<Longrightarrow> r = [] \<or> hd r \<noteq> ch_amp \<Longrightarrow> backs c r = (c, r)"
  by (auto simp: backs.simps [of c r] peek_eq solid_skip)

lemma line_stop:
  assumes "parsepipe n s = Parsed c r" "stop r"
  shows "parseline (Suc n) s = Parsed c r"
proof -
  have "solid r" by (rule stop_solid [OF assms(2)])
  moreover have "backs c r = (c, r)" using \<open>solid r\<close> assms(2) by (intro backs_stop) (auto simp: stop_def)
  ultimately show ?thesis using assms by (auto simp: peek_eq solid_skip stop_def)
qed

lemma exec_line: "parseexec n s = Parsed c r \<Longrightarrow> stop r \<Longrightarrow> parseline (Suc (Suc n)) s = Parsed c r"
  using pipe_stop [of n s c r] line_stop [of "Suc n" s c r] ends_solid(2) [of r] by (auto simp: stop_def)

declare parseline.simps [simp del] parsepipe.simps [simp del] parseexec.simps [simp del] parseblock.simps [simp del]

lemma fuel_split: "k \<le> n \<Longrightarrow> \<exists>m. n = k + (m :: nat)"
  by (rule le_Suc_ex)

lemma close_stop [simp]: "stop (ch_close # t)" "stop []"
  by (simp_all add: stop_def)

definition reads :: "nat \<Rightarrow> scmd \<Rightarrow> ptr \<Rightarrow> bool" where
  "reads n c r \<longleftrightarrow> (\<exists>c'. parseline n (show_cmd c @ r) = Parsed c' r \<and> strings c' = c)"

lemma reads_simple:
  assumes "length ws < MAXARGS" "list_all is_name ws" "stop r"
  shows "reads (Suc (Suc (Suc m))) (Simple ws) r"
proof -
  let ?s = "join ws @ r"
  have sol: "solid ?s" by (rule join_solid [OF assms(2,3)])
  have hd: "?s = [] \<or> hd ?s \<notin> {ch_lt, ch_gt}" "?s = [] \<or> hd ?s \<noteq> ch_open"
    using join_head [of "hd ws" "tl ws"] assms(2,3) word_char by (cases ws; auto simp: stop_def)+
  obtain ps where ps: "parseargs [] [] ?s = Parsed ([] @ ps, []) r" "map word_of ps = ws"
    using parseargs_join [OF assms(3,2), of "[]" "[]"] assms(1) by auto
  have "parseexec (Suc m) ?s = Parsed (EXEC ps) r"
    using hd(2) ps(1) parseredirs_none [OF sol hd(1)] by (auto simp: parseexec.simps peek_eq solid_skip [OF sol] wrap_def)
  from exec_line [OF this assms(3)] show ?thesis unfolding reads_def using ps(2) by auto
qed

lemma reads_paren:
  assumes "reads n c ([ch_close] @ t)" "scmd_ok c" "ends t"
  obtains c' where "parseexec (Suc (Suc n)) (paren (show_cmd c) @ t) = Parsed c' t" "strings c' = c"
proof -
  obtain c' where c: "parseline n (show_cmd c @ [ch_close] @ t) = Parsed c' ([ch_close] @ t)" "strings c' = c" using assms(1) by (auto simp: reads_def)
  have "solid (show_cmd c @ [ch_close] @ t)" using show_solid [OF assms(2)] by simp
  from parse_paren_ends [OF c(1) this assms(3)] c(2) show thesis by (rule that)
qed

lemma reads_redirect:
  assumes "reads m c ([ch_close] @ [if fd = 0 then ch_lt else ch_gt] @ f @ r)" "scmd_ok (Redirect c f mode fd)" "stop r"
  shows "reads (Suc (Suc (Suc (Suc m)))) (Redirect c f mode fd) r"
proof -
  let ?tok = "if fd = 0 then ch_lt else ch_gt"
  obtain c' where c: "parseline m (show_cmd c @ [ch_close] @ [?tok] @ f @ r) = Parsed c' ([ch_close] @ [?tok] @ f @ r)" "strings c' = c"
    using assms(1) by (auto simp: reads_def)
  have sol: "solid (show_cmd c @ [ch_close] @ [?tok] @ f @ r)" using show_solid [of c] assms(2) by simp
  have "solid ([?tok] @ f @ r)" by simp
  note p = parse_paren [OF c(1) sol this]
  have "parseredirs [] ([?tok] @ f @ r) = Parsed (redir_of ?tok (f @ r) r) r" using assms(2,3) by (intro parseredirs_one) auto
  moreover have "redir_of ?tok (f @ r) r = [(f @ r, r, mode, fd)]" using assms(2) by (auto simp: redir_of_def)
  ultimately have "parseexec (Suc (Suc m)) (paren (show_cmd c) @ [?tok] @ f @ r) = Parsed (REDIR c' (f @ r) r mode fd) r"
    unfolding p by (simp add: wrap_def)
  from exec_line [OF this assms(3)] show ?thesis using c(2) by (simp add: reads_def)
qed

lemma reads_pipeline:
  assumes "reads (Suc m) c ([ch_close] @ [ch_bar] @ paren (show_cmd d) @ r)" "reads m d ([ch_close] @ r)" "scmd_ok c" "scmd_ok d" "stop r"
  shows "reads (Suc (Suc (Suc (Suc (Suc m))))) (Pipeline c d) r"
proof -
  let ?t = "[ch_bar] @ paren (show_cmd d) @ r"
  have "ends ?t" by (simp add: ends_def)
  then obtain c' where c: "parseexec (Suc (Suc (Suc m))) (paren (show_cmd c) @ ?t) = Parsed c' ?t" "strings c' = c" by (rule reads_paren [OF assms(1,3)])
  obtain d' where d: "parseexec (Suc (Suc m)) (paren (show_cmd d) @ r) = Parsed d' r" "strings d' = d" by (rule reads_paren [OF assms(2,4) ends_solid(2) [OF assms(5)]])
  have "parsepipe (Suc (Suc (Suc m))) (paren (show_cmd d) @ r) = Parsed d' r"
    using assms(5) by (intro pipe_stop d(1) ends_solid(2)) (auto simp: stop_def)
  moreover have "solid (paren (show_cmd d) @ r)" by (simp add: paren_def)
  ultimately have "parsepipe (Suc (Suc (Suc (Suc m)))) (paren (show_cmd c) @ ?t) = Parsed (PIPE c' d') r"
    using c(1) unfolding parsepipe.simps(2) [of "Suc (Suc (Suc m))"] by (simp add: peek_eq rest_eq(2) solid_skip rest_symbol)
  from line_stop [OF this assms(5)] show ?thesis using c(2) d(2) by (simp add: reads_def)
qed

lemma reads_sequence:
  assumes "reads (Suc m) c ([ch_close] @ [ch_semi] @ paren (show_cmd d) @ r)" "reads m d ([ch_close] @ r)" "scmd_ok c" "scmd_ok d" "stop r"
  shows "reads (Suc (Suc (Suc (Suc (Suc m))))) (Sequence c d) r"
proof -
  let ?t = "[ch_semi] @ paren (show_cmd d) @ r"
  have e: "ends ?t" by (simp add: ends_def)
  then obtain c' where c: "parseexec (Suc (Suc (Suc m))) (paren (show_cmd c) @ ?t) = Parsed c' ?t" "strings c' = c" by (rule reads_paren [OF assms(1,3)])
  obtain d' where d: "parseexec (Suc (Suc m)) (paren (show_cmd d) @ r) = Parsed d' r" "strings d' = d" by (rule reads_paren [OF assms(2,4) ends_solid(2) [OF assms(5)]])
  have "parsepipe (Suc (Suc (Suc (Suc m)))) (paren (show_cmd c) @ ?t) = Parsed c' ?t" by (rule pipe_stop [OF c(1) e]) simp
  moreover have "backs c' ?t = (c', ?t)" by (rule backs_stop) simp_all
  moreover have "parseline (Suc (Suc (Suc (Suc m)))) (paren (show_cmd d) @ r) = Parsed d' r" by (rule exec_line [OF d(1) assms(5)])
  moreover have "solid (paren (show_cmd d) @ r)" by (simp add: paren_def)
  ultimately have "parseline (Suc (Suc (Suc (Suc (Suc m))))) (paren (show_cmd c) @ ?t) = Parsed (LIST c' d') r"
    unfolding parseline.simps(2) [of "Suc (Suc (Suc (Suc m)))"] by (simp add: peek_eq rest_eq(2) solid_skip rest_symbol)
  then show ?thesis using c(2) d(2) by (simp add: reads_def)
qed

lemma reads_background:
  assumes "reads m c ([ch_close] @ [ch_amp] @ r)" "scmd_ok c" "stop r"
  shows "reads (Suc (Suc (Suc (Suc m)))) (Background c) r"
proof -
  let ?t = "[ch_amp] @ r"
  have e: "ends ?t" by (simp add: ends_def)
  then obtain c' where c: "parseexec (Suc (Suc m)) (paren (show_cmd c) @ ?t) = Parsed c' ?t" "strings c' = c" by (rule reads_paren [OF assms(1,2)])
  have p: "parsepipe (Suc (Suc (Suc m))) (paren (show_cmd c) @ ?t) = Parsed c' ?t" by (rule pipe_stop [OF c(1) e]) simp
  have sol: "solid r" by (rule stop_solid [OF assms(3)])
  have "backs c' ?t = backs (BACK c') r" using rest_symbol [OF _ sol, of ch_amp] by (simp add: backs.simps [of c' "ch_amp # r"] peek_eq rest_eq(2) solid_skip)
  also have "\<dots> = (BACK c', r)" using sol assms(3) by (intro backs_stop) (auto simp: stop_def)
  finally have "parseline (Suc (Suc (Suc (Suc m)))) (paren (show_cmd c) @ ?t) = Parsed (BACK c') r"
    using p assms(3) sol unfolding parseline.simps(2) [of "Suc (Suc (Suc m))"] by (auto simp: peek_eq solid_skip stop_def)
  then show ?thesis using c(2) by (simp add: reads_def)
qed

lemma parse_show: "scmd_ok c \<Longrightarrow> stop r \<Longrightarrow> 4 * length (show_cmd c @ r) + 4 \<le> n \<Longrightarrow> reads n c r"
proof (induction c arbitrary: r n)
  case (Simple ws)
  obtain m where "n = 3 + m" using fuel_split [of 3 n] Simple.prems(3) by auto
  then have "n = Suc (Suc (Suc m))" by simp
  then show ?case using reads_simple [of ws r m] Simple.prems by simp
next
  case (Redirect c f mode fd)
  obtain m where "n = 4 + m" using fuel_split [of 4 n] Redirect.prems(3) by auto
  then have n: "n = Suc (Suc (Suc (Suc m)))" by simp
  have "reads m c ([ch_close] @ [if fd = 0 then ch_lt else ch_gt] @ f @ r)" using Redirect.prems n by (intro Redirect.IH) (simp_all add: paren_def)
  then show ?case unfolding n using reads_redirect Redirect.prems by blast
next
  case (Pipeline c d)
  obtain m where "n = 5 + m" using fuel_split [of 5 n] Pipeline.prems(3) by (auto simp: paren_def)
  then have n: "n = Suc (Suc (Suc (Suc (Suc m))))" by simp
  have "reads (Suc m) c ([ch_close] @ [ch_bar] @ paren (show_cmd d) @ r)" using Pipeline.prems n by (intro Pipeline.IH(1)) (simp_all add: paren_def)
  moreover have "reads m d ([ch_close] @ r)" using Pipeline.prems n by (intro Pipeline.IH(2)) (simp_all add: paren_def)
  ultimately show ?case unfolding n using reads_pipeline Pipeline.prems by simp
next
  case (Sequence c d)
  obtain m where "n = 5 + m" using fuel_split [of 5 n] Sequence.prems(3) by (auto simp: paren_def)
  then have n: "n = Suc (Suc (Suc (Suc (Suc m))))" by simp
  have "reads (Suc m) c ([ch_close] @ [ch_semi] @ paren (show_cmd d) @ r)" using Sequence.prems n by (intro Sequence.IH(1)) (simp_all add: paren_def)
  moreover have "reads m d ([ch_close] @ r)" using Sequence.prems n by (intro Sequence.IH(2)) (simp_all add: paren_def)
  ultimately show ?case unfolding n using reads_sequence Sequence.prems by simp
next
  case (Background c)
  obtain m where "n = 4 + m" using fuel_split [of 4 n] Background.prems(3) by auto
  then have n: "n = Suc (Suc (Suc (Suc m)))" by simp
  have "reads m c ([ch_close] @ [ch_amp] @ r)" using Background.prems n by (intro Background.IH) (simp_all add: paren_def)
  then show ?case unfolding n using reads_background Background.prems by simp
qed

section \<open>Properties\<close>

text \<open>C37 (what the parser returns). Parsing ends on every line.  A command that it returns fits the arrays of the shell: no simple command
  has \<open>MAXARGS\<close> arguments or more.  Every name in it is a word of the line, and after \<open>nulterminate\<close> the string that starts at the pointer to
  a name is that word, although the line is changed in place.\<close>

theorem parsecmd_wellformed:
  assumes "0 \<notin> set s"
  shows "parsecmd s \<noteq> Fuel \<and>
    (\<forall>c b r. parsecmd s = Parsed (c, b) r \<longrightarrow> r = [] \<and> args_fit c \<and>
       list_all (\<lambda>p. is_name (word_of p) \<and> cstring b (length s - length (fst p)) = word_of p) (words c))"
proof (intro conjI allI impI)
  show "parsecmd s \<noteq> Fuel" by (rule parsecmd_fuel)
  fix c b r assume "parsecmd s = Parsed (c, b) r"
  then obtain s1 where p: "parseline (4 * length s + 4) s = Parsed c s1" "r = []" and b: "b = nulterminate (length s) c (s @ [0])"
    by (auto simp: parsecmd_def andthen_eq peek_eq split: if_splits)
  then show "r = []" by simp
  have ok: "cmd_ok s c" using parse_ok(1) [OF p(1)] by simp
  then show "args_fit c" by (simp add: cmd_ok_def)
  have w: "list_all (word_in s) (words c)" using ok by (simp add: cmd_ok_def)
  show "list_all (\<lambda>p. is_name (word_of p) \<and> cstring b (length s - length (fst p)) = word_of p) (words c)"
    unfolding list_all_iff b
  proof
    fix p assume "p \<in> set (words c)"
    then have "(fst p, snd p) \<in> set (words c)" "word_in s p" using w by (simp_all add: list_all_iff)
    then show "is_name (word_of p) \<and> cstring (nulterminate (length s) c (s @ [0])) (length s - length (fst p)) = word_of p"
      using nulterminated [OF assms w, of "fst p" "snd p"] by (auto simp: nulterminate_fold word_in_def word_of_def is_name_def)
  qed
qed

text \<open>The line \<open>ls>f|wc\<close> and its command.\<close>

definition sample_line :: bytes where
  "sample_line = [0x6C, 0x73, ch_gt, 0x66, ch_bar, 0x77, 0x63]"

definition sample_cmd :: cmd where
  "sample_cmd = PIPE (REDIR (EXEC [(sample_line, drop 2 sample_line)]) (drop 3 sample_line) (drop 4 sample_line) 0x201 1) (EXEC [(drop 5 sample_line, [])])"

definition sample_done :: bytes where
  "sample_done = [0x6C, 0x73, 0, 0x66, 0, 0x77, 0x63, 0]"

lemma sample_parse: "parsecmd sample_line = Parsed (sample_cmd, sample_done) []"
  by code_simp

theorem parsecmd_wellformed_witness:
  "0 \<notin> set sample_line \<and> parsecmd sample_line = Parsed (sample_cmd, sample_done) [] \<and> map word_of (words sample_cmd) = [[0x6C, 0x73], [0x66], [0x77, 0x63]] \<and>
   list_all (\<lambda>p. cstring sample_done (length sample_line - length (fst p)) = word_of p) (words sample_cmd)"
proof -
  have "0 \<notin> set sample_line" by (simp add: sample_line_def)
  moreover have "map word_of (words sample_cmd) = [[0x6C, 0x73], [0x66], [0x77, 0x63]]" by (simp add: sample_cmd_def sample_line_def word_of_def)
  ultimately show ?thesis using parsecmd_wellformed [of sample_line] sample_parse by (simp add: list_all_iff)
qed

text \<open>C38 (printing and parsing). Every command whose names are words and whose simple commands have fewer than \<open>MAXARGS\<close> arguments can be
  written as a command line, with parentheses, and parsing that line gives the command back.\<close>

theorem parse_show_cmd:
  assumes "scmd_ok c"
  shows "\<exists>c' b. parsecmd (show_cmd c) = Parsed (c', b) [] \<and> strings c' = c"
proof -
  obtain c' where "parseline (4 * length (show_cmd c) + 4) (show_cmd c) = Parsed c' []" "strings c' = c"
    using parse_show [OF assms, of "[]"] by (auto simp: reads_def)
  then show ?thesis by (auto simp: parsecmd_def peek_eq skip_def)
qed

theorem parse_show_cmd_witness:
  "\<exists>c' b. parsecmd (show_cmd (Pipeline (Simple [[0x6C, 0x73], [0x2D, 0x6C]]) (Redirect (Simple [[0x77, 0x63]]) [0x66] (O_WRONLY OR O_CREATE) 1))) = Parsed (c', b) [] \<and>
     strings c' = Pipeline (Simple [[0x6C, 0x73], [0x2D, 0x6C]]) (Redirect (Simple [[0x77, 0x63]]) [0x66] (O_WRONLY OR O_CREATE) 1)"
  by (rule parse_show_cmd) (simp add: is_name_def is_word_def whitespace_def symbols_def MAXARGS_def)

end
