(* ===== verification/Mkfs.thy ===== *)
theory Mkfs
  imports Dir
begin

text \<open>
  The host tools on file system images: \<open>mkfs.c\<close>, which builds an image, and \<open>cfs.c\<close>, which damages a file of one.

  An image is the map of its sectors and their number: a sector behind the end cannot be read, and writing one extends the image, as with
  any file of the host.  \<open>exit(1)\<close> and a failed \<open>assert\<close> are \<open>Panic\<close>.  A \<open>dinode\<close> of the model holds the fields
  in host order, that is, after \<open>xint\<close> or \<open>xshort\<close>; on the image they are little-endian.  The files of the command line are given with
  their contents, or \<open>None\<close> when they cannot be opened.  Errors of the host's disk and the printed messages are not part of the model.
\<close>

section \<open>Sectors\<close>

record mkfs =
  sect :: "u32 \<Rightarrow> bytes"
  nsect :: nat
  freeblock :: u32
  usedblocks :: u32
  freeinode :: u32

definition mk_nblocks :: nat where "mk_nblocks = 1999"
definition mk_ninodes :: nat where "mk_ninodes = 200"
definition mk_size :: nat where "mk_size = 2048"

definition zeroes :: bytes where "zeroes = replicate 512 0"

text \<open>The bytes that \<open>xshort\<close> and \<open>xint\<close> store, read again in the byte order of the host, which is little-endian.\<close>

definition xshort :: "u16 \<Rightarrow> u16" where
  "xshort x = de16 [ucast x, ucast (drop_bit 8 x)]"

definition xint :: "u32 \<Rightarrow> u32" where
  "xint x = de32 [ucast x, ucast (drop_bit 8 x), ucast (drop_bit 16 x), ucast (drop_bit 24 x)]"

definition wsect :: "u32 \<Rightarrow> bytes \<Rightarrow> (unit, 'z mkfs_scheme) kop" where
  "wsect sec b = modify (\<lambda>s. s\<lparr>sect := (sect s)(sec := b), nsect := max (nsect s) (Suc (unat sec))\<rparr>)"

definition rsect :: "u32 \<Rightarrow> (bytes, 'z mkfs_scheme) kop" where
  "rsect sec = bind (gets nsect) (\<lambda>n. if unat sec < n then gets (\<lambda>s. sect s sec) else panic ''read'')"

definition i2b :: "u32 \<Rightarrow> u32" where
  "i2b n = n div of_nat IPB + 2"

definition winode :: "u32 \<Rightarrow> dinode \<Rightarrow> (unit, 'z mkfs_scheme) kop" where
  "winode n d = bind (rsect (i2b n)) (\<lambda>buf. wsect (i2b n) (splice (ioff n) (en_dinode d) buf))"

definition rinode :: "u32 \<Rightarrow> (dinode, 'z mkfs_scheme) kop" where
  "rinode n = bind (rsect (i2b n)) (\<lambda>buf. ret (de_dinode (slice (ioff n) 64 buf)))"

section \<open>Building files\<close>

definition new_dinode :: "u16 \<Rightarrow> dinode" where
  "new_dinode ty = \<lparr>dtype = xshort ty, dmajor = 0, dminor = 0, dnlink = xshort 1, dsize = xint 0,
     daddrs = replicate (NDIRECT + 1) 0, dchild1 = 0, dchild2 = 0, dchecksum = 0\<rparr>"

definition ialloc_img :: "u16 \<Rightarrow> (u32, 'z mkfs_scheme) kop" where
  "ialloc_img ty =
     bind (gets freeinode) (\<lambda>n.
     seqk (modify (\<lambda>s. s\<lparr>freeinode := n + 1\<rparr>))
    (seqk (winode n (new_dinode ty))
     (ret n)))"

definition balloc_img :: "u32 \<Rightarrow> (unit, 'z mkfs_scheme) kop" where
  "balloc_img n =
     (if \<not> sint n < 512 * 8 then panic ''assert''
      else wsect (of_nat (mk_ninodes div IPB + 3)) (fold bit_set [0..<nat (sint n)] (replicate 512 0)))"

definition take_block :: "(u32, 'z mkfs_scheme) kop" where
  "take_block = bind (gets freeblock) (\<lambda>b.
     seqk (modify (\<lambda>s. s\<lparr>freeblock := b + 1, usedblocks := usedblocks s + 1\<rparr>)) (ret b))"

text \<open>The sector for block \<open>fbn\<close> of a file, allocated when there is none, and the inode that results.\<close>

definition addr_slot :: "dinode \<Rightarrow> nat \<Rightarrow> (dinode, 'z mkfs_scheme) kop" where
  "addr_slot d k =
     (if daddrs d ! k = 0 then bind take_block (\<lambda>b. ret (d\<lparr>daddrs := (daddrs d)[k := b]\<rparr>)) else ret d)"

definition block_for :: "dinode \<Rightarrow> nat \<Rightarrow> (u32 \<times> dinode, 'z mkfs_scheme) kop" where
  "block_for d fbn =
     (if fbn < NDIRECT then bind (addr_slot d fbn) (\<lambda>d. ret (daddrs d ! fbn, d))
      else
        bind (addr_slot d NDIRECT) (\<lambda>d.
        bind (rsect (daddrs d ! NDIRECT)) (\<lambda>indirect.
        if ptr_at (fbn - NDIRECT) indirect = 0 then
          bind take_block (\<lambda>b.
          seqk (wsect (daddrs d ! NDIRECT) (put_ptr (fbn - NDIRECT) b indirect))
          (ret (b, d)))
        else ret (ptr_at (fbn - NDIRECT) indirect, d))))"

lemma block_end: "(off :: nat) < (off div 512 + 1) * 512"
  using dividend_less_div_times [of 512 off] by simp

text \<open>
  The loop of \<open>iappend\<close> over the bytes \<open>p\<close> that are left; the offset stays below the largest file size because the block number is
  checked in every round.
\<close>

function iappend_loop :: "dinode \<Rightarrow> nat \<Rightarrow> bytes \<Rightarrow> (dinode \<times> nat, 'z mkfs_scheme) kop" where
  "iappend_loop d off p =
     (if p = [] then ret (d, off)
      else if \<not> off div 512 < MAXFILE then panic ''assert''
      else
        let n1 = min (length p) ((off div 512 + 1) * 512 - off) in
        bind (block_for d (off div 512)) (\<lambda>(x, d).
        bind (rsect x) (\<lambda>buf.
        seqk (wsect x (splice (off mod 512) (take n1 p) buf))
        (iappend_loop d (off + n1) (drop n1 p)))))"
  by pat_completeness auto
termination
proof (relation "measure (\<lambda>(d, off, p). length p)", simp)
  fix d :: dinode and off n1 :: nat and p :: bytes and x :: "u32 \<times> dinode" and a d' buf
  assume p: "p \<noteq> []" "n1 = min (length p) ((off div 512 + 1) * 512 - off)"
  show "((d', off + n1, drop n1 p), (d, off, p)) \<in> measure (\<lambda>(d, off, p). length p)" using p block_end [of off] by (cases p) auto
qed

declare iappend_loop.simps [simp del]

definition iappend :: "u32 \<Rightarrow> bytes \<Rightarrow> (unit, 'z mkfs_scheme) kop" where
  "iappend n p =
     bind (rinode n) (\<lambda>d.
     bind (iappend_loop d (unat (xint (dsize d))) p) (\<lambda>(d, off).
     winode n (d\<lparr>dsize := xint (of_nat off)\<rparr>)))"

section \<open>Reading files and checksums\<close>

text \<open>Behind the last block that an inode can have \<open>rblock\<close> leaves the buffer as it is, without a value.\<close>

definition rblock :: "dinode \<Rightarrow> nat \<Rightarrow> (bytes, 'z mkfs_scheme) kop" where
  "rblock d bn =
     (if bn < NDIRECT then rsect (xint (daddrs d ! bn))
      else if bn - NDIRECT < NINDIRECT then
        bind (rsect (xint (daddrs d ! NDIRECT))) (\<lambda>indirect.
        rsect (xint (ptr_at (bn - NDIRECT) indirect)))
      else out_of_bounds)"

function readi_img_loop :: "dinode \<Rightarrow> nat \<Rightarrow> nat \<Rightarrow> (bytes, 'z mkfs_scheme) kop" where
  "readi_img_loop d off n =
     (if n = 0 then ret []
      else
        let m = min n (BSIZE - off mod BSIZE) in
        bind (rblock d (off div BSIZE)) (\<lambda>data.
        bind (readi_img_loop d (off + m) (n - m)) (\<lambda>ys.
        ret (slice (off mod BSIZE) m data @ ys))))"
  by pat_completeness auto
termination
  by (relation "measure (\<lambda>(d, off, n). n)") (auto simp: BSIZE_def)

declare readi_img_loop.simps [simp del]

definition readi_img :: "dinode \<Rightarrow> u32 \<Rightarrow> u32 \<Rightarrow> (u32 \<times> bytes, 'z mkfs_scheme) kop" where
  "readi_img d off n =
     (if dtype d = T_DEV then ret (- 1, [])
      else if off > xint (dsize d) \<or> off + n < off then ret (- 1, [])
      else
        let n = (if off + n > xint (dsize d) then xint (dsize d) - off else n) in
        bind (readi_img_loop d (unat off) (unat n)) (\<lambda>xs.
        ret (n, xs)))"

text \<open>
  The loops of \<open>ichecksum\<close> and of \<open>copy_dinode_content\<close>, for at most the given number of reads: a file has at most \<open>MAXFILE\<close>
  blocks, which are 35 buffers of 2048 bytes or 138 of 512.
\<close>

primrec ichecksum_img_loop :: "nat \<Rightarrow> dinode \<Rightarrow> u32 \<Rightarrow> u32 \<Rightarrow> (u32, 'z mkfs_scheme) kop" where
  "ichecksum_img_loop 0 d off c = (\<lambda>s. Diverge)"
| "ichecksum_img_loop (Suc k) d off c =
     bind (readi_img d off 2048) (\<lambda>(r, xs).
     if r > 0 then ichecksum_img_loop k d (off + r) (xor_words 512 (splice 0 xs (replicate 2048 0)) c)
     else ret c)"

definition ichecksum_img :: "dinode \<Rightarrow> (u32, 'z mkfs_scheme) kop" where
  "ichecksum_img d = ichecksum_img_loop 40 d 0 0"

primrec copy_loop_img :: "nat \<Rightarrow> dinode \<Rightarrow> u32 \<Rightarrow> u32 \<Rightarrow> (unit, 'z mkfs_scheme) kop" where
  "copy_loop_img 0 src dst off = (\<lambda>s. Diverge)"
| "copy_loop_img (Suc k) src dst off =
     bind (readi_img src off 512) (\<lambda>(r, xs).
     if r > 0 then seqk (iappend dst xs) (copy_loop_img k src dst (off + r))
     else ret ())"

definition copy_dinode_content :: "dinode \<Rightarrow> u32 \<Rightarrow> (unit, 'z mkfs_scheme) kop" where
  "copy_dinode_content src dst = copy_loop_img 140 src dst 0"

section \<open>Building an image\<close>

text \<open>What successive calls of \<open>read\<close> on a file of the host with a buffer of 512 bytes return.\<close>

function host_reads :: "bytes \<Rightarrow> bytes list" where
  "host_reads xs = (if xs = [] then [] else take 512 xs # host_reads (drop 512 xs))"
  by pat_completeness auto
termination
  by (relation "measure length") auto

declare host_reads.simps [simp del]

definition dirent_bytes :: "u32 \<Rightarrow> bytes \<Rightarrow> bytes" where
  "dirent_bytes n name = en_dirent \<lparr>de_inum = xshort (ucast n), de_name = strncpy_name name\<rparr>"

definition add_file :: "u32 \<Rightarrow> bytes \<times> bytes option \<Rightarrow> (unit, 'z mkfs_scheme) kop" where
  "add_file root f =
     (case f of (arg, content) \<Rightarrow>
      if 0x2F \<in> set arg then panic ''assert''
      else case content of
        None \<Rightarrow> panic ''open''
      | Some xs \<Rightarrow>
          let name = (if arg \<noteq> [] \<and> hd arg = 0x5F then tl arg else arg) in
          bind (ialloc_img T_FILE) (\<lambda>n.
          seqk (iappend root (dirent_bytes n name))
         (seqk (foreach (host_reads xs) (iappend n))
         (bind (rinode n) (\<lambda>d.
          seqk (readi_img d 0 512)
         (bind (ichecksum_img d) (\<lambda>c.
          winode n (d\<lparr>dchecksum := xint c\<rparr>))))))))"

definition fix_root :: "u32 \<Rightarrow> (unit, 'z mkfs_scheme) kop" where
  "fix_root root =
     bind (rinode root) (\<lambda>d.
     let d = d\<lparr>dsize := xint ((xint (dsize d) div 512 + 1) * 512)\<rparr> in
     bind (ichecksum_img d) (\<lambda>c.
     winode root (d\<lparr>dchecksum := xint c\<rparr>)))"

definition copy_ditto :: "dinode \<Rightarrow> u32 \<Rightarrow> (unit, 'z mkfs_scheme) kop" where
  "copy_ditto d n =
     seqk (copy_dinode_content d n)
    (bind (rinode n) (\<lambda>e.
     winode n (e\<lparr>dchecksum := dchecksum d, dsize := dsize d\<rparr>)))"

definition make_dittos :: "u32 \<Rightarrow> (unit, 'z mkfs_scheme) kop" where
  "make_dittos root =
     bind (rinode root) (\<lambda>d.
     bind (ialloc_img T_DITTO) (\<lambda>n1.
     bind (ialloc_img T_DITTO) (\<lambda>n2.
     seqk (copy_ditto d n1)
    (seqk (copy_ditto d n2)
    (bind (rinode root) (\<lambda>d.
     winode root (d\<lparr>dchild1 := xshort (ucast n1), dchild2 := xshort (ucast n2)\<rparr>)))))))"

definition superblock_bytes :: bytes where
  "superblock_bytes = le32 (of_nat mk_size) @ le32 (of_nat mk_nblocks) @ le32 (of_nat mk_ninodes) @ le32 (of_nat LOGSIZE)"

definition mk_used :: nat where
  "mk_used = mk_ninodes div IPB + 3 + (mk_size div (512 * 8) + 1)"

definition mkfs_init :: "(unit, 'z mkfs_scheme) kop" where
  "mkfs_init =
     seqk (modify (\<lambda>s. s\<lparr>usedblocks := of_nat mk_used, freeblock := of_nat mk_used\<rparr>))
    (if mk_nblocks + mk_used + LOGSIZE \<noteq> mk_size then panic ''assert''
     else seqk (foreach [0..<mk_nblocks + mk_used + LOGSIZE] (\<lambda>i. wsect (of_nat i) zeroes))
              (wsect 1 (splice 0 superblock_bytes zeroes)))"

definition mkfs_main :: "(bytes \<times> bytes option) list \<Rightarrow> (unit, 'z mkfs_scheme) kop" where
  "mkfs_main files =
     seqk mkfs_init
    (bind (ialloc_img T_DIR) (\<lambda>root.
     if root \<noteq> ROOTINO then panic ''assert''
     else
       seqk (iappend root (dirent_bytes root [0x2E]))
      (seqk (iappend root (dirent_bytes root [0x2E, 0x2E]))
      (seqk (foreach files (add_file root))
      (seqk (fix_root root)
      (seqk (make_dittos root)
      (bind (gets usedblocks) balloc_img)))))))"

text \<open>The image file that \<open>open\<close> has just truncated.\<close>

definition mkfs_start :: mkfs where
  "mkfs_start = \<lparr>sect = (\<lambda>_. zeroes), nsect = 0, freeblock = 0, usedblocks = 0, freeinode = 1\<rparr>"

section \<open>Damaging a file\<close>

text \<open>The results of \<open>rand\<close> are a parameter \<open>rnd\<close>, the number of calls made so far a part of the state.\<close>

record cfs = mkfs +
  drawn :: nat

definition flip :: "(nat \<Rightarrow> nat) \<Rightarrow> int \<Rightarrow> (bool, 'z cfs_scheme) kop" where
  "flip rnd p =
     bind (gets drawn) (\<lambda>k.
     seqk (modify (\<lambda>s. s\<lparr>drawn := Suc k\<rparr>))
     (if p = 0 then panic ''division by zero'' else ret (int (rnd k) mod p = 0)))"

text \<open>The bits of one byte, and the bytes of a buffer; with the number of bits that were changed.\<close>

primrec flip_byte :: "(nat \<Rightarrow> nat) \<Rightarrow> int \<Rightarrow> nat list \<Rightarrow> byte \<Rightarrow> (nat \<times> byte, 'z cfs_scheme) kop" where
  "flip_byte rnd pct [] c = ret (0, c)"
| "flip_byte rnd pct (s # ss) c =
     bind (flip rnd pct) (\<lambda>b.
     if b then bind (flip_byte rnd pct ss (c XOR push_bit s 1)) (\<lambda>(k, c). ret (Suc k, c))
     else flip_byte rnd pct ss c)"

primrec flip_bits :: "(nat \<Rightarrow> nat) \<Rightarrow> int \<Rightarrow> bytes \<Rightarrow> (nat \<times> bytes, 'z cfs_scheme) kop" where
  "flip_bits rnd pct [] = ret (0, [])"
| "flip_bits rnd pct (c # cs) =
     bind (flip_byte rnd pct [0..<8] c) (\<lambda>(k, c).
     bind (flip_bits rnd pct cs) (\<lambda>(l, cs).
     ret (k + l, c # cs)))"

definition block_of :: "dinode \<Rightarrow> nat \<Rightarrow> (u32, 'z mkfs_scheme) kop" where
  "block_of d fbn =
     (if fbn < NDIRECT then ret (xint (daddrs d ! fbn))
      else bind (rsect (xint (daddrs d ! NDIRECT))) (\<lambda>indirect. ret (xint (ptr_at (fbn - NDIRECT) indirect))))"

function icorrupt_loop :: "(nat \<Rightarrow> nat) \<Rightarrow> int \<Rightarrow> dinode \<Rightarrow> nat \<Rightarrow> nat \<Rightarrow> (nat, 'z cfs_scheme) kop" where
  "icorrupt_loop rnd pct d off n =
     (if n = 0 then ret 0
      else if \<not> off div 512 < MAXFILE then panic ''assert''
      else
        let n1 = min n ((off div 512 + 1) * 512 - off) in
        bind (block_of d (off div 512)) (\<lambda>x.
        bind (rsect x) (\<lambda>buf.
        bind (flip_bits rnd pct (take n1 buf)) (\<lambda>(k, ys).
        seqk (wsect x (splice 0 ys buf))
       (bind (icorrupt_loop rnd pct d (off + n1) (n - n1)) (\<lambda>l.
        ret (k + l)))))))"
  by pat_completeness auto
termination
proof (relation "measure (\<lambda>(r, p, d, off, n). n)", simp)
  fix r p and d :: dinode and off n n1 :: nat
  assume n: "n \<noteq> 0" "n1 = min n ((off div 512 + 1) * 512 - off)"
  show "((r, p, d, off + n1, n - n1), (r, p, d, off, n)) \<in> measure (\<lambda>(r, p, d, off, n). n)" using n block_end [of off] by auto
qed

declare icorrupt_loop.simps [simp del]

definition icorrupt :: "(nat \<Rightarrow> nat) \<Rightarrow> u32 \<Rightarrow> int \<Rightarrow> int \<Rightarrow> (nat, 'z cfs_scheme) kop" where
  "icorrupt rnd n len pct =
     bind (rinode n) (\<lambda>d.
     bind (icorrupt_loop rnd pct d 0 (nat len)) (\<lambda>c.
     seqk (winode n d)
     (ret c)))"

definition cfs_main :: "(nat \<Rightarrow> nat) \<Rightarrow> u32 \<Rightarrow> int \<Rightarrow> (nat, 'z cfs_scheme) kop" where
  "cfs_main rnd n pct = bind (rinode n) (\<lambda>d. icorrupt rnd n (sint (xint (dsize d))) pct)"

section \<open>What the tools read\<close>

lemma xint_eq [simp]: "xint x = x"
  using de32_le32 [of x] by (simp add: xint_def le32_def)

lemma xshort_eq [simp]: "xshort x = x"
  using de16_le16 [of x] by (simp add: xshort_def le16_def)

lemma i2b_eq: "i2b n = IBLOCK n"
  by (simp add: i2b_def IBLOCK_def)

text \<open>An inode of the image as the kernel has it in memory, and the blocks that can be read.\<close>

definition node :: "dinode \<Rightarrow> inode" where
  "node d = load_inode d \<lparr>idev = 1, inum = 0, iref = 1, iflags = I_VALID, itype = 0, major = 0, minor = 0, nlink = 0, isize = 0, addrs = [],
     child1 = 0, child2 = 0, icheck = 0\<rparr>"

lemma node_simps [simp]: "isize (node d) = dsize d" "addrs (node d) = daddrs d" "itype (node d) = dtype d" "icheck (node d) = dchecksum d"
  by (simp_all add: node_def load_inode_def)

definition readable :: "'z mkfs_scheme \<Rightarrow> dinode \<Rightarrow> nat \<Rightarrow> bool" where
  "readable s d nb \<longleftrightarrow> nb \<le> MAXFILE \<and>
     (\<forall>bn < nb. unat (faddr (sect s) (node d) bn) < nsect s \<and> length (sect s (faddr (sect s) (node d) bn)) = BSIZE) \<and>
     (NDIRECT < nb \<longrightarrow> unat (daddrs d ! NDIRECT) < nsect s)"

lemma rsect_eq: "unat a < nsect s \<Longrightarrow> rsect a s = Done (sect s a) s"
  by (simp add: rsect_def bind_def)

lemma rblock_eq:
  assumes "readable s d nb" "bn < nb"
  shows "rblock d bn s = Done (sect s (faddr (sect s) (node d) bn)) s"
proof -
  have b: "bn < NDIRECT + NINDIRECT" "unat (faddr (sect s) (node d) bn) < nsect s" using assms by (auto simp: readable_def MAXFILE_def)
  show ?thesis
  proof (cases "bn < NDIRECT")
    case True
    then show ?thesis using b(2) by (simp add: rblock_def faddr_def rsect_eq)
  next
    case False
    then have "unat (daddrs d ! NDIRECT) < nsect s" using assms by (auto simp: readable_def)
    then show ?thesis using False b by (simp add: rblock_def faddr_def rsect_eq bind_def less_diff_conv2)
  qed
qed

lemma readi_img_loop_eq:
  assumes "readable s d nb" "off + n \<le> nb * BSIZE"
  shows "readi_img_loop d off n s = Done (fbytes (sect s) (node d) off n) s"
  using assms
proof (induction d off n rule: readi_img_loop.induct)
  case (1 d off n)
  let ?m = "min n (BSIZE - off mod BSIZE)" and ?i = "node d"
  show ?case
  proof (cases "n = 0")
    case True
    then show ?thesis by (simp add: readi_img_loop.simps fbytes_def)
  next
    case False
    have B: "0 < BSIZE" by (simp add: BSIZE_def)
    have bn: "off div BSIZE < nb" using "1.prems"(2) False B by (simp add: less_mult_imp_div_less)
    have m: "off mod BSIZE + ?m \<le> BSIZE" using mod_less_divisor [OF B, of off] by linarith
    have "slice (off mod BSIZE) ?m (sect s (faddr (sect s) ?i (off div BSIZE))) = fbytes (sect s) ?i off ?m"
      by (rule fbytes_block [OF m]) (use "1.prems"(1) bn in \<open>simp add: readable_def\<close>)
    moreover have "readi_img_loop d (off + ?m) (n - ?m) s = Done (fbytes (sect s) ?i (off + ?m) (n - ?m)) s"
      using "1.IH" [OF False refl "1.prems"(1)] "1.prems"(2) by simp
    moreover have "fbytes (sect s) ?i off ?m @ fbytes (sect s) ?i (off + ?m) (n - ?m) = fbytes (sect s) ?i off n"
      using fbytes_append [of "sect s" ?i off ?m "n - ?m"] by simp
    ultimately show ?thesis
      using False rblock_eq [OF "1.prems"(1) bn] by (simp add: readi_img_loop.simps [of d off n] Let_def bind_def)
  qed
qed

lemma readable_bytes: "readable s d nb \<Longrightarrow> m \<le> nb * BSIZE \<Longrightarrow> m \<le> 70656"
  using MAXFILE_bytes by (metis readable_def mult_le_mono1 order_trans)

lemma readi_img_eq:
  assumes r: "readable s d nb" "unat (dsize d) \<le> nb * BSIZE" "dtype d \<noteq> T_DEV"
    and o: "off \<le> dsize d" "unat off + unat n < 2 ^ 32" and m: "m = min (unat n) (unat (dsize d) - unat off)"
  shows "readi_img d off n s = Done (of_nat m, fbytes (sect s) (node d) (unat off) m) s"
proof -
  have le: "unat off \<le> unat (dsize d)" using o(1) by (simp add: word_le_nat_alt)
  have sum: "unat (off + n) = unat off + unat n" using o(2) by (simp add: unat_word_ariths)
  define k where "k = (if off + n > dsize d then dsize d - off else n)"
  have k: "unat k = m" using le sum m by (auto simp: k_def word_less_nat_alt unat_sub_if')
  then have km: "k = of_nat m" by auto
  have c: "\<not> (off > dsize d \<or> off + n < off)" using le sum by (auto simp: word_less_nat_alt)
  have bound: "unat off + m \<le> nb * BSIZE" using le r(2) unfolding m by linarith
  have "readi_img d off n s = bind (readi_img_loop d (unat off) (unat k)) (\<lambda>xs. ret (k, xs)) s"
    using r(3) c by (simp add: readi_img_def Let_def k_def)
  then show ?thesis using readi_img_loop_eq [OF r(1) bound] k km by (simp add: bind_def)
qed

lemma ichecksum_img_loop_eq:
  assumes "readable s d nb" "unat (dsize d) \<le> nb * BSIZE" "dtype d \<noteq> T_DEV"
    and "off \<le> dsize d" "unat (dsize d) - unat off \<le> (k - 1) * 2048" "0 < k"
  shows "ichecksum_img_loop k d off c s = Done (c XOR cksum (fbytes (sect s) (node d) (unat off) (unat (dsize d) - unat off))) s"
  using assms
proof (induction k arbitrary: off c)
  case 0
  then show ?case by simp
next
  case (Suc k)
  let ?r = "unat (dsize d) - unat off" and ?f = "fbytes (sect s) (node d)"
  define m where "m = min 2048 ?r"
  let ?xs = "?f (unat off) m"
  have small: "unat off + 2048 < 2 ^ 32"
    using Suc.prems(4) readable_bytes [OF Suc.prems(1,2)] by (simp add: word_le_nat_alt)
  have um: "unat (of_nat m :: u32) = m" by (simp add: m_def unsigned_of_nat take_bit_nat_eq_self)
  have e: "readi_img d off 2048 s = Done (of_nat m, ?xs) s"
    by (rule readi_img_eq [OF Suc.prems(1-4)]) (use small in \<open>simp_all add: m_def\<close>)
  have x: "xor_words 512 (splice 0 ?xs (replicate 2048 0)) c = c XOR cksum ?xs"
    by (rule xor_words_buffer) (simp add: m_def)
  show ?case
  proof (cases "?r = 0")
    case True
    then show ?thesis using e by (simp add: bind_def m_def fbytes_def cksum.simps [of "[]"])
  next
    case False
    then have pos: "(0 :: u32) < of_nat m" using um by (simp add: word_less_nat_alt m_def)
    have uo: "unat (off + of_nat m) = unat off + m" using small um by (simp add: unat_word_ariths m_def)
    have o': "off + of_nat m \<le> dsize d" using uo False by (auto simp: word_le_nat_alt m_def)
    have rest: "unat (dsize d) - unat (off + of_nat m) = ?r - m" using uo by simp
    have k: "0 < k" "?r - m \<le> (k - 1) * 2048" using False Suc.prems(5) by (cases k; simp add: m_def)+
    have d: "c XOR cksum (?f (unat off) ?r) = (c XOR cksum ?xs) XOR cksum (?f (unat off + m) (?r - m))"
    proof (cases "m = 2048")
      case True
      then have "?f (unat off) ?r = ?xs @ ?f (unat off + m) (?r - m)"
        using fbytes_append [of "sect s" "node d" "unat off" m "?r - m"] by (simp add: m_def)
      then show ?thesis using True cksum_append [of ?xs] by (simp add: ac_simps)
    next
      case False
      then have "m = ?r" by (auto simp: m_def)
      then show ?thesis by (simp add: fbytes_def cksum.simps [of "[]"])
    qed
    have "ichecksum_img_loop k d (off + of_nat m) (c XOR cksum ?xs) s = Done ((c XOR cksum ?xs) XOR cksum (?f (unat off + m) (?r - m))) s"
      using Suc.IH [OF Suc.prems(1-3) o' _ k(1), of "c XOR cksum ?xs"] k(2) rest uo by simp
    then show ?thesis using e pos d by (simp add: bind_def x)
  qed
qed

definition blocks_of :: "dinode \<Rightarrow> nat" where
  "blocks_of d = (unat (dsize d) + BSIZE - 1) div BSIZE"

lemma blocks_of_bytes: "unat (dsize d) \<le> blocks_of d * BSIZE"
  using whole_bytes [of "node d"] by (simp add: blocks_of_def)

lemma ichecksum_img_eq:
  assumes "readable s d (blocks_of d)" "dtype d \<noteq> T_DEV"
  shows "ichecksum_img d s = Done (cksum (fcontent (sect s) (node d))) s"
  using ichecksum_img_loop_eq [OF assms(1) blocks_of_bytes assms(2), of 0 40 0] readable_bytes [OF assms(1) blocks_of_bytes]
  by (simp add: ichecksum_img_def fcontent_def)

section \<open>Parity\<close>

text \<open>Whether a word, or a list of bytes, has an odd number of ones.\<close>

definition par :: "'a :: len word \<Rightarrow> bool" where
  "par w = foldr (\<lambda>i b. bit w i \<noteq> b) [0..<LENGTH('a)] False"

definition bpar :: "bytes \<Rightarrow> bool" where
  "bpar bs = foldr (\<lambda>c b. par c \<noteq> b) bs False"

lemma bpar_simps [simp]: "bpar [] = False" "bpar (c # cs) = (par c \<noteq> bpar cs)"
  by (simp_all add: bpar_def)

lemma bpar_append [simp]: "bpar (xs @ ys) = (bpar xs \<noteq> bpar ys)"
  by (induction xs) auto

lemma par_bits_xor:
  "(\<And>i. i \<in> set is \<Longrightarrow> i < LENGTH('a)) \<Longrightarrow> foldr (\<lambda>i b. bit (v XOR w) i \<noteq> b) is False =
    (foldr (\<lambda>i b. bit v i \<noteq> b) is False \<noteq> foldr (\<lambda>i b. bit (w :: 'a :: len word) i \<noteq> b) is False)"
  by (induction "is") (auto simp: bit_simps)

lemma par_xor [simp]: "par (v XOR w) = (par v \<noteq> par w)"
  unfolding par_def by (rule par_bits_xor) simp

lemma par_none: "(\<And>i. i \<in> set is \<Longrightarrow> \<not> P i) \<Longrightarrow> foldr (\<lambda>i b. P i \<noteq> b) is z = z"
  by (induction "is") simp_all

lemma par_zero [simp]: "par 0 = False"
  unfolding par_def by (rule par_none) simp

lemma par_length: "par (w :: u32) = foldr (\<lambda>i b. bit w i \<noteq> b) [0..<32] False" "par (c :: byte) = foldr (\<lambda>i b. bit c i \<noteq> b) [0..<8] False"
  by (simp_all add: par_def)

lemma par_shift:
  assumes "k + 8 \<le> 32"
  shows "par (push_bit k (ucast b) :: u32) = par (b :: byte)"
proof -
  let ?P = "\<lambda>i. bit (push_bit k (ucast b) :: u32) i"
  have P: "?P i \<longleftrightarrow> k \<le> i \<and> i < 32 \<and> i - k < 8 \<and> bit b (i - k)" for i using bit_imp_le_length [of b "i - k"] by (auto simp: bit_simps)
  have "[0..<32] = [0..<k] @ [k..<k + 8] @ [k + 8..<32]" using assms upt_add_eq_append [of k "k + 8" "32 - (k + 8)"] upt_add_eq_append [of 0 k "32 - k"] by simp
  then have "par (push_bit k (ucast b) :: u32) = foldr (\<lambda>i b. ?P i \<noteq> b) ([0..<k] @ [k..<k + 8] @ [k + 8..<32]) False" by (simp only: par_length)
  also have "\<dots> = foldr (\<lambda>i b. ?P i \<noteq> b) [k..<k + 8] False"
  proof -
    have "foldr (\<lambda>i b. ?P i \<noteq> b) [0..<k] z = z" "foldr (\<lambda>i b. ?P i \<noteq> b) [k + 8..<32] z = z" for z
      by (rule par_none, simp add: P, rule par_none, auto simp: P)
    then show ?thesis by (simp only: foldr_append comp_def)
  qed
  also have "\<dots> = foldr (\<lambda>i b. ?P i \<noteq> b) (map (\<lambda>i. i + k) [0..<8]) False" unfolding map_add_upt by (simp add: add.commute)
  also have "\<dots> = foldr (\<lambda>i b'. bit b i \<noteq> b') [0..<8] False"
    unfolding foldr_map by (rule foldr_cong) (use P assms in auto)
  finally show ?thesis by (simp only: par_length)
qed

lemma par_ucast: "par (ucast b :: u32) = par (b :: byte)"
  using par_shift [of 0 b] by simp

lemma par_bit:
  assumes "s < 8"
  shows "par (push_bit s 1 :: byte)"
proof -
  have P: "bit (push_bit s 1 :: byte) i \<longleftrightarrow> i = s" for i using assms by (auto simp: bit_simps)
  have "[0..<8] = [0..<s] @ s # [Suc s..<8]" using assms upt_add_eq_append [of 0 s "8 - s"] upt_conv_Cons [of s 8] by simp
  then have "par (push_bit s 1 :: byte) = foldr (\<lambda>i b. (i = s) \<noteq> b) ([0..<s] @ s # [Suc s..<8]) False" by (simp only: par_length P)
  then show ?thesis using par_none [of "[0..<s]" "\<lambda>i. i = s"] par_none [of "[Suc s..<8]" "\<lambda>i. i = s"] by simp
qed

lemma byte_bit: "8 \<le> n \<Longrightarrow> \<not> bit (b :: byte) n"
  by (auto dest: bit_imp_le_length)

lemma par_de32: "par (de32 [a, b, c, d]) = bpar [a, b, c, d]"
proof -
  have "de32 [a, b, c, d] = ucast a XOR push_bit 8 (ucast b) XOR push_bit 16 (ucast c) XOR push_bit 24 (ucast d)"
    by (rule bit_word_eqI) (auto simp: de32_def bit_simps byte_bit)
  then show ?thesis by (simp add: par_ucast par_shift)
qed

lemma cksum_words:
  assumes "bs \<noteq> []"
  obtains a b c d where "take 4 (bs @ [0, 0, 0]) = [a, b, c, d]" "bpar bs = (bpar [a, b, c, d] \<noteq> bpar (drop 4 bs))"
proof (cases bs rule: remdups_adj.cases)
  case (2 a)
  then show ?thesis using that [of a 0 0 0] by simp
next
  case (3 a b r)
  show ?thesis
  proof (cases r rule: remdups_adj.cases)
    case 1
    then show ?thesis using that [of a b 0 0] 3 by simp
  next
    case (2 c)
    then show ?thesis using that [of a b c 0] 3 by simp
  next
    case (3 c d t)
    then show ?thesis using that [of a b c d] \<open>bs = a # b # r\<close> by auto
  qed
qed (use assms in simp)

lemma par_cksum: "par (cksum bs) = bpar bs"
proof (induction bs rule: cksum.induct)
  case (1 bs)
  show ?case
  proof (cases "bs = []")
    case False
    then obtain a b c d where "take 4 (bs @ [0, 0, 0]) = [a, b, c, d]" "bpar bs = (bpar [a, b, c, d] \<noteq> bpar (drop 4 bs))"
      by (rule cksum_words)
    then show ?thesis using "1.IH" [OF False] False by (subst cksum.simps) (simp add: par_de32)
  qed (simp add: cksum.simps [of "[]"])
qed

lemma flip_byte_par:
  assumes "pct \<noteq> 0" "list_all (\<lambda>i. i < 8) is"
  shows "\<exists>k c' j. flip_byte rnd pct is c s = Done (k, c') (s\<lparr>drawn := j\<rparr>) \<and> par c' = (par c \<noteq> odd k)"
  using assms(2)
proof (induction "is" arbitrary: c s)
  case Nil
  have "s = s\<lparr>drawn := drawn s\<rparr>" by simp
  then show ?case by (metis flip_byte.simps(1) even_zero ret_apply)
next
  case (Cons i "is")
  let ?b = "int (rnd (drawn s)) mod pct = 0" and ?s = "s\<lparr>drawn := Suc (drawn s)\<rparr>"
  have f: "flip rnd pct s = Done ?b ?s" using assms(1) by (simp add: flip_def bind_def seqk_def)
  have p: "par (c XOR push_bit i 1) = (\<not> par c)" using Cons.prems par_bit [of i] by simp
  let ?c = "if ?b then c XOR push_bit i 1 else c"
  obtain k c' j where r: "flip_byte rnd pct is ?c ?s = Done (k, c') (?s\<lparr>drawn := j\<rparr>)" "par c' = (par ?c \<noteq> odd k)"
    using Cons.IH [of ?c ?s] Cons.prems by auto
  then have "flip_byte rnd pct (i # is) c s = Done (if ?b then Suc k else k, c') (s\<lparr>drawn := j\<rparr>)" using f by (auto simp: bind_def)
  moreover have "par c' = (par c \<noteq> odd (if ?b then Suc k else k))" using r(2) p by auto
  ultimately show ?case by blast
qed

lemma flip_bits_par:
  assumes "pct \<noteq> 0"
  shows "\<exists>k cs' j. flip_bits rnd pct cs s = Done (k, cs') (s\<lparr>drawn := j\<rparr>) \<and> length cs' = length cs \<and> bpar cs' = (bpar cs \<noteq> odd k)"
proof (induction cs arbitrary: s)
  case Nil
  have "s = s\<lparr>drawn := drawn s\<rparr>" by simp
  then show ?case by (metis flip_bits.simps(1) even_zero ret_apply)
next
  case (Cons c cs)
  have "list_all (\<lambda>i. i < 8) [0..<8 :: nat]" by (simp add: list_all_iff)
  then obtain k c' j where f: "flip_byte rnd pct [0..<8] c s = Done (k, c') (s\<lparr>drawn := j\<rparr>)" "par c' = (par c \<noteq> odd k)"
    using flip_byte_par [OF assms] by blast
  obtain l cs' m where g: "flip_bits rnd pct cs (s\<lparr>drawn := j\<rparr>) = Done (l, cs') (s\<lparr>drawn := j\<rparr>\<lparr>drawn := m\<rparr>)" "length cs' = length cs"
      "bpar cs' = (bpar cs \<noteq> odd l)" using Cons.IH [of "s\<lparr>drawn := j\<rparr>"] by blast
  have "flip_bits rnd pct (c # cs) s = Done (k + l, c' # cs') (s\<lparr>drawn := m\<rparr>)" using f(1) g(1) by (simp add: bind_def)
  moreover have "bpar (c' # cs') = (bpar (c # cs) \<noteq> odd (k + l))" using f(2) g(3) by auto
  ultimately show ?case using g(2) by (metis length_Cons)
qed

section \<open>Damage changes the checksum\<close>

text \<open>The blocks of a file can be read, are different sectors, and none of them is the indirect block.\<close>

definition spread :: "'z mkfs_scheme \<Rightarrow> dinode \<Rightarrow> nat \<Rightarrow> bool" where
  "spread s d nb \<longleftrightarrow> readable s d nb \<and> inj_on (faddr (sect s) (node d)) {..<nb} \<and>
     (NDIRECT < nb \<longrightarrow> daddrs d ! NDIRECT \<notin> faddr (sect s) (node d) ` {..<nb})"

text \<open>Sectors of the blocks from \<open>b\<close> on may change; the places of the blocks do not.\<close>

definition damaged :: "dinode \<Rightarrow> nat \<Rightarrow> nat \<Rightarrow> 'z mkfs_scheme \<Rightarrow> 'z mkfs_scheme \<Rightarrow> bool" where
  "damaged d b nb s t \<longleftrightarrow> nsect t = nsect s \<and> (\<forall>a. length (sect t a) = length (sect s a)) \<and>
     (\<forall>a. a \<notin> faddr (sect s) (node d) ` {b..<nb} \<longrightarrow> sect t a = sect s a)"

lemma spread_inj:
  assumes "spread s d nb" "faddr (sect s) (node d) a = faddr (sect s) (node d) b" "a < nb" "b < nb"
  shows "a = b"
  using assms inj_onD [of "faddr (sect s) (node d)" "{..<nb}" a b] by (simp add: spread_def)

lemma faddr_same:
  assumes "spread s d nb" "NDIRECT < nb \<Longrightarrow> v (daddrs d ! NDIRECT) = sect s (daddrs d ! NDIRECT)" "b < nb"
  shows "faddr v (node d) b = faddr (sect s) (node d) b"
  using assms by (auto simp: faddr_def)

lemma damaged_faddr:
  assumes "spread s d nb" "damaged d k nb s t" "b < nb"
  shows "faddr (sect t) (node d) b = faddr (sect s) (node d) b"
  by (rule faddr_same [OF assms(1) _ assms(3)]) (use assms(1,2) in \<open>auto simp: spread_def damaged_def image_iff\<close>)

lemma damaged_spread:
  assumes "spread s d nb" "damaged d k nb s t"
  shows "spread t d nb"
proof -
  note f = damaged_faddr [OF assms]
  have "faddr (sect t) (node d) ` {..<nb} = faddr (sect s) (node d) ` {..<nb}" using f by (intro image_cong) auto
  moreover have "inj_on (faddr (sect t) (node d)) {..<nb}" using assms(1) f inj_on_cong [of "{..<nb}" "faddr (sect t) (node d)" "faddr (sect s) (node d)"]
    by (auto simp: spread_def)
  ultimately show ?thesis using assms f by (auto simp: spread_def readable_def damaged_def)
qed

lemma damaged_trans:
  assumes "spread s d nb" "damaged d b nb s t" "damaged d c nb t u" "b \<le> c"
  shows "damaged d b nb s u"
proof -
  have "faddr (sect t) (node d) ` {c..<nb} = faddr (sect s) (node d) ` {c..<nb}"
    using damaged_faddr [OF assms(1,2)] by (intro image_cong) auto
  also have "\<dots> \<subseteq> faddr (sect s) (node d) ` {b..<nb}" using assms(4) by (intro image_mono) auto
  finally have sub: "faddr (sect t) (node d) ` {c..<nb} \<subseteq> faddr (sect s) (node d) ` {b..<nb}" .
  have "sect u a = sect s a" if a: "a \<notin> faddr (sect s) (node d) ` {b..<nb}" for a
  proof -
    have "sect u a = sect t a" using assms(3) contra_subsetD [OF sub a] unfolding damaged_def by blast
    then show ?thesis using assms(2) a by (simp add: damaged_def)
  qed
  then show ?thesis using assms(2,3) by (simp add: damaged_def)
qed

text \<open>Bytes of blocks that were not damaged.\<close>

lemma damaged_bytes:
  assumes "spread s d nb" "damaged d b nb s t" "off + n \<le> nb * BSIZE"
    and "\<And>a. off div BSIZE \<le> a \<Longrightarrow> a * BSIZE < off + n \<Longrightarrow> a < nb \<Longrightarrow> sect t (faddr (sect s) (node d) a) = sect s (faddr (sect s) (node d) a)"
  shows "fbytes (sect t) (node d) off n = fbytes (sect s) (node d) off n"
proof -
  have "sect t (faddr (sect t) (node d) (k div BSIZE)) = sect s (faddr (sect s) (node d) (k div BSIZE))" if "k \<in> {off..<off + n}" for k
  proof -
    have "off \<le> k" "k < off + n" using that by simp_all
    then have k: "k div BSIZE * BSIZE < off + n" "off div BSIZE \<le> k div BSIZE" "k < nb * BSIZE"
      using assms(3) div_le_mono [of off k BSIZE] div_times_less_eq_dividend [of k BSIZE] by linarith+
    have nb: "k div BSIZE < nb" using k(3) by (rule less_mult_imp_div_less)
    show ?thesis unfolding damaged_faddr [OF assms(1,2) nb] by (rule assms(4) [OF k(2,1) nb])
  qed
  then show ?thesis by (simp add: fbytes_def)
qed

lemma damaged_before:
  assumes "spread s d nb" "damaged d b nb s t" "a < b" "a < nb"
  shows "sect t (faddr (sect s) (node d) a) = sect s (faddr (sect s) (node d) a)"
proof -
  have "faddr (sect s) (node d) a \<notin> faddr (sect s) (node d) ` {b..<nb}"
    using spread_inj [OF assms(1), of a] assms(3,4) by force
  then show ?thesis using assms(2) by (simp add: damaged_def)
qed

lemma block_of_eq:
  assumes "readable s d nb" "bn < nb"
  shows "block_of d bn s = Done (faddr (sect s) (node d) bn) s"
  using assms by (auto simp: block_of_def faddr_def readable_def rsect_eq bind_def)

lemma damaged_head:
  assumes "spread s d nb" "damaged d b nb s t" "off + n \<le> nb * BSIZE" "off + n \<le> b * BSIZE"
  shows "fbytes (sect t) (node d) off n = fbytes (sect s) (node d) off n"
proof (rule damaged_bytes [OF assms(1-3)])
  fix a assume a: "a * BSIZE < off + n" "a < nb"
  have "a * BSIZE < b * BSIZE" using a(1) assms(4) by (rule less_le_trans)
  then have "a < b" by simp
  then show "sect t (faddr (sect s) (node d) a) = sect s (faddr (sect s) (node d) a)" by (rule damaged_before [OF assms(1,2) _ a(2)])
qed

text \<open>One round of \<open>icorrupt\<close>.\<close>

lemma damage_block:
  assumes "spread s d nb" "bn < nb" "length ys = m" "m \<le> BSIZE" "x = faddr (sect s) (node d) bn"
    and t: "t = s\<lparr>drawn := j, sect := (sect s)(x := splice 0 ys (sect s x)), nsect := max (nsect s) (Suc (unat x))\<rparr>"
  shows "damaged d bn nb s t" "fbytes (sect t) (node d) (bn * BSIZE) m = ys"
    "Suc bn * BSIZE + n \<le> nb * BSIZE \<Longrightarrow> fbytes (sect t) (node d) (Suc bn * BSIZE) n = fbytes (sect s) (node d) (Suc bn * BSIZE) n"
proof -
  have x: "unat x < nsect s" "length (sect s x) = BSIZE" using assms by (auto simp: spread_def readable_def)
  then show D: "damaged d bn nb s t" using assms by (auto simp: damaged_def)
  have "faddr (sect t) (node d) bn = x" using damaged_faddr [OF assms(1) D assms(2)] assms(5) by simp
  then show "fbytes (sect t) (node d) (bn * BSIZE) m = ys"
    using fbytes_block [of "bn * BSIZE" m "sect t" "node d"] assms(3,4) x(2) by (simp add: t BSIZE_def splice_def slice_def)
  assume "Suc bn * BSIZE + n \<le> nb * BSIZE"
  then show "fbytes (sect t) (node d) (Suc bn * BSIZE) n = fbytes (sect s) (node d) (Suc bn * BSIZE) n"
  proof (rule damaged_bytes [OF assms(1) D])
    fix a assume a: "Suc bn * BSIZE div BSIZE \<le> a" "a < nb"
    have "a \<noteq> bn" using a(1) by (simp add: BSIZE_def)
    then have "faddr (sect s) (node d) a \<noteq> x" using spread_inj [OF assms(1) _ a(2) assms(2)] assms(5) by auto
    then show "sect t (faddr (sect s) (node d) a) = sect s (faddr (sect s) (node d) a)" by (simp add: t)
  qed
qed

lemma icorrupt_step:
  assumes "n \<noteq> 0" "bn < MAXFILE" "off = bn * BSIZE" "n1 = min n BSIZE"
  shows "icorrupt_loop rnd pct d off n =
    bind (block_of d bn) (\<lambda>x. bind (rsect x) (\<lambda>buf. bind (flip_bits rnd pct (take n1 buf)) (\<lambda>(k, ys).
    seqk (wsect x (splice 0 ys buf)) (bind (icorrupt_loop rnd pct d (off + n1) (n - n1)) (\<lambda>l. ret (k + l))))))"
proof -
  have "off div 512 = bn" "(off div 512 + 1) * 512 - off = BSIZE" using assms(3) by (simp_all add: BSIZE_def)
  then show ?thesis
    unfolding assms(4) by (subst icorrupt_loop.simps) (simp only: assms(1,2) if_False Let_def not_True_eq_False)
qed

text \<open>A round changes the parity of the bytes of its block by the number of flipped bits.\<close>

lemma icorrupt_round:
  assumes "pct \<noteq> 0" "spread s d nb" "bn < nb" "n \<noteq> 0" "n1 = min n BSIZE" "off = bn * BSIZE"
  obtains k ys s1 where "icorrupt_loop rnd pct d off n s = bind (icorrupt_loop rnd pct d (off + n1) (n - n1)) (\<lambda>l. ret (k + l)) s1"
    "damaged d bn nb s s1" "bpar (fbytes (sect s1) (node d) off n1) = (bpar (fbytes (sect s) (node d) off n1) \<noteq> odd k)"
    "off + n \<le> nb * BSIZE \<Longrightarrow> fbytes (sect s1) (node d) (off + n1) (n - n1) = fbytes (sect s) (node d) (off + n1) (n - n1)"
proof -
  define x where "x = faddr (sect s) (node d) bn"
  have n1: "n1 \<le> BSIZE" "n1 \<le> n" using assms(5) by simp_all
  have x: "unat x < nsect s" "length (sect s x) = BSIZE" "bn < MAXFILE" using assms(2,3) by (auto simp: x_def spread_def readable_def)
  obtain k ys j where f: "flip_bits rnd pct (take n1 (sect s x)) s = Done (k, ys) (s\<lparr>drawn := j\<rparr>)" "length ys = n1"
      "bpar ys = (bpar (take n1 (sect s x)) \<noteq> odd k)"
    using flip_bits_par [OF assms(1), of rnd "take n1 (sect s x)" s] x(2) n1(1) by auto
  define s1 where "s1 = s\<lparr>drawn := j, sect := (sect s)(x := splice 0 ys (sect s x)), nsect := max (nsect s) (Suc (unat x))\<rparr>"
  note s1 = damage_block [OF assms(2,3) f(2) n1(1) x_def s1_def]
  have old: "take n1 (sect s x) = fbytes (sect s) (node d) off n1"
    using fbytes_block [of off n1 "sect s" "node d"] x(2) n1(1) by (simp add: assms(6) x_def slice_def BSIZE_def)
  have bk: "block_of d bn s = Done x s" using block_of_eq [of s d nb bn] assms(2,3) by (simp add: x_def spread_def)
  show ?thesis
  proof (rule that)
    show "icorrupt_loop rnd pct d off n s = bind (icorrupt_loop rnd pct d (off + n1) (n - n1)) (\<lambda>l. ret (k + l)) s1"
      unfolding icorrupt_step [OF assms(4) x(3) assms(6,5)] using bk x f(1) by (simp add: bind_def seqk_def rsect_eq wsect_def s1_def)
    show "damaged d bn nb s s1" by (rule s1(1))
    show "bpar (fbytes (sect s1) (node d) off n1) = (bpar (fbytes (sect s) (node d) off n1) \<noteq> odd k)" using s1(2) f(3) old assms(6) by simp
    assume "off + n \<le> nb * BSIZE"
    then show "fbytes (sect s1) (node d) (off + n1) (n - n1) = fbytes (sect s) (node d) (off + n1) (n - n1)"
      using s1(3) [of "n - n1"] by (cases "n \<le> BSIZE") (simp_all add: assms(5,6) fbytes_def add.commute)
  qed
qed

lemma icorrupt_loop_par:
  assumes "pct \<noteq> 0" "spread s d nb" "off + n \<le> nb * BSIZE" "n = 0 \<or> BSIZE dvd off"
  shows "\<exists>k t. icorrupt_loop rnd pct d off n s = Done k t \<and> damaged d (if n = 0 then nb else off div BSIZE) nb s t \<and>
    bpar (fbytes (sect t) (node d) off n) = (bpar (fbytes (sect s) (node d) off n) \<noteq> odd k)"
  using assms
proof (induction n arbitrary: off s rule: less_induct)
  case (less n)
  note sp = less.prems(2)
  show ?case
  proof (cases "n = 0")
    case True
    then show ?thesis by (simp add: icorrupt_loop.simps damaged_def fbytes_def)
  next
    case False
    define bn where "bn = off div BSIZE"
    define n1 where "n1 = min n BSIZE"
    have B: "0 < BSIZE" "BSIZE = 512" by (simp_all add: BSIZE_def)
    have off: "off = bn * BSIZE" using less.prems(4) False by (simp add: bn_def)
    have bn: "bn < nb" using less.prems(3) False unfolding off by (simp add: B(2))
    have n1: "n1 \<le> n" "n - n1 < n" using False B by (auto simp: n1_def)
    obtain k ys s1 where s1: "icorrupt_loop rnd pct d off n s = bind (icorrupt_loop rnd pct d (off + n1) (n - n1)) (\<lambda>l. ret (k + l)) s1"
        "damaged d bn nb s s1" "bpar (fbytes (sect s1) (node d) off n1) = (bpar (fbytes (sect s) (node d) off n1) \<noteq> odd k)"
        "fbytes (sect s1) (node d) (off + n1) (n - n1) = fbytes (sect s) (node d) (off + n1) (n - n1)"
      by (rule icorrupt_round [OF less.prems(1) sp bn False n1_def off]) (use less.prems(3) in simp)
    have sp1: "spread s1 d nb" by (rule damaged_spread [OF sp s1(2)])
    let ?b = "if n - n1 = 0 then nb else (off + n1) div BSIZE"
    have le: "off + n1 + (n - n1) \<le> nb * BSIZE" "n - n1 = 0 \<or> BSIZE dvd off + n1" "off + n1 \<le> nb * BSIZE" "off + n1 \<le> ?b * BSIZE"
      using less.prems(3) n1(1) by (auto simp: n1_def off min_def B(2))
    obtain l t where t: "icorrupt_loop rnd pct d (off + n1) (n - n1) s1 = Done l t" "damaged d ?b nb s1 t"
        "bpar (fbytes (sect t) (node d) (off + n1) (n - n1)) = (bpar (fbytes (sect s1) (node d) (off + n1) (n - n1)) \<noteq> odd l)"
      using less.IH [OF n1(2) less.prems(1) sp1 le(1,2)] by blast
    have split: "fbytes v (node d) off n = fbytes v (node d) off n1 @ fbytes v (node d) (off + n1) (n - n1)" for v
      using fbytes_append [of v "node d" off n1 "n - n1"] n1(1) by simp
    have "damaged d bn nb s t" using damaged_trans [OF sp s1(2) t(2)] bn by (simp add: off B(2))
    moreover have "bpar (fbytes (sect t) (node d) off n) = (bpar (fbytes (sect s) (node d) off n) \<noteq> odd (k + l))"
      using t(3) s1(3,4) damaged_head [OF sp1 t(2) le(3,4)] by (simp add: split) blast
    ultimately show ?thesis using s1(1) t(1) False by (simp add: bind_def bn_def)
  qed
qed

lemma le16_de16: "length bs = 2 \<Longrightarrow> le16 (de16 bs) = bs"
proof -
  assume "length bs = 2"
  then obtain a b where bs: "bs = [a, b]" by (auto simp: length_Suc_conv numeral_eq_Suc)
  have "\<not> bit x (8 + n)" for x :: byte and n using byte_bit_bound [of x] by fastforce
  then show ?thesis unfolding bs le16_def de16_def by (auto intro!: bit_word_eqI simp: bit_simps)
qed

lemma slice_split: "slice k (m + n) xs = slice k m xs @ slice (k + m) n xs"
  by (simp add: slice_def take_add add.commute)

lemma words_slice: "k + 4 * n \<le> length bs \<Longrightarrow> concat (map (\<lambda>i. le32 (de32 (slice (k + 4 * i) 4 bs))) [0..<n]) = slice k (4 * n) bs"
proof (induction n)
  case 0
  show ?case by (simp add: slice_def)
next
  case (Suc n)
  then show ?case using slice_split [of k "4 * n" 4 bs] by (simp add: le32_de32 add.commute)
qed

lemma en_de_dinode:
  assumes "length bs = 64"
  shows "en_dinode (de_dinode bs) = bs"
proof -
  have a: "concat (map le32 (daddrs (de_dinode bs))) = slice 12 44 bs"
    using words_slice [of 12 11 bs] assms by (simp add: de_dinode_def NDIRECT_def comp_def)
  have "en_dinode (de_dinode bs) = slice 0 2 bs @ slice 2 2 bs @ slice 4 2 bs @ slice 6 2 bs @ slice 8 4 bs @ slice 12 44 bs @
      slice 56 2 bs @ slice 58 2 bs @ slice 60 4 bs"
    unfolding en_dinode_def a using assms by (simp add: de_dinode_def le16_de16 le32_de32)
  also have "\<dots> = slice 0 64 bs" 
    using slice_split [of 0 2 62 bs] slice_split [of 2 2 60 bs] slice_split [of 4 2 58 bs] slice_split [of 6 2 56 bs] slice_split [of 8 4 52 bs]
      slice_split [of 12 44 8 bs] slice_split [of 56 2 6 bs] slice_split [of 58 2 4 bs] by (simp del: add_2_eq_Suc add_2_eq_Suc')
  finally show ?thesis using assms by (simp add: slice_def)
qed

lemma rinode_eq: "unat (IBLOCK n) < nsect s \<Longrightarrow> rinode n s = Done (dinode_at (sect s) n) s"
  by (simp add: rinode_def i2b_eq rsect_eq bind_def dinode_at_def)

lemma winode_same:
  assumes "unat (IBLOCK n) < nsect s" "length (sect s (IBLOCK n)) = BSIZE"
  shows "winode n (dinode_at (sect s) n) s = Done () s"
proof -
  have "splice (ioff n) (en_dinode (dinode_at (sect s) n)) (sect s (IBLOCK n)) = sect s (IBLOCK n)"
    using assms(2) ioff_bound [of n] by (simp add: dinode_at_def en_de_dinode)
  moreover have "max (nsect s) (Suc (unat (IBLOCK n))) = nsect s" using assms(1) by simp
  ultimately show ?thesis using assms(1) by (simp add: winode_def i2b_eq rsect_eq bind_def wsect_def)
qed

lemma par_checksum_of: "itype i \<noteq> T_DEV \<Longrightarrow> par (checksum_of v i) = bpar (fcontent v i)"
  by (simp add: checksum_of_def par_cksum)

lemma cfs_main_par:
  assumes "pct \<noteq> 0" "unat (IBLOCK n) < nsect s" "length (sect s (IBLOCK n)) = BSIZE" "d = dinode_at (sect s) n" "dtype d \<noteq> T_DEV"
    and "spread s d (blocks_of d)" "IBLOCK n \<notin> faddr (sect s) (node d) ` {..<blocks_of d}"
  obtains k t where "cfs_main rnd n pct s = Done k t" "dinode_at (sect t) n = d" "damaged d 0 (blocks_of d) s t"
    "par (checksum_of (sect t) (node d)) = (par (checksum_of (sect s) (node d)) \<noteq> odd k)"
proof -
  have small: "unat (dsize d) \<le> 70656" using readable_bytes [of s d, OF _ blocks_of_bytes] assms(6) by (simp add: spread_def)
  obtain k t where t: "icorrupt_loop rnd pct d 0 (unat (dsize d)) s = Done k t"
      "damaged d (if unat (dsize d) = 0 then blocks_of d else 0 div BSIZE) (blocks_of d) s t"
      "bpar (fbytes (sect t) (node d) 0 (unat (dsize d))) = (bpar (fbytes (sect s) (node d) 0 (unat (dsize d))) \<noteq> odd k)"
    using icorrupt_loop_par [OF assms(1,6), of 0 "unat (dsize d)" rnd] blocks_of_bytes [of d] by auto
  have D: "damaged d 0 (blocks_of d) s t" using t(2) by (auto simp: damaged_def split: if_splits)
  then have ib: "sect t (IBLOCK n) = sect s (IBLOCK n)" "nsect t = nsect s" using assms(7) by (auto simp: damaged_def atLeast0LessThan)
  then have dt: "dinode_at (sect t) n = d" by (simp add: dinode_at_def assms(4))
  have "winode n d t = Done () t" using winode_same [of n t] assms(2,3) ib dt by simp
  moreover have "sint (dsize d) = int (unat (dsize d))" using small by (intro sint_small) simp
  ultimately have "cfs_main rnd n pct s = Done k t"
    using t(1) rinode_eq [OF assms(2)] assms(4) by (simp add: cfs_main_def icorrupt_def bind_def seqk_def)
  then show ?thesis using that D dt t(3) assms(5) by (simp add: par_checksum_of fcontent_def)
qed

text \<open>C40 (damage is noticed). \<open>cfs\<close> changes nothing but the data blocks of the file, leaves its inode as it is, and reports how many bits
  it has flipped; if that number is odd and the checksum of the file was right before, it is wrong afterwards.\<close>

theorem cfs_detected:
  assumes "pct \<noteq> 0" "unat (IBLOCK n) < nsect s" "length (sect s (IBLOCK n)) = BSIZE" "d = dinode_at (sect s) n" "dtype d \<noteq> T_DEV"
    and "spread s d (blocks_of d)" "IBLOCK n \<notin> faddr (sect s) (node d) ` {..<blocks_of d}" "matches (sect s) (node d)"
  shows "\<exists>k t. cfs_main rnd n pct s = Done k t \<and> dinode_at (sect t) n = d \<and> damaged d 0 (blocks_of d) s t \<and>
    \<not> (odd k \<and> matches (sect t) (node d))"
proof -
  obtain k t where t: "cfs_main rnd n pct s = Done k t" "dinode_at (sect t) n = d" "damaged d 0 (blocks_of d) s t"
    "par (checksum_of (sect t) (node d)) = (par (checksum_of (sect s) (node d)) \<noteq> odd k)"
    by (rule cfs_main_par [OF assms(1-7)])
  have "\<not> (odd k \<and> matches (sect t) (node d))" using t(4) assms(8) by (auto simp: matches_def)
  then show ?thesis using t(1-3) by blast
qed

text \<open>An image with the file 1, four bytes long, in sector 40; the random numbers make \<open>cfs\<close> flip one bit.\<close>

definition tiny_dinode :: dinode where
  "tiny_dinode = \<lparr>dtype = T_FILE, dmajor = 0, dminor = 0, dnlink = 1, dsize = 4, daddrs = 40 # replicate 10 0, dchild1 = 0, dchild2 = 0,
     dchecksum = 0x64636261\<rparr>"

definition tiny_image :: cfs where
  "tiny_image = \<lparr>sect = (\<lambda>_. zeroes)(2 := splice 64 (en_dinode tiny_dinode) zeroes, 40 := splice 0 [0x61, 0x62, 0x63, 0x64] zeroes),
     nsect = 2048, freeblock = 41, usedblocks = 41, freeinode = 2, drawn = 0\<rparr>"

definition tiny_rand :: "nat \<Rightarrow> nat" where
  "tiny_rand k = (if k = 5 then 0 else 1)"

lemma tiny_dinode_at: "dinode_at (sect tiny_image) 1 = tiny_dinode" "IBLOCK 1 = 2" "length (sect tiny_image 2) = BSIZE" "length (sect tiny_image 40) = BSIZE"
proof -
  show i: "IBLOCK 1 = 2" by (simp add: IBLOCK_def IPB_def BSIZE_def)
  have l: "length (daddrs tiny_dinode) = NDIRECT + 1" by (simp add: tiny_dinode_def NDIRECT_def)
  have o: "ioff 1 = 64" by (simp add: ioff_def IPB_def BSIZE_def)
  show "dinode_at (sect tiny_image) 1 = tiny_dinode"
    using de_en_dinode [OF l] length_en_dinode [OF l] by (simp add: dinode_at_def i o tiny_image_def zeroes_def)
  show "length (sect tiny_image 2) = BSIZE" "length (sect tiny_image 40) = BSIZE"
    using length_en_dinode [OF l] by (simp_all add: tiny_image_def zeroes_def BSIZE_def)
qed

lemma tiny_blocks: "blocks_of tiny_dinode = 1" "faddr v (node tiny_dinode) 0 = 40"
  by (simp_all add: blocks_of_def tiny_dinode_def BSIZE_def faddr_def NDIRECT_def)

lemma tiny_matches: "matches (sect tiny_image) (node tiny_dinode)"
proof -
  have "fcontent (sect tiny_image) (node tiny_dinode) = [0x61, 0x62, 0x63, 0x64]"
    by (simp add: fcontent_def fbytes_def tiny_dinode_def faddr_def NDIRECT_def upt_rec BSIZE_def tiny_image_def splice_def)
  then show ?thesis
    by (simp add: matches_def checksum_of_def tiny_dinode_def T_FILE_def T_DEV_def cksum.simps [of "_ # _"] cksum.simps [of "[]"] de32_def)
qed

lemma tiny_count: "(case cfs_main tiny_rand 1 2 tiny_image of Done k t \<Rightarrow> k | _ \<Rightarrow> 0) = 1"
  by code_simp

theorem cfs_detected_witness:
  "\<exists>t. cfs_main tiny_rand 1 2 tiny_image = Done 1 t \<and> dinode_at (sect t) 1 = tiny_dinode \<and> matches (sect tiny_image) (node tiny_dinode) \<and>
     \<not> matches (sect t) (node tiny_dinode)"
proof -
  have "spread tiny_image tiny_dinode (blocks_of tiny_dinode)"
    using tiny_dinode_at(4) by (simp add: spread_def readable_def tiny_blocks MAXFILE_def NDIRECT_def tiny_image_def lessThan_Suc)
  moreover have "IBLOCK 1 \<notin> faddr (sect tiny_image) (node tiny_dinode) ` {..<blocks_of tiny_dinode}"
    by (simp add: tiny_dinode_at(2) tiny_blocks lessThan_Suc)
  moreover have "unat (IBLOCK 1) < nsect tiny_image" "dtype tiny_dinode \<noteq> T_DEV"
    by (simp_all add: tiny_dinode_at(2) tiny_image_def tiny_dinode_def T_FILE_def T_DEV_def)
  ultimately obtain k t where t: "cfs_main tiny_rand 1 2 tiny_image = Done k t" "dinode_at (sect t) 1 = tiny_dinode"
      "\<not> (odd k \<and> matches (sect t) (node tiny_dinode))"
    using cfs_detected [of 2 1 tiny_image tiny_dinode tiny_rand] tiny_dinode_at tiny_matches by auto
  then show ?thesis using tiny_count tiny_matches by auto
qed

end
