(* ===== verification/Image.thy ===== *)
theory Image
  imports Mkfs
begin

text \<open>
  What \<open>mkfs\<close> builds: the layout of a file on the image, what \<open>iappend\<close> adds to it, and the image as a whole.  All blocks of all
  files are different, lie behind the bitmap, and are used up one after the other.
\<close>

section \<open>The layout of a file\<close>

definition mk_base :: "'z mkfs_scheme \<Rightarrow> bool" where
  "mk_base s \<longleftrightarrow> nsect s = mk_size \<and> (\<forall>a. length (sect s a) = 512) \<and> mk_used \<le> unat (freeblock s) \<and> unat (freeblock s) \<le> mk_size \<and>
     (\<forall>a. unat (freeblock s) \<le> unat a \<and> unat a < mk_size \<longrightarrow> sect s a = zeroes)"

text \<open>The sectors that have been given to files.\<close>

definition mine :: "'z mkfs_scheme \<Rightarrow> u32 set" where
  "mine s = {a. mk_used \<le> unat a \<and> unat a < unat (freeblock s)}"

text \<open>The blocks \<open>bl\<close> of a file, without and with an indirect block.\<close>

definition direct :: "'z mkfs_scheme \<Rightarrow> dinode \<Rightarrow> u32 list \<Rightarrow> bool" where
  "direct s d bl \<longleftrightarrow> length (daddrs d) = NDIRECT + 1 \<and> distinct bl \<and> set bl \<subseteq> mine s \<and>
     (\<forall>b < NDIRECT. daddrs d ! b = (if b < length bl then bl ! b else 0))"

definition indirect :: "'z mkfs_scheme \<Rightarrow> dinode \<Rightarrow> u32 list \<Rightarrow> bool" where
  "indirect s d bl \<longleftrightarrow> daddrs d ! NDIRECT \<in> mine s - set bl \<and>
     (\<forall>j < NINDIRECT. ptr_at j (sect s (daddrs d ! NDIRECT)) = (if j + NDIRECT < length bl then bl ! (j + NDIRECT) else 0))"

definition layout :: "'z mkfs_scheme \<Rightarrow> dinode \<Rightarrow> u32 list \<Rightarrow> bool" where
  "layout s d bl \<longleftrightarrow> length bl \<le> MAXFILE \<and> direct s d bl \<and> (if NDIRECT < length bl then indirect s d bl else daddrs d ! NDIRECT = 0)"

definition own :: "dinode \<Rightarrow> u32 list \<Rightarrow> u32 list" where
  "own d bl = (if NDIRECT < length bl then [daddrs d ! NDIRECT] else []) @ bl"

lemma faddr_layout:
  assumes "layout s d bl" "b < length bl"
  shows "faddr (sect s) (node d) b = bl ! b"
proof (cases "b < NDIRECT")
  case True
  then show ?thesis using assms by (simp add: faddr_def layout_def direct_def)
next
  case False
  then have "b - NDIRECT < NINDIRECT" "NDIRECT < length bl" using assms by (auto simp: layout_def MAXFILE_def)
  then show ?thesis using assms False by (simp add: faddr_def layout_def indirect_def)
qed

lemma ptr_put_ptr:
  assumes "length bs = 512" "j < NINDIRECT" "k < NINDIRECT"
  shows "ptr_at k (put_ptr j a bs) = (if k = j then a else ptr_at k bs)"
proof (cases "k = j")
  case True
  then show ?thesis using assms by (simp add: ptr_at_def put_ptr_def NINDIRECT_def BSIZE_def)
next
  case False
  then have "4 * k + 4 \<le> 4 * j \<or> 4 * j + length (le32 a) \<le> 4 * k" by auto
  then show ?thesis using assms False slice_splice_other [of "4 * k" 4 "4 * j" "le32 a" bs]
    by (simp add: ptr_at_def put_ptr_def NINDIRECT_def BSIZE_def)
qed

lemma ptr_zeroes: "j < NINDIRECT \<Longrightarrow> ptr_at j zeroes = 0"
  by (simp add: ptr_at_def zeroes_def NINDIRECT_def BSIZE_def de32_zeros)

lemma mk_bounds: "mk_used = 29" "mk_size = 2048"
  by (simp_all add: mk_used_def mk_size_def mk_ninodes_def IPB_def BSIZE_def)

text \<open>One more block is taken from the free ones.\<close>

definition took :: "nat \<Rightarrow> 'z mkfs_scheme \<Rightarrow> 'z mkfs_scheme" where
  "took n s = s\<lparr>freeblock := freeblock s + of_nat n, usedblocks := usedblocks s + of_nat n\<rparr>"

lemma take_block_eq: "take_block s = Done (freeblock s) (took 1 s)"
  by (simp add: take_block_def took_def bind_def seqk_def)

lemma took_simps [simp]: "sect (took n s) = sect s" "nsect (took n s) = nsect s" "freeinode (took n s) = freeinode s"
  by (simp_all add: took_def)

lemma took_took: "took n (took m s) = took (m + n) s"
  by (simp add: took_def add.assoc)

lemma freeblock_took:
  assumes "unat (freeblock s) + n \<le> mk_size"
  shows "unat (freeblock (took n s)) = unat (freeblock s) + n"
  using assms by (simp add: took_def mk_bounds unat_word_ariths unsigned_of_nat take_bit_nat_eq_self)

lemma mk_base_took: "mk_base s \<Longrightarrow> unat (freeblock s) + n \<le> mk_size \<Longrightarrow> mk_base (took n s)"
  using freeblock_took [of s n] by (simp add: mk_base_def)

lemma mine_took: "unat (freeblock s) + n \<le> mk_size \<Longrightarrow> mine s \<subseteq> mine (took n s)"
  using freeblock_took [of s n] by (auto simp: mine_def)

lemma fresh_mine:
  assumes "mk_base s" "unat (freeblock s) + n \<le> mk_size" "0 < n"
  shows "freeblock s \<in> mine (took n s)" "freeblock s \<notin> mine s" "freeblock s \<noteq> 0"
  using assms freeblock_took [of s n] by (auto simp: mine_def mk_base_def mk_bounds)

lemma layout_faddr_fresh: "layout s d bl \<Longrightarrow> a \<in> set (own d bl) \<Longrightarrow> a \<in> mine s"
  by (auto simp: own_def layout_def direct_def indirect_def)

lemma length_put_ptr: "length bs = 512 \<Longrightarrow> j < NINDIRECT \<Longrightarrow> length (put_ptr j a bs) = 512"
  by (simp add: put_ptr_def NINDIRECT_def BSIZE_def)

text \<open>
  A file gets one more block \<open>x\<close>, empty; \<open>n\<close> sectors are taken for it.  Nothing but the indirect block changes.
\<close>

definition extends :: "'z mkfs_scheme \<Rightarrow> dinode \<Rightarrow> u32 list \<Rightarrow> u32 \<Rightarrow> dinode \<Rightarrow> nat \<Rightarrow> 'z mkfs_scheme \<Rightarrow> bool" where
  "extends s d bl x d' n t \<longleftrightarrow> layout t d' (bl @ [x]) \<and> mk_base t \<and> sect t x = zeroes \<and> d' = d\<lparr>daddrs := daddrs d'\<rparr> \<and>
     t = (took n s)\<lparr>sect := sect t\<rparr> \<and> (\<forall>a. a \<notin> set (own d' (bl @ [x])) \<longrightarrow> sect t a = sect s a) \<and> (\<forall>b \<in> set bl. sect t b = sect s b) \<and>
     set (own d' (bl @ [x])) \<subseteq> set (own d bl) \<union> (mine t - mine s) \<and> set (own d bl) \<subseteq> set (own d' (bl @ [x]))"

lemma mine_sect [simp]: "mine (s\<lparr>sect := f\<rparr>) = mine s" "direct (s\<lparr>sect := f\<rparr>) d bl = direct s d bl"
  by (simp_all add: mine_def direct_def)

lemma direct_snoc:
  assumes "direct s d bl" "mk_base s" "unat (freeblock s) + n \<le> mk_size" "x \<in> mine (took n s) - mine s"
    and "d' = (if length bl < NDIRECT then d\<lparr>daddrs := (daddrs d)[length bl := x]\<rparr> else d)"
  shows "direct (took n s) d' (bl @ [x])"
  using assms mine_took [OF assms(3)] by (auto simp: direct_def nth_append nth_list_update NDIRECT_def)

lemma block_for_direct:
  assumes "mk_base s" "layout s d bl" "length bl < NDIRECT" "unat (freeblock s) + 1 \<le> mk_size"
  shows "\<exists>x d' t. block_for d (length bl) s = Done (x, d') t \<and> extends s d bl x d' 1 t"
proof -
  let ?x = "freeblock s" and ?t = "took 1 s"
  let ?d = "d\<lparr>daddrs := (daddrs d)[length bl := ?x]\<rparr>"
  have l: "length (daddrs d) = NDIRECT + 1" "daddrs d ! length bl = 0" "daddrs d ! NDIRECT = 0" "direct s d bl" using assms by (simp_all add: layout_def direct_def)
  note x = fresh_mine [OF assms(1,4)]
  have e: "block_for d (length bl) s = Done (?x, ?d) ?t"
    using assms(3) l by (simp add: block_for_def addr_slot_def bind_def take_block_eq)
  have "direct ?t ?d (bl @ [?x])" by (rule direct_snoc [OF l(4) assms(1,4)]) (use x assms(3) in auto)
  then have "layout ?t ?d (bl @ [?x])" using assms(3) l by (simp add: layout_def MAXFILE_def)
  moreover have "sect ?t ?x = zeroes" using assms(1,4) by (simp add: mk_base_def)
  moreover have "set (own ?d (bl @ [?x])) \<subseteq> set (own d bl) \<union> (mine ?t - mine s)" "set (own d bl) \<subseteq> set (own ?d (bl @ [?x]))" using x assms(3) by (auto simp: own_def)
  ultimately have "extends s d bl ?x ?d 1 ?t" using mk_base_took [OF assms(1,4)] by (simp add: extends_def)
  then show ?thesis using e by blast
qed

text \<open>The part of \<open>block_for\<close> behind the test for the indirect block.\<close>

definition block_ind :: "dinode \<Rightarrow> nat \<Rightarrow> (u32 \<times> dinode, 'z mkfs_scheme) kop" where
  "block_ind d j =
     bind (rsect (daddrs d ! NDIRECT)) (\<lambda>ind.
     if ptr_at j ind = 0 then
       bind take_block (\<lambda>b. seqk (wsect (daddrs d ! NDIRECT) (put_ptr j b ind)) (ret (b, d)))
     else ret (ptr_at j ind, d))"

lemma block_for_ind: "\<not> fbn < NDIRECT \<Longrightarrow> block_for d fbn = bind (addr_slot d NDIRECT) (\<lambda>d. block_ind d (fbn - NDIRECT))"
  by (simp add: block_for_def block_ind_def)

lemma block_ind_extends:
  assumes "mk_base s" "direct s d bl" "indirect s d bl" "NDIRECT \<le> length bl" "length bl < MAXFILE" "unat (freeblock s) + 1 \<le> mk_size"
  shows "\<exists>x t. block_ind d (length bl - NDIRECT) s = Done (x, d) t \<and> layout t d (bl @ [x]) \<and> mk_base t \<and> sect t x = zeroes \<and>
    t = (took 1 s)\<lparr>sect := sect t\<rparr> \<and> (\<forall>a. a \<noteq> daddrs d ! NDIRECT \<longrightarrow> sect t a = sect s a) \<and> x \<in> mine t - mine s"
proof -
  let ?j = "length bl - NDIRECT" and ?i = "daddrs d ! NDIRECT" and ?x = "freeblock s"
  let ?t = "(took 1 s)\<lparr>sect := (sect s)(?i := put_ptr ?j ?x (sect s ?i))\<rparr>"
  have j: "?j < NINDIRECT" using assms(4,5) by (simp add: MAXFILE_def)
  have i: "?i \<in> mine s" "?i \<notin> set bl" "ptr_at ?j (sect s ?i) = 0" using assms(3) j assms(4) by (auto simp: indirect_def)
  have n: "unat ?i < nsect s" "length (sect s ?i) = 512" "max (nsect s) (Suc (unat ?i)) = nsect s"
    using i(1) assms(1) by (auto simp: mine_def mk_base_def)
  note x = fresh_mine [OF assms(1,6)]
  have e: "block_ind d ?j s = Done (?x, d) ?t"
    using i(3) n by (simp add: block_ind_def bind_def seqk_def rsect_eq take_block_eq wsect_def)
  have d: "direct ?t d (bl @ [?x])"
    using direct_snoc [OF assms(2,1,6), of ?x d] x assms(4) by simp
  have "indirect ?t d (bl @ [?x])"
    unfolding indirect_def mine_sect
  proof (intro conjI allI impI)
    show "?i \<in> mine (took 1 s) - set (bl @ [?x])" using i mine_took [OF assms(6)] x by auto
    fix k assume k: "k < NINDIRECT"
    show "ptr_at k (sect ?t ?i) = (if k + NDIRECT < length (bl @ [?x]) then (bl @ [?x]) ! (k + NDIRECT) else 0)"
      using ptr_put_ptr [OF n(2) j k, of ?x] assms(3,4) k by (auto simp: indirect_def nth_append)
  qed
  then have "layout ?t d (bl @ [?x])" using d assms(4,5) by (simp add: layout_def)
  moreover have "mk_base ?t"
    using mk_base_took [OF assms(1,6)] i(1) n(2) freeblock_took [OF assms(6)] length_put_ptr [OF n(2) j] by (auto simp: mk_base_def mine_def took_def)
  moreover have "sect ?t ?x = zeroes" using assms(1,6) i(1) x by (auto simp: mk_base_def)
  ultimately show ?thesis using e x by (intro exI [of _ ?x] exI [of _ ?t]) simp
qed

definition new_cost :: "nat \<Rightarrow> nat" where
  "new_cost nb = (if nb = NDIRECT then 2 else 1)"

lemma block_for_first_indirect:
  assumes "mk_base s" "layout s d bl" "length bl = NDIRECT" "unat (freeblock s) + 2 \<le> mk_size"
  shows "\<exists>x d' t. block_for d (length bl) s = Done (x, d') t \<and> extends s d bl x d' 2 t"
proof -
  let ?i = "freeblock s" and ?s = "took 1 s"
  let ?d = "d\<lparr>daddrs := (daddrs d)[NDIRECT := ?i]\<rparr>"
  have l: "length (daddrs d) = NDIRECT + 1" "daddrs d ! NDIRECT = 0" "direct s d bl" using assms by (simp_all add: layout_def direct_def)
  have one: "unat (freeblock s) + 1 \<le> mk_size" "unat (freeblock ?s) + 1 \<le> mk_size" using assms(4) freeblock_took [of s 1] by simp_all
  note i = fresh_mine [OF assms(1) one(1)]
  have b: "mk_base ?s" by (rule mk_base_took [OF assms(1) one(1)])
  have z: "sect ?s ?i = zeroes" using assms(1,4) by (simp add: mk_base_def)
  have mono: "mine s \<subseteq> mine ?s" by (rule mine_took [OF one(1)])
  have dir: "direct ?s ?d bl" using l mono by (auto simp: direct_def nth_list_update)
  have "?i \<notin> set bl" using l(3) i(2) by (auto simp: direct_def)
  then have ind: "indirect ?s ?d bl" using i z l(1) assms(3) by (simp add: indirect_def ptr_zeroes)
  obtain x t where t: "block_ind ?d (length bl - NDIRECT) ?s = Done (x, ?d) t" "layout t ?d (bl @ [x])" "mk_base t" "sect t x = zeroes"
      "t = (took 1 ?s)\<lparr>sect := sect t\<rparr>" "\<And>a. a \<noteq> daddrs ?d ! NDIRECT \<Longrightarrow> sect t a = sect ?s a" "x \<in> mine t - mine ?s"
    using block_ind_extends [OF b dir ind _ _ one(2)] assms(3) by (auto simp: MAXFILE_def NINDIRECT_def BSIZE_def)
  have di: "daddrs ?d ! NDIRECT = ?i" using l(1) by simp
  have tt: "t = (took 2 s)\<lparr>sect := sect t\<rparr>" using t(5) by (simp add: took_took numeral_2_eq_2)
  then have mt: "mine t = mine (took 2 s)" by (metis mine_sect(1))
  have "block_for d (length bl) s = Done (x, ?d) t"
    using assms(3) l(2) t(1) by (simp add: block_for_ind addr_slot_def bind_def take_block_eq)
  moreover have "extends s d bl x ?d 2 t"
    unfolding extends_def
  proof (intro conjI allI ballI impI)
    show "layout t ?d (bl @ [x])" "mk_base t" "sect t x = zeroes" "t = (took 2 s)\<lparr>sect := sect t\<rparr>" "?d = d\<lparr>daddrs := daddrs ?d\<rparr>" using t tt by simp_all
    show "set (own ?d (bl @ [x])) \<subseteq> set (own d bl) \<union> (mine t - mine s)"
      using t(7) mono i fresh_mine(1) [OF assms(1,4)] di by (auto simp: own_def mt)
    show "set (own d bl) \<subseteq> set (own ?d (bl @ [x]))" using assms(3) by (auto simp: own_def)
    show "sect t a = sect s a" if "a \<notin> set (own ?d (bl @ [x]))" for a using that t(6) [of a] di assms(3) by (auto simp: own_def)
    show "sect t b = sect s b" if "b \<in> set bl" for b using that t(6) [of b] di \<open>?i \<notin> set bl\<close> by auto
  qed
  ultimately show ?thesis by blast
qed

lemma block_for_more_indirect:
  assumes "mk_base s" "layout s d bl" "NDIRECT < length bl" "length bl < MAXFILE" "unat (freeblock s) + 1 \<le> mk_size"
  shows "\<exists>x d' t. block_for d (length bl) s = Done (x, d') t \<and> extends s d bl x d' 1 t"
proof -
  have l: "direct s d bl" "indirect s d bl" using assms(2,3) by (simp_all add: layout_def)
  have i: "daddrs d ! NDIRECT \<noteq> 0" "daddrs d ! NDIRECT \<notin> set bl" using l(2) mk_bounds by (auto simp: indirect_def mine_def)
  obtain x t where t: "block_ind d (length bl - NDIRECT) s = Done (x, d) t" "layout t d (bl @ [x])" "mk_base t" "sect t x = zeroes"
      "t = (took 1 s)\<lparr>sect := sect t\<rparr>" "\<And>a. a \<noteq> daddrs d ! NDIRECT \<Longrightarrow> sect t a = sect s a" "x \<in> mine t - mine s"
    using block_ind_extends [OF assms(1) l _ assms(4,5)] assms(3) by auto
  have "block_for d (length bl) s = Done (x, d) t"
    using assms(3) i(1) t(1) by (simp add: block_for_ind addr_slot_def)
  moreover have "extends s d bl x d 1 t"
    unfolding extends_def
  proof (intro conjI allI ballI impI)
    show "layout t d (bl @ [x])" "mk_base t" "sect t x = zeroes" "t = (took 1 s)\<lparr>sect := sect t\<rparr>" "d = d\<lparr>daddrs := daddrs d\<rparr>" using t by simp_all
    show "set (own d (bl @ [x])) \<subseteq> set (own d bl) \<union> (mine t - mine s)" using t(7) assms(3) by (auto simp: own_def)
    show "set (own d bl) \<subseteq> set (own d (bl @ [x]))" by (auto simp: own_def)
    show "sect t a = sect s a" if "a \<notin> set (own d (bl @ [x]))" for a using that t(6) [of a] assms(3) by (auto simp: own_def)
    show "sect t b = sect s b" if "b \<in> set bl" for b using that t(6) [of b] i(2) by auto
  qed
  ultimately show ?thesis by blast
qed

lemma block_for_new:
  assumes "mk_base s" "layout s d bl" "length bl < MAXFILE" "unat (freeblock s) + new_cost (length bl) \<le> mk_size"
  shows "\<exists>x d' t. block_for d (length bl) s = Done (x, d') t \<and> extends s d bl x d' (new_cost (length bl)) t"
  using block_for_direct [OF assms(1,2)] block_for_first_indirect [OF assms(1,2)] block_for_more_indirect [OF assms(1,2) _ assms(3)] assms(4)
  by (cases "length bl" NDIRECT rule: linorder_cases) (simp_all add: new_cost_def)

lemma block_for_old:
  assumes "mk_base s" "layout s d bl" "b < length bl"
  shows "block_for d b s = Done (bl ! b, d) s"
proof (cases "b < NDIRECT")
  case True
  have "bl ! b \<in> mine s" using assms(2,3) nth_mem [of b bl] by (auto simp: layout_def direct_def)
  then have "bl ! b \<noteq> 0" using mk_bounds by (auto simp: mine_def)
  then show ?thesis using True assms by (simp add: block_for_def addr_slot_def layout_def direct_def)
next
  case False
  then have n: "NDIRECT < length bl" "b - NDIRECT < NINDIRECT" using assms(2,3) by (auto simp: layout_def MAXFILE_def)
  have m: "bl ! b \<in> mine s" "daddrs d ! NDIRECT \<in> mine s" using assms(2,3) n(1) nth_mem [of b bl] by (auto simp: layout_def direct_def indirect_def)
  then have z: "bl ! b \<noteq> 0" "daddrs d ! NDIRECT \<noteq> 0" "unat (daddrs d ! NDIRECT) < nsect s" using mk_bounds assms(1) by (auto simp: mine_def mk_base_def)
  then show ?thesis using False n assms(2,3) by (simp add: block_for_ind addr_slot_def block_ind_def bind_def rsect_eq layout_def indirect_def)
qed

section \<open>Appending to a file\<close>

text \<open>The file with the blocks \<open>bl\<close> holds the bytes \<open>xs\<close>, followed by zeros up to the end of its last block.\<close>

definition holds :: "'z mkfs_scheme \<Rightarrow> dinode \<Rightarrow> u32 list \<Rightarrow> bytes \<Rightarrow> bool" where
  "holds s d bl xs \<longleftrightarrow> layout s d bl \<and> length xs \<le> 512 * length bl \<and>
     concat (map (sect s) bl) = xs @ replicate (512 * length bl - length xs) 0"

definition nblk :: "nat \<Rightarrow> nat" where
  "nblk m = (m + 511) div 512"

lemma nblk_eqs: "m mod 512 = 0 \<Longrightarrow> nblk m = m div 512" "0 < m mod 512 \<Longrightarrow> nblk m = m div 512 + 1"
  "0 < k \<Longrightarrow> m mod 512 + k \<le> 512 \<Longrightarrow> nblk (m + k) = m div 512 + 1"
proof -
  obtain q r where m: "m = 512 * q + r" "r < 512" "m div 512 = q" "m mod 512 = r"
    using div_mult_mod_eq [of m 512] mod_less_divisor [of 512 m] by (metis mult.commute zero_less_numeral)
  show "nblk m = m div 512" if "m mod 512 = 0" unfolding nblk_def m(3) by (rule div_nat_eqI) (use m that in simp_all)
  show "nblk m = m div 512 + 1" if "0 < m mod 512" unfolding nblk_def m(3) by (rule div_nat_eqI) (use m that in simp_all)
  show "nblk (m + k) = m div 512 + 1" if "0 < k" "m mod 512 + k \<le> 512" unfolding nblk_def m(3) by (rule div_nat_eqI) (use m that in simp_all)
qed

definition cost :: "nat \<Rightarrow> nat" where
  "cost m = nblk m + (if NDIRECT < nblk m then 1 else 0)"

text \<open>A file of the state \<open>s\<close> has grown by \<open>k\<close> sectors, and nothing but its own sectors has changed.\<close>

definition adds :: "'z mkfs_scheme \<Rightarrow> dinode \<Rightarrow> u32 list \<Rightarrow> nat \<Rightarrow> 'z mkfs_scheme \<Rightarrow> dinode \<Rightarrow> u32 list \<Rightarrow> bool" where
  "adds s d bl k t d' bl' \<longleftrightarrow> (\<forall>a. a \<notin> set (own d' bl') \<longrightarrow> sect t a = sect s a) \<and>
     set (own d' bl') \<subseteq> set (own d bl) \<union> (mine t - mine s) \<and> set (own d bl) \<subseteq> set (own d' bl') \<and> mine s \<subseteq> mine t \<and>
     d' = d\<lparr>daddrs := daddrs d'\<rparr> \<and> t = (took k s)\<lparr>sect := sect t\<rparr>"

lemma took_sect: "took k (s\<lparr>sect := f\<rparr>) = (took k s)\<lparr>sect := f\<rparr>" "took 0 s = s"
  by (simp_all add: took_def)

lemma adds_refl: "adds s d bl 0 s d bl"
  by (simp add: adds_def took_sect)

lemma adds_trans:
  assumes "adds s d bl k t d' bl'" "adds t d' bl' l u d'' bl''"
  shows "adds s d bl (k + l) u d'' bl''"
proof -
  have "u = (took l ((took k s)\<lparr>sect := sect t\<rparr>))\<lparr>sect := sect u\<rparr>" using assms unfolding adds_def by metis
  then have "u = (took (k + l) s)\<lparr>sect := sect u\<rparr>" by (simp add: took_sect took_took)
  moreover have "d'' = d\<lparr>daddrs := daddrs d''\<rparr>"
  proof -
    have "d'' = d\<lparr>daddrs := daddrs d'\<rparr>\<lparr>daddrs := daddrs d''\<rparr>" using assms unfolding adds_def by metis
    then show ?thesis by simp
  qed
  moreover have "sect u a = sect s a" if "a \<notin> set (own d'' bl'')" for a using assms that unfolding adds_def by (metis subsetD)
  moreover have "set (own d'' bl'') \<subseteq> set (own d bl) \<union> (mine u - mine s)" using assms unfolding adds_def by blast
  ultimately show ?thesis using assms unfolding adds_def by blast
qed

lemma extends_adds:
  assumes "extends s d bl x d' n t" "holds s d bl xs" "unat (freeblock s) + n \<le> mk_size"
  shows "adds s d bl n t d' (bl @ [x])" "holds t d' (bl @ [x]) xs"
proof -
  note e = assms(1) [unfolded extends_def]
  have "mine t = mine (took n s)" using e by (metis mine_sect(1))
  then show "adds s d bl n t d' (bl @ [x])" using e mine_took [OF assms(3)] by (auto simp: adds_def)
  have "map (sect t) bl = map (sect s) bl" using e by simp
  then have m: "concat (map (sect t) bl) = concat (map (sect s) bl)" by (rule arg_cong)
  have k: "512 * length (bl @ [x]) - length xs = 512 * length bl - length xs + 512" using assms(2) by (simp add: holds_def)
  have "concat (map (sect t) (bl @ [x])) = concat (map (sect s) bl) @ replicate 512 0" using e by (simp add: zeroes_def m)
  also have "\<dots> = xs @ replicate (512 * length (bl @ [x]) - length xs) 0"
    using assms(2) unfolding k replicate_add by (simp add: holds_def)
  finally have "concat (map (sect t) (bl @ [x])) = xs @ replicate (512 * length (bl @ [x]) - length xs) 0" .
  then show "holds t d' (bl @ [x]) xs" using e assms(2) by (simp add: holds_def)
qed

text \<open>Writing behind the last byte.\<close>

lemma write_last:
  assumes "mk_base s" "holds s d bl xs" "length bl = length xs div 512 + 1" "length xs mod 512 + length q \<le> 512" "x = bl ! (length xs div 512)"
    and t: "t = s\<lparr>sect := (sect s)(x := splice (length xs mod 512) q (sect s x))\<rparr>"
  shows "mk_base t" "holds t d bl (xs @ q)" "adds s d bl 0 t d bl"
proof -
  let ?r = "length xs mod 512" and ?l = "length xs div 512"
  have lay: "layout s d bl" "distinct bl" "set bl \<subseteq> mine s" using assms(2) by (auto simp: holds_def layout_def direct_def)
  obtain bl0 y where y: "bl = bl0 @ [y]" using assms(3) by (cases bl rule: rev_cases) auto
  have l: "length bl0 = ?l" using assms(3) y by simp
  then have bl: "bl = bl0 @ [x]" "length bl0 = ?l" using assms(5) y nth_append_length [of bl0 y "[]"] by simp_all
  have x: "x \<notin> set bl0" "x \<in> mine s" "NDIRECT < length bl \<Longrightarrow> daddrs d ! NDIRECT \<noteq> x"
    using lay bl by (auto simp: layout_def indirect_def)
  define A where "A = concat (map (sect s) bl0)"
  have len: "length (sect s a) = 512" for a using assms(1) by (simp add: mk_base_def)
  have A: "length A = 512 * ?l" using bl(2) by (simp add: A_def length_concat comp_def len sum_list_triv)
  have c: "A @ sect s x = xs @ replicate (512 * length bl - length xs) 0" using assms(2) by (simp add: holds_def bl A_def)
  have xs1: "length xs = 512 * ?l + ?r" by simp
  then have "512 * length bl - length xs = 512 + 512 * ?l - (512 * ?l + ?r)" using assms(3) by (simp only: add_mult_distrib2 mult_1_right add.commute)
  then have xs: "length xs = 512 * ?l + ?r" "512 * length bl - length xs = 512 - ?r" using xs1 by (simp_all only: diff_add_inverse2 add.commute add_diff_cancel_left)
  have a: "A = take (512 * ?l) xs" using arg_cong [OF c, of "take (512 * ?l)"] A xs(1) by simp
  have b: "sect s x = drop (512 * ?l) xs @ replicate (512 - ?r) 0" using arg_cong [OF c, of "drop (512 * ?l)"] A xs by simp
  define B where "B = drop (512 * ?l) xs"
  have B: "length B = ?r" "xs = A @ B" by (simp_all add: B_def a minus_mult_div_eq_mod)
  have new: "splice ?r q (sect s x) = B @ q @ replicate (512 - (?r + length q)) 0"
    unfolding b B_def [symmetric] splice_def using B(1) assms(4) by simp
  have "512 * length bl - length (xs @ q) = 512 - (?r + length q)" using xs by simp
  then have "concat (map (sect t) bl) = (xs @ q) @ replicate (512 * length bl - length (xs @ q)) 0"
    using x(1) by (simp add: t bl(1) map_fun_upd new A_def [symmetric] B(2) [symmetric])
  moreover have "layout t d bl" using lay x(3) by (auto simp: layout_def indirect_def t)
  ultimately show "holds t d bl (xs @ q)" using assms(2,4) xs by (simp add: holds_def)
  show "mk_base t" using assms(1,4) x(2) by (auto simp: mk_base_def mine_def t)
  show "adds s d bl 0 t d bl" using bl(1) by (auto simp: adds_def t took_sect own_def)
qed

text \<open>One round of \<open>iappend\<close>: the block for the next byte, there already or new, and the bytes that fit into it.\<close>

lemma next_block:
  assumes "mk_base s" "holds s d bl xs" "length bl = nblk (length xs)" "length xs < 512 * MAXFILE" "n = cost (length xs + 1) - cost (length xs)"
    and "unat (freeblock s) + n \<le> mk_size"
  shows "\<exists>x d' t bl'. block_for d (length xs div 512) s = Done (x, d') t \<and> mk_base t \<and> holds t d' bl' xs \<and> adds s d bl n t d' bl' \<and>
    length bl' = length xs div 512 + 1 \<and> x = bl' ! (length xs div 512)"
proof (cases "length xs mod 512 = 0")
  case True
  then have l: "length bl = length xs div 512" "length bl < MAXFILE" using assms(3,4) nblk_eqs(1) by (simp_all add: less_mult_imp_div_less mult.commute)
  have nb: "nblk (length xs + 1) = Suc (length bl)" "nblk (length xs) = length bl" using True l(1) nblk_eqs(3) [of 1 "length xs"] assms(3) by simp_all
  have n: "n = new_cost (length bl)" using nb by (auto simp: assms(5) cost_def new_cost_def)
  obtain x d' t where t: "block_for d (length bl) s = Done (x, d') t" "extends s d bl x d' n t"
    using block_for_new [of s d bl] assms(1,2,6) l(2) n by (auto simp: holds_def)
  have "mk_base t" "block_for d (length xs div 512) s = Done (x, d') t" using t l(1) by (simp_all add: extends_def)
  moreover have "length (bl @ [x]) = length xs div 512 + 1" "x = (bl @ [x]) ! (length xs div 512)"
    using l(1) nth_append_length [of bl x "[]"] by simp_all
  ultimately show ?thesis
    using extends_adds [OF t(2) assms(2,6)] by (intro exI [of _ x] exI [of _ d'] exI [of _ t] exI [of _ "bl @ [x]"] conjI)
next
  case False
  then have l: "length bl = length xs div 512 + 1" using assms(3) nblk_eqs(2) by simp
  have "length xs mod 512 + 1 \<le> 512" using mod_less_divisor [of 512 "length xs"] by simp
  then have "nblk (length xs + 1) = nblk (length xs)" using False nblk_eqs(3) [of 1 "length xs"] nblk_eqs(2) by simp
  then have n: "n = 0" by (simp add: assms(5) cost_def)
  have "block_for d (length xs div 512) s = Done (bl ! (length xs div 512), d) s" using assms(1,2) l by (intro block_for_old) (auto simp: holds_def)
  then show ?thesis using l assms(1,2) adds_refl n by blast
qed

lemma append_round:
  assumes "mk_base s" "holds s d bl xs" "length bl = nblk (length xs)" "length xs < 512 * MAXFILE" "n = cost (length xs + 1) - cost (length xs)"
    and "unat (freeblock s) + n \<le> mk_size" "p \<noteq> []" "n1 = min (length p) (512 - length xs mod 512)"
  shows "\<exists>d' t bl'. iappend_loop d (length xs) p s = iappend_loop d' (length xs + n1) (drop n1 p) t \<and> mk_base t \<and>
    holds t d' bl' (xs @ take n1 p) \<and> adds s d bl n t d' bl' \<and> length bl' = nblk (length xs + n1) \<and> cost (length xs + n1) = cost (length xs + 1)"
proof -
  obtain x d' s1 bl' where b: "block_for d (length xs div 512) s = Done (x, d') s1" "mk_base s1" "holds s1 d' bl' xs" "adds s d bl n s1 d' bl'"
      "length bl' = length xs div 512 + 1" "x = bl' ! (length xs div 512)"
    using next_block [OF assms(1-6)] by blast
  define t where "t = s1\<lparr>sect := (sect s1)(x := splice (length xs mod 512) (take n1 p) (sect s1 x))\<rparr>"
  have q: "length (take n1 p) = n1" "length xs mod 512 + length (take n1 p) \<le> 512" using assms(8) by auto
  note w = write_last [OF b(2,3,5) q(2) b(6) t_def]
  have "x \<in> mine s1" using b(3,5,6) nth_mem [of "length xs div 512" bl'] by (auto simp: holds_def layout_def direct_def)
  then have x: "unat x < nsect s1" "max (nsect s1) (Suc (unat x)) = nsect s1" using b(2) by (auto simp: mine_def mk_base_def)
  have "n1 = min (length p) ((length xs div 512 + 1) * 512 - length xs)" 
    using assms(8) div_mult_mod_eq [of "length xs" 512] by (simp only: add_mult_distrib) linarith
  moreover have "length xs div 512 < MAXFILE" using assms(4) by (simp add: less_mult_imp_div_less mult.commute)
  ultimately have e: "iappend_loop d (length xs) p s = iappend_loop d' (length xs + n1) (drop n1 p) t"
    using assms(7) b(1) x by (subst iappend_loop.simps) (simp add: Let_def bind_def seqk_def rsect_eq wsect_def t_def)
  have "0 < n1" using assms(7,8) by simp
  then have "nblk (length xs + n1) = length xs div 512 + 1" "nblk (length xs + 1) = length xs div 512 + 1"
    using q nblk_eqs(3) [of n1 "length xs"] nblk_eqs(3) [of 1 "length xs"] by simp_all
  then show ?thesis using e w adds_trans [OF b(4) w(3)] b(5) by (auto simp: cost_def intro!: exI [of _ d'] exI [of _ t] exI [of _ bl'])
qed

end
