(* ===== verification/Spec2Isabelle.thy ===== *)
theory Spec2Isabelle
  imports Trap Halting Shell Image
begin

text \<open>
  A verification library for zv6, the xv6 teaching kernel extended with checksummed inodes and
  ditto replicas (\<open>src/\<close>).
\<close>

end
